(* ===== verification/Prelude.thy ===== *)
theory Prelude
  imports Main "HOL-Library.Word" "HOL-Library.Monad_Syntax"
begin

text \<open>
  Shared vocabulary of the development: names for the machine integers of the C++ code, the
  fact collections the component proofs use, and generic lemmas on words, lists and options.

  Conventions used by every theory:
  \<^item> \<open>uint16_t\<close>, \<open>uint32_t\<close>, \<open>uint64_t\<close> are words of that width, so that wrap-around is the
    code's; a C \<open>int\<close> or \<open>int32_t\<close> is an HOL \<open>int\<close> with the conversion from the unsigned type
    written out where the code has one;
  \<^item> a C \<open>char\<close> is an HOL \<open>char\<close> (one byte), a byte string a \<open>string\<close>;
  \<^item> a pointer is a \<open>nat\<close> address, a pointer that may be NULL an \<open>option\<close>, the heap a partial map;
  \<^item> an operation that dereferences a pointer, or indexes an array, returns an \<open>option\<close>: \<open>None\<close> is
    undefined behaviour (NULL or freed memory, an index out of range). That an operation does not
    return \<open>None\<close> is its memory safety and is proved, never assumed. The operations are
    written in the do-notation of \<open>Monad_Syntax\<close> over \<open>option\<close>;
  \<^item> the release build is modelled: \<open>assert\<close> compiles to nothing (\<open>NDEBUG\<close>), so asserts are not
    steps of the model; the conditions they state are proved as lemmas where they hold.
\<close>

unbundle bit_operations_syntax

type_synonym u8 = "8 word"
type_synonym u16 = "16 word"
type_synonym u32 = "32 word"
type_synonym u64 = "64 word"

named_theorems frame \<open>which fields of a state an operation leaves alone\<close>
named_theorems safe \<open>that an operation does not run into undefined behaviour\<close>

section \<open>Words\<close>

text \<open>Multiplication by a word that has an inverse (an odd one) can be cancelled.\<close>

lemma word_mult_cancel:
  fixes a b c d :: "'a::len word"
  assumes "c * d = 1"
  shows "a * c = b * c \<longleftrightarrow> a = b"
proof
  assume "a * c = b * c"
  then have "a * c * d = b * c * d" by simp
  with assms show "a = b" by (simp add: mult.assoc)
qed simp

lemma xor_right_cancel:
  fixes a b c :: "'a::len word"
  shows "a XOR c = b XOR c \<longleftrightarrow> a = b"
  by (metis xor.assoc xor_self_eq xor.right_neutral)

lemma xor_left_cancel:
  fixes a b c :: "'a::len word"
  shows "c XOR a = c XOR b \<longleftrightarrow> a = b"
  by (metis xor.assoc xor_self_eq xor.left_neutral)

text \<open>
  The xorshift step \<open>h ^= h >> k\<close> loses nothing: the high bits of the result give back the next
  lower ones.
\<close>

lemma xorshift_inj:
  fixes a b :: "'a::len word"
  assumes k: "0 < k" and eq: "a XOR drop_bit k a = b XOR drop_bit k b"
  shows "a = b"
proof -
  have *: "bit a n = bit b n" if "n < LENGTH('a)" for n
    using that
  proof (induction "LENGTH('a) - n" arbitrary: n rule: less_induct)
    case less
    have e: "bit (a XOR drop_bit k a) n = bit (b XOR drop_bit k b) n"
      using eq by simp
    have "bit a (k + n) = bit b (k + n)"
    proof (cases "k + n < LENGTH('a)")
      case True
      then have "LENGTH('a) - (k + n) < LENGTH('a) - n" using k less.prems by simp
      with less.hyps True show ?thesis by blast
    next
      case False
      then show ?thesis by (meson bit_imp_le_length not_less)
    qed
    with e show ?case by (simp add: bit_simps) blast
  qed
  show ?thesis by (rule bit_word_eqI) (use * in blast)
qed

lemma xorshift_cancel:
  fixes a b :: "'a::len word"
  shows "0 < k \<Longrightarrow> a XOR drop_bit k a = b XOR drop_bit k b \<longleftrightarrow> a = b"
  by (blast dest: xorshift_inj)

section \<open>Options\<close>

lemma bind_Some_iff: "(m \<bind> f = Some y) \<longleftrightarrow> (\<exists>x. m = Some x \<and> f x = Some y)"
  by (cases m) auto

lemma bind_SomeE: "Option.bind x f = Some y \<Longrightarrow> (\<And>a. x = Some a \<Longrightarrow> f a = Some y \<Longrightarrow> R) \<Longrightarrow> R"
  by (cases x) auto

lemma not_None_conv: "(x \<noteq> None) \<longleftrightarrow> (\<exists>y. x = Some y)"
  by (cases x) auto

section \<open>Ends of lists that are linked through pointers\<close>

text \<open>
  The first and last element of a list of addresses, or a given pointer when the list is
  empty: what a link next to that stretch of a list points to.
\<close>

fun hd_or :: "'a option \<Rightarrow> 'a list \<Rightarrow> 'a option" where
  "hd_or n [] = n"
| "hd_or n (x # xs) = Some x"

fun last_or :: "'a option \<Rightarrow> 'a list \<Rightarrow> 'a option" where
  "last_or p [] = p"
| "last_or p (x # xs) = last_or (Some x) xs"

lemma hd_or_append [simp]: "hd_or n (xs @ ys) = hd_or (hd_or n ys) xs"
  by (cases xs) auto

lemma last_or_append [simp]: "last_or p (xs @ ys) = last_or (last_or p xs) ys"
  by (induction xs arbitrary: p) auto

lemma hd_or_in: "hd_or n xs = Some a \<Longrightarrow> xs \<noteq> [] \<Longrightarrow> a \<in> set xs"
  by (cases xs) auto

lemma last_or_in: "last_or p xs = Some a \<Longrightarrow> xs \<noteq> [] \<Longrightarrow> a \<in> set xs"
proof (induction xs arbitrary: p)
  case Nil
  then show ?case by simp
next
  case (Cons x xs)
  then show ?case by (cases xs) auto
qed

lemma hd_or_None: "hd_or None xs = None \<longleftrightarrow> xs = []"
  by (cases xs) auto

lemma last_or_None: "last_or None xs = None \<longleftrightarrow> xs = []"
proof -
  have some: "last_or (Some x) ys \<noteq> None" for x and ys :: "'a list"
    by (induction ys arbitrary: x) auto
  then show ?thesis by (cases xs) auto
qed

end
