(* ===== verification/Khash.thy ===== *)
theory Khash
  imports Prelude
begin

text \<open>
  The hash table of src/core/khash.h, as \<open>KHASH_MAP_INIT_INT\<close> instantiates it for the table map and
  the entry maps of db.cpp: open addressing on a power-of-two number of buckets with triangular
  probing, keys of 32 bits that are their own hash, deleted marks, and a rehash that moves the
  entries within the same arrays by kicking out those in the way.

  \<open>kh_lookup\<close> is the abstraction, a partial map. The lemmas show that probing reaches every
  bucket, that the loops of \<open>kh_get\<close>, \<open>kh_put\<close> and \<open>kh_resize\<close> end, and that the operations are those of
  a map; the locale \<open>hash_map\<close> states this as the interface db.cpp relies on.
\<close>

section \<open>State\<close>

text \<open>
  The two bits of a bucket in \<open>flags\<close>: 2 is empty, 1 deleted, 0 neither; no code sets both.
\<close>

datatype kflag = Empty | Deleted | Live

text \<open>
  The counters are \<open>khint_t\<close> in the code; they stay below \<open>2 ^ 32\<close> since the number of buckets does.
  A value that was never stored is \<open>None\<close>.
\<close>

record 'v kh =
  n_buckets :: nat
  kh_size :: nat
  n_occupied :: nat
  upper_bound :: nat
  flags :: "kflag list"
  keys :: "u32 list"
  vals :: "'v option list"

definition kh_init :: "'v kh" where
  "kh_init = \<lparr>n_buckets = 0, kh_size = 0, n_occupied = 0, upper_bound = 0, flags = [], keys = [], vals = []\<rparr>"

section \<open>Operations\<close>

definition kroundup32 :: "u32 \<Rightarrow> u32" where
  "kroundup32 x = (let
     x = x - 1;
     x = x OR drop_bit 1 x;
     x = x OR drop_bit 2 x;
     x = x OR drop_bit 4 x;
     x = x OR drop_bit 8 x;
     x = x OR drop_bit 16 x
   in x + 1)"

text \<open>
  \<open>(khint_t)(n * __ac_HASH_UPPER + 0.5)\<close> for a power of two \<open>n\<close>, to which the code only applies it:
  there the double arithmetic and this integer division agree.
\<close>

definition hash_upper :: "nat \<Rightarrow> nat" where
  "hash_upper n = (77 * n + 50) div 100"

text \<open>
  The probe loop of \<open>kh_get\<close>. The loops here carry fuel; \<open>None\<close> is running out of it, which the
  lemmas exclude.
\<close>

fun kh_get_loop :: "'v kh \<Rightarrow> u32 \<Rightarrow> nat \<Rightarrow> nat \<Rightarrow> nat \<Rightarrow> nat \<Rightarrow> nat option" where
  "kh_get_loop h key lst i step 0 = None"
| "kh_get_loop h key lst i step (Suc fuel) =
     (if flags h ! i \<noteq> Empty \<and> (flags h ! i = Deleted \<or> keys h ! i \<noteq> key) then
        (let step = step + 1; i = (i + step) AND (n_buckets h - 1) in
         if i = lst then Some (n_buckets h) else kh_get_loop h key lst i step fuel)
      else if flags h ! i \<noteq> Live then Some (n_buckets h) else Some i)"

definition kh_get :: "'v kh \<Rightarrow> u32 \<Rightarrow> nat option" where
  "kh_get h key =
     (if n_buckets h \<noteq> 0 then
        (let i = unat key AND (n_buckets h - 1) in kh_get_loop h key i i 0 (n_buckets h))
      else Some 0)"

fun kh_place :: "kflag list \<Rightarrow> nat \<Rightarrow> nat \<Rightarrow> nat \<Rightarrow> nat \<Rightarrow> nat option" where
  "kh_place nf msk i step 0 = None"
| "kh_place nf msk i step (Suc fuel) =
     (if nf ! i \<noteq> Empty then kh_place nf msk ((i + (step + 1)) AND msk) (step + 1) fuel else Some i)"

text \<open>The kick-out loop: an entry in hand, the old flags, the new flags and the shared arrays.\<close>

fun kh_kick ::
  "nat \<Rightarrow> nat \<Rightarrow> u32 \<Rightarrow> 'v option \<Rightarrow> nat \<Rightarrow> 'v kh \<Rightarrow> kflag list \<Rightarrow> ('v kh \<times> kflag list) option" where
  "kh_kick n old_n key val 0 h nf = None"
| "kh_kick n old_n key val (Suc fuel) h nf = do {
     i \<leftarrow> kh_place nf (n - 1) (unat key AND (n - 1)) 0 n;
     let nf = nf[i := Live];
     if i < old_n \<and> flags h ! i = Live then
       kh_kick n old_n (keys h ! i) (vals h ! i) fuel
         (h\<lparr>keys := (keys h)[i := key], vals := (vals h)[i := val], flags := (flags h)[i := Deleted]\<rparr>) nf
     else Some (h\<lparr>keys := (keys h)[i := key], vals := (vals h)[i := val]\<rparr>, nf)
   }"

fun kh_rehash :: "nat \<Rightarrow> nat \<Rightarrow> nat \<Rightarrow> 'v kh \<Rightarrow> kflag list \<Rightarrow> ('v kh \<times> kflag list) option" where
  "kh_rehash n old_n 0 h nf = Some (h, nf)"
| "kh_rehash n old_n (Suc r) h nf = (let j = old_n - Suc r in
     if flags h ! j = Live then do {
       (h, nf) \<leftarrow> kh_kick n old_n (keys h ! j) (vals h ! j) (Suc old_n)
         (h\<lparr>flags := (flags h)[j := Deleted]\<rparr>) nf;
       kh_rehash n old_n r h nf
     } else kh_rehash n old_n r h nf)"

text \<open>The new number of buckets, and \<open>kh_resize\<close>, with allocations that succeed.\<close>

definition round_size :: "nat \<Rightarrow> nat" where
  "round_size new = (let n = unat (kroundup32 (of_nat new)) in if n < 4 then 4 else n)"

definition kh_resize :: "'v kh \<Rightarrow> nat \<Rightarrow> 'v kh option" where
  "kh_resize h new = (let n = round_size new
   in if kh_size h \<ge> hash_upper n then Some h
      else do {
        let old_n = n_buckets h;
        let h = (if old_n < n
          then h\<lparr>keys := keys h @ replicate (n - old_n) 0, vals := vals h @ replicate (n - old_n) None\<rparr>
          else h);
        (h, nf) \<leftarrow> kh_rehash n old_n old_n h (replicate n Empty);
        let h = (if old_n > n then h\<lparr>keys := take n (keys h), vals := take n (vals h)\<rparr> else h);
        Some (h\<lparr>flags := nf, n_buckets := n, n_occupied := kh_size h, upper_bound := hash_upper n\<rparr>)
      })"

text \<open>The probe loop of \<open>kh_put\<close>: \<open>i\<close>, \<open>site\<close> and \<open>x\<close> as the code has them when it ends.\<close>

fun kh_put_loop ::
  "'v kh \<Rightarrow> u32 \<Rightarrow> nat \<Rightarrow> nat \<Rightarrow> nat \<Rightarrow> nat \<Rightarrow> nat \<Rightarrow> (nat \<times> nat \<times> nat) option" where
  "kh_put_loop h key lst site i step 0 = None"
| "kh_put_loop h key lst site i step (Suc fuel) =
     (if flags h ! i \<noteq> Empty \<and> (flags h ! i = Deleted \<or> keys h ! i \<noteq> key) then
        (let site = (if flags h ! i = Deleted then i else site);
             step = step + 1;
             i = (i + step) AND (n_buckets h - 1)
         in if i = lst then Some (i, site, site) else kh_put_loop h key lst site i step fuel)
      else Some (i, site, n_buckets h))"

definition kh_put_index :: "'v kh \<Rightarrow> u32 \<Rightarrow> nat option" where
  "kh_put_index h key = (let i = unat key AND (n_buckets h - 1) in
     if flags h ! i = Empty then Some i
     else do {
       (i, site, x) \<leftarrow> kh_put_loop h key i (n_buckets h) i 0 (n_buckets h);
       Some (if x = n_buckets h
         then (if flags h ! i = Empty \<and> site \<noteq> n_buckets h then site else i) else x)
     })"

text \<open>\<open>kh_put\<close>: the table, the bucket and \<open>*ret\<close>.\<close>

definition kh_put :: "'v kh \<Rightarrow> u32 \<Rightarrow> ('v kh \<times> nat \<times> int) option" where
  "kh_put h key = do {
     h \<leftarrow> (if n_occupied h \<ge> upper_bound h
       then (if n_buckets h > 2 * kh_size h then kh_resize h (n_buckets h - 1)
             else kh_resize h (n_buckets h + 1))
       else Some h);
     x \<leftarrow> kh_put_index h key;
     Some (case flags h ! x of
       Empty \<Rightarrow> (h\<lparr>keys := (keys h)[x := key], flags := (flags h)[x := Live],
           kh_size := kh_size h + 1, n_occupied := n_occupied h + 1\<rparr>, x, 1)
     | Deleted \<Rightarrow> (h\<lparr>keys := (keys h)[x := key], flags := (flags h)[x := Live],
           kh_size := kh_size h + 1\<rparr>, x, 2)
     | Live \<Rightarrow> (h, x, 0))
   }"

definition kh_del :: "'v kh \<Rightarrow> nat \<Rightarrow> 'v kh" where
  "kh_del h x =
     (if x \<noteq> n_buckets h \<and> flags h ! x = Live
      then h\<lparr>flags := (flags h)[x := Deleted], kh_size := kh_size h - 1\<rparr> else h)"

definition kh_exist :: "'v kh \<Rightarrow> nat \<Rightarrow> bool" where
  "kh_exist h x \<longleftrightarrow> flags h ! x = Live"

text \<open>\<open>kh_value(h, x)\<close> read, and assigned.\<close>

definition kh_value :: "'v kh \<Rightarrow> nat \<Rightarrow> 'v option" where
  "kh_value h x = (if x < n_buckets h then vals h ! x else None)"

definition kh_set_value :: "'v kh \<Rightarrow> nat \<Rightarrow> 'v \<Rightarrow> 'v kh option" where
  "kh_set_value h x v = (if x < n_buckets h then Some (h\<lparr>vals := (vals h)[x := Some v]\<rparr>) else None)"

section \<open>Probing\<close>

text \<open>The bucket after \<open>s\<close> steps.\<close>

definition probe :: "nat \<Rightarrow> u32 \<Rightarrow> nat \<Rightarrow> nat" where
  "probe n key s = (unat key + s * (s + 1) div 2) mod n"

lemma triangle_Suc: "Suc s * (Suc s + 1) div 2 = s * (s + 1) div 2 + (s + 1)"
proof -
  have "Suc s * (Suc s + 1) = s * (s + 1) + (s + 1) * 2" by simp
  then show ?thesis by simp
qed

lemma and_mask: "n = 2 ^ m \<Longrightarrow> x AND (n - 1) = x mod n" for x n :: nat
  by (metis mask_eq_exp_minus_1 take_bit_eq_mask take_bit_eq_mod)

lemma probe_0: "n = 2 ^ m \<Longrightarrow> unat key AND (n - 1) = probe n key 0"
  by (simp only: and_mask probe_def) simp

lemma probe_Suc: "n = 2 ^ m \<Longrightarrow> (probe n key s + (s + 1)) AND (n - 1) = probe n key (s + 1)"
  using triangle_Suc [of s] unfolding probe_def
  by (simp only: and_mask mod_add_left_eq add.assoc Suc_eq_plus1)

lemma probe_less: "0 < n \<Longrightarrow> probe n key s < n"
  by (simp add: probe_def)

lemma odd_part:
  fixes a b :: nat
  assumes "2 ^ m dvd a * b" and "odd b"
  shows "2 ^ m dvd a"
  using assms by (simp add: coprime_dvd_mult_left_iff)

text \<open>Triangular numbers hit every residue modulo a power of two: the probe sequence covers the table.\<close>

lemma probe_inj:
  assumes n: "n = 2 ^ m" and st: "t < s" "s < n"
  shows "probe n key s \<noteq> probe n key t"
proof
  assume "probe n key s = probe n key t"
  then have "(unat key + s * (s + 1) div 2) mod n = (unat key + t * (t + 1) div 2) mod n"
    by (simp add: probe_def)
  moreover have le: "t * (t + 1) div 2 \<le> s * (s + 1) div 2"
    using st by (intro div_le_mono mult_le_mono) auto
  ultimately have "n dvd (s * (s + 1) div 2 - t * (t + 1) div 2)"
    by (metis add_diff_cancel_left mod_eq_dvd_iff_nat nat_add_left_cancel_le)
  then have "2 * n dvd 2 * (s * (s + 1) div 2 - t * (t + 1) div 2)" by simp
  also have "2 * (s * (s + 1) div 2 - t * (t + 1) div 2) = s * (s + 1) - t * (t + 1)"
    by (simp add: diff_mult_distrib2)
  also have "\<dots> = (s - t) * (s + t + 1)"
  proof -
    obtain d where "s = t + d" using st by (metis le_add_diff_inverse less_imp_le)
    then show ?thesis by (simp add: algebra_simps)
  qed
  finally have dvd: "2 ^ Suc m dvd (s - t) * (s + t + 1)" by (simp add: n)
  show False
  proof (cases "even (s - t)")
    case True
    then have "odd (s + t + 1)" using st by presburger
    with dvd have "2 ^ Suc m dvd s - t" by (rule odd_part)
    moreover have "0 < s - t" "s - t < 2 ^ Suc m" using st n by auto
    ultimately show False by (meson nat_dvd_not_less)
  next
    case False
    with dvd have "2 ^ Suc m dvd s + t + 1" by (metis mult.commute odd_part)
    moreover have "0 < s + t + 1" "s + t + 1 < 2 ^ Suc m" using st n by auto
    ultimately show False by (meson nat_dvd_not_less)
  qed
qed

lemma probe_covers:
  assumes n: "n = 2 ^ m" and i: "i < n"
  shows "\<exists>s<n. probe n key s = i"
proof -
  have "inj_on (probe n key) {..<n}"
    using probe_inj [OF n] by (metis inj_onI lessThan_iff linorder_neqE_nat)
  then have "card (probe n key ` {..<n}) = card {..<n}" by (rule card_image)
  moreover have "probe n key ` {..<n} \<subseteq> {..<n}" using i probe_less [of n key] by auto
  ultimately have "probe n key ` {..<n} = {..<n}" by (simp add: card_subset_eq)
  then have "i \<in> probe n key ` {..<n}" using i by simp
  then show ?thesis by auto
qed

section \<open>Well-formed tables\<close>

definition kh_reach :: "nat \<Rightarrow> kflag list \<Rightarrow> u32 \<Rightarrow> nat \<Rightarrow> bool" where
  "kh_reach n fl key i \<longleftrightarrow> (\<exists>s<n. probe n key s = i \<and> (\<forall>t < s. fl ! probe n key t \<noteq> Empty))"

definition pow2_size :: "nat \<Rightarrow> bool" where
  "pow2_size n \<longleftrightarrow> (\<exists>m. 2 \<le> m \<and> m \<le> 31 \<and> n = 2 ^ m)"

definition kh_live :: "'v kh \<Rightarrow> nat set" where
  "kh_live h = {i. i < n_buckets h \<and> flags h ! i = Live}"

definition kh_used :: "'v kh \<Rightarrow> nat set" where
  "kh_used h = {i. i < n_buckets h \<and> flags h ! i \<noteq> Empty}"

text \<open>Lengths, keys and reachability, without the counters.\<close>

definition kh_shape :: "'v kh \<Rightarrow> bool" where
  "kh_shape h \<longleftrightarrow> pow2_size (n_buckets h)
     \<and> length (flags h) = n_buckets h \<and> length (keys h) = n_buckets h \<and> length (vals h) = n_buckets h
     \<and> (\<forall>i\<in>kh_live h. \<forall>j\<in>kh_live h. keys h ! i = keys h ! j \<longrightarrow> i = j)
     \<and> (\<forall>i\<in>kh_live h. kh_reach (n_buckets h) (flags h) (keys h ! i) i)"

definition kh_counts :: "'v kh \<Rightarrow> bool" where
  "kh_counts h \<longleftrightarrow> kh_size h = card (kh_live h) \<and> n_occupied h = card (kh_used h)
     \<and> upper_bound h = hash_upper (n_buckets h) \<and> n_occupied h \<le> upper_bound h"

definition kh_wf :: "'v kh \<Rightarrow> bool" where
  "kh_wf h \<longleftrightarrow> h = kh_init \<or> kh_shape h \<and> kh_counts h"

definition kh_find :: "'v kh \<Rightarrow> u32 \<Rightarrow> nat option" where
  "kh_find h key = find (\<lambda>i. flags h ! i = Live \<and> keys h ! i = key) [0..<n_buckets h]"

text \<open>The partial map a table stands for.\<close>

definition kh_lookup :: "'v kh \<Rightarrow> u32 \<Rightarrow> 'v option" where
  "kh_lookup h key = do { i \<leftarrow> kh_find h key; vals h ! i }"

lemma kh_init_wf [simp]: "kh_wf kh_init"
  by (simp add: kh_wf_def)

lemma kh_init_find [simp]: "kh_find kh_init key = None" "kh_lookup kh_init key = None"
  by (simp_all add: kh_find_def kh_lookup_def kh_init_def)

lemma pow2_sizeD: "pow2_size n \<Longrightarrow> \<exists>m. n = 2 ^ m" "pow2_size n \<Longrightarrow> 4 \<le> n"
proof -
  show "pow2_size n \<Longrightarrow> \<exists>m. n = 2 ^ m" by (auto simp: pow2_size_def)
  show "4 \<le> n" if "pow2_size n"
  proof -
    from that obtain m where "2 \<le> m" "n = 2 ^ m" by (auto simp: pow2_size_def)
    then have "2 ^ 2 \<le> n" by (simp only: power_increasing one_le_numeral)
    then show ?thesis by simp
  qed
qed

lemma hash_upper_less: "4 \<le> n \<Longrightarrow> hash_upper n < n"
  by (simp add: hash_upper_def)

lemma find_upt_Some:
  assumes "\<And>i j. i < n \<Longrightarrow> j < n \<Longrightarrow> P i \<Longrightarrow> P j \<Longrightarrow> i = j"
  shows "find P [0..<n] = Some i \<longleftrightarrow> i < n \<and> P i"
proof
  assume i: "i < n \<and> P i"
  have "\<not> P j" if "j < i" for j using assms [of j i] i that by auto
  with i show "find P [0..<n] = Some i" by (auto simp: find_Some_iff intro!: exI [of _ i])
qed (auto simp: find_Some_iff)

lemma kh_shape_pow2: "kh_shape h \<Longrightarrow> \<exists>m. n_buckets h = 2 ^ m"
  using pow2_sizeD(1) by (simp add: kh_shape_def)

lemma kh_find_Some:
  "kh_shape h \<Longrightarrow> kh_find h key = Some i \<longleftrightarrow> i \<in> kh_live h \<and> keys h ! i = key"
  unfolding kh_find_def
  by (subst find_upt_Some) (auto simp: kh_shape_def kh_live_def)

lemma kh_find_None: "kh_find h key = None \<longleftrightarrow> (\<forall>i\<in>kh_live h. keys h ! i \<noteq> key)"
  by (auto simp: kh_find_def find_None_iff kh_live_def)

lemma kh_lookup_eq:
  "kh_shape h \<Longrightarrow> i \<in> kh_live h \<Longrightarrow> kh_lookup h (keys h ! i) = vals h ! i"
  using kh_find_Some [of h "keys h ! i" i] by (simp add: kh_lookup_def)

lemma kh_has_empty:
  assumes "kh_shape h" and "kh_counts h"
  shows "\<exists>i<n_buckets h. flags h ! i = Empty"
proof (rule ccontr)
  assume "\<not> ?thesis"
  then have "kh_used h = {..<n_buckets h}" by (auto simp: kh_used_def)
  then have "n_occupied h = n_buckets h" using assms(2) by (simp add: kh_counts_def)
  moreover have "4 \<le> n_buckets h" using assms(1) pow2_sizeD(2) by (auto simp: kh_shape_def)
  ultimately show False
    using assms(2) hash_upper_less [of "n_buckets h"] unfolding kh_counts_def by linarith
qed

section \<open>The probe loops\<close>

definition stops :: "'v kh \<Rightarrow> u32 \<Rightarrow> nat \<Rightarrow> bool" where
  "stops h key i \<longleftrightarrow> flags h ! i = Empty \<or> flags h ! i = Live \<and> keys h ! i = key"

lemma not_stops: "\<not> stops h key i \<longleftrightarrow>
  flags h ! i \<noteq> Empty \<and> (flags h ! i = Deleted \<or> keys h ! i \<noteq> key)"
  by (cases "flags h ! i") (auto simp: stops_def)

text \<open>The step at which a probe for a key ends.\<close>

lemma stop_step:
  assumes "kh_shape h" and "\<exists>i<n_buckets h. flags h ! i = Empty"
  obtains s where "s < n_buckets h" "stops h key (probe (n_buckets h) key s)"
    "\<And>t. t < s \<Longrightarrow> \<not> stops h key (probe (n_buckets h) key t)"
proof -
  let ?P = "\<lambda>s. s < n_buckets h \<and> stops h key (probe (n_buckets h) key s)"
  obtain m where m: "n_buckets h = 2 ^ m" using kh_shape_pow2 [OF assms(1)] by blast
  from assms(2) obtain i where "i < n_buckets h" "flags h ! i = Empty" by blast
  with probe_covers [OF m, of i key] have "\<exists>s. ?P s" by (auto simp: stops_def)
  define s where "s = (LEAST s. ?P s)"
  have s: "?P s" unfolding s_def by (rule LeastI_ex) fact
  have "\<not> stops h key (probe (n_buckets h) key t)" if "t < s" for t
    using not_less_Least [of t ?P] that s by (auto simp: s_def)
  with s show thesis by (blast intro: that)
qed

lemma get_loop:
  assumes m: "n_buckets h = 2 ^ m" and s0: "s0 < n_buckets h" "stops h key (probe (n_buckets h) key s0)"
    and before: "\<And>t. t < s0 \<Longrightarrow> \<not> stops h key (probe (n_buckets h) key t)"
  shows "s \<le> s0 \<Longrightarrow> s0 - s < fuel \<Longrightarrow>
    kh_get_loop h key (probe (n_buckets h) key 0) (probe (n_buckets h) key s) s fuel
    = Some (if flags h ! probe (n_buckets h) key s0 = Live then probe (n_buckets h) key s0 else n_buckets h)"
proof (induction fuel arbitrary: s)
  case (Suc fuel)
  let ?i = "probe (n_buckets h) key"
  show ?case
  proof (cases "s = s0")
    case True
    then show ?thesis using s0(2) by (auto simp: stops_def)
  next
    case False
    then have "\<not> stops h key (?i s)" using before Suc.prems by simp
    moreover have "?i (s + 1) \<noteq> ?i 0" using probe_inj [OF m, of 0 "s + 1" key] False Suc.prems s0(1) by simp
    moreover have "(?i s + (s + 1)) AND (n_buckets h - 1) = ?i (s + 1)" by (rule probe_Suc [OF m])
    ultimately show ?thesis using Suc False by (simp add: not_stops Let_def)
  qed
qed simp

lemma put_loop:
  assumes m: "n_buckets h = 2 ^ m" and s0: "s0 < n_buckets h" "stops h key (probe (n_buckets h) key s0)"
    and before: "\<And>t. t < s0 \<Longrightarrow> \<not> stops h key (probe (n_buckets h) key t)"
  shows "s \<le> s0 \<Longrightarrow> s0 - s < fuel \<Longrightarrow>
    \<exists>site'. kh_put_loop h key (probe (n_buckets h) key 0) site (probe (n_buckets h) key s) s fuel
      = Some (probe (n_buckets h) key s0, site', n_buckets h)
      \<and> (site' = site \<or> (\<exists>t < s0. site' = probe (n_buckets h) key t \<and> flags h ! site' = Deleted))"
proof (induction fuel arbitrary: s site)
  case (Suc fuel)
  let ?i = "probe (n_buckets h) key"
  show ?case
  proof (cases "s = s0")
    case True
    then show ?thesis using s0(2) by (auto simp: stops_def)
  next
    case False
    let ?site = "if flags h ! ?i s = Deleted then ?i s else site"
    have "\<not> stops h key (?i s)" using before Suc.prems False by simp
    moreover have "?i (s + 1) \<noteq> ?i 0" using probe_inj [OF m, of 0 "s + 1" key] False Suc.prems s0(1) by simp
    moreover have "(?i s + (s + 1)) AND (n_buckets h - 1) = ?i (s + 1)" by (rule probe_Suc [OF m])
    ultimately have eq: "kh_put_loop h key (?i 0) site (?i s) s (Suc fuel)
        = kh_put_loop h key (?i 0) ?site (?i (s + 1)) (s + 1) fuel"
      by (simp add: not_stops Let_def)
    have "s < s0" using False Suc.prems by simp
    then have "s + 1 \<le> s0" "s0 - (s + 1) < fuel" using Suc.prems by simp_all
    from Suc.IH [OF this, of ?site] obtain site' where "kh_put_loop h key (?i 0) ?site (?i (s + 1)) (s + 1) fuel
        = Some (?i s0, site', n_buckets h)"
      "site' = ?site \<or> (\<exists>t < s0. site' = ?i t \<and> flags h ! site' = Deleted)"
      by blast
    with \<open>s < s0\<close> show ?thesis unfolding eq by (intro exI [of _ site']) (auto split: if_splits)
  qed
qed simp

text \<open>A key that is in the table stops its own probe.\<close>

lemma stop_present:
  assumes h: "kh_shape h" and i: "i \<in> kh_live h" "keys h ! i = key"
    and s: "s < n_buckets h" "stops h key (probe (n_buckets h) key s)"
      "\<And>t. t < s \<Longrightarrow> \<not> stops h key (probe (n_buckets h) key t)"
  shows "probe (n_buckets h) key s = i"
proof -
  from h i obtain u where u: "u < n_buckets h" "probe (n_buckets h) key u = i"
    "\<And>t. t < u \<Longrightarrow> flags h ! probe (n_buckets h) key t \<noteq> Empty"
    by (auto simp: kh_shape_def kh_reach_def)
  have "stops h key i" using i by (simp add: stops_def kh_live_def)
  with u(2) s(3) have "s \<le> u" by (meson not_less)
  show ?thesis
  proof (cases "s = u")
    case False
    then have "flags h ! probe (n_buckets h) key s \<noteq> Empty" using \<open>s \<le> u\<close> u(3) by simp
    then have "probe (n_buckets h) key s \<in> kh_live h" "keys h ! probe (n_buckets h) key s = key"
      using s(2) probe_less [of "n_buckets h" key s] s(1) by (auto simp: stops_def kh_live_def)
    then show ?thesis using h i by (metis kh_shape_def)
  qed (simp add: u(2))
qed

lemma kh_get_eq:
  assumes "kh_wf h"
  shows "kh_get h key = Some (case kh_find h key of None \<Rightarrow> n_buckets h | Some i \<Rightarrow> i)"
proof (cases "h = kh_init")
  case True
  then show ?thesis by (simp add: kh_get_def) (simp add: kh_init_def)
next
  case False
  with assms have h: "kh_shape h" "kh_counts h" by (auto simp: kh_wf_def)
  obtain m where m: "n_buckets h = 2 ^ m" using kh_shape_pow2 [OF h(1)] by blast
  obtain s where s: "s < n_buckets h" "stops h key (probe (n_buckets h) key s)"
    "\<And>t. t < s \<Longrightarrow> \<not> stops h key (probe (n_buckets h) key t)"
    by (rule stop_step [where key = key, OF h(1) kh_has_empty [OF h]]) blast
  let ?i = "probe (n_buckets h) key s"
  have get: "kh_get h key = Some (if flags h ! ?i = Live then ?i else n_buckets h)"
    using get_loop [OF m s, of 0 "n_buckets h"] s(1) by (simp add: kh_get_def probe_0 [OF m, simplified] Let_def)
  show ?thesis
  proof (cases "kh_find h key")
    case None
    then have "flags h ! ?i \<noteq> Live"
      using s probe_less [of "n_buckets h" key s] by (auto simp: kh_find_None stops_def kh_live_def)
    with None get show ?thesis by simp
  next
    case (Some j)
    then have j: "j \<in> kh_live h" "keys h ! j = key" using kh_find_Some [OF h(1)] by auto
    from stop_present [OF h(1) j s] have "?i = j" .
    with j get Some show ?thesis by (simp add: kh_live_def)
  qed
qed

lemma kh_put_index_ok:
  assumes h: "kh_shape h" and e: "\<exists>i<n_buckets h. flags h ! i = Empty"
  shows "\<exists>x. kh_put_index h key = Some x \<and> x < n_buckets h
    \<and> kh_reach (n_buckets h) (flags h) key x
    \<and> (if flags h ! x = Live then kh_find h key = Some x else kh_find h key = None)"
proof -
  obtain m where m: "n_buckets h = 2 ^ m" using kh_shape_pow2 [OF h] by blast
  obtain s where s: "s < n_buckets h" "stops h key (probe (n_buckets h) key s)"
    "\<And>t. t < s \<Longrightarrow> \<not> stops h key (probe (n_buckets h) key t)"
    by (rule stop_step [where key = key, OF h e]) blast
  let ?p = "probe (n_buckets h) key"
  have n: "0 < n_buckets h" using s(1) by simp
  have reach: "kh_reach (n_buckets h) (flags h) key (?p t)" if "t \<le> s" for t
  proof -
    have "flags h ! ?p u \<noteq> Empty" if "u < t" for u
      using s(3) [of u] \<open>t \<le> s\<close> that by (simp add: stops_def)
    then show ?thesis unfolding kh_reach_def using that s(1) by (intro exI [of _ t]) auto
  qed
  have find: "if flags h ! ?p s = Live then kh_find h key = Some (?p s) else kh_find h key = None"
  proof (cases "kh_find h key")
    case None
    then show ?thesis using s(2) probe_less [OF n, of key s]
      by (auto simp: kh_find_None stops_def kh_live_def)
  next
    case (Some j)
    then have j: "j \<in> kh_live h" "keys h ! j = key" using kh_find_Some [OF h] by auto
    from stop_present [OF h j s] j Some show ?thesis by (simp add: kh_live_def)
  qed
  show ?thesis
  proof (cases "flags h ! ?p 0 = Empty")
    case True
    then have "s = 0" using s(3) by (cases s) (auto simp: stops_def)
    with True find reach [of 0] probe_less [OF n, of key 0] show ?thesis
      by (simp add: kh_put_index_def probe_0 [OF m, simplified] Let_def)
  next
    case False
    obtain site where site: "kh_put_loop h key (?p 0) (n_buckets h) (?p 0) 0 (n_buckets h)
        = Some (?p s, site, n_buckets h)"
      "site = n_buckets h \<or> (\<exists>t < s. site = ?p t \<and> flags h ! site = Deleted)"
      using put_loop [OF m s, of 0 "n_buckets h" "n_buckets h"] s(1) by auto
    define x where "x = (if flags h ! ?p s = Empty \<and> site \<noteq> n_buckets h then site else ?p s)"
    have "kh_put_index h key = Some x"
      using False site(1) by (simp add: kh_put_index_def probe_0 [OF m, simplified] Let_def x_def)
    moreover have "x < n_buckets h" using site(2) probe_less [OF n] by (auto simp: x_def)
    moreover have "kh_reach (n_buckets h) (flags h) key x"
      using site(2) reach by (auto simp: x_def)
    moreover have "if flags h ! x = Live then kh_find h key = Some x else kh_find h key = None"
      using site(2) find by (auto simp: x_def split: if_splits)
    ultimately show ?thesis by blast
  qed
qed

section \<open>Rehashing\<close>

text \<open>
  During a rehash the arrays hold entries of the old and of the new table; \<open>slots\<close> are the indices
  of both, \<open>entries_at\<close> the entries there.
\<close>

definition slots :: "nat \<Rightarrow> nat \<Rightarrow> kflag list \<Rightarrow> kflag list \<Rightarrow> nat set" where
  "slots old_n n fl nf = {i. i < old_n \<and> fl ! i = Live} \<union> {i. i < n \<and> nf ! i = Live}"

definition entries_at :: "nat set \<Rightarrow> u32 list \<Rightarrow> 'v option list \<Rightarrow> (u32 \<times> 'v option) set" where
  "entries_at I ks vs = (\<lambda>i. (ks ! i, vs ! i)) ` I"

definition kh_entries :: "'v kh \<Rightarrow> (u32 \<times> 'v option) set" where
  "kh_entries h = entries_at (kh_live h) (keys h) (vals h)"

definition rehash_inv :: "nat \<Rightarrow> nat \<Rightarrow> 'v kh \<Rightarrow> kflag list \<Rightarrow> bool" where
  "rehash_inv old_n n h nf \<longleftrightarrow>
     length nf = n \<and> length (flags h) = old_n \<and> old_n \<le> length (keys h) \<and> n \<le> length (keys h)
     \<and> length (vals h) = length (keys h)
     \<and> inj_on (\<lambda>i. keys h ! i) (slots old_n n (flags h) nf)
     \<and> (\<forall>i<n. nf ! i \<noteq> Deleted)
     \<and> (\<forall>i<n. i < old_n \<longrightarrow> nf ! i = Live \<longrightarrow> flags h ! i \<noteq> Live)
     \<and> (\<forall>i<n. nf ! i = Live \<longrightarrow> kh_reach n nf (keys h ! i) i)"

lemma finite_slots [simp]: "finite (slots old_n n fl nf)"
  by (simp add: slots_def)

lemma kh_place_first:
  assumes m: "n = 2 ^ m" and s0: "s0 < n" "nf ! probe n key s0 = Empty"
    and before: "\<And>t. t < s0 \<Longrightarrow> nf ! probe n key t \<noteq> Empty"
  shows "s \<le> s0 \<Longrightarrow> s0 - s < fuel \<Longrightarrow> kh_place nf (n - 1) (probe n key s) s fuel = Some (probe n key s0)"
proof (induction fuel arbitrary: s)
  case (Suc fuel)
  show ?case
  proof (cases "s = s0")
    case False
    then have "nf ! probe n key s \<noteq> Empty" using before Suc.prems by simp
    then show ?thesis using Suc False probe_Suc [OF m, of key s] by simp
  qed (simp add: s0)
qed simp

lemma kh_place_ok:
  assumes m: "n = 2 ^ m" and e: "\<exists>i<n. nf ! i = Empty"
  obtains i where "kh_place nf (n - 1) (unat key AND (n - 1)) 0 n = Some i" "i < n" "nf ! i = Empty"
    "kh_reach n nf key i"
proof -
  let ?P = "\<lambda>s. s < n \<and> nf ! probe n key s = Empty"
  from e obtain i where "i < n" "nf ! i = Empty" by blast
  with probe_covers [OF m, of i key] have ex: "\<exists>s. ?P s" by auto
  define s where "s = (LEAST s. ?P s)"
  have s: "?P s" unfolding s_def by (rule LeastI_ex) fact
  have before: "nf ! probe n key t \<noteq> Empty" if "t < s" for t
    using not_less_Least [of t ?P] that s by (auto simp: s_def)
  have "kh_place nf (n - 1) (probe n key 0) 0 n = Some (probe n key s)"
    by (rule kh_place_first [OF m _ _ before]) (use s in auto)
  moreover have "kh_reach n nf key (probe n key s)"
    unfolding kh_reach_def using s before by blast
  moreover have "probe n key s < n" using s by (simp add: probe_less)
  ultimately show thesis using s by (intro that [of "probe n key s"]) (simp_all only: probe_0 [OF m])
qed

lemma kh_reach_mono:
  assumes "kh_reach n nf k i" and "\<And>j. nf ! j \<noteq> Empty \<Longrightarrow> nf' ! j \<noteq> Empty"
  shows "kh_reach n nf' k i"
  using assms unfolding kh_reach_def by blast

lemma update_not_Empty: "nf ! j \<noteq> Empty \<Longrightarrow> f \<noteq> Empty \<Longrightarrow> nf[i := f] ! j \<noteq> Empty"
  by (cases "i < length nf") (auto simp: nth_list_update list_update_beyond)

lemma entries_at_update:
  assumes "i < length ks" "i < length vs" "inj_on (\<lambda>i. ks ! i) I" "i \<in> I"
  shows "entries_at I (ks[i := k]) (vs[i := v]) = insert (k, v) (entries_at I ks vs - {(ks ! i, vs ! i)})"
proof -
  have I: "I = insert i (I - {i})" using assms(4) by blast
  have "entries_at I (ks[i := k]) (vs[i := v]) = insert (k, v) (entries_at (I - {i}) ks vs)"
    using assms by (subst I) (auto simp: entries_at_def nth_list_update intro!: image_cong)
  moreover have "entries_at (I - {i}) ks vs = entries_at I ks vs - {(ks ! i, vs ! i)}"
    using assms(3,4) by (auto simp: entries_at_def inj_on_def)
  ultimately show ?thesis by simp
qed

lemma entries_at_insert:
  assumes "i < length ks" "i < length vs" "i \<notin> I"
  shows "entries_at (insert i I) (ks[i := k]) (vs[i := v]) = insert (k, v) (entries_at I ks vs)"
  using assms by (auto simp: entries_at_def nth_list_update intro!: image_cong)

lemma inj_on_update:
  assumes "inj_on (\<lambda>i. ks ! i) I" "k \<notin> (\<lambda>j. ks ! j) ` (I - {i})" "i < length ks"
  shows "inj_on (\<lambda>j. ks[i := k] ! j) (insert i I)"
  using assms by (auto simp: inj_on_def nth_list_update image_iff)

text \<open>One step of the kick-out loop: the entry in hand is put down, in a free place or for another.\<close>

lemma kick_step:
  fixes h :: "'v kh"
  assumes m: "n = 2 ^ m" and inv: "rehash_inv old_n n h nf"
    and key: "key \<notin> (\<lambda>j. keys h ! j) ` slots old_n n (flags h) nf"
    and i: "i < n" "nf ! i = Empty" "kh_reach n nf key i"
    and h': "h' = h\<lparr>keys := (keys h)[i := key], vals := (vals h)[i := val], flags := fl'\<rparr>"
    and fl': "fl' = (if i < old_n \<and> flags h ! i = Live then (flags h)[i := Deleted] else flags h)"
    and nf': "nf' = nf[i := Live]"
  shows "rehash_inv old_n n h' nf'"
    and "slots old_n n (flags h') nf' = insert i (slots old_n n (flags h) nf)"
    and "i \<in> slots old_n n (flags h) nf \<longleftrightarrow> i < old_n \<and> flags h ! i = Live"
proof -
  note inv' = inv [unfolded rehash_inv_def]
  show sl: "slots old_n n (flags h') nf' = insert i (slots old_n n (flags h) nf)"
    using inv' i by (auto simp: slots_def h' fl' nf' nth_list_update)
  show mem: "i \<in> slots old_n n (flags h) nf \<longleftrightarrow> i < old_n \<and> flags h ! i = Live"
    using i by (simp add: slots_def)
  have "inj_on (\<lambda>j. keys h' ! j) (slots old_n n (flags h') nf')"
  proof -
    have "inj_on (\<lambda>j. (keys h)[i := key] ! j) (insert i (slots old_n n (flags h) nf))"
      by (rule inj_on_update) (use inv' key i in auto)
    then show ?thesis by (simp only: sl) (simp add: h')
  qed
  moreover have "kh_reach n nf' (keys h' ! j) j" if j: "j < n" "nf' ! j = Live" for j
  proof (cases "j = i")
    case True
    have "kh_reach n nf' key i"
      unfolding nf' by (rule kh_reach_mono [OF i(3)]) (simp add: update_not_Empty)
    then show ?thesis using True inv' i by (simp add: h')
  next
    case False
    then have "nf ! j = Live" using j by (simp add: nf')
    then have "kh_reach n nf (keys h ! j) j" using inv' j by blast
    then have "kh_reach n nf' (keys h ! j) j"
      unfolding nf' by (rule kh_reach_mono) (simp add: update_not_Empty)
    then show ?thesis using False by (simp add: h')
  qed
  ultimately show "rehash_inv old_n n h' nf'"
    using inv' i by (auto simp: rehash_inv_def h' fl' nf' nth_list_update)
qed


lemma kh_kick_ok:
  fixes h :: "'v kh"
  assumes m: "n = 2 ^ m"
  shows "rehash_inv old_n n h nf \<Longrightarrow> key \<notin> (\<lambda>j. keys h ! j) ` slots old_n n (flags h) nf \<Longrightarrow>
    card (slots old_n n (flags h) nf) < n \<Longrightarrow> card {i. i < old_n \<and> flags h ! i = Live} < fuel \<Longrightarrow>
    \<exists>h' nf'. kh_kick n old_n key val fuel h nf = Some (h', nf') \<and> rehash_inv old_n n h' nf'
      \<and> entries_at (slots old_n n (flags h') nf') (keys h') (vals h')
        = insert (key, val) (entries_at (slots old_n n (flags h) nf) (keys h) (vals h))
      \<and> card (slots old_n n (flags h') nf') = Suc (card (slots old_n n (flags h) nf))
      \<and> (\<forall>j. flags h' ! j = Live \<longrightarrow> flags h ! j = Live)
      \<and> length (keys h') = length (keys h) \<and> kh_size h' = kh_size h \<and> n_buckets h' = n_buckets h"
proof (induction fuel arbitrary: key val h nf)
  case (Suc fuel)
  note inv = Suc.prems(1) and key = Suc.prems(2)
  note inv' = inv [unfolded rehash_inv_def]
  let ?S = "slots old_n n (flags h) nf"
  have "{i. i < n \<and> nf ! i = Live} \<subseteq> ?S" by (auto simp: slots_def)
  then have "card {i. i < n \<and> nf ! i = Live} < n"
    using Suc.prems(3) by (meson card_mono finite_slots le_less_trans)
  then have "{i. i < n \<and> nf ! i = Live} \<noteq> {..<n}" by (metis card_lessThan less_irrefl)
  then have "\<exists>i<n. nf ! i = Empty"
    using inv' by (auto) (metis kflag.exhaust)
  from kh_place_ok [OF m this, of key] obtain i where
    pl: "kh_place nf (n - 1) (unat key AND (n - 1)) 0 n = Some i" and i: "i < n" "nf ! i = Empty" "kh_reach n nf key i"
    by blast
  define kicked where "kicked \<longleftrightarrow> i < old_n \<and> flags h ! i = Live"
  define fl' where "fl' = (if kicked then (flags h)[i := Deleted] else flags h)"
  define h1 where "h1 = h\<lparr>keys := (keys h)[i := key], vals := (vals h)[i := val], flags := fl'\<rparr>"
  define nf1 where "nf1 = nf[i := Live]"
  note step = kick_step [OF m inv key i h1_def fl'_def [unfolded kicked_def] nf1_def]
  have S1: "slots old_n n (flags h1) nf1 = insert i ?S" by (rule step(2))
  have iS: "i \<in> ?S \<longleftrightarrow> kicked" unfolding kicked_def by (rule step(3))
  have run: "kh_kick n old_n key val (Suc fuel) h nf =
     (if kicked then kh_kick n old_n (keys h ! i) (vals h ! i) fuel h1 nf1 else Some (h1, nf1))"
    using pl by (auto simp: kicked_def h1_def fl'_def nf1_def Let_def)
  have live: "\<forall>j. flags h1 ! j = Live \<longrightarrow> flags h ! j = Live"
    unfolding h1_def fl'_def by (auto simp: nth_list_update) (metis kflag.distinct(5) list_update_beyond nth_list_update_eq nth_list_update_neq not_le)
  have len: "i < length (keys h)" "i < length (vals h)" using inv' i by auto
  show ?case
  proof (cases kicked)
    case False
    then have "i \<notin> ?S" using iS by simp
    with step(1) live S1 show ?thesis unfolding run
      using False entries_at_insert [OF len \<open>i \<notin> ?S\<close>, of key val]
      by (intro exI [of _ h1] exI [of _ nf1]) (simp add: h1_def)
  next
    case True
    then have iin: "i \<in> ?S" using iS by simp
    then have S1': "slots old_n n (flags h1) nf1 = ?S" using S1 by auto
    let ?E = "entries_at ?S (keys h) (vals h)"
    have E1: "entries_at ?S (keys h1) (vals h1) = insert (key, val) (?E - {(keys h ! i, vals h ! i)})"
      using entries_at_update [OF len _ iin, of key val] inv' by (simp add: h1_def)
    have k1: "keys h ! i \<notin> (\<lambda>j. keys h1 ! j) ` ?S"
    proof
      assume "keys h ! i \<in> (\<lambda>j. keys h1 ! j) ` ?S"
      then obtain j where j: "j \<in> ?S" "keys h1 ! j = keys h ! i" by auto
      show False
      proof (cases "j = i")
        case True
        with j len have "key = keys h ! i" by (simp add: h1_def)
        with key iin show False by simp
      next
        case False
        with j have "keys h ! j = keys h ! i" by (simp add: h1_def)
        with inv' j(1) iin False show False by (auto dest: inj_onD)
      qed
    qed
    have "{j. j < old_n \<and> flags h1 ! j = Live} \<subseteq> {j. j < old_n \<and> flags h ! j = Live} - {i}"
    proof -
      have "i < length (flags h)" using True inv' by (simp add: kicked_def)
      then have "flags h1 ! i \<noteq> Live" using True by (simp add: h1_def fl'_def)
      with live show ?thesis by blast
    qed
    moreover have "i \<in> {j. j < old_n \<and> flags h ! j = Live}" using True by (simp add: kicked_def)
    ultimately have "card {j. j < old_n \<and> flags h1 ! j = Live} < card {j. j < old_n \<and> flags h ! j = Live}"
      by (intro psubset_card_mono) auto
    then have "card {j. j < old_n \<and> flags h1 ! j = Live} < fuel" using Suc.prems(4) by simp
    from Suc.IH [OF step(1) _ _ this, unfolded S1', OF k1 Suc.prems(3), of "vals h ! i"]
    obtain h' nf' where r: "kh_kick n old_n (keys h ! i) (vals h ! i) fuel h1 nf1 = Some (h', nf')"
      "rehash_inv old_n n h' nf'"
      "entries_at (slots old_n n (flags h') nf') (keys h') (vals h')
        = insert (keys h ! i, vals h ! i) (entries_at ?S (keys h1) (vals h1))"
      "card (slots old_n n (flags h') nf') = Suc (card ?S)"
      "\<forall>j. flags h' ! j = Live \<longrightarrow> flags h1 ! j = Live"
      "length (keys h') = length (keys h1)" "kh_size h' = kh_size h1" "n_buckets h' = n_buckets h1"
      by blast
    have "(keys h ! i, vals h ! i) \<in> ?E" using iin by (simp add: entries_at_def)
    with r(3) E1 have "entries_at (slots old_n n (flags h') nf') (keys h') (vals h') = insert (key, val) ?E"
      by auto
    with r live True show ?thesis unfolding run by (simp add: h1_def)
  qed
qed simp

lemma kh_rehash_ok:
  fixes h :: "'v kh"
  assumes m: "n = 2 ^ m"
  shows "rehash_inv old_n n h nf \<Longrightarrow> r \<le> old_n \<Longrightarrow> \<forall>j < old_n - r. flags h ! j \<noteq> Live \<Longrightarrow>
    card (slots old_n n (flags h) nf) < n \<Longrightarrow>
    \<exists>h' nf'. kh_rehash n old_n r h nf = Some (h', nf') \<and> rehash_inv old_n n h' nf'
      \<and> entries_at (slots old_n n (flags h') nf') (keys h') (vals h')
        = entries_at (slots old_n n (flags h) nf) (keys h) (vals h)
      \<and> card (slots old_n n (flags h') nf') = card (slots old_n n (flags h) nf)
      \<and> (\<forall>j<old_n. flags h' ! j \<noteq> Live)
      \<and> length (keys h') = length (keys h) \<and> kh_size h' = kh_size h \<and> n_buckets h' = n_buckets h"
proof (induction r arbitrary: h nf)
  case (Suc r)
  note inv' = Suc.prems(1) [unfolded rehash_inv_def]
  define j where "j = old_n - Suc r"
  have j: "j < old_n" "old_n - r = Suc j" using Suc.prems(2) by (simp_all add: j_def)
  let ?S = "slots old_n n (flags h) nf"
  show ?case
  proof (cases "flags h ! j = Live")
    case False
    then have "\<forall>i < old_n - r. flags h ! i \<noteq> Live"
      using Suc.prems(3) j by (metis j_def less_antisym)
    with Suc.IH [of h nf] Suc.prems False show ?thesis by (simp add: j_def Let_def)
  next
    case True
    define h1 where "h1 = h\<lparr>flags := (flags h)[j := Deleted]\<rparr>"
    have jS: "j \<in> ?S" using True j by (simp add: slots_def)
    have S1: "slots old_n n (flags h1) nf = ?S - {j}"
      using inv' True j by (auto simp: slots_def h1_def nth_list_update)
    have inv1: "rehash_inv old_n n h1 nf"
      using inv' S1 j by (auto simp: rehash_inv_def h1_def nth_list_update intro: inj_on_subset)
    have k1: "keys h ! j \<notin> (\<lambda>i. keys h1 ! i) ` slots old_n n (flags h1) nf"
      unfolding S1 using inv' jS by (auto simp: h1_def dest: inj_onD)
    have c1: "Suc (card (slots old_n n (flags h1) nf)) = card ?S"
      unfolding S1 using jS by (simp add: card.remove [symmetric] del: card_Diff_insert)
    then have c2: "card (slots old_n n (flags h1) nf) < n" using Suc.prems(4) by simp
    have "{i. i < old_n \<and> flags h1 ! i = Live} \<subseteq> {..<old_n}" by auto
    then have "card {i. i < old_n \<and> flags h1 ! i = Live} \<le> old_n"
      by (metis card_lessThan card_mono finite_lessThan)
    then have fuel: "card {i. i < old_n \<and> flags h1 ! i = Live} < Suc old_n" by simp
    from kh_kick_ok [OF m inv1 k1 c2 fuel, of "vals h ! j"] obtain h2 nf2 where
      r: "kh_kick n old_n (keys h ! j) (vals h ! j) (Suc old_n) h1 nf = Some (h2, nf2)"
      "rehash_inv old_n n h2 nf2"
      "entries_at (slots old_n n (flags h2) nf2) (keys h2) (vals h2)
        = insert (keys h ! j, vals h ! j) (entries_at (?S - {j}) (keys h1) (vals h1))"
      "card (slots old_n n (flags h2) nf2) = card ?S"
      "\<forall>i. flags h2 ! i = Live \<longrightarrow> flags h1 ! i = Live"
      "length (keys h2) = length (keys h1)" "kh_size h2 = kh_size h1" "n_buckets h2 = n_buckets h1"
      unfolding S1 [symmetric] c1 [symmetric] by blast
    have E: "entries_at (slots old_n n (flags h2) nf2) (keys h2) (vals h2) = entries_at ?S (keys h) (vals h)"
      using r(3) jS by (auto simp: entries_at_def h1_def)
    have "flags h1 ! j \<noteq> Live" using j inv' by (simp add: h1_def)
    then have "\<forall>i < old_n - r. flags h1 ! i \<noteq> Live"
      using Suc.prems(3) j by (auto simp: h1_def j_def [symmetric] nth_list_update less_Suc_eq)
    then have "\<forall>i < old_n - r. flags h2 ! i \<noteq> Live" using r(5) by blast
    from Suc.IH [OF r(2) _ this, unfolded r(4) E] Suc.prems(2,4) obtain h' nf' where
      "kh_rehash n old_n r h2 nf2 = Some (h', nf')" "rehash_inv old_n n h' nf'"
      "entries_at (slots old_n n (flags h') nf') (keys h') (vals h') = entries_at ?S (keys h) (vals h)"
      "card (slots old_n n (flags h') nf') = card ?S"
      "\<forall>j<old_n. flags h' ! j \<noteq> Live"
      "length (keys h') = length (keys h2)" "kh_size h' = kh_size h2" "n_buckets h' = n_buckets h2"
      by auto
    moreover have "kh_rehash n old_n (Suc r) h nf = kh_rehash n old_n r h2 nf2"
      using True r(1) by (simp add: j_def [symmetric] h1_def [symmetric] Let_def del: kh_kick.simps)
    ultimately show ?thesis using r(6-8) by (simp add: h1_def)
  qed
qed simp

text \<open>The table and its arrays are consistent; what \<open>kh_resize\<close> needs of its input.\<close>

definition kh_pre :: "'v kh \<Rightarrow> bool" where
  "kh_pre h \<longleftrightarrow> length (flags h) = n_buckets h \<and> length (keys h) = n_buckets h
     \<and> length (vals h) = n_buckets h \<and> inj_on (\<lambda>i. keys h ! i) (kh_live h) \<and> kh_size h = card (kh_live h)"

lemma kh_wf_pre: "kh_wf h \<Longrightarrow> kh_pre h"
  by (auto simp: kh_wf_def kh_pre_def kh_shape_def kh_counts_def inj_on_def kh_init_def kh_live_def)

lemma entries_at_cong:
  "(\<And>i. i \<in> I \<Longrightarrow> ks ! i = ks' ! i \<and> vs ! i = vs' ! i) \<Longrightarrow> entries_at I ks vs = entries_at I ks' vs'"
  unfolding entries_at_def by (rule image_cong) auto

lemma kh_resize_ok:
  fixes h :: "'v kh"
  assumes pre: "kh_pre h" and n: "n = round_size new" "pow2_size n" and small: "kh_size h < hash_upper n"
  shows "\<exists>h'. kh_resize h new = Some h' \<and> kh_shape h' \<and> kh_counts h' \<and> n_buckets h' = n
    \<and> n_occupied h' = kh_size h \<and> kh_size h' = kh_size h \<and> kh_entries h' = kh_entries h"
proof -
  obtain m where m: "n = 2 ^ m" using pow2_sizeD(1) [OF n(2)] by blast
  let ?o = "n_buckets h"
  define h0 where "h0 = (if ?o < n
    then h\<lparr>keys := keys h @ replicate (n - ?o) 0, vals := vals h @ replicate (n - ?o) None\<rparr> else h)"
  let ?nf = "replicate n Empty"
  have pre': "length (flags h) = ?o" "length (keys h) = ?o" "length (vals h) = ?o"
    "inj_on (\<lambda>i. keys h ! i) (kh_live h)" "kh_size h = card (kh_live h)"
    using pre by (auto simp: kh_pre_def)
  have h0: "flags h0 = flags h" "length (keys h0) = max n ?o" "length (vals h0) = max n ?o"
    "kh_size h0 = kh_size h" "n_buckets h0 = ?o"
    using pre' by (auto simp: h0_def)
  have at0: "keys h0 ! i = keys h ! i \<and> vals h0 ! i = vals h ! i" if "i \<in> kh_live h" for i
    using that pre' by (auto simp: h0_def kh_live_def nth_append)
  have S0: "slots ?o n (flags h0) ?nf = kh_live h"
    by (auto simp: slots_def h0 kh_live_def)
  have "inj_on (\<lambda>i. keys h0 ! i) (kh_live h)"
    using pre'(4) at0 by (simp add: inj_on_def)
  then have inv0: "rehash_inv ?o n h0 ?nf"
    using pre' by (simp add: rehash_inv_def S0) (simp add: h0)
  have "card (slots ?o n (flags h0) ?nf) < n"
    using small hash_upper_less [of n] pow2_sizeD(2) [OF n(2)] pre'(5) by (simp add: S0)
  from kh_rehash_ok [OF m inv0 _ _ this, of ?o] obtain h1 nf where
    r: "kh_rehash n ?o ?o h0 ?nf = Some (h1, nf)" "rehash_inv ?o n h1 nf"
      "entries_at (slots ?o n (flags h1) nf) (keys h1) (vals h1) = entries_at (kh_live h) (keys h0) (vals h0)"
      "card (slots ?o n (flags h1) nf) = card (kh_live h)" "\<forall>j<?o. flags h1 ! j \<noteq> Live"
      "length (keys h1) = max n ?o" "kh_size h1 = kh_size h" "n_buckets h1 = ?o"
    by (auto simp: S0 [unfolded h0(1)] h0)
  note inv1 = r(2) [unfolded rehash_inv_def]
  define h2 where "h2 = (if ?o > n then h1\<lparr>keys := take n (keys h1), vals := take n (vals h1)\<rparr> else h1)"
  define h' where "h' = h2\<lparr>flags := nf, n_buckets := n, n_occupied := kh_size h2, upper_bound := hash_upper n\<rparr>"
  have run: "kh_resize h new = Some h'"
    using small r(1) by (simp add: kh_resize_def n(1) [symmetric] Let_def h0_def [symmetric] h2_def h'_def)
  have S1: "slots ?o n (flags h1) nf = {i. i < n \<and> nf ! i = Live}" using r(5) by (auto simp: slots_def)
  have live: "kh_live h' = {i. i < n \<and> nf ! i = Live}" by (auto simp: kh_live_def h'_def)
  have at: "keys h' ! i = keys h1 ! i \<and> vals h' ! i = vals h1 ! i" if "i < n" for i
    using that by (simp add: h'_def h2_def)
  have used: "kh_used h' = kh_live h'"
    using inv1 unfolding live by (auto simp: kh_used_def h'_def) (metis kflag.exhaust)
  have size: "kh_size h' = kh_size h" "n_occupied h' = kh_size h" "upper_bound h' = hash_upper n"
    "n_buckets h' = n" "flags h' = nf"
    using r(7) by (simp_all add: h'_def h2_def)
  have lens: "length (keys h') = n" "length (vals h') = n" "length nf = n"
    using r(6) inv1 by (auto simp: h'_def h2_def)
  have inj: "inj_on (\<lambda>i. keys h' ! i) (kh_live h')"
    using inv1 at by (simp add: S1 live inj_on_def)
  have reach: "kh_reach n nf (keys h' ! i) i" if "i \<in> kh_live h'" for i
    using inv1 at that by (auto simp: live)
  have "kh_shape h'"
    unfolding kh_shape_def using n(2) lens inj reach by (auto simp: size inj_on_def)
  moreover have "kh_counts h'"
    unfolding kh_counts_def using small r(4) pre'(5) by (simp add: used size) (simp add: live S1 [symmetric])
  moreover have "kh_entries h' = kh_entries h"
  proof -
    have "kh_entries h' = entries_at (slots ?o n (flags h1) nf) (keys h1) (vals h1)"
      unfolding kh_entries_def live S1 by (rule entries_at_cong) (simp add: at)
    also have "\<dots> = kh_entries h"
      unfolding r(3) kh_entries_def by (rule entries_at_cong) (simp add: at0)
    finally show ?thesis .
  qed
  ultimately show ?thesis using run size by blast
qed


section \<open>The operations on the map\<close>

lemma kroundup32_pow2:
  assumes "2 \<le> m" "m \<le> 30"
  shows "round_size (2 ^ m - 1) = 2 ^ m" "round_size (2 ^ m + 1) = 2 ^ Suc m"
proof -
  from assms have "m \<in> set [2..<31]" unfolding set_upt by simp
  then have "round_size (2 ^ m - 1) = 2 ^ m \<and> round_size (2 ^ m + 1) = 2 ^ Suc m"
    by (simp add: upt_rec del: set_upt) (elim disjE; simp add: round_size_def kroundup32_def Let_def)
  then show "round_size (2 ^ m - 1) = 2 ^ m" "round_size (2 ^ m + 1) = 2 ^ Suc m" by simp_all
qed

lemma round_size_1: "round_size 1 = 4"
  by (simp add: round_size_def kroundup32_def)

text \<open>The keys of a table, and how the map is read off the entries.\<close>

definition kh_keys :: "'v kh \<Rightarrow> u32 set" where
  "kh_keys h = (\<lambda>i. keys h ! i) ` kh_live h"

lemma kh_keys_entries: "kh_keys h = fst ` kh_entries h"
  by (auto simp: kh_keys_def kh_entries_def entries_at_def image_iff)

lemma kh_find_keys: "kh_find h key = None \<longleftrightarrow> key \<notin> kh_keys h"
  by (auto simp: kh_find_None kh_keys_def)

lemma kh_lookup_entries:
  "kh_shape h \<Longrightarrow> kh_lookup h key = Some v \<longleftrightarrow> (key, Some v) \<in> kh_entries h"
  by (auto simp: kh_lookup_def bind_Some_iff kh_find_Some kh_entries_def entries_at_def image_iff)

lemma kh_lookup_cong:
  assumes "kh_shape h" "kh_shape h'" "kh_entries h = kh_entries h'"
  shows "kh_lookup h = kh_lookup h'"
proof
  fix key
  have "kh_lookup h key = Some v \<longleftrightarrow> kh_lookup h' key = Some v" for v
    using assms by (simp add: kh_lookup_entries)
  then show "kh_lookup h key = kh_lookup h' key" by (metis not_None_eq)
qed

lemma kh_live_less: "i \<in> kh_live h \<Longrightarrow> i < n_buckets h"
  by (simp add: kh_live_def)

lemma finite_live [simp]: "finite (kh_live h)" "finite (kh_used h)"
  by (simp_all add: kh_live_def kh_used_def)

text \<open>Filling a bucket on the probe path of a new key.\<close>

lemma fill_bucket:
  fixes h :: "'v kh"
  assumes h: "kh_shape h" "kh_counts h" and room: "n_occupied h < upper_bound h"
    and x: "x < n_buckets h" "flags h ! x \<noteq> Live" "kh_reach (n_buckets h) (flags h) key x"
    and key: "key \<notin> kh_keys h"
    and h': "h' = h\<lparr>keys := (keys h)[x := key], flags := (flags h)[x := Live], kh_size := kh_size h + 1,
      n_occupied := n_occupied h + (if flags h ! x = Empty then 1 else 0)\<rparr>"
  shows "kh_shape h'" "kh_counts h'" "kh_live h' = insert x (kh_live h)"
    "kh_entries h' = insert (key, vals h ! x) (kh_entries h)"
proof -
  have len: "length (flags h) = n_buckets h" "length (keys h) = n_buckets h" "length (vals h) = n_buckets h"
    using h(1) by (auto simp: kh_shape_def)
  show live: "kh_live h' = insert x (kh_live h)"
    using x(1) len by (auto simp: kh_live_def h' nth_list_update)
  have nx: "x \<notin> kh_live h" using x(2) by (simp add: kh_live_def)
  have used: "kh_used h' = insert x (kh_used h)"
    using x(1) len by (auto simp: kh_used_def h' nth_list_update)
  have "inj_on (\<lambda>i. keys h ! i) (kh_live h)" using h(1) by (auto simp: kh_shape_def inj_on_def)
  then have "inj_on (\<lambda>i. (keys h)[x := key] ! i) (insert x (kh_live h))"
    by (rule inj_on_update) (use key nx x(1) len in \<open>auto simp: kh_keys_def\<close>)
  then have inj: "inj_on (\<lambda>i. keys h' ! i) (kh_live h')" unfolding live by (simp add: h')
  have reach: "kh_reach (n_buckets h') (flags h') (keys h' ! i) i" if "i \<in> kh_live h'" for i
  proof -
    have "kh_reach (n_buckets h) (flags h) (keys h' ! i) i"
      using that x(3) h(1) x(1) len unfolding live
      by (cases "i = x") (auto simp: h' kh_shape_def)
    then have "kh_reach (n_buckets h) ((flags h)[x := Live]) (keys h' ! i) i"
      by (rule kh_reach_mono) (simp add: update_not_Empty)
    then show ?thesis by (simp add: h')
  qed
  show "kh_shape h'"
    unfolding kh_shape_def using inj reach h(1) by (auto simp: inj_on_def) (simp_all add: h' kh_shape_def)
  have "x \<in> kh_used h \<longleftrightarrow> flags h ! x \<noteq> Empty" using x(1) by (simp add: kh_used_def)
  then show "kh_counts h'"
    using h(2) room nx unfolding kh_counts_def live used by (auto simp: h' card_insert_if)
  show "kh_entries h' = insert (key, vals h ! x) (kh_entries h)"
    unfolding kh_entries_def live
    using x(1) len nx by (simp add: h') (auto simp: entries_at_def nth_list_update intro!: image_cong)
qed

lemma set_value_ok:
  assumes h: "kh_shape h" "kh_counts h" and x: "x \<in> kh_live h"
  shows "\<exists>h'. kh_set_value h x v = Some h' \<and> kh_shape h' \<and> kh_counts h' \<and> kh_size h' = kh_size h
    \<and> n_buckets h' = n_buckets h \<and> kh_keys h' = kh_keys h
    \<and> kh_lookup h' = (kh_lookup h)(keys h ! x \<mapsto> v)"
proof -
  define h' where "h' = h\<lparr>vals := (vals h)[x := Some v]\<rparr>"
  have eqs: "kh_live h' = kh_live h" "kh_used h' = kh_used h" "keys h' = keys h" "flags h' = flags h"
    "n_buckets h' = n_buckets h"
    by (simp_all add: h'_def kh_live_def kh_used_def)
  have sh: "kh_shape h'" using h(1) by (simp add: kh_shape_def eqs) (simp add: h'_def)
  have ct: "kh_counts h'" using h(2) by (simp add: kh_counts_def eqs) (simp add: h'_def)
  have len: "length (vals h) = n_buckets h" using h(1) by (simp add: kh_shape_def)
  have "kh_lookup h' key = ((kh_lookup h)(keys h ! x \<mapsto> v)) key" for key
  proof (cases "kh_find h key")
    case None
    then have "kh_find h' key = None" by (simp add: kh_find_None eqs)
    moreover have "key \<noteq> keys h ! x" using None x by (auto simp: kh_find_None)
    ultimately show ?thesis using None by (simp add: kh_lookup_def)
  next
    case (Some i)
    then have i: "i \<in> kh_live h" "keys h ! i = key" using kh_find_Some [OF h(1)] by auto
    then have "kh_lookup h' key = vals h' ! i" "kh_lookup h key = vals h ! i"
      using kh_lookup_eq [OF sh, of i] kh_lookup_eq [OF h(1), of i] by (auto simp: eqs)
    moreover have "keys h ! x = key \<longleftrightarrow> x = i" using i x h(1) by (auto simp: kh_shape_def)
    ultimately show ?thesis
      using kh_live_less [OF x] len by (auto simp: h'_def nth_list_update)
  qed
  then have "kh_lookup h' = (kh_lookup h)(keys h ! x \<mapsto> v)" by blast
  moreover have "kh_set_value h x v = Some h'"
    using kh_live_less [OF x] by (simp add: kh_set_value_def h'_def)
  moreover have "kh_keys h' = kh_keys h" by (simp add: kh_keys_def eqs)
  ultimately show ?thesis using sh ct by (auto simp: h'_def)
qed

lemma del_ok:
  assumes h: "kh_shape h" "kh_counts h" and x: "x \<in> kh_live h"
  shows "kh_shape (kh_del h x) \<and> kh_counts (kh_del h x) \<and> kh_size h = Suc (kh_size (kh_del h x))
    \<and> n_buckets (kh_del h x) = n_buckets h \<and> kh_keys (kh_del h x) = kh_keys h - {keys h ! x}
    \<and> kh_lookup (kh_del h x) = (kh_lookup h)(keys h ! x := None)
    \<and> kh_live (kh_del h x) = kh_live h - {x} \<and> keys (kh_del h x) = keys h \<and> vals (kh_del h x) = vals h"
proof -
  define h' where "h' = kh_del h x"
  have xl: "x < n_buckets h" "flags h ! x = Live" using x by (auto simp: kh_live_def)
  have h': "h' = h\<lparr>flags := (flags h)[x := Deleted], kh_size := kh_size h - 1\<rparr>"
    using xl by (simp add: h'_def kh_del_def)
  have len: "length (flags h) = n_buckets h" using h(1) by (simp add: kh_shape_def)
  have live: "kh_live h' = kh_live h - {x}"
    using xl len by (auto simp: kh_live_def h' nth_list_update)
  have used: "kh_used h' = kh_used h"
    using xl len by (auto simp: kh_used_def h' nth_list_update)
  have sh: "kh_shape h'"
  proof -
    have "kh_reach (n_buckets h) ((flags h)[x := Deleted]) (keys h ! i) i" if "i \<in> kh_live h" for i
      by (rule kh_reach_mono [of _ "flags h"]) (use that h(1) in \<open>auto simp: kh_shape_def update_not_Empty\<close>)
    then show ?thesis using h(1) unfolding kh_shape_def live by (simp add: h')
  qed
  have card: "card (kh_live h) = Suc (card (kh_live h - {x}))"
    using card.remove [OF finite_live(1) x] .
  have ct: "kh_counts h'" "kh_size h = Suc (kh_size h')"
    using h(2) card by (simp_all add: kh_counts_def live used) (simp_all add: h')
  have inj: "i \<in> kh_live h \<Longrightarrow> keys h ! i = keys h ! x \<Longrightarrow> i = x" for i
    using h(1) x by (auto simp: kh_shape_def)
  have keys': "keys h' = keys h" "vals h' = vals h" by (simp_all add: h')
  have ks: "kh_keys h' = kh_keys h - {keys h ! x}"
    unfolding kh_keys_def live keys' using inj by auto
  have "kh_lookup h' key = ((kh_lookup h)(keys h ! x := None)) key" for key
  proof (cases "kh_find h' key")
    case None
    then have "key \<noteq> keys h ! x \<Longrightarrow> kh_find h key = None"
      using ks by (simp add: kh_find_keys)
    with None show ?thesis by (simp add: kh_lookup_def)
  next
    case (Some i)
    then have i: "i \<in> kh_live h" "i \<noteq> x" "keys h ! i = key" using kh_find_Some [OF sh] live keys' by auto
    then have "kh_find h key = Some i" by (simp add: kh_find_Some [OF h(1)])
    with Some i inj show ?thesis by (auto simp: kh_lookup_def keys')
  qed
  then have "kh_lookup h' = (kh_lookup h)(keys h ! x := None)" by blast
  moreover have "n_buckets h' = n_buckets h" by (simp add: h')
  ultimately show ?thesis unfolding h'_def [symmetric] using sh ct ks live keys' by blast
qed

text \<open>The resizing step of \<open>kh_put\<close>: afterwards a bucket may be filled.\<close>

lemma grow_ok:
  fixes h :: "'v kh"
  assumes wf: "kh_wf h" and cap: "n_buckets h \<le> 2 ^ 30"
  shows "\<exists>h1. (if n_occupied h \<ge> upper_bound h
       then (if n_buckets h > 2 * kh_size h then kh_resize h (n_buckets h - 1)
             else kh_resize h (n_buckets h + 1))
       else Some h) = Some h1 \<and> kh_shape h1 \<and> kh_counts h1 \<and> n_occupied h1 < upper_bound h1
     \<and> kh_entries h1 = kh_entries h \<and> kh_size h1 = kh_size h \<and> n_buckets h1 \<le> max (n_buckets h) (max 4 (4 * kh_size h))"
proof (cases "h = kh_init")
  case True
  have "pow2_size 4" by (auto simp: pow2_size_def intro!: exI [of _ 2])
  moreover have "kh_size h < hash_upper 4" by (simp add: True kh_init_def hash_upper_def)
  ultimately obtain h1 where "kh_resize h 1 = Some h1" "kh_shape h1" "kh_counts h1" "n_buckets h1 = 4"
    "n_occupied h1 = kh_size h" "kh_size h1 = kh_size h" "kh_entries h1 = kh_entries h"
    using kh_resize_ok [OF kh_wf_pre [OF wf] round_size_1 [symmetric]] by blast
  then show ?thesis using True
    by (intro exI [of _ h1]) (auto simp: kh_init_def kh_counts_def hash_upper_def)
next
  case False
  with wf have h: "kh_shape h" "kh_counts h" by (auto simp: kh_wf_def)
  obtain m where m: "2 \<le> m" "n_buckets h = 2 ^ m" using h(1) by (auto simp: kh_shape_def pow2_size_def)
  with cap have m30: "m \<le> 30" by (metis numeral_One one_less_numeral_iff power_le_imp_le_exp semiring_norm(76))
  have n4: "4 \<le> n_buckets h" using h(1) pow2_sizeD(2) by (simp add: kh_shape_def)
  have size: "kh_size h \<le> n_occupied h" "n_occupied h \<le> hash_upper (n_buckets h)"
  proof -
    have "kh_live h \<subseteq> kh_used h" by (auto simp: kh_live_def kh_used_def)
    then show "kh_size h \<le> n_occupied h" using h(2) by (simp add: kh_counts_def card_mono)
    show "n_occupied h \<le> hash_upper (n_buckets h)" using h(2) by (simp add: kh_counts_def)
  qed
  show ?thesis
  proof (cases "n_occupied h \<ge> upper_bound h")
    case full: True
    show ?thesis
    proof (cases "n_buckets h > 2 * kh_size h")
      case True
      have "kh_size h < hash_upper (2 ^ m)" using True n4 m by (simp add: hash_upper_def)
      moreover have "pow2_size (2 ^ m)" using m m30 by (auto simp: pow2_size_def)
      ultimately obtain h1 where "kh_resize h (n_buckets h - 1) = Some h1" "kh_shape h1" "kh_counts h1"
        "n_buckets h1 = 2 ^ m" "n_occupied h1 = kh_size h" "kh_size h1 = kh_size h" "kh_entries h1 = kh_entries h"
        using kh_resize_ok [OF kh_wf_pre [OF wf] kroundup32_pow2(1) [OF m(1) m30, symmetric]] m(2) by auto
      with full True m \<open>kh_size h < hash_upper (2 ^ m)\<close> show ?thesis
        by (intro exI [of _ h1]) (auto simp: kh_counts_def)
    next
      case False
      have "kh_size h < hash_upper (2 ^ Suc m)" using size n4 m by (simp add: hash_upper_def)
      moreover have "pow2_size (2 ^ Suc m)"
        unfolding pow2_size_def using m m30 by (intro exI [of _ "Suc m"]) simp
      ultimately obtain h1 where "kh_resize h (n_buckets h + 1) = Some h1" "kh_shape h1" "kh_counts h1"
        "n_buckets h1 = 2 ^ Suc m" "n_occupied h1 = kh_size h" "kh_size h1 = kh_size h" "kh_entries h1 = kh_entries h"
        using kh_resize_ok [OF kh_wf_pre [OF wf] kroundup32_pow2(2) [OF m(1) m30, symmetric]] m(2) by auto
      with full False m \<open>kh_size h < hash_upper (2 ^ Suc m)\<close> show ?thesis
        by (intro exI [of _ h1]) (auto simp: kh_counts_def)
    qed
  next
    case False
    with h show ?thesis by auto
  qed
qed

lemma kh_lookup_wf_cong:
  assumes "kh_wf h" "kh_shape h1" "kh_entries h1 = kh_entries h"
  shows "kh_lookup h1 = kh_lookup h" "kh_keys h1 = kh_keys h"
proof -
  show "kh_keys h1 = kh_keys h" by (simp add: kh_keys_entries assms(3))
  show "kh_lookup h1 = kh_lookup h"
  proof (cases "h = kh_init")
    case True
    then have "kh_entries h = {}" by (simp add: kh_entries_def entries_at_def kh_live_def kh_init_def)
    then have "kh_lookup h1 key = None" for key
      using kh_lookup_entries [OF assms(2), of key] assms(3) by (metis empty_iff not_None_eq)
    then show ?thesis using True by auto
  next
    case False
    then show ?thesis using assms by (auto simp: kh_wf_def intro: kh_lookup_cong)
  qed
qed

text \<open>\<open>kh_put\<close>: the key is there afterwards, and nothing else has changed.\<close>

lemma kh_put_ok:
  fixes h :: "'v kh"
  assumes wf: "kh_wf h" and cap: "n_buckets h \<le> 2 ^ 30"
  shows "\<exists>h' x r. kh_put h key = Some (h', x, r) \<and> kh_shape h' \<and> kh_counts h'
    \<and> x \<in> kh_live h' \<and> keys h' ! x = key \<and> kh_keys h' = insert key (kh_keys h)
    \<and> (\<forall>k. k \<noteq> key \<longrightarrow> kh_lookup h' k = kh_lookup h k)
    \<and> (r = 0 \<longleftrightarrow> key \<in> kh_keys h) \<and> (r = 0 \<longrightarrow> kh_lookup h' = kh_lookup h)
    \<and> kh_size h' = kh_size h + (if key \<in> kh_keys h then 0 else 1)
    \<and> n_buckets h' \<le> max (n_buckets h) (max 4 (4 * kh_size h))"
proof -
  from grow_ok [OF wf cap] obtain h1 where g: "(if n_occupied h \<ge> upper_bound h
       then (if n_buckets h > 2 * kh_size h then kh_resize h (n_buckets h - 1)
             else kh_resize h (n_buckets h + 1))
       else Some h) = Some h1" and h1: "kh_shape h1" "kh_counts h1" "n_occupied h1 < upper_bound h1"
     "kh_entries h1 = kh_entries h" "kh_size h1 = kh_size h" "n_buckets h1 \<le> max (n_buckets h) (max 4 (4 * kh_size h))"
    by blast
  note look = kh_lookup_wf_cong [OF wf h1(1,4)]
  from kh_put_index_ok [OF h1(1) kh_has_empty [OF h1(1,2)], of key] obtain x where
    x: "kh_put_index h1 key = Some x" "x < n_buckets h1" "kh_reach (n_buckets h1) (flags h1) key x"
      "if flags h1 ! x = Live then kh_find h1 key = Some x else kh_find h1 key = None" by blast
  show ?thesis
  proof (cases "flags h1 ! x = Live")
    case True
    with x have "x \<in> kh_live h1" "keys h1 ! x = key" using kh_find_Some [OF h1(1)] by auto
    moreover from this have "key \<in> kh_keys h1" by (auto simp: kh_keys_def)
    moreover have "kh_put h key = Some (h1, x, 0)" using g x(1) True by (simp add: kh_put_def)
    ultimately show ?thesis using h1 look by auto
  next
    case False
    then have key: "key \<notin> kh_keys h1" using x(4) by (simp add: kh_find_keys)
    define h' where "h' = h1\<lparr>keys := (keys h1)[x := key], flags := (flags h1)[x := Live],
      kh_size := kh_size h1 + 1, n_occupied := n_occupied h1 + (if flags h1 ! x = Empty then 1 else 0)\<rparr>"
    note f = fill_bucket [OF h1(1,2,3) x(2) False x(3) key h'_def]
    have "kh_put h key = Some (h', x, if flags h1 ! x = Empty then 1 else 2)"
      using g x(1) False by (cases "flags h1 ! x") (simp_all add: kh_put_def h'_def)
    moreover have kx: "keys h' ! x = key" using x(2) h1(1) by (simp add: h'_def kh_shape_def)
    moreover have "x \<in> kh_live h'" using f(3) by simp
    moreover have "kh_keys h' = insert key (kh_keys h)"
      using look by (simp add: kh_keys_entries f(4))
    moreover have "kh_lookup h' k = kh_lookup h k" if "k \<noteq> key" for k
    proof -
      have "kh_lookup h' k = Some v \<longleftrightarrow> kh_lookup h1 k = Some v" for v
        using that by (simp add: kh_lookup_entries [OF f(1)] kh_lookup_entries [OF h1(1)] f(4))
      then show ?thesis using look by (metis not_None_eq)
    qed
    ultimately show ?thesis using f h1 look key
      by (intro exI [of _ h'] exI [of _ x] exI [of _ "if flags h1 ! x = Empty then 1 else 2"])
        (auto simp: h'_def)
  qed
qed


section \<open>The interface: a map\<close>

text \<open>
  The operations as db.cpp composes them: look a key up, store a value under it, remove it.
\<close>

definition kh_fetch :: "'v kh \<Rightarrow> u32 \<Rightarrow> 'v option option" where
  "kh_fetch h key = do {
     x \<leftarrow> kh_get h key;
     if x = n_buckets h then Some None else map_option Some (kh_value h x)
   }"

definition kh_store :: "'v kh \<Rightarrow> u32 \<Rightarrow> 'v \<Rightarrow> 'v kh option" where
  "kh_store h key v = do { (h, x, _) \<leftarrow> kh_put h key; kh_set_value h x v }"

definition kh_erase :: "'v kh \<Rightarrow> u32 \<Rightarrow> 'v kh option" where
  "kh_erase h key = do { x \<leftarrow> kh_get h key; Some (if x \<noteq> n_buckets h then kh_del h x else h) }"

datatype 'v map_op = Store u32 'v | Erase u32

fun map_run :: "('m \<Rightarrow> u32 \<Rightarrow> 'v \<Rightarrow> 'm option) \<Rightarrow> ('m \<Rightarrow> u32 \<Rightarrow> 'm option) \<Rightarrow> 'm \<Rightarrow> 'v map_op list \<Rightarrow> 'm option" where
  "map_run store erase h [] = Some h"
| "map_run store erase h (Store k v # ops) = do { h \<leftarrow> store h k v; map_run store erase h ops }"
| "map_run store erase h (Erase k # ops) = do { h \<leftarrow> erase h k; map_run store erase h ops }"

fun map_spec :: "(u32 \<rightharpoonup> 'v) \<Rightarrow> 'v map_op list \<Rightarrow> (u32 \<rightharpoonup> 'v)" where
  "map_spec m [] = m"
| "map_spec m (Store k v # ops) = map_spec (m(k \<mapsto> v)) ops"
| "map_spec m (Erase k # ops) = map_spec (m(k := None)) ops"

text \<open>\<open>inv N h\<close>: the table \<open>h\<close> is well formed and has seen at most \<open>N\<close> insertions.\<close>

locale hash_map =
  fixes inv :: "nat \<Rightarrow> 'm \<Rightarrow> bool"
    and lookup :: "'m \<Rightarrow> u32 \<Rightarrow> 'v option"
    and empty_map :: 'm
    and fetch :: "'m \<Rightarrow> u32 \<Rightarrow> 'v option option"
    and store :: "'m \<Rightarrow> u32 \<Rightarrow> 'v \<Rightarrow> 'm option"
    and erase :: "'m \<Rightarrow> u32 \<Rightarrow> 'm option"
    and capacity :: nat
  assumes empty_law: "inv 0 empty_map \<and> lookup empty_map = Map.empty"
    and fetch_law: "inv N h \<Longrightarrow> fetch h k = Some (lookup h k)"
    and store_law: "inv N h \<Longrightarrow> N < capacity \<Longrightarrow>
      \<exists>h'. store h k v = Some h' \<and> inv (Suc N) h' \<and> lookup h' = (lookup h)(k \<mapsto> v)"
    and erase_law: "inv N h \<Longrightarrow>
      \<exists>h'. erase h k = Some h' \<and> inv N h' \<and> lookup h' = (lookup h)(k := None)"
begin

lemma run_refines:
  "inv N h \<Longrightarrow> N + length ops \<le> capacity \<Longrightarrow>
   \<exists>h' N'. map_run store erase h ops = Some h' \<and> inv N' h' \<and> lookup h' = map_spec (lookup h) ops"
proof (induction ops arbitrary: h N)
  case (Cons op ops)
  show ?case
  proof (cases op)
    case (Store k v)
    with Cons.prems obtain h1 where
      "store h k v = Some h1" "inv (Suc N) h1" "lookup h1 = (lookup h)(k \<mapsto> v)"
      using store_law [of N h k v] by auto
    with Cons.IH [of "Suc N" h1] Cons.prems Store show ?thesis by (simp del: fun_upd_apply)
  next
    case (Erase k)
    with Cons.prems obtain h1 where
      "erase h k = Some h1" "inv N h1" "lookup h1 = (lookup h)(k := None)"
      using erase_law [of N h k] by auto
    with Cons.IH [of N h1] Cons.prems Erase show ?thesis by (simp del: fun_upd_apply)
  qed
qed auto

lemma run_from_empty:
  assumes "length ops \<le> capacity"
  shows "\<exists>h. map_run store erase empty_map ops = Some h \<and> (\<forall>k. fetch h k = Some (map_spec Map.empty ops k))"
proof -
  from run_refines [of 0 empty_map ops] assms empty_law obtain h N where
    "map_run store erase empty_map ops = Some h" "inv N h" "lookup h = map_spec Map.empty ops"
    by auto
  then show ?thesis using fetch_law by auto
qed

end

text \<open>Every live bucket has a value.\<close>

definition kh_full :: "'v kh \<Rightarrow> bool" where
  "kh_full h \<longleftrightarrow> kh_keys h = dom (kh_lookup h)"

definition kh_inv :: "nat \<Rightarrow> 'v kh \<Rightarrow> bool" where
  "kh_inv N h \<longleftrightarrow> kh_wf h \<and> kh_full h \<and> kh_size h \<le> N \<and> n_buckets h \<le> max 4 (4 * N)"

lemma kh_init_keys [simp]: "kh_keys kh_init = {}"
  by (simp add: kh_keys_def kh_live_def kh_init_def)

lemma kh_full_get:
  assumes "kh_wf h" "kh_full h"
  shows "kh_fetch h key = Some (kh_lookup h key)"
proof (cases "kh_find h key")
  case None
  then show ?thesis by (simp add: kh_fetch_def kh_get_eq [OF assms(1)] kh_lookup_def)
next
  case (Some i)
  with assms(1) have h: "kh_shape h" by (auto simp: kh_wf_def)
  from Some have i: "i \<in> kh_live h" "keys h ! i = key" using kh_find_Some [OF h] by auto
  have "key \<in> dom (kh_lookup h)" using Some assms(2) by (metis kh_find_keys kh_full_def option.distinct(1))
  moreover have "kh_lookup h key = vals h ! i" using Some by (simp add: kh_lookup_def)
  ultimately show ?thesis using Some kh_live_less [OF i(1)]
    by (simp add: kh_fetch_def kh_get_eq [OF assms(1)] kh_value_def) (metis domD option.simps(9))
qed

lemma kh_store_ok:
  assumes inv: "kh_inv N h" and cap: "N < 2 ^ 28"
  shows "\<exists>h'. kh_store h key v = Some h' \<and> kh_inv (Suc N) h' \<and> kh_lookup h' = (kh_lookup h)(key \<mapsto> v)"
proof -
  have wf: "kh_wf h" and full: "kh_full h" and n: "kh_size h \<le> N" "n_buckets h \<le> max 4 (4 * N)"
    using inv by (auto simp: kh_inv_def)
  have "n_buckets h \<le> 2 ^ 30" using n(2) cap by simp
  from kh_put_ok [OF wf this, of key] obtain h1 x r where h1: "kh_put h key = Some (h1, x, r)"
    "kh_shape h1" "kh_counts h1" "x \<in> kh_live h1" "keys h1 ! x = key" "kh_keys h1 = insert key (kh_keys h)"
    "\<forall>k. k \<noteq> key \<longrightarrow> kh_lookup h1 k = kh_lookup h k"
    "kh_size h1 = kh_size h + (if key \<in> kh_keys h then 0 else 1)"
    "n_buckets h1 \<le> max (n_buckets h) (max 4 (4 * kh_size h))" by blast
  from set_value_ok [OF h1(2-4), of v] obtain h2 where h2: "kh_set_value h1 x v = Some h2" "kh_shape h2"
    "kh_counts h2" "kh_size h2 = kh_size h1" "n_buckets h2 = n_buckets h1" "kh_keys h2 = kh_keys h1"
    "kh_lookup h2 = (kh_lookup h1)(key \<mapsto> v)" unfolding h1(5) by blast
  have look: "kh_lookup h2 = (kh_lookup h)(key \<mapsto> v)" using h1(7) h2(7) by auto
  have "kh_full h2" using full h1(6) h2(6) by (simp add: kh_full_def look)
  moreover have "n_buckets h2 \<le> max 4 (4 * Suc N)" "kh_size h2 \<le> Suc N"
    using h1(8,9) h2(4,5) n by (auto split: if_splits)
  ultimately have "kh_inv (Suc N) h2" using h2(2,3) by (simp add: kh_inv_def kh_wf_def)
  with h1(1) h2(1) look show ?thesis by (simp add: kh_store_def)
qed

lemma kh_erase_ok:
  assumes inv: "kh_inv N h"
  shows "\<exists>h'. kh_erase h key = Some h' \<and> kh_inv N h' \<and> kh_lookup h' = (kh_lookup h)(key := None)"
proof -
  have wf: "kh_wf h" and full: "kh_full h" using inv by (auto simp: kh_inv_def)
  show ?thesis
  proof (cases "kh_find h key")
    case None
    then have "kh_lookup h key = None" by (simp add: kh_lookup_def)
    then have "(kh_lookup h)(key := None) = kh_lookup h" by auto
    then show ?thesis using None inv by (simp add: kh_erase_def kh_get_eq [OF wf])
  next
    case (Some i)
    then have "h \<noteq> kh_init" by auto
    with wf have h: "kh_shape h" "kh_counts h" by (auto simp: kh_wf_def)
    from Some have i: "i \<in> kh_live h" "keys h ! i = key" using kh_find_Some [OF h(1)] by auto
    have "kh_inv N (kh_del h i)"
      using del_ok [OF h i(1)] inv full by (auto simp: kh_inv_def kh_wf_def kh_full_def)
    moreover have "kh_erase h key = Some (kh_del h i)"
      using Some kh_live_less [OF i(1)] by (simp add: kh_erase_def kh_get_eq [OF wf])
    ultimately show ?thesis using del_ok [OF h i(1)] i(2) by auto
  qed
qed

interpretation khash: hash_map kh_inv kh_lookup kh_init kh_fetch kh_store kh_erase "2 ^ 28"
proof
  show "kh_inv 0 kh_init \<and> kh_lookup kh_init = Map.empty"
    by (auto simp: kh_inv_def kh_full_def) (simp_all add: kh_init_def)
  fix N :: nat and h :: "'a kh" and k :: u32 and v :: 'a
  assume inv: "kh_inv N h"
  then show "kh_fetch h k = Some (kh_lookup h k)" by (simp add: kh_inv_def kh_full_get)
  from kh_erase_ok [OF inv, of k]
  show "\<exists>h'. kh_erase h k = Some h' \<and> kh_inv N h' \<and> kh_lookup h' = (kh_lookup h)(k := None)" .
  assume "N < 2 ^ 28"
  from kh_store_ok [OF inv this, of k v]
  show "\<exists>h'. kh_store h k v = Some h' \<and> kh_inv (Suc N) h' \<and> kh_lookup h' = (kh_lookup h)(k \<mapsto> v)" .
qed

section \<open>Properties\<close>

text \<open>
  C3. Any sequence of insertions, overwrites and removals on a fresh hash table, with all the
  resizing, rehashing and reuse of deleted buckets it causes, runs to its end and leaves a table
  in which looking up any key gives what the same operations on a mathematical map give.
\<close>

theorem khash_refines_map:
  "length ops \<le> 2 ^ 28 \<Longrightarrow>
   \<exists>h. map_run kh_store kh_erase kh_init ops = Some h \<and> (\<forall>k. kh_fetch h k = Some (map_spec Map.empty ops k))"
  by (rule khash.run_from_empty)

theorem khash_refines_map_witness:
  "\<exists>h. map_run kh_store kh_erase kh_init [Store 5 ''a'', Store 9 ''b'', Erase 5, Store 9 ''c''] = Some h
    \<and> kh_fetch h 9 = Some (Some ''c'') \<and> kh_fetch h 5 = Some None"
  using khash_refines_map [of "[Store 5 ''a'', Store 9 ''b'', Erase 5, Store 9 ''c'']"] by auto



text \<open>
  \<open>kh_get\<close> ends on every well-formed table, and returns the bucket that holds the key or, when
  there is none, \<open>n_buckets\<close>; no two buckets hold one key.
\<close>

theorem kh_get_correct:
  "kh_wf h \<Longrightarrow> \<exists>x. kh_get h key = Some x \<and>
     (if key \<in> kh_keys h then x \<in> kh_live h \<and> keys h ! x = key else x = n_buckets h)"
proof -
  assume wf: "kh_wf h"
  show ?thesis
  proof (cases "kh_find h key")
    case None
    then show ?thesis using kh_find_keys [of h key] by (simp add: kh_get_eq [OF wf])
  next
    case (Some i)
    then have "h \<noteq> kh_init" by auto
    with wf Some show ?thesis
      using kh_find_Some [of h key i] by (auto simp: kh_get_eq [OF wf] kh_wf_def kh_keys_def)
  qed
qed

theorem kh_get_correct_witness: "\<exists>x. kh_get (kh_init :: string kh) 7 = Some x \<and> x = 0"
  using kh_get_correct [of "kh_init :: string kh" 7] by (simp add: kh_get_def kh_init_def)

text \<open>
  \<open>kh_put\<close> ends, puts the key into a bucket that no other key holds, keeps every other entry,
  and reports in \<open>*ret\<close> whether the key was there; then, and only then, the value is kept.
\<close>

theorem kh_put_correct:
  "kh_wf h \<Longrightarrow> n_buckets h \<le> 2 ^ 30 \<Longrightarrow>
   \<exists>h' x r. kh_put h key = Some (h', x, r) \<and> kh_wf h' \<and> x \<in> kh_live h' \<and> keys h' ! x = key
     \<and> kh_keys h' = insert key (kh_keys h) \<and> (\<forall>k. k \<noteq> key \<longrightarrow> kh_lookup h' k = kh_lookup h k)
     \<and> (r = 0 \<longleftrightarrow> key \<in> kh_keys h) \<and> (r = 0 \<longrightarrow> kh_lookup h' = kh_lookup h)"
  using kh_put_ok [of h key] unfolding kh_wf_def by blast

theorem kh_put_correct_witness:
  "\<exists>h' x r. kh_put (kh_init :: string kh) 7 = Some (h', x, r) \<and> kh_wf h' \<and> kh_keys h' = {7} \<and> r \<noteq> 0"
proof -
  have "n_buckets (kh_init :: string kh) \<le> 2 ^ 30" by (simp add: kh_init_def)
  from kh_put_correct [OF kh_init_wf this, of 7] show ?thesis by auto
qed

text \<open>
  \<open>kh_resize\<close> to a size that holds the entries keeps exactly the entries, whichever way its
  kick-out loop shuffles them within the shared arrays, and clears all deleted marks.
\<close>

theorem kh_resize_correct:
  "kh_wf h \<Longrightarrow> pow2_size (round_size new) \<Longrightarrow> kh_size h < hash_upper (round_size new) \<Longrightarrow>
   \<exists>h'. kh_resize h new = Some h' \<and> kh_wf h' \<and> n_buckets h' = round_size new
     \<and> n_occupied h' = kh_size h \<and> kh_entries h' = kh_entries h"
  using kh_resize_ok [OF kh_wf_pre refl] unfolding kh_wf_def by blast

theorem kh_resize_correct_witness:
  "\<exists>h'. kh_resize (kh_init :: string kh) 100 = Some h' \<and> kh_wf h' \<and> n_buckets h' = 128"
proof -
  have r: "round_size 100 = 128" by (simp add: round_size_def kroundup32_def)
  have "pow2_size 128" by (auto simp: pow2_size_def intro!: exI [of _ 7])
  then show ?thesis
    using kh_resize_correct [of "kh_init :: string kh" 100] by (auto simp: r hash_upper_def) (auto simp: kh_init_def)
qed

end
