(* ===== verification/Murmur.thy ===== *)
theory Murmur
  imports Prelude
begin

text \<open>
  The hash function of the table and key maps (src/core/hash.cpp): \<open>MurmurHash3_x86_32\<close>, which
  \<open>hash_string\<close> of db.cpp calls, and the two 128-bit variants of the same file. Each loop is the
  code's loop over blocks, each fall-through \<open>switch\<close> a chain of conditions, and all arithmetic is
  on words. The lemmas show that every mixing step is injective and derive what that gives for
  the hash of keys that differ in a single block.
\<close>

section \<open>Definitions\<close>

definition rotl32 :: "u32 \<Rightarrow> nat \<Rightarrow> u32" where
  "rotl32 x r = push_bit r x OR drop_bit (32 - r) x"

definition rotl64 :: "u64 \<Rightarrow> nat \<Rightarrow> u64" where
  "rotl64 x r = push_bit r x OR drop_bit (64 - r) x"

definition byte32 :: "string \<Rightarrow> nat \<Rightarrow> u32" where
  "byte32 data i = of_char (data ! i)"

definition byte64 :: "string \<Rightarrow> nat \<Rightarrow> u64" where
  "byte64 data i = of_char (data ! i)"

text \<open>\<open>p[i]\<close> for a \<open>uint32_t*\<close> (\<open>uint64_t*\<close>): a little-endian read at a byte offset.\<close>

definition getblock32 :: "string \<Rightarrow> nat \<Rightarrow> u32" where
  "getblock32 data off =
     byte32 data off OR push_bit 8 (byte32 data (off + 1))
     OR push_bit 16 (byte32 data (off + 2)) OR push_bit 24 (byte32 data (off + 3))"

definition getblock64 :: "string \<Rightarrow> nat \<Rightarrow> u64" where
  "getblock64 data off =
     byte64 data off OR push_bit 8 (byte64 data (off + 1))
     OR push_bit 16 (byte64 data (off + 2)) OR push_bit 24 (byte64 data (off + 3))
     OR push_bit 32 (byte64 data (off + 4)) OR push_bit 40 (byte64 data (off + 5))
     OR push_bit 48 (byte64 data (off + 6)) OR push_bit 56 (byte64 data (off + 7))"

definition fmix32 :: "u32 \<Rightarrow> u32" where
  "fmix32 h = (let
     h = h XOR drop_bit 16 h;
     h = h * 0x85ebca6b;
     h = h XOR drop_bit 13 h;
     h = h * 0xc2b2ae35;
     h = h XOR drop_bit 16 h
   in h)"

definition fmix64 :: "u64 \<Rightarrow> u64" where
  "fmix64 k = (let
     k = k XOR drop_bit 33 k;
     k = k * 0xff51afd7ed558ccd;
     k = k XOR drop_bit 33 k;
     k = k * 0xc4ceb9fe1a85ec53;
     k = k XOR drop_bit 33 k
   in k)"

subsection \<open>MurmurHash3_x86_32\<close>

definition x86_32_mix_k :: "u32 \<Rightarrow> u32" where
  "x86_32_mix_k k1 = rotl32 (k1 * 0xcc9e2d51) 15 * 0x1b873593"

definition x86_32_step :: "u32 \<Rightarrow> u32 \<Rightarrow> u32" where
  "x86_32_step h1 k1 = rotl32 (h1 XOR x86_32_mix_k k1) 13 * 5 + 0xe6546b64"

text \<open>
  The body loop \<open>for (i = -nblocks; i; i++)\<close> reads \<open>blocks[i]\<close> with \<open>blocks = data + nblocks * 4\<close>;
  the recursion counts \<open>-i\<close> down to zero.
\<close>

fun x86_32_body :: "string \<Rightarrow> nat \<Rightarrow> nat \<Rightarrow> u32 \<Rightarrow> u32" where
  "x86_32_body data nblocks 0 h1 = h1"
| "x86_32_body data nblocks (Suc i) h1 =
     x86_32_body data nblocks i (x86_32_step h1 (getblock32 data (4 * (nblocks - Suc i))))"

definition x86_32_tail :: "string \<Rightarrow> nat \<Rightarrow> u32 \<Rightarrow> u32" where
  "x86_32_tail data len h1 = (let
     tail = len div 4 * 4;
     c = len mod 4;
     k1 = 0;
     k1 = (if 3 \<le> c then k1 XOR push_bit 16 (byte32 data (tail + 2)) else k1);
     k1 = (if 2 \<le> c then k1 XOR push_bit 8 (byte32 data (tail + 1)) else k1)
   in if 1 \<le> c then h1 XOR x86_32_mix_k (k1 XOR byte32 data tail) else h1)"

definition MurmurHash3_x86_32 :: "string \<Rightarrow> nat \<Rightarrow> u32 \<Rightarrow> u32" where
  "MurmurHash3_x86_32 key len seed = (let
     nblocks = len div 4;
     h1 = x86_32_body key nblocks nblocks seed;
     h1 = x86_32_tail key len h1;
     h1 = h1 XOR of_nat len
   in fmix32 h1)"

text \<open>\<open>hash_string\<close> of db.cpp, with \<open>HASH_SEED\<close> of config.h.\<close>

definition HASH_SEED :: u32 where
  "HASH_SEED = 13"

definition hash_string :: "string \<Rightarrow> u32" where
  "hash_string str = MurmurHash3_x86_32 str (length str) HASH_SEED"

subsection \<open>MurmurHash3_x86_128\<close>

definition x86_128_step :: "u32 \<times> u32 \<times> u32 \<times> u32 \<Rightarrow> u32 \<Rightarrow> u32 \<Rightarrow> u32 \<Rightarrow> u32 \<Rightarrow> u32 \<times> u32 \<times> u32 \<times> u32" where
  "x86_128_step h k1 k2 k3 k4 = (case h of (h1, h2, h3, h4) \<Rightarrow> let
     h1 = h1 XOR (rotl32 (k1 * 0x239b961b) 15 * 0xab0e9789);
     h1 = (rotl32 h1 19 + h2) * 5 + 0x561ccd1b;
     h2 = h2 XOR (rotl32 (k2 * 0xab0e9789) 16 * 0x38b34ae5);
     h2 = (rotl32 h2 17 + h3) * 5 + 0x0bcaa747;
     h3 = h3 XOR (rotl32 (k3 * 0x38b34ae5) 17 * 0xa1e38b93);
     h3 = (rotl32 h3 15 + h4) * 5 + 0x96cd1c35;
     h4 = h4 XOR (rotl32 (k4 * 0xa1e38b93) 18 * 0x239b961b);
     h4 = (rotl32 h4 13 + h1) * 5 + 0x32ac3b17
   in (h1, h2, h3, h4))"

fun x86_128_body :: "string \<Rightarrow> nat \<Rightarrow> nat \<Rightarrow> u32 \<times> u32 \<times> u32 \<times> u32 \<Rightarrow> u32 \<times> u32 \<times> u32 \<times> u32" where
  "x86_128_body data nblocks 0 h = h"
| "x86_128_body data nblocks (Suc i) h = (let off = 16 * (nblocks - Suc i) in
     x86_128_body data nblocks i
       (x86_128_step h (getblock32 data off) (getblock32 data (off + 4))
          (getblock32 data (off + 8)) (getblock32 data (off + 12))))"

text \<open>One byte of a fall-through \<open>switch\<close>: \<open>case n: k ^= tail[n - 1] << s\<close>.\<close>

definition tail_byte32 :: "string \<Rightarrow> nat \<Rightarrow> nat \<Rightarrow> nat \<Rightarrow> nat \<Rightarrow> u32 \<Rightarrow> u32" where
  "tail_byte32 data tail c n s k = (if n \<le> c then k XOR push_bit s (byte32 data (tail + (n - 1))) else k)"

definition x86_128_tail :: "string \<Rightarrow> nat \<Rightarrow> u32 \<times> u32 \<times> u32 \<times> u32 \<Rightarrow> u32 \<times> u32 \<times> u32 \<times> u32" where
  "x86_128_tail data len h = (case h of (h1, h2, h3, h4) \<Rightarrow> let
     tail = len div 16 * 16;
     c = len mod 16;
     b = tail_byte32 data tail c;
     k4 = b 13 0 (b 14 8 (b 15 16 0));
     h4 = (if 13 \<le> c then h4 XOR (rotl32 (k4 * 0xa1e38b93) 18 * 0x239b961b) else h4);
     k3 = b 9 0 (b 10 8 (b 11 16 (b 12 24 0)));
     h3 = (if 9 \<le> c then h3 XOR (rotl32 (k3 * 0x38b34ae5) 17 * 0xa1e38b93) else h3);
     k2 = b 5 0 (b 6 8 (b 7 16 (b 8 24 0)));
     h2 = (if 5 \<le> c then h2 XOR (rotl32 (k2 * 0xab0e9789) 16 * 0x38b34ae5) else h2);
     k1 = b 1 0 (b 2 8 (b 3 16 (b 4 24 0)));
     h1 = (if 1 \<le> c then h1 XOR (rotl32 (k1 * 0x239b961b) 15 * 0xab0e9789) else h1)
   in (h1, h2, h3, h4))"

definition MurmurHash3_x86_128 :: "string \<Rightarrow> nat \<Rightarrow> u32 \<Rightarrow> u32 list" where
  "MurmurHash3_x86_128 key len seed = (let nblocks = len div 16 in
     case x86_128_tail key len (x86_128_body key nblocks nblocks (seed, seed, seed, seed)) of
       (h1, h2, h3, h4) \<Rightarrow> let
         h1 = h1 XOR of_nat len; h2 = h2 XOR of_nat len;
         h3 = h3 XOR of_nat len; h4 = h4 XOR of_nat len;
         h1 = h1 + h2 + h3 + h4;
         h2 = h2 + h1; h3 = h3 + h1; h4 = h4 + h1;
         h1 = fmix32 h1; h2 = fmix32 h2; h3 = fmix32 h3; h4 = fmix32 h4;
         h1 = h1 + h2 + h3 + h4;
         h2 = h2 + h1; h3 = h3 + h1; h4 = h4 + h1
       in [h1, h2, h3, h4])"

subsection \<open>MurmurHash3_x64_128\<close>

definition x64_128_step :: "u64 \<times> u64 \<Rightarrow> u64 \<Rightarrow> u64 \<Rightarrow> u64 \<times> u64" where
  "x64_128_step h k1 k2 = (case h of (h1, h2) \<Rightarrow> let
     h1 = h1 XOR (rotl64 (k1 * 0x87c37b91114253d5) 31 * 0x4cf5ad432745937f);
     h1 = (rotl64 h1 27 + h2) * 5 + 0x52dce729;
     h2 = h2 XOR (rotl64 (k2 * 0x4cf5ad432745937f) 33 * 0x87c37b91114253d5);
     h2 = (rotl64 h2 31 + h1) * 5 + 0x38495ab5
   in (h1, h2))"

text \<open>Here the loop counts up from the start of the data: \<open>i\<close> blocks done, \<open>n\<close> to go.\<close>

fun x64_128_body :: "string \<Rightarrow> nat \<Rightarrow> nat \<Rightarrow> u64 \<times> u64 \<Rightarrow> u64 \<times> u64" where
  "x64_128_body data i 0 h = h"
| "x64_128_body data i (Suc n) h =
     x64_128_body data (Suc i) n
       (x64_128_step h (getblock64 data (16 * i)) (getblock64 data (16 * i + 8)))"

definition tail_byte64 :: "string \<Rightarrow> nat \<Rightarrow> nat \<Rightarrow> nat \<Rightarrow> nat \<Rightarrow> u64 \<Rightarrow> u64" where
  "tail_byte64 data tail c n s k = (if n \<le> c then k XOR push_bit s (byte64 data (tail + (n - 1))) else k)"

definition x64_128_tail :: "string \<Rightarrow> nat \<Rightarrow> u64 \<times> u64 \<Rightarrow> u64 \<times> u64" where
  "x64_128_tail data len h = (case h of (h1, h2) \<Rightarrow> let
     tail = len div 16 * 16;
     c = len mod 16;
     b = tail_byte64 data tail c;
     k2 = b 9 0 (b 10 8 (b 11 16 (b 12 24 (b 13 32 (b 14 40 (b 15 48 0))))));
     h2 = (if 9 \<le> c then h2 XOR (rotl64 (k2 * 0x4cf5ad432745937f) 33 * 0x87c37b91114253d5) else h2);
     k1 = b 1 0 (b 2 8 (b 3 16 (b 4 24 (b 5 32 (b 6 40 (b 7 48 (b 8 56 0)))))));
     h1 = (if 1 \<le> c then h1 XOR (rotl64 (k1 * 0x87c37b91114253d5) 31 * 0x4cf5ad432745937f) else h1)
   in (h1, h2))"

definition MurmurHash3_x64_128 :: "string \<Rightarrow> nat \<Rightarrow> u32 \<Rightarrow> u64 list" where
  "MurmurHash3_x64_128 key len seed =
     (case x64_128_tail key len (x64_128_body key 0 (len div 16) (ucast seed, ucast seed)) of
       (h1, h2) \<Rightarrow> let
         h1 = h1 XOR of_nat len; h2 = h2 XOR of_nat len;
         h1 = h1 + h2; h2 = h2 + h1;
         h1 = fmix64 h1; h2 = fmix64 h2;
         h1 = h1 + h2; h2 = h2 + h1
       in [h1, h2])"

section \<open>Every mixing step is injective\<close>

lemma bit_byte32: "bit (byte32 d i) n \<longleftrightarrow> n < 8 \<and> bit (of_char (d ! i) :: nat) n"
proof -
  have "byte32 d i = of_nat (of_char (d ! i))"
    by (simp add: byte32_def of_nat_of_char)
  moreover have "take_bit 8 (of_char (d ! i) :: nat) = of_char (d ! i)"
    by (simp add: take_bit_eq_mod)
  then have "bit (of_char (d ! i) :: nat) n \<Longrightarrow> n < 8"
    by (metis bit_take_bit_iff)
  ultimately show ?thesis by (auto simp: bit_simps)
qed

lemma byte32_inj: "byte32 a i = byte32 b i \<Longrightarrow> a ! i = b ! i"
proof -
  assume *: "byte32 a i = byte32 b i"
  have "(of_char (a ! i) :: nat) = of_char (b ! i)"
  proof (rule bit_eqI)
    fix n
    have "bit (of_char (d ! i) :: nat) n \<longleftrightarrow> bit (byte32 d i) n" for d
    proof -
      have "take_bit 8 (of_char (d ! i) :: nat) = of_char (d ! i)"
        by (simp add: take_bit_eq_mod)
      then have "bit (of_char (d ! i) :: nat) n \<Longrightarrow> n < 8" by (metis bit_take_bit_iff)
      then show ?thesis by (auto simp: bit_byte32)
    qed
    with * show "bit (of_char (a ! i) :: nat) n = bit (of_char (b ! i) :: nat) n" by simp
  qed
  then show "a ! i = b ! i" by simp
qed

lemma getblock32_inj:
  assumes "getblock32 a off = getblock32 b off" and "k < 4"
  shows "a ! (off + k) = b ! (off + k)"
proof -
  have bits: "bit (getblock32 d off) (8 * k + n) = bit (byte32 d (off + k)) n" if "n < 8" for d n
  proof -
    consider "k = 0" | "k = 1" | "k = 2" | "k = 3" using \<open>k < 4\<close> by linarith
    then show ?thesis
      using \<open>n < 8\<close> by cases (auto simp: getblock32_def bit_simps bit_byte32)
  qed
  have "byte32 a (off + k) = byte32 b (off + k)"
  proof (rule bit_word_eqI)
    fix n
    show "bit (byte32 a (off + k)) n = bit (byte32 b (off + k)) n"
      using bits [of n a] bits [of n b] assms(1) by (cases "n < 8") (auto simp: bit_byte32)
  qed
  then show ?thesis by (rule byte32_inj)
qed

lemma getblock32_cong:
  "(\<And>k. k < 4 \<Longrightarrow> a ! (off + k) = b ! (off + k)) \<Longrightarrow> getblock32 a off = getblock32 b off"
proof -
  assume *: "\<And>k. k < 4 \<Longrightarrow> a ! (off + k) = b ! (off + k)"
  show ?thesis using * [of 0] * [of 1] * [of 2] * [of 3] by (simp add: getblock32_def byte32_def)
qed
lemma rotl32_inverse: "0 < r \<Longrightarrow> r < 32 \<Longrightarrow> rotl32 (rotl32 x r) (32 - r) = x"
  unfolding rotl32_def
  by (rule bit_word_eqI) (auto simp: bit_simps)

lemma rotl64_inverse: "0 < r \<Longrightarrow> r < 64 \<Longrightarrow> rotl64 (rotl64 x r) (64 - r) = x"
  unfolding rotl64_def
  by (rule bit_word_eqI) (auto simp: bit_simps)

lemma rotl32_inj: "0 < r \<Longrightarrow> r < 32 \<Longrightarrow> rotl32 x r = rotl32 y r \<longleftrightarrow> x = y"
  by (metis rotl32_inverse)

lemma rotl64_inj: "0 < r \<Longrightarrow> r < 64 \<Longrightarrow> rotl64 x r = rotl64 y r \<longleftrightarrow> x = y"
  by (metis rotl64_inverse)

lemma fmix32_inj: "fmix32 x = fmix32 y \<longleftrightarrow> x = y"
  by (simp add: fmix32_def Let_def xorshift_cancel
      word_mult_cancel [of "0x85ebca6b :: u32" "0xa5cb9243"]
      word_mult_cancel [of "0xc2b2ae35 :: u32" "0x7ed1b41d"])

lemma fmix64_inj: "fmix64 x = fmix64 y \<longleftrightarrow> x = y"
  by (simp add: fmix64_def Let_def xorshift_cancel
      word_mult_cancel [of "0xff51afd7ed558ccd :: u64" "0x4f74430c22a54005"]
      word_mult_cancel [of "0xc4ceb9fe1a85ec53 :: u64" "0x9cb4b2f8129337db"])

lemma x86_32_mix_k_inj: "x86_32_mix_k a = x86_32_mix_k b \<longleftrightarrow> a = b"
  by (simp add: x86_32_mix_k_def rotl32_inj
      word_mult_cancel [of "0xcc9e2d51 :: u32" "0xdee13bb1"]
      word_mult_cancel [of "0x1b873593 :: u32" "0x56ed309b"])

lemma x86_32_step_eq:
  "x86_32_step a k = x86_32_step b l \<longleftrightarrow> a XOR x86_32_mix_k k = b XOR x86_32_mix_k l"
  by (simp add: x86_32_step_def rotl32_inj word_mult_cancel [of "5 :: u32" "0xcccccccd"])

lemma x86_32_step_inj:
  "x86_32_step h k = x86_32_step h' k \<longleftrightarrow> h = h'"
  "x86_32_step h k = x86_32_step h k' \<longleftrightarrow> k = k'"
  by (simp_all add: x86_32_step_eq xor_right_cancel xor_left_cancel x86_32_mix_k_inj)

text \<open>The body loop is a left fold of the step over the blocks of the data.\<close>

definition blocks32 :: "string \<Rightarrow> nat \<Rightarrow> u32 list" where
  "blocks32 data n = map (\<lambda>i. getblock32 data (4 * i)) [0..<n]"

lemma x86_32_body_foldl:
  "i \<le> n \<Longrightarrow> x86_32_body data n i h
     = foldl x86_32_step h (map (\<lambda>i. getblock32 data (4 * i)) [n - i..<n])"
proof (induction i arbitrary: h)
  case 0
  then show ?case by simp
next
  case (Suc i)
  have "[n - Suc i..<n] = (n - Suc i) # [n - i..<n]"
    using Suc.prems by (simp add: upt_conv_Cons Suc_diff_Suc)
  with Suc show ?case by simp
qed

lemma x86_32_body_eq: "x86_32_body data n n h = foldl x86_32_step h (blocks32 data n)"
  by (simp add: x86_32_body_foldl blocks32_def)

lemma foldl_step_inj: "foldl x86_32_step h ks = foldl x86_32_step h' ks \<longleftrightarrow> h = h'"
  by (induction ks arbitrary: h h') (auto simp: x86_32_step_inj)

lemma foldl_step_update_inj:
  assumes "i < length ks" and "foldl x86_32_step h (ks[i := k]) = foldl x86_32_step h ks"
  shows "k = ks ! i"
proof -
  have "foldl x86_32_step (x86_32_step (foldl x86_32_step h (take i ks)) k) (drop (Suc i) ks)
      = foldl x86_32_step (x86_32_step (foldl x86_32_step h (take i ks)) (ks ! i)) (drop (Suc i) ks)"
    using assms by (metis foldl_Cons foldl_append id_take_nth_drop upd_conv_take_nth_drop)
  then show ?thesis by (simp add: foldl_step_inj x86_32_step_inj)
qed

section \<open>Keys that differ in one block\<close>

text \<open>The word the tail contributes, from the last \<open>c < 4\<close> bytes.\<close>

definition tail_word :: "string \<Rightarrow> nat \<Rightarrow> nat \<Rightarrow> u32" where
  "tail_word data tail c =
     (if 3 \<le> c then push_bit 16 (byte32 data (tail + 2)) else 0)
     XOR (if 2 \<le> c then push_bit 8 (byte32 data (tail + 1)) else 0) XOR byte32 data tail"

lemma x86_32_tail_eq:
  "x86_32_tail data len h =
     (if 4 dvd len then h else h XOR x86_32_mix_k (tail_word data (len div 4 * 4) (len mod 4)))"
proof -
  consider "len mod 4 = 0" | "len mod 4 = 1" | "len mod 4 = 2" | "len mod 4 = 3" by linarith
  then show ?thesis
    by cases (simp_all add: x86_32_tail_def tail_word_def Let_def dvd_eq_mod_eq_0 xor.assoc)
qed

lemma tail_word_inj:
  assumes "tail_word a t c = tail_word b t c" and "k < c" and "c < 4"
  shows "a ! (t + k) = b ! (t + k)"
proof -
  have bits: "bit (tail_word d t c) (8 * k + n) = bit (byte32 d (t + k)) n" if "n < 8" for d n
  proof -
    consider "k = 0" | "k = 1" | "k = 2" using assms(2,3) by linarith
    then show ?thesis
      using \<open>n < 8\<close> assms(2,3) by cases (auto simp: tail_word_def bit_simps bit_byte32)
  qed
  have "byte32 a (t + k) = byte32 b (t + k)"
  proof (rule bit_word_eqI)
    fix n
    show "bit (byte32 a (t + k)) n = bit (byte32 b (t + k)) n"
      using bits [of n a] bits [of n b] assms(1) by (cases "n < 8") (auto simp: bit_byte32)
  qed
  then show ?thesis by (rule byte32_inj)
qed

lemma tail_word_cong:
  "0 < c \<Longrightarrow> c < 4 \<Longrightarrow> (\<And>k. k < c \<Longrightarrow> a ! (t + k) = b ! (t + k)) \<Longrightarrow> tail_word a t c = tail_word b t c"
proof -
  assume c: "0 < c" "c < 4" and *: "\<And>k. k < c \<Longrightarrow> a ! (t + k) = b ! (t + k)"
  then show ?thesis using * [of 0] * [of 1] * [of 2] by (auto simp: tail_word_def byte32_def)
qed

lemma MurmurHash3_x86_32_eq_iff:
  "MurmurHash3_x86_32 a n seed = MurmurHash3_x86_32 b n seed \<longleftrightarrow>
   x86_32_tail a n (foldl x86_32_step seed (blocks32 a (n div 4)))
   = x86_32_tail b n (foldl x86_32_step seed (blocks32 b (n div 4)))"
  by (simp add: MurmurHash3_x86_32_def Let_def x86_32_body_eq fmix32_inj xor_right_cancel)

text \<open>Keys that differ inside one full block: the block lists differ in one place.\<close>

lemma murmur_block_differs:
  assumes agree: "\<And>j. j < n \<Longrightarrow> j div 4 \<noteq> i \<Longrightarrow> a ! j = b ! j"
    and i: "i < n div 4"
    and eq: "MurmurHash3_x86_32 a n seed = MurmurHash3_x86_32 b n seed"
  shows "getblock32 a (4 * i) = getblock32 b (4 * i)"
proof -
  have tail: "x86_32_tail a n h = x86_32_tail b n h" for h
  proof (cases "4 dvd n")
    case False
    have "tail_word a (n div 4 * 4) (n mod 4) = tail_word b (n div 4 * 4) (n mod 4)"
    proof (rule tail_word_cong)
      fix k assume k: "k < n mod 4"
      then have "(n div 4 * 4 + k) div 4 = n div 4" by simp
      moreover have "n div 4 * 4 + k < n" using k by presburger
      ultimately show "a ! (n div 4 * 4 + k) = b ! (n div 4 * 4 + k)" using agree i by simp
    qed (use False in \<open>auto simp: dvd_eq_mod_eq_0\<close>)
    then show ?thesis by (simp add: x86_32_tail_eq)
  qed (simp add: x86_32_tail_eq)
  have blocks: "blocks32 b (n div 4) = (blocks32 a (n div 4))[i := getblock32 b (4 * i)]"
  proof (rule nth_equalityI)
    fix j assume "j < length (blocks32 b (n div 4))"
    then have j: "j < n div 4" by (simp add: blocks32_def)
    have "getblock32 a (4 * j) = getblock32 b (4 * j)" if "j \<noteq> i"
    proof (rule getblock32_cong)
      fix k :: nat assume k: "k < 4"
      then have "(4 * j + k) div 4 = j" by simp
      moreover have "4 * j + k < n" using j k by presburger
      ultimately show "a ! (4 * j + k) = b ! (4 * j + k)" using agree that by simp
    qed
    then show "blocks32 b (n div 4) ! j = (blocks32 a (n div 4))[i := getblock32 b (4 * i)] ! j"
      using j i by (cases "j = i") (auto simp: blocks32_def)
  qed (simp add: blocks32_def)
  have "foldl x86_32_step seed ((blocks32 a (n div 4))[i := getblock32 b (4 * i)])
      = foldl x86_32_step seed (blocks32 a (n div 4))"
  proof -
    have "x86_32_tail b n x = x86_32_tail b n y \<longleftrightarrow> x = y" for x y
      by (simp add: x86_32_tail_eq xor_right_cancel)
    with eq tail show ?thesis by (simp add: MurmurHash3_x86_32_eq_iff blocks)
  qed
  then have "getblock32 b (4 * i) = blocks32 a (n div 4) ! i"
    by (rule foldl_step_update_inj [rotated]) (use i in \<open>simp add: blocks32_def\<close>)
  then show ?thesis using i by (simp add: blocks32_def)
qed

text \<open>Keys that differ in the last, incomplete block only.\<close>

lemma murmur_tail_differs:
  assumes agree: "\<And>j. j < n \<Longrightarrow> j div 4 \<noteq> n div 4 \<Longrightarrow> a ! j = b ! j"
    and nd: "\<not> 4 dvd n"
    and eq: "MurmurHash3_x86_32 a n seed = MurmurHash3_x86_32 b n seed"
  shows "tail_word a (n div 4 * 4) (n mod 4) = tail_word b (n div 4 * 4) (n mod 4)"
proof -
  have "getblock32 a (4 * j) = getblock32 b (4 * j)" if j: "j < n div 4" for j
  proof (rule getblock32_cong)
    fix k :: nat assume k: "k < 4"
    then have "(4 * j + k) div 4 = j" by simp
    moreover have "4 * j + k < n" using j k by presburger
    ultimately show "a ! (4 * j + k) = b ! (4 * j + k)" using agree j by simp
  qed
  then have "blocks32 a (n div 4) = blocks32 b (n div 4)" by (simp add: blocks32_def)
  with eq nd show ?thesis
    by (simp add: MurmurHash3_x86_32_eq_iff x86_32_tail_eq xor_left_cancel x86_32_mix_k_inj)
qed

text \<open>
  C36. Two keys of one length that differ, and differ only inside one 4-byte block, never have the
  same 32-bit hash, whatever the seed.
\<close>

theorem murmur_single_block_no_collision:
  assumes "length a = length b" and "a \<noteq> b"
    and "\<And>j. j < length a \<Longrightarrow> j div 4 \<noteq> i \<Longrightarrow> a ! j = b ! j"
  shows "MurmurHash3_x86_32 a (length a) seed \<noteq> MurmurHash3_x86_32 b (length b) seed"
proof
  let ?n = "length a"
  assume "MurmurHash3_x86_32 a ?n seed = MurmurHash3_x86_32 b (length b) seed"
  then have eq: "MurmurHash3_x86_32 a ?n seed = MurmurHash3_x86_32 b ?n seed"
    using assms(1) by simp
  have "a ! j = b ! j" if j: "j < ?n" and ji: "j div 4 = i" for j
  proof (cases "i < ?n div 4")
    case True
    from getblock32_inj [OF murmur_block_differs [OF assms(3) True eq], of "j mod 4"]
    have "a ! (4 * i + j mod 4) = b ! (4 * i + j mod 4)" by simp
    moreover have "4 * i + j mod 4 = j" using ji by auto
    ultimately show ?thesis by simp
  next
    case False
    have "j div 4 \<le> ?n div 4" using j by (simp add: div_le_mono)
    with False ji have i: "i = ?n div 4" by simp
    have lt: "j mod 4 < ?n mod 4" 
      using div_mult_mod_eq [of j 4] div_mult_mod_eq [of ?n 4] j ji i by linarith
    then have nd: "\<not> 4 dvd ?n" by (auto simp: dvd_eq_mod_eq_0)
    have "tail_word a (?n div 4 * 4) (?n mod 4) = tail_word b (?n div 4 * 4) (?n mod 4)"
      by (rule murmur_tail_differs [OF _ nd eq]) (use assms(3) i in blast)
    from tail_word_inj [OF this lt] have "a ! (?n div 4 * 4 + j mod 4) = b ! (?n div 4 * 4 + j mod 4)"
      by simp
    moreover have "?n div 4 * 4 + j mod 4 = j"
      using div_mult_mod_eq [of j 4] ji i by simp
    ultimately show ?thesis by simp
  qed
  then have "a = b" using assms(1,3) by (metis nth_equalityI)
  with assms(2) show False ..
qed

theorem murmur_single_block_no_collision_witness:
  "MurmurHash3_x86_32 ''table1'' (length ''table1'') 13 \<noteq> MurmurHash3_x86_32 ''table2'' (length ''table2'') 13"
proof (rule murmur_single_block_no_collision [where i = 1])
  fix j assume "j < length ''table1''" and "j div 4 \<noteq> 1"
  then have "j < 4" by (simp add: div_nat_eqI)
  then consider "j = 0" | "j = 1" | "j = 2" | "j = 3" by linarith
  then show "''table1'' ! j = ''table2'' ! j" by cases simp_all
qed simp_all

end
