(* ===== verification/ReadBuffer.thy ===== *)
theory ReadBuffer
  imports Prelude
begin

text \<open>
  The circular read buffer of a connection (src/core/read_buffer.h, read_buffer.cpp), and the
  code that scans it: the macro \<open>RBUF_ITERATE\<close>, \<open>skip_over_newlines\<close> of http_parse.cpp and the
  buffer part of \<open>http_read_handle\<close> of http.cpp.

  The two positions are free-running 16-bit counters; the index of a byte is its position modulo
  \<open>BUFFER_SIZE\<close>. The array of \<open>BUFFER_SIZE\<close> chars is a function with a bounds check at every
  access. \<open>contents\<close> is the abstraction: the bytes written and not yet read, as a list.
  The lemmas show each operation against that list, with the one case left out in which the code
  itself goes wrong (a full buffer that does not start at index 0), which has theorems of its own.
\<close>

section \<open>State\<close>

definition BUFFER_SIZE :: nat where
  "BUFFER_SIZE = 16384"

record read_buffer =
  buffer :: "nat \<Rightarrow> char"
  read_position :: u16
  write_position :: u16

datatype state_action = close_connection | registered_write | needs_more_read | continue_processing

text \<open>\<open>p & (BUFFER_SIZE - 1)\<close>, the index of a position.\<close>

definition rbuf_index :: "u16 \<Rightarrow> nat" where
  "rbuf_index p = unat (p AND 0x3FFF)"

text \<open>\<open>*p\<close> for a pointer to index \<open>i\<close> of the array, and the source of a \<open>memcpy\<close> of \<open>n\<close> bytes from there.\<close>

definition rbuf_at :: "read_buffer \<Rightarrow> nat \<Rightarrow> char option" where
  "rbuf_at rb i = (if i < BUFFER_SIZE then Some (buffer rb i) else None)"

definition rbuf_mem :: "read_buffer \<Rightarrow> nat \<Rightarrow> int \<Rightarrow> string option" where
  "rbuf_mem rb i n =
     (if 0 \<le> n \<and> i + nat n \<le> BUFFER_SIZE then Some (map (buffer rb) [i..<i + nat n]) else None)"

section \<open>Operations\<close>

definition rbuf_init :: "read_buffer \<Rightarrow> read_buffer" where
  "rbuf_init rb = rb\<lparr>read_position := 0, write_position := 0\<rparr>"

definition RBUF_READLEN :: "read_buffer \<Rightarrow> u16" where
  "RBUF_READLEN rb = write_position rb - read_position rb"

definition RBUF_READMOVE :: "read_buffer \<Rightarrow> int \<Rightarrow> read_buffer" where
  "RBUF_READMOVE rb by = rb\<lparr>read_position := read_position rb + of_int by\<rparr>"

definition RBUF_WRITEMOVE :: "read_buffer \<Rightarrow> int \<Rightarrow> read_buffer" where
  "RBUF_WRITEMOVE rb by = rb\<lparr>write_position := write_position rb + of_int by\<rparr>"

definition rbuf_read_remaining :: "read_buffer \<Rightarrow> int" where
  "rbuf_read_remaining rb = uint (RBUF_READLEN rb)"

definition rbuf_write_remaining :: "read_buffer \<Rightarrow> int" where
  "rbuf_write_remaining rb = int BUFFER_SIZE - uint (RBUF_READLEN rb)"

text \<open>The subtraction of the first branch is on promoted \<open>int\<close>s: it can be negative.\<close>

definition rbuf_read_to_end :: "read_buffer \<Rightarrow> int" where
  "rbuf_read_to_end rb = (let to_end = rbuf_index (read_position rb) in
     if to_end \<le> rbuf_index (write_position rb)
     then uint (write_position rb) - uint (read_position rb)
     else int BUFFER_SIZE - int to_end)"

definition rbuf_write_to_end :: "read_buffer \<Rightarrow> int" where
  "rbuf_write_to_end rb = (let
     to_end = rbuf_index (write_position rb);
     read_pos = rbuf_index (read_position rb)
   in if to_end \<le> read_pos \<and> read_position rb \<noteq> write_position rb
      then int read_pos - int to_end
      else int BUFFER_SIZE - int to_end)"

text \<open>The bytes written to \<open>dest\<close>, and the returned count.\<close>

definition rbuf_copyn :: "read_buffer \<Rightarrow> int \<Rightarrow> (string \<times> int) option" where
  "rbuf_copyn rb n = (let to_end = rbuf_read_to_end rb in
     if n = 0 then Some ([], 0)
     else do {
       let to_read = (if n > to_end then to_end else n);
       dest1 \<leftarrow> rbuf_mem rb (rbuf_index (read_position rb)) to_read;
       let n = n - to_read;
       if n = 0 then Some (dest1, to_read)
       else do {
         let to_end = rbuf_read_remaining rb - to_end;
         if to_end \<noteq> 0 then do {
           let to_end = (if to_end > n then n else to_end);
           dest2 \<leftarrow> rbuf_mem rb 0 to_end;
           Some (dest1 @ dest2, to_read + to_end)
         } else Some (dest1, to_read + to_end)
       }
     })"

text \<open>
  \<open>strncmp\<close> of the C library, on two byte lists of which the second is at least \<open>n\<close> long and the
  end of the first is its terminating NUL. Only the sign of its result is specified; the code
  compares it with 0.
\<close>

fun strncmp :: "string \<Rightarrow> string \<Rightarrow> nat \<Rightarrow> int" where
  "strncmp a b 0 = 0"
| "strncmp a b (Suc n) = (let
     x = (case a of [] \<Rightarrow> 0 | c # _ \<Rightarrow> of_char c);
     y = (case b of [] \<Rightarrow> 0 | c # _ \<Rightarrow> of_char c)
   in if x \<noteq> y then x - y else if x = 0 then 0 else strncmp (tl a) (tl b) n)"

definition rbuf_cmpn :: "read_buffer \<Rightarrow> string \<Rightarrow> int \<Rightarrow> int option" where
  "rbuf_cmpn rb w n =
     (if n = 0 then Some 0
      else if rbuf_read_remaining rb < n then Some (- 1)
      else do {
        let to_end = rbuf_read_to_end rb;
        let to_end = (if n < to_end then n else to_end);
        b1 \<leftarrow> rbuf_mem rb (rbuf_index (read_position rb)) to_end;
        let result = strncmp w b1 (nat to_end);
        let n = n - to_end;
        if n = 0 \<or> result \<noteq> 0 then Some result
        else do {
          b2 \<leftarrow> rbuf_mem rb 0 n;
          Some (strncmp (drop (nat to_end) w) b2 (nat n))
        }
      })"

text \<open>
  One of the two digit loops of \<open>rbuf_strntol\<close>, over the bytes up to the end of the array. Outside:
  undefined behaviour (reading past the array, \<open>int\<close> overflow); inside: \<open>None\<close> for \<open>return false\<close>.
\<close>

definition int32_ok :: "int \<Rightarrow> bool" where
  "int32_ok x \<longleftrightarrow> - 2147483648 \<le> x \<and> x \<le> 2147483647"

fun strntol_loop :: "string \<Rightarrow> int \<Rightarrow> int \<Rightarrow> int option option" where
  "strntol_loop [] n result = (if n = 0 then Some (Some result) else None)"
| "strntol_loop (c # cs) n result =
     (if n = 0 then Some (Some result)
      else let
        result = result * 10;
        number = of_char c - 48
      in if \<not> int32_ok result then None
         else if number > 9 \<or> number < 0 then Some None
         else if \<not> int32_ok (result + number) then None
         else strntol_loop cs (n - 1) (result + number))"

definition rbuf_strntol :: "read_buffer \<Rightarrow> int \<Rightarrow> int option option" where
  "rbuf_strntol rb mx = (let
     n = rbuf_read_to_end rb;
     (n, mx) = (if mx \<noteq> - 1 \<and> mx < n then (mx, mx - mx) else (n, mx));
     buf = rbuf_index (read_position rb)
   in do {
     r \<leftarrow> strntol_loop (map (buffer rb) [buf..<BUFFER_SIZE]) n 0;
     case r of
       None \<Rightarrow> Some None
     | Some result \<Rightarrow>
         if mx \<noteq> 0 then
           (let n = rbuf_read_remaining rb - (- 1) in
            strntol_loop (map (buffer rb) [0..<BUFFER_SIZE]) n result)
         else Some (Some result)
   })"

lemma rbuf_read_remaining_less: "rbuf_read_remaining rb < 65536"
  using uint_lt2p [of "RBUF_READLEN rb"] by (simp add: rbuf_read_remaining_def)

lemma rbuf_read_remaining_nonneg [simp]: "0 \<le> rbuf_read_remaining rb"
  by (simp add: rbuf_read_remaining_def)

text \<open>
  \<open>RBUF_ITERATE\<close>. The client's state \<open>c\<close> holds the buffer (read by \<open>inp\<close>); \<open>p\<close> is the index the
  pointer \<open>buffer\<close> points to and \<open>fin\<close> the variable \<open>end\<close>. The loop condition reads the buffer
  of the current state, so a handler that moves the read position shortens the loop. The result
  has the final state, \<open>n\<close> and \<open>ret\<close>.
\<close>

function rbuf_loop ::
  "('c \<Rightarrow> read_buffer) \<Rightarrow> ('c \<Rightarrow> nat \<Rightarrow> int \<Rightarrow> ('c \<times> state_action) option) \<Rightarrow> int \<Rightarrow>
   'c \<Rightarrow> int \<Rightarrow> nat \<Rightarrow> state_action \<Rightarrow> ('c \<times> int \<times> state_action) option" where
  "rbuf_loop inp inner fin c n p ret =
     (if ret = continue_processing \<and> n < rbuf_read_remaining (inp c) then
        (let p = (if fin = n then 0 else p) in
         case inner c p n of
           None \<Rightarrow> None
         | Some (c', ret') \<Rightarrow> rbuf_loop inp inner fin c' (n + 1) (p + 1) ret')
      else Some (c, n, ret))"
  by auto
termination
  by (relation "measure (\<lambda>(_, _, _, _, n, _, _). nat (65536 - n))")
    (auto intro: less_trans [OF _ rbuf_read_remaining_less])

declare rbuf_loop.simps [simp del]

definition RBUF_ITERATE ::
  "('c \<Rightarrow> read_buffer) \<Rightarrow> ('c \<Rightarrow> nat \<Rightarrow> int \<Rightarrow> ('c \<times> state_action) option) \<Rightarrow>
   'c \<Rightarrow> state_action \<Rightarrow> ('c \<times> int \<times> state_action) option" where
  "RBUF_ITERATE inp inner c ret = do {
     let fin = rbuf_read_to_end (inp c);
     (c, n, ret) \<leftarrow>
       (if fin \<noteq> 0 then rbuf_loop inp inner fin c 0 (rbuf_index (read_position (inp c))) ret
        else Some (c, 0, ret));
     Some (c, n, if ret = continue_processing then needs_more_read else ret)
   }"

text \<open>
  \<open>skip_over_newlines\<close>. One loop is \<open>skip_loop\<close>: the pointer, the iterations left; it returns the
  buffer, the pointer and whether the function returned inside the loop. The second loop goes on
  from the pointer where the first ended.
\<close>

fun skip_loop :: "read_buffer \<Rightarrow> nat \<Rightarrow> nat \<Rightarrow> (read_buffer \<times> nat \<times> bool) option" where
  "skip_loop rb p 0 = Some (rb, p, False)"
| "skip_loop rb p (Suc k) = do {
     c \<leftarrow> rbuf_at rb p;
     if c \<noteq> CHR 0x0D \<and> c \<noteq> CHR 0x0A then Some (rb, p, True)
     else skip_loop (RBUF_READMOVE rb 1) (p + 1) k
   }"

definition skip_over_newlines :: "read_buffer \<Rightarrow> read_buffer option" where
  "skip_over_newlines rb = (let fin = rbuf_read_to_end rb in
     if fin = 0 then Some rb
     else do {
       (rb, p, returned) \<leftarrow> skip_loop rb (rbuf_index (read_position rb)) (nat fin);
       if returned then Some rb
       else do {
         (rb, _, _) \<leftarrow> skip_loop rb p (nat (rbuf_read_remaining rb - fin));
         Some rb
       }
     })"

text \<open>
  The buffer part of \<open>http_read_handle\<close>: an empty buffer is rewound, and the bytes that \<open>read\<close>
  delivers (never more than asked for) are stored from the write position on.
\<close>

definition rbuf_rewind :: "read_buffer \<Rightarrow> read_buffer" where
  "rbuf_rewind rb =
     (if write_position rb = read_position rb then rb\<lparr>write_position := 0, read_position := 0\<rparr> else rb)"

fun store_bytes :: "(nat \<Rightarrow> char) \<Rightarrow> nat \<Rightarrow> string \<Rightarrow> nat \<Rightarrow> char" where
  "store_bytes f i [] = f"
| "store_bytes f i (c # cs) = store_bytes (f(i := c)) (i + 1) cs"

definition rbuf_receive :: "read_buffer \<Rightarrow> string \<Rightarrow> read_buffer option" where
  "rbuf_receive rb data = (let i = rbuf_index (write_position rb) in
     if i + length data \<le> BUFFER_SIZE
     then Some (RBUF_WRITEMOVE (rb\<lparr>buffer := store_bytes (buffer rb) i data\<rparr>)
            (int (length data)))
     else None)"

section \<open>The buffer as a list of bytes\<close>

definition rb_off :: "read_buffer \<Rightarrow> nat" where
  "rb_off rb = rbuf_index (read_position rb)"

definition rb_len :: "read_buffer \<Rightarrow> nat" where
  "rb_len rb = unat (RBUF_READLEN rb)"

definition contents :: "read_buffer \<Rightarrow> string" where
  "contents rb = map (\<lambda>i. buffer rb ((rb_off rb + i) mod BUFFER_SIZE)) [0..<rb_len rb]"

text \<open>What \<open>rbuf_debug_check\<close> asserts: no more than a full buffer is pending.\<close>

definition rb_ok :: "read_buffer \<Rightarrow> bool" where
  "rb_ok rb \<longleftrightarrow> rb_len rb \<le> BUFFER_SIZE"

text \<open>The buffers the scanning operations handle: not full, or full from the initial position on.\<close>

definition rb_scan :: "read_buffer \<Rightarrow> bool" where
  "rb_scan rb \<longleftrightarrow> rb_len rb < BUFFER_SIZE \<or> rb_len rb = BUFFER_SIZE \<and> read_position rb = 0"

lemma rb_scan_ok: "rb_scan rb \<Longrightarrow> rb_ok rb"
  by (auto simp: rb_scan_def rb_ok_def)

lemma length_contents [simp]: "length (contents rb) = rb_len rb"
  by (simp add: contents_def)

lemma nth_contents: "i < rb_len rb \<Longrightarrow> contents rb ! i = buffer rb ((rb_off rb + i) mod BUFFER_SIZE)"
  by (simp add: contents_def)

lemma rbuf_index_mod: "rbuf_index p = unat p mod BUFFER_SIZE"
proof -
  have "p AND 0x3FFF = take_bit 14 p"
    by (simp add: take_bit_eq_mask mask_eq_exp_minus_1)
  then have "rbuf_index p = take_bit 14 (unat p)"
    by (simp only: rbuf_index_def unsigned_take_bit_eq)
  then show ?thesis by (simp add: BUFFER_SIZE_def take_bit_eq_mod)
qed

lemma rbuf_index_less: "rbuf_index p < BUFFER_SIZE"
  by (simp add: rbuf_index_mod BUFFER_SIZE_def)

lemma rb_off_less [simp]: "rb_off rb < BUFFER_SIZE"
  by (simp add: rb_off_def rbuf_index_less)

lemma rb_len_conv: "rb_len rb =
  (if unat (read_position rb) \<le> unat (write_position rb)
   then unat (write_position rb) - unat (read_position rb)
   else unat (write_position rb) + 65536 - unat (read_position rb))"
  by (simp add: rb_len_def RBUF_READLEN_def unat_sub_if' size_word_def)

lemma rbuf_read_remaining_eq: "rbuf_read_remaining rb = int (rb_len rb)"
  by (simp add: rbuf_read_remaining_def rb_len_def)

lemma lap_cases:
  fixes p :: u16
  obtains o' where "unat p = o'" "o' < 16384" "rbuf_index p = o'"
  | o' where "unat p = 16384 + o'" "o' < 16384" "rbuf_index p = o'"
  | o' where "unat p = 32768 + o'" "o' < 16384" "rbuf_index p = o'"
  | o' where "unat p = 49152 + o'" "o' < 16384" "rbuf_index p = o'"
proof -
  have "unat p < 65536" using unsigned_less [of p] by simp
  moreover have "unat p = 16384 * (unat p div 16384) + rbuf_index p"
    by (simp add: rbuf_index_mod BUFFER_SIZE_def)
  moreover have "rbuf_index p < 16384" using rbuf_index_less [of p] by (simp add: BUFFER_SIZE_def)
  moreover define k where "k = unat p div 16384"
  ultimately have p: "unat p = 16384 * k + rbuf_index p" "rbuf_index p < 16384" "k < 4"
    by (simp_all add: k_def)
  from p(3) consider "k = 0" | "k = 1" | "k = 2" | "k = 3" by linarith
  then show thesis by cases (use p that in auto)
qed

lemma uint_unat_u16: "uint (p :: u16) = int (unat p)" by simp

lemma read_to_end_eq:
  assumes "rb_scan rb"
  shows "rbuf_read_to_end rb = int (min (rb_len rb) (BUFFER_SIZE - rb_off rb))"
  using assms
  by (cases "read_position rb" rule: lap_cases; cases "write_position rb" rule: lap_cases)
    (auto simp: rb_scan_def rbuf_read_to_end_def rb_len_conv rb_off_def BUFFER_SIZE_def
      uint_unat_u16 Let_def simp del: uint_nat unat_eq_nat_uint split: if_splits)

lemma write_to_end_eq:
  assumes "rb_ok rb"
  shows "rbuf_write_to_end rb =
    int (min (BUFFER_SIZE - rb_len rb) (BUFFER_SIZE - rbuf_index (write_position rb)))"
  using assms
  by (cases "read_position rb" rule: lap_cases; cases "write_position rb" rule: lap_cases)
    (auto simp: rb_ok_def rbuf_write_to_end_def rb_len_conv BUFFER_SIZE_def word_unat_eq_iff Let_def
      split: if_splits)

lemma write_index:
  "rb_ok rb \<Longrightarrow> rbuf_index (write_position rb) = (rb_off rb + rb_len rb) mod BUFFER_SIZE"
  by (cases "read_position rb" rule: lap_cases; cases "write_position rb" rule: lap_cases)
    (auto simp: rb_ok_def rb_len_conv rb_off_def BUFFER_SIZE_def split: if_splits)

lemma word_move: "0 \<le> n \<Longrightarrow> p + of_int n = p + of_nat (nat n)" for p :: u16
  by simp

lemma len_less: "rb_len rb < 65536"
  unfolding rb_len_def using unsigned_less [of "RBUF_READLEN rb"] by simp

lemma readmove_len:
  assumes "0 \<le> n" and "nat n \<le> rb_len rb"
  shows "rb_len (RBUF_READMOVE rb n) = rb_len rb - nat n"
proof -
  have small: "unat (of_nat (nat n) :: u16) = nat n"
    using assms(2) len_less [of rb] by (simp add: unat_of_nat take_bit_nat_eq_self)
  have "RBUF_READLEN (RBUF_READMOVE rb n) = RBUF_READLEN rb - of_nat (nat n)"
    using assms(1) by (simp add: RBUF_READLEN_def RBUF_READMOVE_def)
  then show ?thesis
    using assms(2) small by (simp add: rb_len_def unat_sub_if')
qed

lemma writemove_len:
  assumes "0 \<le> n" and "rb_len rb + nat n < 65536"
  shows "rb_len (RBUF_WRITEMOVE rb n) = rb_len rb + nat n"
proof -
  have small: "unat (of_nat (nat n) :: u16) = nat n"
    using assms(2) by (simp add: unat_of_nat take_bit_nat_eq_self)
  have "RBUF_READLEN (RBUF_WRITEMOVE rb n) = RBUF_READLEN rb + of_nat (nat n)"
    using assms(1) by (simp add: RBUF_READLEN_def RBUF_WRITEMOVE_def)
  then show ?thesis
    using assms(2) small by (simp add: rb_len_def unat_add_lem [THEN iffD1])
qed

lemma index_move: "rbuf_index (p + of_nat k) = (rbuf_index p + k) mod BUFFER_SIZE"
proof -
  have "unat (p + of_nat k) = (unat p + k) mod 65536"
    by (simp add: unat_word_ariths unat_of_nat mod_add_right_eq)
  moreover have "(x::nat) mod 65536 mod 16384 = x mod 16384" for x
    by (rule mod_mod_cancel) simp
  ultimately show ?thesis by (simp add: rbuf_index_mod BUFFER_SIZE_def mod_add_left_eq)
qed

lemma readmove_off: "0 \<le> n \<Longrightarrow> rb_off (RBUF_READMOVE rb n) = (rb_off rb + nat n) mod BUFFER_SIZE"
  using index_move [of "read_position rb" "nat n"] by (simp add: rb_off_def RBUF_READMOVE_def)

lemma writemove_off [simp]: "rb_off (RBUF_WRITEMOVE rb n) = rb_off rb"
  by (simp add: rb_off_def RBUF_WRITEMOVE_def)

lemma move_buffer [simp]:
  "buffer (RBUF_READMOVE rb n) = buffer rb" "buffer (RBUF_WRITEMOVE rb n) = buffer rb"
  by (simp_all add: RBUF_READMOVE_def RBUF_WRITEMOVE_def)

lemma contents_readmove:
  assumes "0 \<le> n" and "nat n \<le> rb_len rb"
  shows "contents (RBUF_READMOVE rb n) = drop (nat n) (contents rb)"
proof (rule nth_equalityI)
  fix i assume "i < length (contents (RBUF_READMOVE rb n))"
  then have "i < rb_len rb - nat n" by (simp add: readmove_len assms)
  then show "contents (RBUF_READMOVE rb n) ! i = drop (nat n) (contents rb) ! i"
    using assms by (simp add: nth_contents readmove_len readmove_off mod_add_left_eq add.assoc)
qed (simp add: readmove_len assms)

lemma wrap_index:
  "a < BUFFER_SIZE \<Longrightarrow> b \<le> BUFFER_SIZE \<Longrightarrow>
   (a + b) mod BUFFER_SIZE = (if a + b < BUFFER_SIZE then a + b else a + b - BUFFER_SIZE)"
  by (simp add: le_mod_geq)

text \<open>Receiving bytes: they land behind the pending ones and overwrite none of them.\<close>

lemma store_bytes_nth:
  "store_bytes f i cs j = (if i \<le> j \<and> j < i + length cs then cs ! (j - i) else f j)"
proof (induction f i cs rule: store_bytes.induct)
  case (2 f i c cs)
  show ?case unfolding store_bytes.simps 2 by (auto simp: nth_Cons')
qed auto

lemma contents_receive:
  assumes ok: "rb_ok rb" and fits: "int (length data) \<le> rbuf_write_to_end rb"
  shows "\<exists>rb'. rbuf_receive rb data = Some rb' \<and> contents rb' = contents rb @ data
    \<and> read_position rb' = read_position rb \<and> rb_ok rb'"
proof -
  let ?i = "rbuf_index (write_position rb)" and ?L = "rb_len rb" and ?n = "length data"
  from fits have le: "?n \<le> BUFFER_SIZE - ?L" "?n \<le> BUFFER_SIZE - ?i"
    by (simp_all add: write_to_end_eq ok)
  define rb' where
    "rb' = RBUF_WRITEMOVE (rb\<lparr>buffer := store_bytes (buffer rb) ?i data\<rparr>) (int ?n)"
  have i: "?i = (rb_off rb + ?L) mod BUFFER_SIZE"
    using ok by (simp add: write_index)
  have iless: "?i < BUFFER_SIZE" by (rule rbuf_index_less)
  have L: "?L \<le> BUFFER_SIZE" using ok by (simp add: rb_ok_def)
  have recv: "rbuf_receive rb data = Some rb'"
    using le(2) iless by (simp add: rbuf_receive_def rb'_def Let_def)
  have same: "rb_len (rb\<lparr>buffer := b\<rparr>) = ?L" "rb_off (rb\<lparr>buffer := b\<rparr>) = rb_off rb" for b
    by (simp_all add: rb_len_def RBUF_READLEN_def rb_off_def)
  have len: "rb_len rb' = ?L + ?n"
    unfolding rb'_def using le(1) L by (subst writemove_len) (simp_all add: same BUFFER_SIZE_def)
  have off: "rb_off rb' = rb_off rb" by (simp add: rb'_def same)
  have cont: "contents rb' = contents rb @ data"
  proof (rule nth_equalityI)
    fix k assume "k < length (contents rb')"
    then have k: "k < ?L + ?n" by (simp add: len)
    let ?j = "(rb_off rb + k) mod BUFFER_SIZE"
    have at: "contents rb' ! k = store_bytes (buffer rb) ?i data ?j"
      using k by (simp add: nth_contents len off) (simp add: rb'_def)
    show "contents rb' ! k = (contents rb @ data) ! k"
    proof (cases "k < ?L")
      case True
      then have "\<not> (?i \<le> ?j \<and> ?j < ?i + ?n)"
        using le L i rb_off_less [of rb] by (auto simp: wrap_index)
      then have "store_bytes (buffer rb) ?i data ?j = buffer rb ?j" unfolding store_bytes_nth by (rule if_not_P)
      with True show ?thesis by (simp add: at nth_append nth_contents)
    next
      case False
      then obtain d where d: "k = ?L + d" "d < ?n" using k by (auto simp: not_less le_iff_add)
      then have "?j = ?i + d"
        using le L i rb_off_less [of rb] by (auto simp: wrap_index)
      with d at show ?thesis by (simp add: store_bytes_nth nth_append)
    qed
  qed (simp add: len)
  have "read_position rb' = read_position rb" by (simp add: rb'_def RBUF_WRITEMOVE_def)
  moreover have "rb_ok rb'" using le(1) L by (simp add: rb_ok_def len)
  ultimately show ?thesis using recv cont by blast
qed

text \<open>The two stretches of the array that hold the contents.\<close>

definition seg1 :: "read_buffer \<Rightarrow> nat" where
  "seg1 rb = min (rb_len rb) (BUFFER_SIZE - rb_off rb)"

lemma seg1_le: "seg1 rb \<le> rb_len rb" "rb_off rb + seg1 rb \<le> BUFFER_SIZE"
  using less_imp_le [OF rb_off_less [of rb]] by (auto simp: seg1_def)

lemma mem_first:
  assumes "k \<le> seg1 rb"
  shows "rbuf_mem rb (rb_off rb) (int k) = Some (take k (contents rb))"
proof -
  have "map (buffer rb) [rb_off rb..<rb_off rb + k] = take k (contents rb)"
    by (rule nth_equalityI) (use assms seg1_le [of rb] in \<open>auto simp: nth_contents\<close>)
  with assms seg1_le [of rb] show ?thesis by (simp add: rbuf_mem_def)
qed

lemma mem_second:
  assumes "rb_ok rb" and "seg1 rb < rb_len rb" and "seg1 rb + k \<le> rb_len rb"
  shows "rbuf_mem rb 0 (int k) = Some (take k (drop (seg1 rb) (contents rb)))"
proof -
  have s: "seg1 rb = BUFFER_SIZE - rb_off rb" using assms(2) by (auto simp: seg1_def)
  have "map (buffer rb) [0..<k] = take k (drop (seg1 rb) (contents rb))"
  proof (rule nth_equalityI)
    fix i assume "i < length (map (buffer rb) [0..<k])"
    then have i: "i < k" by simp
    have "(rb_off rb + (seg1 rb + i)) mod BUFFER_SIZE = i"
      using less_imp_le [OF rb_off_less [of rb]] i assms by (auto simp: s rb_ok_def wrap_index)
    with i assms show "map (buffer rb) [0..<k] ! i = take k (drop (seg1 rb) (contents rb)) ! i"
      by (simp add: nth_contents)
  qed (use assms in auto)
  moreover have "k \<le> BUFFER_SIZE" using assms by (simp add: rb_ok_def)
  ultimately show ?thesis by (simp add: rbuf_mem_def)
qed

lemma to_end_seg1: "rb_scan rb \<Longrightarrow> rbuf_read_to_end rb = int (seg1 rb)"
  by (simp add: read_to_end_eq seg1_def)

lemma copyn_contents:
  assumes rb: "rb_scan rb"
  shows "rbuf_copyn rb (int n) = Some (take n (contents rb), int (min n (rb_len rb)))"
proof (cases "n \<le> seg1 rb")
  case True
  then have "n \<le> rb_len rb" using seg1_le [of rb] by simp
  with True show ?thesis
    using mem_first [OF True] rb by (simp add: rbuf_copyn_def to_end_seg1 rb_off_def Let_def)
next
  case False
  let ?s = "seg1 rb" and ?L = "rb_len rb"
  have first: "rbuf_mem rb (rb_off rb) (int ?s) = Some (take ?s (contents rb))"
    by (simp add: mem_first)
  show ?thesis
  proof (cases "?s < ?L")
    case True
    define k where "k = min (n - ?s) (?L - ?s)"
    have k: "?s + k \<le> ?L" using True by (auto simp: k_def)
    have "rbuf_mem rb 0 (int k) = Some (take k (drop ?s (contents rb)))"
      by (rule mem_second [OF rb_scan_ok [OF rb] True k])
    moreover have "n < ?L \<Longrightarrow> int n - int ?s = int k" "\<not> n < ?L \<Longrightarrow> int ?L - int ?s = int k"
      using True False by (auto simp: k_def min_def)
    moreover have "take ?s (contents rb) @ take k (drop ?s (contents rb)) = take n (contents rb)"
      using False k by (simp add: take_add [symmetric]) (simp add: k_def min_def)
    moreover have "int ?s + int k = int (min n ?L)" using True False by (auto simp: k_def)
    ultimately show ?thesis using first False True rb
      by (simp add: rbuf_copyn_def to_end_seg1 rb_off_def [symmetric] Let_def rbuf_read_remaining_eq)
  next
    case all: False
    then have "?s = ?L" using seg1_le(1) [of rb] by simp
    with first False rb show ?thesis
      by (simp add: rbuf_copyn_def to_end_seg1 rb_off_def [symmetric] Let_def rbuf_read_remaining_eq)
  qed
qed

subsection \<open>Comparing\<close>

lemma strncmp_zero_iff:
  "CHR 0x00 \<notin> set w \<Longrightarrow> n \<le> length w \<Longrightarrow> n \<le> length b \<Longrightarrow>
   strncmp w b n = 0 \<longleftrightarrow> take n w = take n b"
proof (induction w b n rule: strncmp.induct)
  case (2 a b n)
  then obtain x a' y b' where ab: "a = x # a'" "b = y # b'" by (cases a; cases b) auto
  have "of_char x \<noteq> (of_char (CHR 0x00) :: int)" unfolding of_char_eq_iff using 2(2) ab by auto
  then have "(of_char x :: int) \<noteq> 0" by simp
  with 2 ab show ?case by (auto simp: Let_def)
qed simp

lemma cmpn_contents:
  assumes rb: "rb_scan rb" and w: "CHR 0x00 \<notin> set w"
  shows "\<exists>r. rbuf_cmpn rb w (int (length w)) = Some r \<and> (r = 0 \<longleftrightarrow> take (length w) (contents rb) = w)"
proof -
  let ?n = "length w" and ?s = "seg1 rb" and ?L = "rb_len rb"
  consider "?n = 0" | "0 < ?n" "?L < ?n" | "0 < ?n" "?n \<le> ?s" | "?s < ?n" "?n \<le> ?L"
    using seg1_le(1) [of rb] by linarith
  then show ?thesis
  proof cases
    case 2
    then have "take ?n (contents rb) \<noteq> w" by (metis length_contents length_take min.absorb1 nat_less_le)
    with 2 show ?thesis by (simp add: rbuf_cmpn_def rbuf_read_remaining_eq)
  next
    case 3
    then have "?n \<le> ?L" using seg1_le(1) [of rb] by simp
    with 3 rb w mem_first [OF 3(2)] strncmp_zero_iff [OF w, of ?n "take ?n (contents rb)"]
    show ?thesis
      by (auto simp: rbuf_cmpn_def rbuf_read_remaining_eq to_end_seg1 rb_off_def [symmetric] Let_def min_def)
  next
    case 4
    let ?b1 = "take ?s (contents rb)" and ?b2 = "take (?n - ?s) (drop ?s (contents rb))"
    have m2: "rbuf_mem rb 0 (int ?n - int ?s) = Some ?b2"
      using mem_second [OF rb_scan_ok [OF rb], of "?n - ?s"] 4 by (simp add: of_nat_diff)
    have z1: "strncmp w ?b1 ?s = 0 \<longleftrightarrow> take ?s w = ?b1"
      using strncmp_zero_iff [OF w, of ?s ?b1] 4 seg1_le(1) [of rb] by simp
    have z2: "strncmp (drop ?s w) ?b2 (?n - ?s) = 0 \<longleftrightarrow> drop ?s w = ?b2"
      using strncmp_zero_iff [of "drop ?s w" "?n - ?s" ?b2] w 4 by (auto dest: in_set_dropD)
    have "take ?n (contents rb) = ?b1 @ ?b2" using 4 by (simp add: take_add [symmetric])
    then have eq: "take ?n (contents rb) = w \<longleftrightarrow> take ?s w = ?b1 \<and> drop ?s w = ?b2"
      using 4 seg1_le(1) [of rb] by (metis append_eq_conv_conj append_take_drop_id length_contents
          length_take min.absorb2)
    have nn: "nat (int ?n - int ?s) = ?n - ?s" by simp
    have "w \<noteq> []" using 4 by auto
    then show ?thesis using 4 rb m2 z1 z2 nn eq mem_first [of ?s rb]
      by (simp add: rbuf_cmpn_def rbuf_read_remaining_eq to_end_seg1 rb_off_def [symmetric] Let_def)
  qed (simp add: rbuf_cmpn_def)
qed

subsection \<open>Scanning\<close>

text \<open>
  \<open>RBUF_ITERATE\<close> on the list of pending bytes: the handler gets each byte with its number, until
  it returns something else than \<open>continue_processing\<close>. The counter is one more than the number of
  the byte at which it stopped.
\<close>

fun scan_list ::
  "('c \<Rightarrow> char \<Rightarrow> int \<Rightarrow> ('c \<times> state_action) option) \<Rightarrow> 'c \<Rightarrow> int \<Rightarrow> string \<Rightarrow>
   ('c \<times> int \<times> state_action) option" where
  "scan_list f c n [] = Some (c, n, needs_more_read)"
| "scan_list f c n (x # xs) = (case f c x n of
     None \<Rightarrow> None
   | Some (c', ret) \<Rightarrow> if ret = continue_processing then scan_list f c' (n + 1) xs else Some (c', n + 1, ret))"

definition finish_iterate :: "('c \<times> int \<times> state_action) option \<Rightarrow> ('c \<times> int \<times> state_action) option" where
  "finish_iterate r = map_option (\<lambda>(c, n, ret). (c, n, if ret = continue_processing then needs_more_read else ret)) r"

lemma rbuf_loop_scan:
  assumes rb: "rb_scan rb"
    and inner: "\<And>c k. inp c = rb \<Longrightarrow> k < rb_len rb \<Longrightarrow>
      inner c ((rb_off rb + k) mod BUFFER_SIZE) (int k) = f c (contents rb ! k) (int k)"
    and keep: "\<And>c x k c'. inp c = rb \<Longrightarrow> f c x k = Some (c', continue_processing) \<Longrightarrow> inp c' = rb"
  shows "inp c = rb \<Longrightarrow> k \<le> rb_len rb \<Longrightarrow>
    (k < seg1 rb \<Longrightarrow> p = rb_off rb + k) \<Longrightarrow> (seg1 rb < k \<Longrightarrow> p = k - seg1 rb) \<Longrightarrow>
    finish_iterate (rbuf_loop inp inner (int (seg1 rb)) c (int k) p continue_processing)
      = scan_list f c (int k) (drop k (contents rb))"
proof (induction "rb_len rb - k" arbitrary: c k p)
  case 0
  then show ?case by (simp add: rbuf_loop.simps rbuf_read_remaining_eq finish_iterate_def)
next
  case (Suc d)
  then have k: "k < rb_len rb" by simp
  define q where "q = (if seg1 rb = k then 0 else p)"
  have q: "q = (rb_off rb + k) mod BUFFER_SIZE"
    using Suc.prems k less_imp_le [OF rb_off_less [of rb]] rb_scan_ok [OF rb]
    by (auto simp: q_def seg1_def rb_ok_def wrap_index min_def split: if_splits)
  have dk: "drop k (contents rb) = contents rb ! k # drop (Suc k) (contents rb)"
    using k by (simp add: Cons_nth_drop_Suc)
  have step: "rbuf_loop inp inner (int (seg1 rb)) c (int k) p continue_processing =
    (case f c (contents rb ! k) (int k) of None \<Rightarrow> None
     | Some (c', ret) \<Rightarrow> rbuf_loop inp inner (int (seg1 rb)) c' (int (Suc k)) (Suc q) ret)"
  proof -
    have h: "int (Suc k) = int k + 1" "Suc q = q + 1" by simp_all
    show ?thesis unfolding h using inner [OF Suc.prems(1) k, folded q] k Suc.prems(1)
      by (subst rbuf_loop.simps) (simp add: rbuf_read_remaining_eq q_def [symmetric] Let_def)
  qed
  show ?case
  proof (cases "f c (contents rb ! k) (int k)")
    case None
    then show ?thesis by (simp add: step dk finish_iterate_def)
  next
    case (Some r)
    obtain c' ret where r: "r = (c', ret)" by (cases r)
    show ?thesis
    proof (cases "ret = continue_processing")
      case True
      have "finish_iterate (rbuf_loop inp inner (int (seg1 rb)) c' (int (Suc k)) (Suc q) continue_processing)
        = scan_list f c' (int (Suc k)) (drop (Suc k) (contents rb))"
      proof (rule Suc.hyps)
        show "inp c' = rb" using keep [OF Suc.prems(1)] Some r True by blast
        show "Suc k < seg1 rb \<Longrightarrow> Suc q = rb_off rb + Suc k"
          using Suc.prems by (simp add: q_def)
        show "seg1 rb < Suc k \<Longrightarrow> Suc q = Suc k - seg1 rb"
          using Suc.prems by (auto simp: q_def)
      qed (use Suc.hyps(2) k in auto)
      with True Some r show ?thesis by (simp add: step dk add.commute)
    next
      case False
      then show ?thesis using Some r
        by (simp add: step dk finish_iterate_def rbuf_loop.simps [of _ _ _ _ _ _ ret])
    qed
  qed
qed

lemma iterate_scan:
  assumes rb: "rb_scan (inp c)"
    and inner: "\<And>c' k. inp c' = inp c \<Longrightarrow> k < rb_len (inp c) \<Longrightarrow>
      inner c' ((rb_off (inp c) + k) mod BUFFER_SIZE) (int k) = f c' (contents (inp c) ! k) (int k)"
    and keep: "\<And>c' x k c''. inp c' = inp c \<Longrightarrow> f c' x k = Some (c'', continue_processing) \<Longrightarrow> inp c'' = inp c"
  shows "RBUF_ITERATE inp inner c continue_processing = scan_list f c 0 (contents (inp c))"
proof (cases "rb_len (inp c) = 0")
  case True
  then have "contents (inp c) = []" by (simp add: contents_def)
  with True rb show ?thesis by (simp add: RBUF_ITERATE_def to_end_seg1 seg1_def)
next
  case False
  then have s: "seg1 (inp c) \<noteq> 0" using rb_off_less [of "inp c"] by (simp add: seg1_def)
  have "RBUF_ITERATE inp inner c continue_processing = finish_iterate
     (rbuf_loop inp inner (int (seg1 (inp c))) c (int 0) (rb_off (inp c)) continue_processing)"
    using s rb by (cases "rbuf_loop inp inner (int (seg1 (inp c))) c 0 (rb_off (inp c)) continue_processing")
      (auto simp: RBUF_ITERATE_def to_end_seg1 finish_iterate_def rb_off_def [symmetric])
  also have "\<dots> = scan_list f c (int 0) (drop 0 (contents (inp c)))"
    by (rule rbuf_loop_scan [where rb = "inp c" and inp = inp and inner = inner and f = f, OF rb inner keep]) auto
  finally show ?thesis by simp
qed

subsection \<open>Numbers\<close>

definition is_digit :: "char \<Rightarrow> bool" where
  "is_digit c \<longleftrightarrow> 48 \<le> (of_char c :: int) \<and> (of_char c :: int) \<le> 57"

text \<open>The number a digit string denotes, read on from \<open>r\<close>.\<close>

definition dec_value :: "int \<Rightarrow> string \<Rightarrow> int" where
  "dec_value r cs = foldl (\<lambda>r c. r * 10 + (of_char c - 48)) r cs"

lemma dec_value_simps [simp]:
  "dec_value r [] = r" "dec_value r (c # cs) = dec_value (r * 10 + (of_char c - 48)) cs"
  by (simp_all add: dec_value_def)

lemma dec_value_ge: "0 \<le> r \<Longrightarrow> \<forall>c\<in>set cs. is_digit c \<Longrightarrow> r \<le> dec_value r cs"
proof (induction cs arbitrary: r)
  case (Cons c cs)
  have "0 \<le> r * 10 + (of_char c - 48)" "r \<le> r * 10 + (of_char c - 48)"
    using Cons.prems by (auto simp: is_digit_def)
  moreover from this(1) have "r * 10 + (of_char c - 48) \<le> dec_value (r * 10 + (of_char c - 48)) cs"
    using Cons by simp
  ultimately show ?case by simp
qed simp

lemma dec_value_less:
  "0 \<le> r \<Longrightarrow> \<forall>c\<in>set cs. is_digit c \<Longrightarrow> dec_value r cs < (r + 1) * 10 ^ length cs"
proof (induction cs arbitrary: r)
  case (Cons c cs)
  have "0 \<le> r * 10 + (of_char c - 48)" and d: "r * 10 + (of_char c - 48) + 1 \<le> (r + 1) * 10"
    using Cons.prems by (auto simp: is_digit_def)
  then have "dec_value r (c # cs) < (r * 10 + (of_char c - 48) + 1) * 10 ^ length cs"
    using Cons.IH [of "r * 10 + (of_char c - 48)"] Cons.prems by simp
  also have "\<dots> \<le> (r + 1) * 10 * 10 ^ length cs" using d by (rule mult_right_mono) simp
  finally show ?case by (simp only: mult.assoc length_Cons power_Suc)
qed simp

lemma strntol_loop_digits:
  "0 \<le> m \<Longrightarrow> 0 \<le> r \<Longrightarrow> \<forall>c\<in>set ds. is_digit c \<Longrightarrow> int32_ok (dec_value r ds) \<Longrightarrow>
   strntol_loop (ds @ rest) (int (length ds) + m) r = strntol_loop rest m (dec_value r ds)"
proof (induction ds arbitrary: r)
  case (Cons c ds)
  let ?r = "r * 10 + (of_char c - 48)"
  have c: "is_digit c" and r: "0 \<le> ?r" using Cons.prems by (auto simp: is_digit_def)
  have "?r \<le> dec_value ?r ds" using Cons.prems r by (intro dec_value_ge) auto
  then have ok: "int32_ok ?r" "int32_ok (r * 10)"
    using Cons.prems c by (auto simp: int32_ok_def is_digit_def)
  have "strntol_loop ((c # ds) @ rest) (int (length (c # ds)) + m) r
     = strntol_loop (ds @ rest) (int (length ds) + m) ?r"
    using ok c Cons.prems(1) by (auto simp: Let_def is_digit_def)
  also have "\<dots> = strntol_loop rest m (dec_value ?r ds)"
    by (rule Cons.IH) (use Cons.prems r in auto)
  finally show ?case by simp
qed simp

lemma strntol_loop_stop: "strntol_loop cs 0 r = Some (Some r)"
  by (cases cs) simp_all

lemma strntol_loop_reject:
  "n \<noteq> 0 \<Longrightarrow> \<not> is_digit c \<Longrightarrow> int32_ok (r * 10) \<Longrightarrow> strntol_loop (c # cs) n r = Some None"
  by (auto simp: Let_def is_digit_def)

text \<open>A stretch of bytes with a byte that is no digit is never read as a number.\<close>

lemma strntol_loop_nondigit:
  "i < length cs \<Longrightarrow> int i < n \<Longrightarrow> \<not> is_digit (cs ! i) \<Longrightarrow> strntol_loop cs n r \<noteq> Some (Some v)"
proof (induction cs n r arbitrary: i rule: strntol_loop.induct)
  case (2 c cs n r)
  then show ?case
  proof (cases i)
    case 0
    with 2 show ?thesis by (auto simp: Let_def is_digit_def)
  next
    case (Suc j)
    let ?r = "r * 10 + (of_char c - 48)"
    have "strntol_loop cs (n - 1) ?r \<noteq> Some (Some v)"
      if "int32_ok (r * 10)" "\<not> (of_char c - 48 > (9 :: int) \<or> of_char c - 48 < (0 :: int))" "int32_ok ?r"
      using 2(1) [of "r * 10" "of_char c - 48" j] 2(2-4) Suc that by simp
    then show ?thesis using 2(3) Suc by (auto simp: Let_def)
  qed
qed simp

lemma array_first: "map (buffer rb) [rb_off rb..<BUFFER_SIZE]
    = take (seg1 rb) (contents rb) @ map (buffer rb) [rb_off rb + seg1 rb..<BUFFER_SIZE]"
proof -
  have "map (buffer rb) [rb_off rb..<rb_off rb + seg1 rb] = take (seg1 rb) (contents rb)"
    using mem_first [of "seg1 rb" rb] seg1_le(2) [of rb] by (simp add: rbuf_mem_def)
  moreover have "[rb_off rb..<BUFFER_SIZE] = [rb_off rb..<rb_off rb + seg1 rb] @ [rb_off rb + seg1 rb..<BUFFER_SIZE]"
    using seg1_le(2) [of rb] by (metis le_add1 le_Suc_ex upt_add_eq_append)
  ultimately show ?thesis by simp
qed

lemma strntol_contents:
  assumes rb: "rb_scan rb" and n: "n < seg1 rb" and ds: "\<forall>c\<in>set (take n (contents rb)). is_digit c"
    and val: "dec_value 0 (take n (contents rb)) \<le> 2147483647"
  shows "rbuf_strntol rb (int n) = Some (Some (dec_value 0 (take n (contents rb))))"
proof -
  let ?ds = "take n (contents rb)"
  have len: "length ?ds = n" using n seg1_le(1) [of rb] by simp
  have "take (seg1 rb) (contents rb) = ?ds @ take (seg1 rb - n) (drop n (contents rb))"
    using n by (simp add: take_add [symmetric])
  then have "strntol_loop (map (buffer rb) [rb_off rb..<BUFFER_SIZE]) (int (length ?ds) + 0) 0
      = Some (Some (dec_value 0 ?ds))"
    using strntol_loop_digits [of 0 0 ?ds] ds val dec_value_ge [of 0 ?ds]
    by (simp add: array_first int32_ok_def strntol_loop_stop del: length_take)
  then show ?thesis using n rb len
    by (simp add: rbuf_strntol_def to_end_seg1 rb_off_def [symmetric] Let_def)
qed

text \<open>
  A number that crosses the end of the array (here: whose first byte that is not a digit lies
  beyond it, but within the pending bytes) is never read: the second loop runs over
  \<open>rbuf_read_remaining + 1\<close> bytes, and so over that byte too.
\<close>

lemma strntol_wrapped:
  assumes rb: "rb_scan rb" and n: "seg1 rb \<le> n" "n < rb_len rb"
    and stop: "\<not> is_digit (contents rb ! n)"
  shows "rbuf_strntol rb (int n) \<noteq> Some (Some v)"
proof -
  have ok: "rb_len rb \<le> BUFFER_SIZE" using rb_scan_ok [OF rb] by (simp add: rb_ok_def)
  have s: "seg1 rb = BUFFER_SIZE - rb_off rb" "0 < seg1 rb"
    using n rb_off_less [of rb] by (auto simp: seg1_def)
  let ?i = "n - seg1 rb"
  have i: "?i < BUFFER_SIZE" "int ?i < int (rb_len rb) + 1" using n ok by auto
  have "(rb_off rb + n) mod BUFFER_SIZE = ?i"
    using n ok s less_imp_le [OF rb_off_less [of rb]] by (auto simp: wrap_index)
  then have "\<not> is_digit (map (buffer rb) [0..<BUFFER_SIZE] ! ?i)"
    using stop n i by (simp add: nth_contents)
  then have no: "strntol_loop (map (buffer rb) [0..<BUFFER_SIZE]) (int (rb_len rb) + 1) r \<noteq> Some (Some v)" for r
    by (rule strntol_loop_nondigit [rotated 2]) (use i in auto)
  have n0: "int n \<noteq> 0" using n(1) s(2) by linarith
  show ?thesis using n n0 no rb
    by (auto simp: rbuf_strntol_def to_end_seg1 rb_off_def [symmetric] Let_def rbuf_read_remaining_eq
        bind_Some_iff split: option.splits)
qed

subsection \<open>A full buffer that does not start at index 0\<close>

lemma full_to_end:
  assumes "rb_len rb = BUFFER_SIZE"
  shows "rbuf_read_to_end rb = 16384 \<or> rbuf_read_to_end rb = - 49152"
  using assms
  by (cases "read_position rb" rule: lap_cases; cases "write_position rb" rule: lap_cases)
    (auto simp: rbuf_read_to_end_def rb_len_conv rb_off_def BUFFER_SIZE_def
      uint_unat_u16 Let_def simp del: uint_nat unat_eq_nat_uint split: if_splits)

lemma full_copyn:
  assumes "rb_len rb = BUFFER_SIZE" and "BUFFER_SIZE - rb_off rb < n" and "n \<le> BUFFER_SIZE"
  shows "rbuf_copyn rb (int n) = None"
  using full_to_end [OF assms(1)] assms(2,3)
  by (auto simp: rbuf_copyn_def rbuf_mem_def rb_off_def [symmetric] BUFFER_SIZE_def Let_def)

subsection \<open>Skipping line ends\<close>

definition is_eol :: "char \<Rightarrow> bool" where
  "is_eol c \<longleftrightarrow> c = CHR 0x0D \<or> c = CHR 0x0A"

lemma skip_loop_dropWhile:
  assumes "p = rb_off rb" and "k \<le> seg1 rb"
  shows "\<exists>rb'. skip_loop rb p k
     = Some (rb', p + length (takeWhile is_eol (take k (contents rb))), \<exists>c\<in>set (take k (contents rb)). \<not> is_eol c)
   \<and> contents rb' = drop (length (takeWhile is_eol (take k (contents rb)))) (contents rb)"
  using assms
proof (induction k arbitrary: rb p)
  case (Suc k)
  have L: "0 < rb_len rb" using Suc.prems seg1_le(1) [of rb] by simp
  then obtain c cs where cs: "contents rb = c # cs"
    by (metis length_contents list.exhaust list.size(3) less_irrefl)
  have "contents rb ! 0 = buffer rb (rb_off rb)" using L by (simp add: nth_contents)
  then have c: "rbuf_at rb (rb_off rb) = Some c" by (simp add: rbuf_at_def cs)
  show ?case
  proof (cases "is_eol c")
    case False
    then show ?thesis using c Suc.prems by (auto simp: cs is_eol_def)
  next
    case True
    let ?rb = "RBUF_READMOVE rb 1"
    have rest: "contents ?rb = cs" using contents_readmove [of 1 rb] L by (simp add: cs)
    show ?thesis
    proof (cases k)
      case 0
      then show ?thesis using c True Suc.prems rest by (auto simp: cs is_eol_def)
    next
      case (Suc k')
      then have lt: "rb_off rb + 1 < BUFFER_SIZE" using \<open>Suc k \<le> seg1 rb\<close> seg1_le(2) [of rb] by simp
      have off: "rb_off ?rb = rb_off rb + 1" using lt by (simp add: readmove_off)
      have "k \<le> seg1 ?rb"
        using \<open>Suc k \<le> seg1 rb\<close> L off lt by (auto simp: seg1_def readmove_len)
      from Suc.IH [of "rb_off rb + 1" ?rb, OF off [symmetric] this] rest c True Suc.prems
      show ?thesis by (auto simp: cs is_eol_def)
    qed
  qed
qed simp

lemma skip_newlines_contents:
  assumes rb: "rb_scan rb"
    and stop: "seg1 rb = rb_len rb \<or> (\<exists>i < seg1 rb. \<not> is_eol (contents rb ! i))"
  shows "\<exists>rb'. skip_over_newlines rb = Some rb' \<and> contents rb' = dropWhile is_eol (contents rb)"
proof (cases "seg1 rb = 0")
  case True
  then have "rb_len rb = 0" 
    using rb_off_less [of rb] unfolding seg1_def by linarith
  then have "contents rb = []" by (simp add: contents_def)
  with True rb show ?thesis by (simp add: skip_over_newlines_def to_end_seg1)
next
  case False
  let ?x = "take (seg1 rb) (contents rb)"
  let ?m = "length (takeWhile is_eol ?x)"
  obtain rb' where rb': "skip_loop rb (rb_off rb) (seg1 rb)
      = Some (rb', rb_off rb + ?m, \<exists>c\<in>set ?x. \<not> is_eol c)" "contents rb' = drop ?m (contents rb)"
    using skip_loop_dropWhile [of "rb_off rb" rb "seg1 rb"] by auto
  have tw: "takeWhile is_eol ?x = takeWhile is_eol (contents rb)"
    if "(\<exists>c\<in>set ?x. \<not> is_eol c) \<or> seg1 rb = rb_len rb"
    using that
  proof
    assume "\<exists>c\<in>set ?x. \<not> is_eol c"
    then have "takeWhile is_eol (?x @ drop (seg1 rb) (contents rb)) = takeWhile is_eol ?x"
      by (blast intro: takeWhile_append1)
    then show ?thesis by simp
  qed simp
  have drop: "drop ?m (contents rb) = dropWhile is_eol (contents rb)"
    if "(\<exists>c\<in>set ?x. \<not> is_eol c) \<or> seg1 rb = rb_len rb"
    using tw [OF that] by (simp add: dropWhile_eq_drop)
  show ?thesis
  proof (cases "\<exists>c\<in>set ?x. \<not> is_eol c")
    case True
    with rb' drop False rb show ?thesis
      by (auto simp: skip_over_newlines_def to_end_seg1 rb_off_def [symmetric] Let_def)
  next
    case all: False
    with stop have eq: "seg1 rb = rb_len rb"
      using seg1_le(1) [of rb] by (fastforce simp: in_set_conv_nth)
    moreover from all have "takeWhile is_eol ?x = ?x" by (simp add: takeWhile_eq_all_conv)
    ultimately have "?m = rb_len rb" by (simp only: length_take length_contents)
    then have "contents rb' = []" using rb'(2) by simp
    then have "rb_len rb' = 0" by (metis length_contents list.size(3))
    with rb'(1) all False rb eq drop rb'(2) show ?thesis
      by (auto simp: skip_over_newlines_def to_end_seg1 rb_off_def [symmetric] Let_def rbuf_read_remaining_eq)
  qed
qed


section \<open>The interface: a queue of bytes\<close>

text \<open>
  What the parser relies on: bytes come out in the order they went in. \<open>room\<close> is how many bytes may
  be received next.
\<close>

datatype stream_op = Receive string | Consume nat

fun stream_run ::
  "('s \<Rightarrow> string \<Rightarrow> 's option) \<Rightarrow> ('s \<Rightarrow> nat \<Rightarrow> string option) \<Rightarrow> ('s \<Rightarrow> nat \<Rightarrow> 's) \<Rightarrow>
   's \<Rightarrow> stream_op list \<Rightarrow> (string \<times> 's) option" where
  "stream_run push peek advance s [] = Some ([], s)"
| "stream_run push peek advance s (Receive d # ops) =
     do { s \<leftarrow> push s d; stream_run push peek advance s ops }"
| "stream_run push peek advance s (Consume n # ops) = do {
     x \<leftarrow> peek s n;
     (y, s) \<leftarrow> stream_run push peek advance (advance s (length x)) ops;
     Some (x @ y, s)
   }"

text \<open>Every \<open>Receive\<close> of the run finds enough room.\<close>

fun stream_fits ::
  "('s \<Rightarrow> nat) \<Rightarrow> ('s \<Rightarrow> string \<Rightarrow> 's option) \<Rightarrow> ('s \<Rightarrow> nat \<Rightarrow> string option) \<Rightarrow> ('s \<Rightarrow> nat \<Rightarrow> 's) \<Rightarrow>
   's \<Rightarrow> stream_op list \<Rightarrow> bool" where
  "stream_fits room push peek advance s [] = True"
| "stream_fits room push peek advance s (Receive d # ops) = (length d \<le> room s \<and>
     (case push s d of None \<Rightarrow> True | Some s \<Rightarrow> stream_fits room push peek advance s ops))"
| "stream_fits room push peek advance s (Consume n # ops) =
     (case peek s n of None \<Rightarrow> True
      | Some x \<Rightarrow> stream_fits room push peek advance (advance s (length x)) ops)"

fun received :: "stream_op list \<Rightarrow> string" where
  "received [] = []"
| "received (Receive d # ops) = d @ received ops"
| "received (Consume n # ops) = received ops"

locale byte_stream =
  fixes valid :: "'s \<Rightarrow> bool"
    and bytes :: "'s \<Rightarrow> string"
    and room :: "'s \<Rightarrow> nat"
    and push :: "'s \<Rightarrow> string \<Rightarrow> 's option"
    and peek :: "'s \<Rightarrow> nat \<Rightarrow> string option"
    and advance :: "'s \<Rightarrow> nat \<Rightarrow> 's"
  assumes push_law: "valid s \<Longrightarrow> length d \<le> room s \<Longrightarrow>
      \<exists>s'. push s d = Some s' \<and> valid s' \<and> bytes s' = bytes s @ d"
    and peek_law: "valid s \<Longrightarrow> peek s n = Some (take n (bytes s))"
    and advance_law: "valid s \<Longrightarrow> n \<le> length (bytes s) \<Longrightarrow>
      valid (advance s n) \<and> bytes (advance s n) = drop n (bytes s)"
begin

lemma run_in_order:
  "valid s \<Longrightarrow> stream_fits room push peek advance s ops \<Longrightarrow>
   \<exists>out s'. stream_run push peek advance s ops = Some (out, s') \<and> valid s'
     \<and> out @ bytes s' = bytes s @ received ops"
proof (induction ops arbitrary: s)
  case (Cons op ops)
  show ?case
  proof (cases op)
    case (Receive d)
    with Cons.prems obtain s1 where "push s d = Some s1" "valid s1" "bytes s1 = bytes s @ d"
      using push_law by fastforce
    with Cons Receive show ?thesis by fastforce
  next
    case (Consume n)
    let ?s = "advance s (length (take n (bytes s)))"
    have "drop (length (take n (bytes s))) (bytes s) = drop n (bytes s)"
      by (cases "n \<le> length (bytes s)") auto
    then have "valid ?s" and b: "bytes ?s = drop n (bytes s)"
      using advance_law [OF Cons.prems(1), of "length (take n (bytes s))"] by simp_all
    with Cons Consume obtain out s' where
      "stream_run push peek advance ?s ops = Some (out, s')" "valid s'"
      "out @ bytes s' = bytes ?s @ received ops"
      by (fastforce simp: peek_law [OF Cons.prems(1)])
    moreover have "take n (bytes s) @ drop n (bytes s) @ received ops = bytes s @ received ops"
      by (simp add: append_assoc [symmetric] del: append_assoc)
    ultimately show ?thesis by (simp add: Consume peek_law [OF Cons.prems(1)] b [simplified])
  qed
qed simp

end

definition rb_room :: "read_buffer \<Rightarrow> nat" where
  "rb_room rb = min (nat (rbuf_write_to_end rb)) (BUFFER_SIZE - 1 - rb_len rb)"

definition rb_peek :: "read_buffer \<Rightarrow> nat \<Rightarrow> string option" where
  "rb_peek rb n = map_option fst (rbuf_copyn rb (int n))"

definition rb_advance :: "read_buffer \<Rightarrow> nat \<Rightarrow> read_buffer" where
  "rb_advance rb n = RBUF_READMOVE rb (int n)"

interpretation ring: byte_stream "\<lambda>rb. rb_len rb < BUFFER_SIZE" contents rb_room rbuf_receive rb_peek rb_advance
proof
  fix rb and d :: string
  assume rb: "rb_len rb < BUFFER_SIZE" and "length d \<le> rb_room rb"
  then have d: "length d \<le> nat (rbuf_write_to_end rb)" "length d \<le> BUFFER_SIZE - 1 - rb_len rb"
    by (simp_all add: rb_room_def)
  have ok: "rb_ok rb" using rb by (simp add: rb_ok_def)
  have "int (length d) \<le> rbuf_write_to_end rb" using d(1) by (simp add: write_to_end_eq [OF ok])
  from contents_receive [OF ok this] obtain rb' where
    rb': "rbuf_receive rb d = Some rb'" "contents rb' = contents rb @ d" by blast
  then have "rb_len rb' = rb_len rb + length d" by (metis length_append length_contents)
  with rb rb' d(2) show "\<exists>s'. rbuf_receive rb d = Some s' \<and> rb_len s' < BUFFER_SIZE \<and> contents s' = contents rb @ d"
    by auto
next
  fix rb n
  assume "rb_len rb < BUFFER_SIZE"
  then show "rb_peek rb n = Some (take n (contents rb))"
    by (simp add: rb_peek_def copyn_contents rb_scan_def)
next
  fix rb n
  assume "rb_len rb < BUFFER_SIZE" and "n \<le> length (contents rb)"
  then show "rb_len (rb_advance rb n) < BUFFER_SIZE \<and> contents (rb_advance rb n) = drop n (contents rb)"
    by (simp add: rb_advance_def contents_readmove readmove_len)
qed

section \<open>Properties\<close>

text \<open>
  Buffers for concrete instances: \<open>s\<close> is pending, its first \<open>k\<close> bytes at the end of the array and
  the others at its start.
\<close>

definition ring_of :: "nat \<Rightarrow> string \<Rightarrow> read_buffer" where
  "ring_of k s = \<lparr>
     buffer = (\<lambda>i. if i + k < BUFFER_SIZE then s ! (i + k) else s ! (i + k - BUFFER_SIZE)),
     read_position = of_nat (BUFFER_SIZE - k), write_position = of_nat (BUFFER_SIZE - k) + of_nat (length s)\<rparr>"

lemmas ring_of_eval = ring_of_def contents_def rb_len_def rb_off_def RBUF_READLEN_def rbuf_index_mod
  BUFFER_SIZE_def seg1_def rb_scan_def upt_rec

lemmas ring_run_eval = ring_of_eval rbuf_copyn_def rbuf_mem_def rbuf_read_to_end_def
  rbuf_read_remaining_def Let_def rb_room_def rb_peek_def rb_advance_def rbuf_receive_def
  rbuf_write_to_end_def RBUF_READMOVE_def RBUF_WRITEMOVE_def word_unat_eq_iff

text \<open>
  C23. However bytes are received into the ring buffer and consumed from it, they come out in the
  order they went in and none is lost or made up, across any number of wrap-arounds of the 16-bit
  positions, as long as one byte of the buffer stays free.
\<close>

theorem rbuf_fifo:
  assumes "rb_len rb < BUFFER_SIZE"
    and "stream_fits rb_room rbuf_receive rb_peek rb_advance rb ops"
  shows "\<exists>out rb'. stream_run rbuf_receive rb_peek rb_advance rb ops = Some (out, rb')
    \<and> out @ contents rb' = contents rb @ received ops"
  using ring.run_in_order [OF assms] by blast

theorem rbuf_fifo_witness:
  "\<exists>out rb'. stream_run rbuf_receive rb_peek rb_advance (ring_of 2 ''abc'') [Receive ''xy'', Consume 4] = Some (out, rb')
    \<and> out @ contents rb' = ''abcxy''"
proof -
  have c: "contents (ring_of 2 ''abc'') = ''abc''" by (simp add: ring_of_eval)
  have "rb_len (ring_of 2 ''abc'') < BUFFER_SIZE" by (simp add: ring_of_eval)
  moreover have "rbuf_write_to_end (ring_of 2 ''abc'') = 16381" by (simp add: ring_run_eval)
  then have "rb_room (ring_of 2 ''abc'') = 16380" by (simp add: rb_room_def ring_of_eval)
  then have "stream_fits rb_room rbuf_receive rb_peek rb_advance (ring_of 2 ''abc'') [Receive ''xy'', Consume 4]"
    by (simp split: option.split)
  ultimately show ?thesis using rbuf_fifo [of "ring_of 2 ''abc''" "[Receive ''xy'', Consume 4]"] by (simp add: c)
qed

text \<open>
  \<open>rbuf_copyn\<close> copies the first \<open>n\<close> pending bytes, over the end of the array when they wrap
  around, and returns how many there were.
\<close>

theorem rbuf_copyn_correct:
  "rb_scan rb \<Longrightarrow> rbuf_copyn rb (int n) = Some (take n (contents rb), int (min n (rb_len rb)))"
  by (rule copyn_contents)

theorem rbuf_copyn_correct_witness:
  "rbuf_copyn (ring_of 2 ''abcde'') (int 4) = Some (''abcd'', 4)"
  using rbuf_copyn_correct [of "ring_of 2 ''abcde''" 4] by (simp add: ring_of_eval)

text \<open>
  \<open>rbuf_cmpn\<close> with a word free of NUL and its length returns 0 exactly when the pending bytes
  start with that word; it never reads outside the array.
\<close>

theorem rbuf_cmpn_correct:
  "rb_scan rb \<Longrightarrow> CHR 0x00 \<notin> set w \<Longrightarrow>
   \<exists>r. rbuf_cmpn rb w (int (length w)) = Some r \<and> (r = 0 \<longleftrightarrow> take (length w) (contents rb) = w)"
  by (rule cmpn_contents)

theorem rbuf_cmpn_correct_witness:
  "\<exists>r. rbuf_cmpn (ring_of 2 ''GET /'') ''GET'' (int (length ''GET'')) = Some r \<and> r = 0"
  using rbuf_cmpn_correct [of "ring_of 2 ''GET /''" "''GET''"] by (simp add: ring_of_eval)

text \<open>
  C24. \<open>RBUF_ITERATE\<close> hands the pending bytes to its handler one by one in order, until the handler
  returns something else than \<open>continue_processing\<close>; when the bytes run out the result is
  \<open>needs_more_read\<close>. The handler may do anything with the buffer when it stops the loop, and must
  leave it alone when it continues.
\<close>

theorem RBUF_ITERATE_refines_scan:
  fixes inp :: "'c \<Rightarrow> read_buffer"
  assumes "rb_scan (inp c)"
    and "\<And>c' k. inp c' = inp c \<Longrightarrow> k < rb_len (inp c) \<Longrightarrow>
      inner c' ((rb_off (inp c) + k) mod BUFFER_SIZE) (int k) = f c' (contents (inp c) ! k) (int k)"
    and "\<And>c' x k c''. inp c' = inp c \<Longrightarrow> f c' x k = Some (c'', continue_processing) \<Longrightarrow> inp c'' = inp c"
  shows "RBUF_ITERATE inp inner c continue_processing = scan_list f c 0 (contents (inp c))"
  by (rule iterate_scan [where inp = inp and inner = inner and f = f, OF assms])

theorem RBUF_ITERATE_refines_scan_witness:
  "RBUF_ITERATE (\<lambda>c. c)
     (\<lambda>c p n. map_option (\<lambda>x. (c, if x = CHR '':'' then registered_write else continue_processing)) (rbuf_at c p))
     (ring_of 2 ''abc:d'') continue_processing
   = Some (ring_of 2 ''abc:d'', 4, registered_write)"
proof -
  let ?f = "\<lambda>c x (n :: int). Some (c, if x = CHR '':'' then registered_write else continue_processing)"
  have c: "contents (ring_of 2 ''abc:d'') = ''abc:d''" by (simp add: ring_of_eval)
  have "RBUF_ITERATE (\<lambda>c. c)
     (\<lambda>c p n. map_option (\<lambda>x. (c, if x = CHR '':'' then registered_write else continue_processing)) (rbuf_at c p))
     (ring_of 2 ''abc:d'') continue_processing = scan_list ?f (ring_of 2 ''abc:d'') 0 (contents (ring_of 2 ''abc:d''))"
    by (rule RBUF_ITERATE_refines_scan [where f = ?f])
      (auto simp: nth_contents rbuf_at_def BUFFER_SIZE_def, simp add: ring_of_eval)
  then show ?thesis by (simp add: c)
qed

text \<open>
  C35. \<open>rbuf_strntol\<close> on \<open>n\<close> digits that lie before the end of the array reads the decimal number
  they denote, with no undefined behaviour, whenever that number fits an \<open>int\<close>.
\<close>

theorem rbuf_strntol_correct:
  "rb_scan rb \<Longrightarrow> n < seg1 rb \<Longrightarrow> \<forall>c\<in>set (take n (contents rb)). is_digit c \<Longrightarrow>
   dec_value 0 (take n (contents rb)) \<le> 2147483647 \<Longrightarrow>
   rbuf_strntol rb (int n) = Some (Some (dec_value 0 (take n (contents rb))))"
  by (rule strntol_contents)

theorem rbuf_strntol_correct_witness:
  "rbuf_strntol (ring_of 5 ''123  '') (int 3) = Some (Some 123)"
  using rbuf_strntol_correct [of "ring_of 5 ''123  ''" 3] by (simp add: ring_of_eval is_digit_def)

text \<open>
  A number that crosses the end of the array is never read, however few digits it has: the
  second loop of \<open>rbuf_strntol\<close> counts \<open>rbuf_read_remaining + 1\<close> bytes from the start of the array,
  and so runs into the byte behind the number.
\<close>

theorem rbuf_strntol_wrapped_fails:
  "rb_scan rb \<Longrightarrow> seg1 rb \<le> n \<Longrightarrow> n < rb_len rb \<Longrightarrow> \<not> is_digit (contents rb ! n) \<Longrightarrow>
   rbuf_strntol rb (int n) \<noteq> Some (Some v)"
  by (rule strntol_wrapped)

theorem rbuf_strntol_wrapped_fails_witness:
  "rbuf_strntol (ring_of 1 ''42 '') (int 2) \<noteq> Some (Some 42)"
  using rbuf_strntol_wrapped_fails [of "ring_of 1 ''42 ''" 2 42] by (simp add: ring_of_eval is_digit_def)

text \<open>
  A full buffer whose pending bytes do not start at index 0 makes \<open>rbuf_read_to_end\<close> report the
  whole length instead of the contiguous part, and \<open>rbuf_copyn\<close> read beyond the array.
\<close>

theorem rbuf_copyn_full_out_of_bounds:
  "rb_len rb = BUFFER_SIZE \<Longrightarrow> BUFFER_SIZE - rb_off rb < n \<Longrightarrow> n \<le> BUFFER_SIZE \<Longrightarrow>
   rbuf_copyn rb (int n) = None"
  by (rule full_copyn)

theorem rbuf_copyn_full_out_of_bounds_witness:
  "rbuf_copyn \<lparr>buffer = (\<lambda>_. CHR ''x''), read_position = 16380, write_position = 32764\<rparr> (int 8) = None"
  using rbuf_copyn_full_out_of_bounds
    [of "\<lparr>buffer = (\<lambda>_. CHR ''x''), read_position = 16380, write_position = 32764\<rparr>" 8]
  by (simp add: ring_of_eval)

text \<open>
  \<open>skip_over_newlines\<close> removes exactly the leading CR and LF bytes when they do not reach over
  the end of the array.
\<close>

theorem skip_over_newlines_correct:
  "rb_scan rb \<Longrightarrow> seg1 rb = rb_len rb \<or> (\<exists>i < seg1 rb. \<not> is_eol (contents rb ! i)) \<Longrightarrow>
   \<exists>rb'. skip_over_newlines rb = Some rb' \<and> contents rb' = dropWhile is_eol (contents rb)"
  by (rule skip_newlines_contents)

theorem skip_over_newlines_correct_witness:
  "\<exists>rb'. skip_over_newlines (ring_of 4 [CHR 0x0D, CHR 0x0A, CHR ''G'', CHR ''E'']) = Some rb'
    \<and> contents rb' = ''GE''"
  using skip_over_newlines_correct [of "ring_of 4 [CHR 0x0D, CHR 0x0A, CHR ''G'', CHR ''E'']"]
  by (simp add: ring_of_eval is_eol_def)

end
