(* ===== verification/DbState.thy ===== *)
theory DbState
  imports Complex_Main Khash Murmur ReadBuffer
begin

text \<open>
  The data of the database engine (src/core/db.h, db_structures.h and the globals of db.cpp): cache
  entries, tables, the free list of the block file, counters, statistics and flush bookkeeping, as
  one state record. Entries and tables live in two heaps of addresses; \<open>malloc\<close> takes a fresh
  address and \<open>free\<close> removes it, so that an access after \<open>free\<close> is undefined behaviour
  (\<open>None\<close>). The cache directory is the set of the paths in it, the block file its length in bytes.
\<close>

type_synonym eptr = nat
type_synonym tptr = nat

definition BLOCK_LENGTH :: nat where
  "BLOCK_LENGTH = 4096"

definition DB_LRU_EVERY :: nat where
  "DB_LRU_EVERY = 50"

definition DB_FLUSH_MIN_INTERVAL_MS :: nat where
  "DB_FLUSH_MIN_INTERVAL_MS = 1000"

text \<open>
  \<open>struct cache_entry\<close>. \<open>key_length\<close> is a bit field of 14 bits; \<open>block\<close> is an \<open>int32_t\<close>, -2 before an
  allocation and -1 for an entry in a file of its own; \<open>expires\<close> is 0 for an entry that never expires.
\<close>

record cache_entry =
  ce_table :: "tptr option"
  ce_hash :: u32
  ce_key :: string
  ce_key_length :: nat
  ce_writing :: bool
  ce_deleted :: bool
  ce_refs :: u16
  ce_data_length :: u32
  ce_block :: int
  ce_expires :: int
  ce_lru_next :: "eptr option"
  ce_lru_prev :: "eptr option"
  ce_it :: u16

text \<open>
  \<open>struct db_table\<close>; its reference count is a bit field of 15 bits. \<open>cache_hash_set\<close> is \<open>None\<close> once
  \<open>kh_destroy\<close> has freed it.
\<close>

record db_table =
  tbl_hash :: u32
  tbl_key :: string
  tbl_key_length :: u16
  cache_hash_set :: "eptr kh option"
  tbl_refs :: "15 word"
  tbl_deleted :: bool

text \<open>
  \<open>struct db_details\<close> with the static variables of db.cpp, the two settings it reads, the time
  of the timer subsystem, the heaps and the files.
\<close>

record db_state =
  entries :: "eptr \<Rightarrow> cache_entry option"
  dbtables :: "tptr \<Rightarrow> db_table option"
  next_ptr :: nat
  lru_head :: "eptr option"
  lru_tail :: "eptr option"
  free_blocks :: "u32 list"
  blocks_exist :: u32
  blocks_free :: u32
  db_size_bytes :: u64
  db_keys :: u64
  db_stats_inserts :: u64
  db_stats_gets :: u64
  db_stats_deletes :: u64
  db_stats_operations :: u64
  tables :: "tptr kh"
  table_gc :: nat
  nextit :: u16
  current_flush :: int
  last_flush_ms :: u64
  flush_pending :: bool
  max_size :: u64
  db_lru_clear :: rat
  now_sec :: int
  now_usec :: int
  path_single :: string
  files :: "string set"
  blockfile_size :: nat

definition mod_entry :: "eptr \<Rightarrow> (cache_entry \<Rightarrow> cache_entry) \<Rightarrow> db_state \<Rightarrow> db_state option" where
  "mod_entry e f s = do { c \<leftarrow> entries s e; Some (s\<lparr>entries := (entries s)(e \<mapsto> f c)\<rparr>) }"

definition mod_table :: "tptr \<Rightarrow> (db_table \<Rightarrow> db_table) \<Rightarrow> db_state \<Rightarrow> db_state option" where
  "mod_table t f s = do { d \<leftarrow> dbtables s t; Some (s\<lparr>dbtables := (dbtables s)(t \<mapsto> f d)\<rparr>) }"

definition free_entry :: "eptr \<Rightarrow> db_state \<Rightarrow> db_state" where
  "free_entry e s = s\<lparr>entries := (entries s)(e := None)\<rparr>"

definition free_table :: "tptr \<Rightarrow> db_state \<Rightarrow> db_state" where
  "free_table t s = s\<lparr>dbtables := (dbtables s)(t := None)\<rparr>"

text \<open>\<open>IS_SINGLE_FILE\<close>.\<close>

definition IS_SINGLE_FILE :: "cache_entry \<Rightarrow> bool" where
  "IS_SINGLE_FILE c \<longleftrightarrow> of_nat BLOCK_LENGTH < ce_data_length c"

text \<open>The hash set of a table, or undefined behaviour when it was destroyed.\<close>

definition hash_set_of :: "tptr \<Rightarrow> db_state \<Rightarrow> eptr kh option" where
  "hash_set_of t s = do { d \<leftarrow> dbtables s t; cache_hash_set d }"

text \<open>\<open>len != n || strncmp(k, name, n) != 0\<close>, the comparison of a stored key with a looked up one.\<close>

definition key_differs :: "nat \<Rightarrow> string \<Rightarrow> string \<Rightarrow> bool" where
  "key_differs len k name \<longleftrightarrow> len \<noteq> length name \<or> strncmp k name (length name) \<noteq> 0"

text \<open>\<open>get_key_path\<close>: \<open>"%s%c%c/%x%x_%d"\<close> into a buffer of 512 bytes.\<close>

fun to_base :: "nat \<Rightarrow> nat \<Rightarrow> nat \<Rightarrow> string" where
  "to_base b 0 n = []"
| "to_base b (Suc fuel) n =
     (if n < b then [] else to_base b fuel (n div b))
     @ [if n mod b < 10 then char_of (48 + n mod b) else char_of (87 + n mod b)]"

definition to_hex :: "nat \<Rightarrow> string" where
  "to_hex n = to_base 16 8 n"

definition to_dec :: "nat \<Rightarrow> string" where
  "to_dec n = to_base 10 20 n"

definition DEC2ALPH :: "u32 \<Rightarrow> char" where
  "DEC2ALPH x = char_of (65 + unat x mod 26)"

definition get_key_path :: "cache_entry \<Rightarrow> db_state \<Rightarrow> string option" where
  "get_key_path c s = do {
     t \<leftarrow> ce_table c;
     d \<leftarrow> dbtables s t;
     Some (take 511 (path_single s @ [DEC2ALPH (ce_hash c), DEC2ALPH (drop_bit 8 (ce_hash c))] @ ''/''
       @ to_hex (unat (tbl_hash d)) @ to_hex (unat (ce_hash c)) @ ''_'' @ to_dec (unat (ce_it c))))
   }"

lemma mod_entry_Some [simp]: "entries s e = Some c \<Longrightarrow> mod_entry e f s = Some (s\<lparr>entries := (entries s)(e \<mapsto> f c)\<rparr>)"
  by (simp add: mod_entry_def)

lemma mod_table_Some [simp]: "dbtables s t = Some d \<Longrightarrow> mod_table t f s = Some (s\<lparr>dbtables := (dbtables s)(t \<mapsto> f d)\<rparr>)"
  by (simp add: mod_table_def)

end
