(* ===== verification/DbLru.thy ===== *)
theory DbLru
  imports DbState
begin

text \<open>
  The list of entries in the order of their last use (db.cpp: \<open>db_lru_remove_node\<close>, \<open>db_lru_insert\<close>,
  \<open>db_lru_hit\<close>), doubly linked through the entries. \<open>lru_inv s xs\<close> says that the links of \<open>s\<close> are
  those of the list \<open>xs\<close>; each operation is then the list operation it stands for, and touches
  nothing but the links. The asserts of the three functions hold under that invariant.
\<close>

section \<open>Operations\<close>

definition db_lru_remove_node :: "eptr \<Rightarrow> db_state \<Rightarrow> db_state option" where
  "db_lru_remove_node e s = do {
     ce \<leftarrow> entries s e;
     s \<leftarrow> (case ce_lru_prev ce of
         Some p \<Rightarrow> mod_entry p (\<lambda>c. c\<lparr>ce_lru_next := ce_lru_next ce\<rparr>) s
       | None \<Rightarrow> Some (s\<lparr>lru_head := ce_lru_next ce\<rparr>));
     ce \<leftarrow> entries s e;
     s \<leftarrow> (case ce_lru_next ce of
         Some n \<Rightarrow> mod_entry n (\<lambda>c. c\<lparr>ce_lru_prev := ce_lru_prev ce\<rparr>) s
       | None \<Rightarrow> Some (s\<lparr>lru_tail := ce_lru_prev ce\<rparr>));
     mod_entry e (\<lambda>c. c\<lparr>ce_lru_next := None, ce_lru_prev := None\<rparr>) s
   }"

definition db_lru_insert :: "eptr \<Rightarrow> db_state \<Rightarrow> db_state option" where
  "db_lru_insert e s = do {
     s \<leftarrow> mod_entry e (\<lambda>c. c\<lparr>ce_lru_prev := lru_tail s\<rparr>) s;
     s \<leftarrow> (case lru_tail s of
         Some t \<Rightarrow> mod_entry t (\<lambda>c. c\<lparr>ce_lru_next := Some e\<rparr>) s
       | None \<Rightarrow> Some s);
     s \<leftarrow> mod_entry e (\<lambda>c. c\<lparr>ce_lru_next := None\<rparr>) s;
     let s = s\<lparr>lru_tail := Some e\<rparr>;
     Some (if lru_head s = None then s\<lparr>lru_head := Some e\<rparr> else s)
   }"

definition db_lru_hit :: "eptr \<Rightarrow> db_state \<Rightarrow> db_state option" where
  "db_lru_hit e s = do { s \<leftarrow> db_lru_remove_node e s; db_lru_insert e s }"

section \<open>The list behind the links\<close>

text \<open>The entries \<open>xs\<close> are linked in this order, between \<open>p\<close> and \<open>n\<close>.\<close>

fun dll :: "(eptr \<Rightarrow> cache_entry option) \<Rightarrow> eptr option \<Rightarrow> eptr list \<Rightarrow> eptr option \<Rightarrow> bool" where
  "dll h p [] n = True"
| "dll h p (x # xs) n = (case h x of
     None \<Rightarrow> False
   | Some c \<Rightarrow> ce_lru_prev c = p \<and> ce_lru_next c = hd_or n xs \<and> dll h (Some x) xs n)"

definition unlinked :: "cache_entry \<Rightarrow> bool" where
  "unlinked c \<longleftrightarrow> ce_lru_next c = None \<and> ce_lru_prev c = None"

definition lru_inv :: "db_state \<Rightarrow> eptr list \<Rightarrow> bool" where
  "lru_inv s xs \<longleftrightarrow> distinct xs \<and> lru_head s = hd_or None xs \<and> lru_tail s = last_or None xs
     \<and> dll (entries s) None xs None"

text \<open>An entry without its links, and what the operations here leave alone.\<close>

definition core :: "cache_entry \<Rightarrow> cache_entry" where
  "core c = c\<lparr>ce_lru_next := None, ce_lru_prev := None\<rparr>"

definition same_but_links :: "db_state \<Rightarrow> db_state \<Rightarrow> bool" where
  "same_but_links s s' \<longleftrightarrow>
     s'\<lparr>entries := entries s, lru_head := lru_head s, lru_tail := lru_tail s\<rparr> = s
     \<and> (\<forall>x. map_option core (entries s' x) = map_option core (entries s x))"

lemma dll_append: "dll h p (xs @ ys) n \<longleftrightarrow> dll h p xs (hd_or n ys) \<and> dll h (last_or p xs) ys n"
  by (induction xs arbitrary: p) (auto split: option.splits)

lemma dll_cong: "(\<And>x. x \<in> set xs \<Longrightarrow> h x = h' x) \<Longrightarrow> dll h p xs n = dll h' p xs n"
  by (induction xs arbitrary: p) (auto split: option.splits)

lemma dll_upd_notin [simp]: "x \<notin> set xs \<Longrightarrow> dll (h(x := v)) p xs n = dll h p xs n"
  by (rule dll_cong) auto

lemma dll_in: "dll h p xs n \<Longrightarrow> x \<in> set xs \<Longrightarrow> \<exists>c. h x = Some c"
  by (induction xs arbitrary: p) (auto split: option.splits)

text \<open>Changing the link that leaves a stretch at one of its ends.\<close>

lemma dll_set_next:
  "dll h p (xs @ [x]) n \<Longrightarrow> distinct (xs @ [x]) \<Longrightarrow> h x = Some c \<Longrightarrow>
   dll (h(x \<mapsto> c\<lparr>ce_lru_next := n'\<rparr>)) p (xs @ [x]) n'"
  by (auto simp: dll_append)

lemma dll_set_prev:
  "dll h p (x # xs) n \<Longrightarrow> distinct (x # xs) \<Longrightarrow> h x = Some c \<Longrightarrow>
   dll (h(x \<mapsto> c\<lparr>ce_lru_prev := p'\<rparr>)) p' (x # xs) n"
  by auto

lemma core_links [simp]:
  "core (c\<lparr>ce_lru_next := n\<rparr>) = core c" "core (c\<lparr>ce_lru_prev := p\<rparr>) = core c"
  "core (core c) = core c"
  by (simp_all add: core_def)

lemma same_but_links_refl [simp]: "same_but_links s s"
  by (simp add: same_but_links_def)

lemma same_but_links_trans:
  assumes "same_but_links s t" "same_but_links t u"
  shows "same_but_links s u"
proof -
  have "u\<lparr>entries := entries s, lru_head := lru_head s, lru_tail := lru_tail s\<rparr>
     = (u\<lparr>entries := entries t, lru_head := lru_head t, lru_tail := lru_tail t\<rparr>)
         \<lparr>entries := entries s, lru_head := lru_head s, lru_tail := lru_tail s\<rparr>" by simp
  also have "\<dots> = s" using assms by (simp only: same_but_links_def)
  finally show ?thesis using assms by (simp add: same_but_links_def)
qed

text \<open>Each single step of the operations keeps everything but the links.\<close>

lemma same_but_links_mod:
  "entries s e = Some c \<Longrightarrow> core (f c) = core c \<Longrightarrow> same_but_links s (s\<lparr>entries := (entries s)(e \<mapsto> f c)\<rparr>)"
  by (auto simp: same_but_links_def)

lemma remove_node_ok:
  assumes inv: "lru_inv s (as @ e # bs)"
  shows "\<exists>s' c. db_lru_remove_node e s = Some s' \<and> lru_inv s' (as @ bs) \<and> same_but_links s s'
    \<and> entries s' e = Some c \<and> unlinked c"
proof -
  let ?h = "entries s"
  have d: "distinct (as @ e # bs)" and hd: "lru_head s = hd_or None (as @ e # bs)"
    and tl: "lru_tail s = last_or None (as @ e # bs)" and l: "dll ?h None (as @ e # bs) None"
    using inv by (auto simp: lru_inv_def)
  from l obtain c where c: "?h e = Some c" "ce_lru_prev c = last_or None as" "ce_lru_next c = hd_or None bs"
    and la: "dll ?h None as (Some e)" and lb: "dll ?h (Some e) bs None"
    by (auto simp: dll_append split: option.splits)
  show ?thesis
  proof (cases as rule: rev_cases)
    case Nil
    note as = this
    show ?thesis
    proof (cases bs)
      case Nil
      with as c hd tl show ?thesis
        by (simp add: db_lru_remove_node_def lru_inv_def unlinked_def same_but_links_def core_def)
    next
      case (Cons b bs')
      with lb obtain d where "?h b = Some d" "ce_lru_prev d = Some e" "ce_lru_next d = hd_or None bs'"
        "dll ?h (Some b) bs' None" by (auto split: option.splits)
      with as Cons c hd tl d show ?thesis
        by (auto simp: db_lru_remove_node_def lru_inv_def unlinked_def same_but_links_def core_def)
    qed
  next
    case (snoc as' a)
    note as = this
    from la obtain da where a: "?h a = Some da" "ce_lru_prev da = last_or None as'" "ce_lru_next da = Some e"
      "dll ?h None as' (Some a)" unfolding as by (auto simp: dll_append split: option.splits)
    have hd': "hd_or None (as @ e # bs) = hd_or None (as @ bs)" by (cases as') (simp_all add: as)
    show ?thesis
    proof (cases bs)
      case Nil
      with as c hd hd' tl d a show ?thesis
        by (auto simp: db_lru_remove_node_def lru_inv_def unlinked_def same_but_links_def core_def dll_append)
    next
      case (Cons b bs')
      with lb obtain db where "?h b = Some db" "ce_lru_prev db = Some e" "ce_lru_next db = hd_or None bs'"
        "dll ?h (Some b) bs' None" by (auto split: option.splits)
      with as Cons c hd hd' tl d a show ?thesis
        by (auto simp: db_lru_remove_node_def lru_inv_def unlinked_def same_but_links_def core_def dll_append)
    qed
  qed
qed

lemma insert_ok:
  assumes inv: "lru_inv s xs" and e: "entries s e = Some c" "e \<notin> set xs"
  shows "\<exists>s'. db_lru_insert e s = Some s' \<and> lru_inv s' (xs @ [e]) \<and> same_but_links s s'"
proof (cases xs rule: rev_cases)
  case Nil
  with inv e show ?thesis
    by (simp add: db_lru_insert_def lru_inv_def same_but_links_def core_def)
next
  case (snoc ys y)
  have l: "dll (entries s) None (ys @ [y]) None" and d: "distinct (ys @ [y])"
    and hd: "lru_head s = hd_or None (ys @ [y])" and tl: "lru_tail s = Some y"
    using inv snoc by (auto simp: lru_inv_def)
  from l obtain b where y: "entries s y = Some b" "ce_lru_prev b = last_or None ys" "dll (entries s) None ys (Some y)"
    by (auto simp: dll_append split: option.splits)
  have ne: "y \<noteq> e" "e \<notin> set ys" "y \<notin> set ys" using e snoc d by auto
  have hd2: "lru_head s \<noteq> None" "hd_or None (ys @ [y, e]) = hd_or None (ys @ [y])"
    unfolding hd by (cases ys; simp)+
  then obtain z where z: "lru_head s = Some z" by blast
  define s' where "s' = s\<lparr>entries := (entries s)(y \<mapsto> b\<lparr>ce_lru_next := Some e\<rparr>,
     e \<mapsto> c\<lparr>ce_lru_prev := Some y, ce_lru_next := None\<rparr>), lru_tail := Some e\<rparr>"
  have "db_lru_insert e s = Some s'"
    using y(1) e(1) tl ne(1) z by (simp add: db_lru_insert_def s'_def fun_upd_twist Let_def)
  moreover have "dll (entries s') None (ys @ [y, e]) None"
    using y ne by (simp add: s'_def dll_append)
  then have "lru_inv s' (xs @ [e])"
    using d ne hd hd2(2) by (simp add: lru_inv_def snoc) (simp add: s'_def)
  moreover have "same_but_links s s'"
    using y(1) e(1) by (simp add: same_but_links_def s'_def)
  ultimately show ?thesis by blast
qed

lemma lru_inv_in: "lru_inv s xs \<Longrightarrow> e \<in> set xs \<Longrightarrow> \<exists>c. entries s e = Some c"
  using dll_in by (fastforce simp: lru_inv_def)

lemma hit_ok:
  assumes inv: "lru_inv s (as @ e # bs)"
  shows "\<exists>s'. db_lru_hit e s = Some s' \<and> lru_inv s' (as @ bs @ [e]) \<and> same_but_links s s'"
proof -
  from remove_node_ok [OF inv] obtain s1 c where s1: "db_lru_remove_node e s = Some s1"
    "lru_inv s1 (as @ bs)" "same_but_links s s1" "entries s1 e = Some c" by blast
  have "e \<notin> set (as @ bs)" using inv by (simp add: lru_inv_def)
  from insert_ok [OF s1(2,4) this] obtain s2 where
    "db_lru_insert e s1 = Some s2" "lru_inv s2 (as @ bs @ [e])" "same_but_links s1 s2" by auto
  with s1 show ?thesis by (auto simp: db_lru_hit_def intro: same_but_links_trans)
qed

section \<open>The interface: a list in the order of last use\<close>

datatype 'e use_op = Enter 'e | Touch 'e | Leave 'e

fun use_run ::
  "('e \<Rightarrow> 's \<Rightarrow> 's option) \<Rightarrow> ('e \<Rightarrow> 's \<Rightarrow> 's option) \<Rightarrow> ('e \<Rightarrow> 's \<Rightarrow> 's option) \<Rightarrow> 's \<Rightarrow> 'e use_op list \<Rightarrow> 's option" where
  "use_run enter touch leave s [] = Some s"
| "use_run enter touch leave s (Enter e # ops) = do { s \<leftarrow> enter e s; use_run enter touch leave s ops }"
| "use_run enter touch leave s (Touch e # ops) = do { s \<leftarrow> touch e s; use_run enter touch leave s ops }"
| "use_run enter touch leave s (Leave e # ops) = do { s \<leftarrow> leave e s; use_run enter touch leave s ops }"

text \<open>The same on a list, most recently used last; \<open>None\<close> when an operation is out of place.\<close>

fun use_spec :: "'e list \<Rightarrow> 'e use_op list \<Rightarrow> 'e list option" where
  "use_spec xs [] = Some xs"
| "use_spec xs (Enter e # ops) = (if e \<in> set xs then None else use_spec (xs @ [e]) ops)"
| "use_spec xs (Touch e # ops) = (if e \<in> set xs then use_spec (remove1 e xs @ [e]) ops else None)"
| "use_spec xs (Leave e # ops) = (if e \<in> set xs then use_spec (remove1 e xs) ops else None)"

locale recency_list =
  fixes inv :: "'s \<Rightarrow> 'e list \<Rightarrow> bool"
    and alive :: "'s \<Rightarrow> 'e \<Rightarrow> bool"
    and enter :: "'e \<Rightarrow> 's \<Rightarrow> 's option"
    and touch :: "'e \<Rightarrow> 's \<Rightarrow> 's option"
    and leave :: "'e \<Rightarrow> 's \<Rightarrow> 's option"
  assumes enter_law: "inv s xs \<Longrightarrow> alive s e \<Longrightarrow> e \<notin> set xs \<Longrightarrow>
      \<exists>s'. enter e s = Some s' \<and> inv s' (xs @ [e]) \<and> alive s' = alive s"
    and touch_law: "inv s xs \<Longrightarrow> e \<in> set xs \<Longrightarrow>
      \<exists>s'. touch e s = Some s' \<and> inv s' (remove1 e xs @ [e]) \<and> alive s' = alive s"
    and leave_law: "inv s xs \<Longrightarrow> e \<in> set xs \<Longrightarrow>
      \<exists>s'. leave e s = Some s' \<and> inv s' (remove1 e xs) \<and> alive s' = alive s"
begin

lemma use_run_refines:
  "inv s xs \<Longrightarrow> \<forall>e. Enter e \<in> set ops \<longrightarrow> alive s e \<Longrightarrow> use_spec xs ops = Some ys \<Longrightarrow>
   \<exists>s'. use_run enter touch leave s ops = Some s' \<and> inv s' ys"
proof (induction ops arbitrary: s xs)
  case (Cons op ops)
  show ?case
  proof (cases op)
    case (Enter e)
    with Cons.prems obtain s1 where "enter e s = Some s1" "inv s1 (xs @ [e])" "alive s1 = alive s"
      using enter_law [of s xs e] by (auto split: if_splits)
    with Cons.IH [of s1 "xs @ [e]"] Cons.prems Enter show ?thesis by (simp split: if_splits)
  next
    case (Touch e)
    with Cons.prems obtain s1 where "touch e s = Some s1" "inv s1 (remove1 e xs @ [e])" "alive s1 = alive s"
      using touch_law [of s xs e] by (auto split: if_splits)
    with Cons.IH [of s1 "remove1 e xs @ [e]"] Cons.prems Touch show ?thesis by (simp split: if_splits)
  next
    case (Leave e)
    with Cons.prems obtain s1 where "leave e s = Some s1" "inv s1 (remove1 e xs)" "alive s1 = alive s"
      using leave_law [of s xs e] by (auto split: if_splits)
    with Cons.IH [of s1 "remove1 e xs"] Cons.prems Leave show ?thesis by (simp split: if_splits)
  qed
qed auto

end

lemma same_but_links_alive: "same_but_links s s' \<Longrightarrow> (entries s' x \<noteq> None) = (entries s x \<noteq> None)"
  unfolding same_but_links_def by (metis option.map_disc_iff)

lemma split_remove1:
  assumes "e \<in> set xs"
  obtains as bs where "xs = as @ e # bs" "e \<notin> set as" "remove1 e xs = as @ bs"
proof -
  from split_list_first [OF assms] obtain as bs where "xs = as @ e # bs" "e \<notin> set as" by blast
  then show thesis by (intro that [of as bs]) (auto simp: remove1_append)
qed

interpretation lru: recency_list lru_inv "\<lambda>s e. entries s e \<noteq> None" db_lru_insert db_lru_hit db_lru_remove_node
proof
  fix s xs e
  assume inv: "lru_inv s xs" and "entries s e \<noteq> None" "e \<notin> set xs"
  then obtain c where "entries s e = Some c" by blast
  from insert_ok [OF inv this \<open>e \<notin> set xs\<close>] show
    "\<exists>s'. db_lru_insert e s = Some s' \<and> lru_inv s' (xs @ [e]) \<and> (\<lambda>e. entries s' e \<noteq> None) = (\<lambda>e. entries s e \<noteq> None)"
    using same_but_links_alive by fastforce
next
  fix s xs e
  assume inv: "lru_inv s xs" and "e \<in> set xs"
  from split_remove1 [OF this(2)] obtain as bs where xs: "xs = as @ e # bs" "remove1 e xs = as @ bs" by metis
  from hit_ok [of s as e bs] inv xs show
    "\<exists>s'. db_lru_hit e s = Some s' \<and> lru_inv s' (remove1 e xs @ [e]) \<and> (\<lambda>e. entries s' e \<noteq> None) = (\<lambda>e. entries s e \<noteq> None)"
    using same_but_links_alive by fastforce
  from remove_node_ok [of s as e bs] inv xs show
    "\<exists>s'. db_lru_remove_node e s = Some s' \<and> lru_inv s' (remove1 e xs) \<and> (\<lambda>e. entries s' e \<noteq> None) = (\<lambda>e. entries s e \<noteq> None)"
    using same_but_links_alive by fastforce
qed

section \<open>Properties\<close>

text \<open>
  C16. Any sequence of insertions, hits and removals on the LRU list that is in order (no entry
  inserted twice, none hit or removed that is not in the list) runs without undefined behaviour,
  and afterwards following \<open>lru_head\<close> and the \<open>lru_next\<close> links, or \<open>lru_tail\<close> and the \<open>lru_prev\<close> links,
  gives exactly the entries in the order of their last use.
\<close>

theorem lru_list_in_order_of_use:
  assumes "lru_inv s xs" and "\<forall>e. Enter e \<in> set ops \<longrightarrow> entries s e \<noteq> None"
    and "use_spec xs ops = Some ys"
  shows "\<exists>s'. use_run db_lru_insert db_lru_hit db_lru_remove_node s ops = Some s' \<and> lru_inv s' ys"
  by (rule lru.use_run_refines [OF assms])

definition empty_db :: db_state where
  "empty_db = \<lparr>entries = Map.empty, dbtables = Map.empty, next_ptr = 0, lru_head = None, lru_tail = None,
     free_blocks = [], blocks_exist = 0, blocks_free = 0, db_size_bytes = 0, db_keys = 0,
     db_stats_inserts = 0, db_stats_gets = 0, db_stats_deletes = 0, db_stats_operations = 0,
     tables = kh_init, table_gc = 0, nextit = 0, current_flush = 0, last_flush_ms = 0,
     flush_pending = False, max_size = 0, db_lru_clear = 1 / 5, now_sec = 0, now_usec = 0,
     path_single = ''/var/lib/scache/files/'', files = {}, blockfile_size = 0\<rparr>"

definition blank_entry :: cache_entry where
  "blank_entry = \<lparr>ce_table = None, ce_hash = 0, ce_key = [], ce_key_length = 0, ce_writing = False,
     ce_deleted = False, ce_refs = 0, ce_data_length = 0, ce_block = - 2, ce_expires = 0,
     ce_lru_next = None, ce_lru_prev = None, ce_it = 0\<rparr>"

theorem lru_list_in_order_of_use_witness:
  "\<exists>s'. use_run db_lru_insert db_lru_hit db_lru_remove_node (empty_db\<lparr>entries := (\<lambda>_. Some blank_entry)\<rparr>)
     [Enter 1, Enter 2, Enter 3, Touch 1, Leave 3] = Some s' \<and> lru_inv s' [2, 1]"
  by (rule lru_list_in_order_of_use [where xs = "[]"]) (simp_all add: lru_inv_def empty_db_def)

end
