(* ===== verification/DbBlocks.thy ===== *)
theory DbBlocks
  imports DbLru
begin

text \<open>
  The blocks of the block file (db.cpp: \<open>db_block_size\<close>, \<open>db_block_free\<close>, \<open>db_block_allocate_new\<close>):
  a stack of free block numbers, and a file that grows by one block when there is none and shrinks
  when its last block is freed while more than 256 are free. \<open>blocks_inv s U\<close> says that \<open>U\<close> are the
  blocks handed out and every other block of the file is in the free list, once.
\<close>

section \<open>Operations\<close>

text \<open>
  \<open>ftruncate(fd, blocks_exist * BLOCK_LENGTH)\<close>: the product of a \<open>uint32_t\<close> and an \<open>int\<close> is unsigned
  and of 32 bits.
\<close>

definition db_block_size :: "db_state \<Rightarrow> db_state" where
  "db_block_size s = s\<lparr>blockfile_size := unat (blocks_exist s * of_nat BLOCK_LENGTH)\<rparr>"

definition db_block_free :: "int \<Rightarrow> db_state \<Rightarrow> db_state" where
  "db_block_free block s =
     (if of_int block + 1 = blocks_exist s \<and> 256 < blocks_free s
      then db_block_size (s\<lparr>blocks_exist := blocks_exist s - 1\<rparr>)
      else s\<lparr>free_blocks := of_int block # free_blocks s, blocks_free := blocks_free s + 1\<rparr>)"

definition db_block_allocate_new :: "db_state \<Rightarrow> int \<times> db_state" where
  "db_block_allocate_new s = (case free_blocks s of
       b # bs \<Rightarrow> (sint b, s\<lparr>free_blocks := bs, blocks_free := blocks_free s - 1\<rparr>)
     | [] \<Rightarrow>
         if 2147483647 \<le> blocks_exist s then (- 1, s)
         else (sint (blocks_exist s), db_block_size (s\<lparr>blocks_exist := blocks_exist s + 1\<rparr>)))"

section \<open>Which blocks are in use\<close>

definition blocks_inv :: "db_state \<Rightarrow> int set \<Rightarrow> bool" where
  "blocks_inv s U \<longleftrightarrow> distinct (free_blocks s) \<and> uint ` set (free_blocks s) \<inter> U = {}
     \<and> uint ` set (free_blocks s) \<union> U = {0..<uint (blocks_exist s)}
     \<and> uint (blocks_free s) = int (length (free_blocks s)) \<and> blocks_exist s \<le> 2147483647"

lemma sint_small: "w \<le> 2147483647 \<Longrightarrow> sint w = uint w" for w :: u32
proof -
  assume "w \<le> 2147483647"
  then have "uint w \<le> 2147483647" by (simp add: word_le_def)
  then have "signed_take_bit 31 (uint w) = uint w"
    by (intro signed_take_bit_int_eq_self) (auto intro: order_trans [OF _ uint_ge_0])
  then show ?thesis by (simp add: sint_uint)
qed

lemma uint_of_int_small: "0 \<le> b \<Longrightarrow> b < 2 ^ 32 \<Longrightarrow> uint (of_int b :: u32) = b"
  by (simp add: unsigned_of_int take_bit_int_eq_self)

lemma allocate_ok:
  assumes inv: "blocks_inv s U"
  shows "(fst (db_block_allocate_new s) = - 1 \<and> snd (db_block_allocate_new s) = s
       \<and> free_blocks s = [] \<and> blocks_exist s = 2147483647)
    \<or> (0 \<le> fst (db_block_allocate_new s) \<and> fst (db_block_allocate_new s) < 2147483647
       \<and> fst (db_block_allocate_new s) \<notin> U
       \<and> blocks_inv (snd (db_block_allocate_new s)) (insert (fst (db_block_allocate_new s)) U))"
proof (cases "free_blocks s")
  case (Cons b bs)
  have ex: "uint (blocks_exist s) \<le> 2147483647" using inv by (simp add: blocks_inv_def word_le_def)
  have mem: "uint b \<in> {0..<uint (blocks_exist s)}" using inv Cons by (auto simp: blocks_inv_def)
  with ex have "b \<le> 2147483647" by (simp add: word_le_def)
  then have b: "sint b = uint b" by (rule sint_small)
  have "uint (blocks_free s - 1) = int (length bs)"
    using inv Cons by (simp add: blocks_inv_def uint_sub_if' split: if_splits)
  moreover have "uint b \<notin> uint ` set bs" using inv Cons
    by (auto simp: blocks_inv_def dest: unsigned_word_eqI)
  ultimately have "blocks_inv (snd (db_block_allocate_new s)) (insert (uint b) U)"
    using inv Cons by (auto simp: blocks_inv_def db_block_allocate_new_def)
  moreover have "uint b \<notin> U" using inv Cons by (auto simp: blocks_inv_def)
  ultimately show ?thesis using Cons b mem ex by (simp add: db_block_allocate_new_def)
next
  case Nil
  have le: "blocks_exist s \<le> 2147483647" and U: "U = {0..<uint (blocks_exist s)}"
    using inv Nil by (auto simp: blocks_inv_def)
  show ?thesis
  proof (cases "2147483647 \<le> blocks_exist s")
    case True
    with le have "blocks_exist s = 2147483647" by simp
    with Nil show ?thesis by (simp add: db_block_allocate_new_def)
  next
    case False
    then have lt: "uint (blocks_exist s) < 2147483647" by (simp add: word_le_def)
    then have "uint (blocks_exist s + 1) = uint (blocks_exist s) + 1"
      by (simp add: uint_add_lem [THEN iffD1])
    with Nil inv lt U have "blocks_inv (snd (db_block_allocate_new s)) (insert (uint (blocks_exist s)) U)"
      using False by (auto simp: blocks_inv_def db_block_allocate_new_def db_block_size_def word_le_def)
    then show ?thesis using Nil False lt U le by (simp add: db_block_allocate_new_def sint_small)
  qed
qed

lemma free_ok:
  assumes inv: "blocks_inv s U" and b: "b \<in> U"
  shows "blocks_inv (db_block_free b s) (U - {b})"
proof -
  have fr: "uint (blocks_free s) = int (length (free_blocks s))" "distinct (free_blocks s)"
    "uint ` set (free_blocks s) \<inter> U = {}" "uint ` set (free_blocks s) \<union> U = {0..<uint (blocks_exist s)}"
    "uint (blocks_exist s) \<le> 2147483647"
    using inv by (auto simp: blocks_inv_def word_le_def)
  then have bb: "0 \<le> b" "b < uint (blocks_exist s)" using b by auto
  with fr(5) have "b < 2 ^ 32" by simp
  note bb = bb this
  then have ub: "uint (of_int b :: u32) = b" by (simp add: uint_of_int_small)
  show ?thesis
  proof (cases "of_int b + 1 = blocks_exist s \<and> 256 < blocks_free s")
    case True
    have one: "uint (blocks_exist s - 1) = uint (blocks_exist s) - 1"
      using bb by (simp add: uint_sub_if')
    have "blocks_exist s - 1 = of_int b" using True by (metis add_diff_cancel_right')
    then have "b = uint (blocks_exist s - 1)" using ub by simp
    then have "b = uint (blocks_exist s) - 1" using one by simp
    then have "uint ` set (free_blocks s) \<union> (U - {b}) = {0..<uint (blocks_exist s) - 1}"
      using fr b by (auto simp: image_iff) (metis (no_types, opaque_lifting) IntI UnCI atLeastLessThan_iff empty_iff imageI order_le_less zle_diff1_eq)+
    then show ?thesis using True fr one
      by (auto simp: blocks_inv_def db_block_free_def db_block_size_def word_le_def)
  next
    case False
    have "card (uint ` set (free_blocks s)) \<le> card {0..<uint (blocks_exist s)}"
      by (rule card_mono) (use fr in auto)
    moreover have "card (uint ` set (free_blocks s)) = length (free_blocks s)"
    proof -
      have "inj_on uint (set (free_blocks s))" by (rule inj_onI) (rule unsigned_word_eqI)
      then show ?thesis using fr(2) by (simp add: card_image distinct_card)
    qed
    moreover have "unat (blocks_exist s) \<le> 2147483647"
      using fr(5) by (simp only: unat_eq_nat_uint)
    ultimately have "int (length (free_blocks s)) \<le> 2147483647" by simp
    then have "uint (blocks_free s + 1) = uint (blocks_free s) + 1"
      using fr(1) by (simp add: uint_add_lem [THEN iffD1])
    moreover have "(of_int b :: u32) \<notin> set (free_blocks s)" using fr(3) b ub by (metis IntI empty_iff imageI)
    ultimately show ?thesis using False fr b ub inv
      by (auto simp: blocks_inv_def db_block_free_def)
  qed
qed

section \<open>The interface: an allocator of blocks\<close>

datatype block_op = Alloc | Release int

text \<open>
  A run of an allocator with the set of the blocks its client holds. It stops with \<open>None\<close> when a block
  is handed out that the client holds already.
\<close>

fun block_run ::
  "('s \<Rightarrow> int \<times> 's) \<Rightarrow> (int \<Rightarrow> 's \<Rightarrow> 's) \<Rightarrow> 's \<Rightarrow> int set \<Rightarrow> block_op list \<Rightarrow> ('s \<times> int set) option" where
  "block_run alloc release s U [] = Some (s, U)"
| "block_run alloc release s U (Alloc # ops) = (case alloc s of (b, s') \<Rightarrow>
     if b = - 1 then block_run alloc release s' U ops
     else if b \<in> U then None else block_run alloc release s' (insert b U) ops)"
| "block_run alloc release s U (Release b # ops) =
     (if b \<in> U then block_run alloc release (release b s) (U - {b}) ops
      else block_run alloc release s U ops)"

locale block_store =
  fixes inv :: "'s \<Rightarrow> int set \<Rightarrow> bool"
    and alloc :: "'s \<Rightarrow> int \<times> 's"
    and release :: "int \<Rightarrow> 's \<Rightarrow> 's"
  assumes alloc_law: "inv s U \<Longrightarrow> alloc s = (b, s') \<Longrightarrow>
      b = - 1 \<and> s' = s \<or> b \<noteq> - 1 \<and> b \<notin> U \<and> inv s' (insert b U)"
    and release_law: "inv s U \<Longrightarrow> b \<in> U \<Longrightarrow> inv (release b s) (U - {b})"
begin

lemma run_never_shares:
  "inv s U \<Longrightarrow> \<exists>s' U'. block_run alloc release s U ops = Some (s', U') \<and> inv s' U'"
proof (induction ops arbitrary: s U)
  case (Cons op ops)
  show ?case
  proof (cases op)
    case Alloc
    obtain b s' where a: "alloc s = (b, s')" by (cases "alloc s")
    from alloc_law [OF Cons.prems a] show ?thesis
      using Cons.IH Cons.prems a Alloc by auto
  next
    case (Release b)
    then show ?thesis using Cons.IH Cons.prems release_law [OF Cons.prems, of b] by simp
  qed
qed auto

end

interpretation blocks: block_store blocks_inv db_block_allocate_new db_block_free
proof
  fix s U b s'
  assume inv: "blocks_inv s U" and "db_block_allocate_new s = (b, s')"
  then show "b = - 1 \<and> s' = s \<or> b \<noteq> - 1 \<and> b \<notin> U \<and> blocks_inv s' (insert b U)"
    using allocate_ok [OF inv] by auto
qed (rule free_ok)

section \<open>Properties\<close>

text \<open>
  C17. No block of the block file is ever given to two entries: along every sequence of allocations
  and releases, each allocation returns -1 or a block that nobody holds, and the free list, the
  two counters and the held blocks stay a partition of the file's blocks.
\<close>

theorem blocks_never_shared:
  assumes "blocks_inv s U"
  shows "\<exists>s' U'. block_run db_block_allocate_new db_block_free s U ops = Some (s', U') \<and> blocks_inv s' U'"
  by (rule blocks.run_never_shares [OF assms])

theorem blocks_never_shared_witness:
  "\<exists>s' U'. block_run db_block_allocate_new db_block_free empty_db {} [Alloc, Alloc, Release 0, Alloc] = Some (s', U')
    \<and> blocks_inv s' U'"
  by (rule blocks_never_shared) (simp add: blocks_inv_def empty_db_def)

text \<open>
  As long as the file has fewer than \<open>2 ^ 20\<close> blocks (4 GiB) after the step, \<open>db_block_size\<close> keeps it
  exactly as long as its blocks, so that a block that is handed out lies within the file.
\<close>

theorem blockfile_covers_blocks:
  assumes inv: "blocks_inv s U" and size: "blockfile_size s = BLOCK_LENGTH * unat (blocks_exist s)"
    and small: "unat (blocks_exist s) + 1 < 2 ^ 20"
  shows "\<exists>b s'. db_block_allocate_new s = (b, s') \<and> 0 \<le> b
    \<and> blockfile_size s' = BLOCK_LENGTH * unat (blocks_exist s')
    \<and> BLOCK_LENGTH * nat b + BLOCK_LENGTH \<le> blockfile_size s'"
proof (cases "free_blocks s")
  case (Cons b bs)
  have ex: "uint (blocks_exist s) \<le> 2147483647" using inv by (simp add: blocks_inv_def word_le_def)
  have mem: "uint b < uint (blocks_exist s)" using inv Cons by (auto simp: blocks_inv_def)
  have "b < blocks_exist s" using mem by (simp only: word_less_def)
  then have "unat b + 1 \<le> unat (blocks_exist s)" by (simp add: word_less_nat_alt)
  then have "BLOCK_LENGTH * unat b + BLOCK_LENGTH \<le> BLOCK_LENGTH * unat (blocks_exist s)"
    by (simp add: BLOCK_LENGTH_def)
  moreover from mem ex have "sint b = uint b" by (intro sint_small) (simp add: word_le_def)
  ultimately show ?thesis using Cons size by (simp add: db_block_allocate_new_def)
next
  case Nil
  let ?x = "blocks_exist s"
  have x1: "unat (?x + 1) = unat ?x + 1"
    using small by (simp add: unat_word_ariths)
  have sz: "unat (?x * 4096 + 4096) = 4096 + 4096 * unat ?x"
    using small by (simp add: unat_word_ariths)
  have "unat ?x < 2147483647" using small by simp
  then have lt: "\<not> 2147483647 \<le> ?x" by (simp add: word_le_nat_alt)
  then have "sint ?x = uint ?x" by (simp add: sint_small)
  then show ?thesis using Nil lt
    by (simp add: db_block_allocate_new_def db_block_size_def sz x1 BLOCK_LENGTH_def)
qed

theorem blockfile_covers_blocks_witness:
  "\<exists>b s'. db_block_allocate_new empty_db = (b, s') \<and> 0 \<le> b \<and> blockfile_size s' = 4096 * unat (blocks_exist s')"
  using blockfile_covers_blocks [of empty_db "{}"]
  by (auto simp: blocks_inv_def empty_db_def BLOCK_LENGTH_def)

text \<open>
  The allocation that makes the file \<open>2 ^ 20\<close> blocks long truncates it to length 0: the size in bytes
  is computed in 32 bits. Every block of the file is lost while the entries still refer to them.
\<close>

theorem blockfile_truncated_at_4GiB:
  assumes "free_blocks s = []" and "unat (blocks_exist s) = 2 ^ 20 - 1"
  shows "\<exists>s'. db_block_allocate_new s = (2 ^ 20 - 1, s') \<and> blocks_exist s' = 2 ^ 20 \<and> blockfile_size s' = 0"
proof -
  have x: "blocks_exist s = 1048575" using assms(2) by (simp add: word_unat_eq_iff)
  show ?thesis using assms(1)
    by (simp add: db_block_allocate_new_def x db_block_size_def BLOCK_LENGTH_def)
qed

theorem blockfile_truncated_at_4GiB_witness:
  "\<exists>s'. db_block_allocate_new (empty_db\<lparr>blocks_exist := 1048575, blockfile_size := 4294963200\<rparr>) = (1048575, s')
    \<and> blockfile_size s' = 0"
  using blockfile_truncated_at_4GiB [of "empty_db\<lparr>blocks_exist := 1048575, blockfile_size := 4294963200\<rparr>"]
  by (auto simp: empty_db_def)

end
