(* ===== verification/DbTable.thy ===== *)
theory DbTable
  imports DbBlocks
begin

text \<open>
  Reference counts and deletion (db.cpp): \<open>db_table_deref\<close>, \<open>db_entry_deref\<close> and what they free, the
  two ways to delete an entry (\<open>softdelete\<close> when it is overwritten or its table goes, \<open>handle_delete\<close>
  on request, expiry or eviction), and the deletion of a table. Then the lookup of tables, with the
  linear probing over table hashes.
\<close>

section \<open>Reference counts\<close>

definition db_entry_actually_delete :: "eptr \<Rightarrow> db_state \<Rightarrow> db_state option" where
  "db_entry_actually_delete e s = do {
     c \<leftarrow> entries s e;
     s \<leftarrow> (if \<not> IS_SINGLE_FILE c \<and> 0 \<le> ce_block c
       then mod_entry e (\<lambda>c. c\<lparr>ce_block := - 1\<rparr>) (db_block_free (ce_block c) s)
       else Some s);
     Some (free_entry e s)
   }"

definition db_table_actually_delete :: "tptr \<Rightarrow> db_state \<Rightarrow> db_state option" where
  "db_table_actually_delete t s = do {
     d \<leftarrow> dbtables s t;
     k \<leftarrow> kh_get (tables s) (tbl_hash d);
     let s = (if k \<noteq> n_buckets (tables s) then s\<lparr>tables := kh_del (tables s) k\<rparr> else s);
     Some (free_table t s)
   }"

definition db_table_deref :: "tptr \<Rightarrow> bool \<Rightarrow> db_state \<Rightarrow> db_state option" where
  "db_table_deref t actually_delete s = do {
     s \<leftarrow> mod_table t (\<lambda>d. d\<lparr>tbl_refs := tbl_refs d - 1\<rparr>) s;
     d \<leftarrow> dbtables s t;
     if tbl_refs d = 0 \<and> (actually_delete \<or> tbl_deleted d) then db_table_actually_delete t s else Some s
   }"

definition db_table_incref :: "tptr \<Rightarrow> db_state \<Rightarrow> db_state option" where
  "db_table_incref t s = mod_table t (\<lambda>d. d\<lparr>tbl_refs := tbl_refs d + 1\<rparr>) s"

definition db_entry_deref :: "eptr \<Rightarrow> bool \<Rightarrow> db_state \<Rightarrow> db_state option" where
  "db_entry_deref e tab s = do {
     s \<leftarrow> mod_entry e (\<lambda>c. c\<lparr>ce_refs := ce_refs c - 1\<rparr>) s;
     c \<leftarrow> entries s e;
     s \<leftarrow> (if tab then (case ce_table c of Some t \<Rightarrow> db_table_deref t False s | None \<Rightarrow> Some s) else Some s);
     c \<leftarrow> entries s e;
     if ce_refs c = 0 \<and> ce_deleted c then db_entry_actually_delete e s else Some s
   }"

definition db_entry_incref :: "eptr \<Rightarrow> bool \<Rightarrow> db_state \<Rightarrow> db_state option" where
  "db_entry_incref e tab s = do {
     s \<leftarrow> mod_entry e (\<lambda>c. c\<lparr>ce_refs := ce_refs c + 1\<rparr>) s;
     if tab then do { c \<leftarrow> entries s e; t \<leftarrow> ce_table c; db_table_incref t s } else Some s
   }"

section \<open>Deletion of entries\<close>

definition db_entry_delete :: "eptr \<Rightarrow> db_state \<Rightarrow> db_state option" where
  "db_entry_delete e s = do {
     c \<leftarrow> entries s e;
     path \<leftarrow> get_key_path c s;
     Some (s\<lparr>files := files s - {path}\<rparr>)
   }"

definition db_entry_cleanup :: "eptr \<Rightarrow> db_state \<Rightarrow> db_state option" where
  "db_entry_cleanup e s = do {
     c \<leftarrow> entries s e;
     if IS_SINGLE_FILE c then do {
       path \<leftarrow> get_key_path c s;
       Some (s\<lparr>files := files s - {path}\<rparr>)
     } else Some s
   }"

text \<open>\<open>kh_del(entry, entry->table->cache_hash_set, k)\<close>.\<close>

definition set_del :: "eptr \<Rightarrow> nat \<Rightarrow> db_state \<Rightarrow> db_state option" where
  "set_del e k s = do {
     c \<leftarrow> entries s e;
     t \<leftarrow> ce_table c;
     h \<leftarrow> hash_set_of t s;
     mod_table t (\<lambda>d. d\<lparr>cache_hash_set := Some (kh_del h k)\<rparr>) s
   }"

definition db_entry_handle_softdelete :: "eptr \<Rightarrow> nat \<Rightarrow> db_state \<Rightarrow> db_state option" where
  "db_entry_handle_softdelete e k s = do {
     c \<leftarrow> entries s e;
     if ce_deleted c then Some s
     else do {
       s \<leftarrow> (if IS_SINGLE_FILE c then db_entry_delete e s else Some s);
       s \<leftarrow> mod_entry e (\<lambda>c. c\<lparr>ce_deleted := True\<rparr>) s;
       s \<leftarrow> set_del e k s;
       let s = s\<lparr>db_size_bytes := db_size_bytes s - ucast (ce_data_length c)\<rparr>;
       s \<leftarrow> (if \<not> ce_writing c then db_lru_remove_node e s else Some s);
       c \<leftarrow> entries s e;
       if ce_refs c = 0 then db_entry_actually_delete e s else Some s
     }
   }"

text \<open>The hash set is destroyed, the table taken out of the map of tables, and its own reference dropped.\<close>

definition db_delete_table_entry :: "tptr \<Rightarrow> nat \<Rightarrow> bool \<Rightarrow> db_state \<Rightarrow> db_state option" where
  "db_delete_table_entry t k actually_delete s = do {
     _ \<leftarrow> hash_set_of t s;
     s \<leftarrow> mod_table t (\<lambda>d. d\<lparr>cache_hash_set := None\<rparr>) s;
     d \<leftarrow> dbtables s t;
     let s = (if tbl_refs d \<noteq> 0 then s\<lparr>tables := kh_del (tables s) k\<rparr> else s);
     db_table_deref t actually_delete s
   }"

text \<open>
  \<open>db_entry_handle_delete(entry, k)\<close> in two parts: the entry is taken out of its hash set, the counters
  and the LRU list; then, when that left the table empty, the table is deleted.
\<close>

definition handle_delete_mark :: "eptr \<Rightarrow> nat \<Rightarrow> db_state \<Rightarrow> db_state option" where
  "handle_delete_mark e k s = do {
     s \<leftarrow> db_entry_cleanup e s;
     c \<leftarrow> entries s e;
     let s = s\<lparr>db_size_bytes := db_size_bytes s - ucast (ce_data_length c), db_keys := db_keys s - 1\<rparr>;
     s \<leftarrow> set_del e k s;
     s \<leftarrow> mod_entry e (\<lambda>c. c\<lparr>ce_deleted := True\<rparr>) s;
     if \<not> ce_writing c then db_lru_remove_node e s else Some s
   }"

definition handle_delete_table :: "eptr \<Rightarrow> db_state \<Rightarrow> (bool \<times> db_state) option" where
  "handle_delete_table e s = do {
     c \<leftarrow> entries s e;
     t \<leftarrow> ce_table c;
     h \<leftarrow> hash_set_of t s;
     if kh_size h = 0 then do {
       s \<leftarrow> mod_table t (\<lambda>d. d\<lparr>tbl_deleted := True\<rparr>) s;
       d \<leftarrow> dbtables s t;
       k \<leftarrow> kh_get (tables s) (tbl_hash d);
       s \<leftarrow> db_delete_table_entry t k True s;
       s \<leftarrow> mod_entry e (\<lambda>c. c\<lparr>ce_table := None\<rparr>) s;
       Some (True, s)
     } else Some (False, s)
   }"

definition db_entry_handle_delete_at :: "eptr \<Rightarrow> nat \<Rightarrow> db_state \<Rightarrow> (bool \<times> db_state) option" where
  "db_entry_handle_delete_at e k s = do { s \<leftarrow> handle_delete_mark e k s; handle_delete_table e s }"

definition db_entry_handle_delete :: "eptr \<Rightarrow> db_state \<Rightarrow> (bool \<times> db_state) option" where
  "db_entry_handle_delete e s = do {
     c \<leftarrow> entries s e;
     t \<leftarrow> ce_table c;
     h \<leftarrow> hash_set_of t s;
     k \<leftarrow> kh_get h (ce_hash c);
     db_entry_handle_delete_at e k s
   }"

section \<open>Deletion of tables\<close>

text \<open>
  The loop over the buckets of the table; its bounds do not change since \<open>kh_del\<close> keeps the number
  of buckets.
\<close>

fun db_table_delete_keys :: "tptr \<Rightarrow> nat list \<Rightarrow> db_state \<Rightarrow> db_state option" where
  "db_table_delete_keys t [] s = Some s"
| "db_table_delete_keys t (ke # kes) s = do {
     h \<leftarrow> hash_set_of t s;
     s \<leftarrow> (if kh_exist h ke then do {
         ce \<leftarrow> kh_value h ke;
         c \<leftarrow> entries s ce;
         if \<not> ce_deleted c then do {
           s \<leftarrow> db_entry_handle_softdelete ce ke s;
           db_entry_cleanup ce s
         } else Some s
       } else Some s);
     db_table_delete_keys t kes s
   }"

definition db_table_handle_delete_at :: "tptr \<Rightarrow> nat \<Rightarrow> db_state \<Rightarrow> db_state option" where
  "db_table_handle_delete_at t k s = do {
     s \<leftarrow> mod_table t (\<lambda>d. d\<lparr>tbl_deleted := True\<rparr>) s;
     h \<leftarrow> hash_set_of t s;
     s \<leftarrow> db_table_delete_keys t [0..<n_buckets h] s;
     db_delete_table_entry t k True s
   }"

definition db_table_handle_delete :: "tptr \<Rightarrow> db_state \<Rightarrow> db_state option" where
  "db_table_handle_delete t s = do {
     d \<leftarrow> dbtables s t;
     k \<leftarrow> kh_get (tables s) (tbl_hash d);
     db_table_handle_delete_at t k s
   }"

definition db_table_close :: "tptr \<Rightarrow> db_state \<Rightarrow> db_state option" where
  "db_table_close t s = db_table_deref t False s"

section \<open>Lookup of tables\<close>

text \<open>
  The probing over hashes that \<open>db_table_get_read\<close> and \<open>db_table_get_write\<close> share: the first hash from
  \<open>hash\<close> on that is free (\<open>Inl\<close>) or belongs to the table of that name (\<open>Inr\<close>). It need not end.
\<close>

partial_function (option) db_table_probe :: "string \<Rightarrow> u32 \<Rightarrow> db_state \<Rightarrow> (u32 + tptr) option" where
  "db_table_probe name hash s =
     Option.bind (kh_get (tables s) hash) (\<lambda>k.
       if k = n_buckets (tables s) then Some (Inl hash)
       else Option.bind (kh_value (tables s) k) (\<lambda>t.
         Option.bind (dbtables s t) (\<lambda>d.
           if key_differs (unat (tbl_key_length d)) (tbl_key d) name
           then db_table_probe name (hash + 1) s
           else Some (Inr t))))"

definition db_table_get_read :: "string \<Rightarrow> db_state \<Rightarrow> (tptr option \<times> db_state) option" where
  "db_table_get_read name s = do {
     r \<leftarrow> db_table_probe name (hash_string name) s;
     case r of
       Inl hash \<Rightarrow> Some (None, s)
     | Inr t \<Rightarrow> do { s \<leftarrow> db_table_incref t s; Some (Some t, s) }
   }"

definition db_table_get_write :: "string \<Rightarrow> db_state \<Rightarrow> (tptr \<times> db_state) option" where
  "db_table_get_write name s = do {
     r \<leftarrow> db_table_probe name (hash_string name) s;
     case r of
       Inl hash \<Rightarrow> do {
         let t = next_ptr s;
         let s = s\<lparr>next_ptr := t + 1, dbtables := (dbtables s)(t \<mapsto>
           \<lparr>tbl_hash = hash, tbl_key = name, tbl_key_length = of_nat (length name),
            cache_hash_set = Some kh_init, tbl_refs = 1, tbl_deleted = False\<rparr>)\<rparr>;
         (h, k, _) \<leftarrow> kh_put (tables s) hash;
         h \<leftarrow> kh_set_value h k t;
         Some (t, s\<lparr>tables := h\<rparr>)
       }
     | Inr t \<Rightarrow> do { s \<leftarrow> db_table_incref t s; Some (t, s) }
   }"

end
