(* ===== verification/DbGc.thy ===== *)
theory DbGc
  imports DbTable
begin

text \<open>
  Expiry and eviction (db.cpp): the cursor that walks the tables and removes expired entries, the
  removal of least recently used entries until enough bytes are gone, and \<open>db_lru_gc\<close>, which runs
  them and starts the rate-limited flush of the index in a child process. What the kernel answers to
  \<open>waitpid\<close> and \<open>fork\<close> is an argument.
\<close>

section \<open>Operations\<close>

text \<open>
  \<open>db_lru_cleanup_percent\<close>; the counter is an \<open>int\<close> from which a \<open>uint32_t\<close> is subtracted. The loop need
  not end by its form: each round has to take an entry off the list.
\<close>

partial_function (option) db_lru_cleanup_percent :: "int \<Rightarrow> db_state \<Rightarrow> (int \<times> db_state) option" where
  "db_lru_cleanup_percent bytes_to_remove s = (case lru_head s of
       None \<Rightarrow> Some (bytes_to_remove, s)
     | Some l \<Rightarrow>
         if bytes_to_remove > 0 then
           Option.bind (entries s l) (\<lambda>c.
             if ce_writing c \<or> ce_deleted c
             then Option.bind (db_lru_remove_node l s) (db_lru_cleanup_percent bytes_to_remove)
             else if ce_refs c = 0
             then Option.bind (db_entry_incref l True s) (\<lambda>s.
               Option.bind (db_entry_handle_delete l s) (\<lambda>(_, s).
                 Option.bind (db_entry_deref l True s)
                   (db_lru_cleanup_percent (sint (of_int bytes_to_remove - ce_data_length c)))))
             else Option.bind (db_entry_handle_delete l s) (\<lambda>(_, s).
               db_lru_cleanup_percent (sint (of_int bytes_to_remove - ce_data_length c)) s))
         else Some (bytes_to_remove, s))"

text \<open>
  \<open>db_expire_cursor_table\<close>: the loop over the buckets from \<open>ke\<close> on, with the number of entries seen; it
  stops when the table was deleted with its last entry.
\<close>

fun db_expire_buckets :: "tptr \<Rightarrow> nat list \<Rightarrow> nat \<Rightarrow> db_state \<Rightarrow> (nat \<times> db_state) option" where
  "db_expire_buckets t [] ret s = Some (ret, s)"
| "db_expire_buckets t (ke # kes) ret s = do {
     h \<leftarrow> hash_set_of t s;
     if \<not> kh_exist h ke then db_expire_buckets t kes ret s
     else do {
       l \<leftarrow> kh_value h ke;
       c \<leftarrow> entries s l;
       if \<not> ce_deleted c \<and> ce_expires c \<noteq> 0 \<and> ce_expires c < now_sec s then do {
         let end_early = (kh_size h = 1);
         (end_early, table_deleted, s) \<leftarrow>
           (if ce_refs c = 0 then do {
              s \<leftarrow> db_entry_incref l True s;
              (table_deleted, s) \<leftarrow> db_entry_handle_delete l s;
              s \<leftarrow> db_entry_deref l True s;
              Some (end_early, table_deleted, s)
            } else do {
              (table_deleted, s) \<leftarrow> db_entry_handle_delete l s;
              Some (False, table_deleted, s)
            });
         if end_early \<or> table_deleted then Some (ret + 1, s)
         else db_expire_buckets t kes (ret + 1) s
       } else db_expire_buckets t kes (ret + 1) s
     }
   }"

definition db_expire_cursor_table :: "tptr \<Rightarrow> db_state \<Rightarrow> (nat \<times> db_state) option" where
  "db_expire_cursor_table t s = do {
     h \<leftarrow> hash_set_of t s;
     db_expire_buckets t [0..<n_buckets h] 0 s
   }"

text \<open>
  The loop of \<open>db_expire_cursor\<close>: the cursor comes back to its start after as many steps as there are
  buckets, which is the fuel.
\<close>

fun db_expire_loop :: "nat \<Rightarrow> nat \<Rightarrow> nat \<Rightarrow> db_state \<Rightarrow> db_state option" where
  "db_expire_loop 0 start d s = None"
| "db_expire_loop (Suc fuel) start d s = do {
     (d, s) \<leftarrow> (if kh_exist (tables s) (table_gc s) then do {
         t \<leftarrow> kh_value (tables s) (table_gc s);
         (n, s) \<leftarrow> db_expire_cursor_table t s;
         Some (d + n, s)
       } else Some (d, s));
     let s = s\<lparr>table_gc := table_gc s + 1\<rparr>;
     let s = (if n_buckets (tables s) \<le> table_gc s then s\<lparr>table_gc := 0\<rparr> else s);
     if table_gc s \<noteq> start \<and> d < 4096 then db_expire_loop fuel start d s else Some s
   }"

definition db_expire_cursor :: "db_state \<Rightarrow> (bool \<times> db_state) option" where
  "db_expire_cursor s = (let
     (start, s) = (if n_buckets (tables s) \<le> table_gc s then (0, s\<lparr>table_gc := 0\<rparr>) else (table_gc s, s))
   in if start = n_buckets (tables s) then Some (True, s)
      else do {
        s \<leftarrow> db_expire_loop (n_buckets (tables s)) start 0 s;
        Some (table_gc s = start, s)
      })"

text \<open>What the kernel answers: \<open>waitpid\<close> (its result, and \<open>WIFEXITED\<close> of the status) and \<open>fork\<close>.\<close>

record gc_env =
  wait_result :: int
  wait_exited :: bool
  fork_pid :: int

definition currently_flushing :: "gc_env \<Rightarrow> db_state \<Rightarrow> bool \<times> db_state" where
  "currently_flushing env s =
     (if current_flush s = 0 then (False, s)
      else if wait_result env \<noteq> 0
      then (if wait_exited env then (False, s\<lparr>current_flush := 0\<rparr>) else (True, s))
      else (True, s))"

definition db_handle_sigchld :: "int \<Rightarrow> db_state \<Rightarrow> db_state" where
  "db_handle_sigchld pid s = (if pid = current_flush s then s\<lparr>current_flush := 0\<rparr> else s)"

definition db_now_ms :: "db_state \<Rightarrow> u64" where
  "db_now_ms s = of_int (now_sec s) * 1000 + of_int (now_usec s) div 1000"

text \<open>
  \<open>(db_size_bytes - max_size) + max_size * db_lru_clear\<close> in floating point, cut off to an \<open>int\<close>
  (undefined when it does not fit); here without the rounding of the double.
\<close>

definition lru_target :: "db_state \<Rightarrow> int option" where
  "lru_target s = (let x = of_nat (unat (db_size_bytes s - max_size s)) + of_nat (unat (max_size s)) * db_lru_clear s;
     n = (if x < 0 then \<lceil>x\<rceil> else \<lfloor>x\<rfloor>)
   in if int32_ok n then Some n else None)"

text \<open>The loop \<open>do ... while (!full_cycle && i < 5)\<close>, with \<open>5 - i\<close> rounds left.\<close>

fun db_gc_cycles :: "nat \<Rightarrow> db_state \<Rightarrow> db_state option" where
  "db_gc_cycles 0 s = Some s"
| "db_gc_cycles (Suc n) s = do {
     _ \<leftarrow> lru_target s;
     (full_cycle, s) \<leftarrow> db_expire_cursor s;
     if \<not> full_cycle then db_gc_cycles n s else Some s
   }"

text \<open>
  The part of \<open>db_lru_gc\<close> after the cleanup. \<open>db_index_flush(true)\<close> forks; the parent, which is what
  is modelled here, goes on with the process id.
\<close>

definition db_gc_flush :: "gc_env \<Rightarrow> db_state \<Rightarrow> db_state" where
  "db_gc_flush env s = (case currently_flushing env s of (flushing, s) \<Rightarrow>
     if flushing then s
     else let now_ms = db_now_ms s in
       if DB_FLUSH_MIN_INTERVAL_MS > 0 \<and> last_flush_ms s \<noteq> 0
          \<and> now_ms - last_flush_ms s < of_nat DB_FLUSH_MIN_INTERVAL_MS
       then s\<lparr>flush_pending := True\<rparr>
       else let s = s\<lparr>flush_pending := False\<rparr>; pid = fork_pid env in
         if pid = - 1 then s
         else s\<lparr>current_flush := pid, last_flush_ms := now_ms\<rparr>)"

definition db_lru_gc :: "gc_env \<Rightarrow> db_state \<Rightarrow> db_state option" where
  "db_lru_gc env s = do {
     s \<leftarrow> (if 0 < max_size s \<and> max_size s < db_size_bytes s then do {
         s \<leftarrow> db_gc_cycles 5 s;
         bytes_to_remove \<leftarrow> lru_target s;
         if bytes_to_remove > 0
         then do { (_, s) \<leftarrow> db_lru_cleanup_percent bytes_to_remove s; Some s }
         else Some s
       } else do { (_, s) \<leftarrow> db_expire_cursor s; Some s });
     Some (db_gc_flush env s)
   }"

end
