(* ===== verification/DbEntry.thy ===== *)
theory DbEntry
  imports DbGc
begin

text \<open>
  The operations of requests on entries (db.cpp): lookup for reading, writing and deleting, and the
  targets through which a connection reads or writes the data of an entry, in a block of the block
  file or in a file of its own.
\<close>

section \<open>Entries\<close>

text \<open>
  \<open>db_entry_new\<close>. The fields it does not set (hash, key, sizes, block) are set by its callers before
  anything reads them; they are 0 here.
\<close>

definition db_entry_new :: "tptr \<Rightarrow> db_state \<Rightarrow> eptr \<times> db_state" where
  "db_entry_new t s = (let e = next_ptr s in
     (e, s\<lparr>next_ptr := e + 1, nextit := nextit s + 1, entries := (entries s)(e \<mapsto>
       \<lparr>ce_table = Some t, ce_hash = 0, ce_key = [], ce_key_length = 0, ce_writing = False,
        ce_deleted = False, ce_refs = 0, ce_data_length = 0, ce_block = 0, ce_expires = 0,
        ce_lru_next = None, ce_lru_prev = None, ce_it = nextit s\<rparr>)\<rparr>))"

definition db_complete_writing :: "eptr \<Rightarrow> db_state \<Rightarrow> db_state option" where
  "db_complete_writing e s = do {
     s \<leftarrow> mod_entry e (\<lambda>c. c\<lparr>ce_writing := False\<rparr>) s;
     c \<leftarrow> entries s e;
     if \<not> ce_deleted c then db_lru_insert e s else Some s
   }"

text \<open>The entry stored under a hash in a table, or NULL.\<close>

definition find_entry :: "tptr \<Rightarrow> u32 \<Rightarrow> db_state \<Rightarrow> (nat \<times> eptr option) option" where
  "find_entry t hash s = do {
     h \<leftarrow> hash_set_of t s;
     k \<leftarrow> kh_get h hash;
     if k = n_buckets h then Some (k, None)
     else do { e \<leftarrow> kh_value h k; Some (k, Some e) }
   }"

definition db_entry_get_read :: "tptr \<Rightarrow> string \<Rightarrow> db_state \<Rightarrow> (eptr option \<times> db_state) option" where
  "db_entry_get_read t key s = do {
     (k, entry) \<leftarrow> find_entry t (hash_string key) s;
     case entry of
       None \<Rightarrow> Some (None, s)
     | Some e \<Rightarrow> do {
         c \<leftarrow> entries s e;
         if ce_expires c \<noteq> 0 \<and> ce_expires c < now_sec s then do {
           s \<leftarrow> db_entry_incref e False s;
           (_, s) \<leftarrow> db_entry_handle_delete e s;
           s \<leftarrow> db_entry_deref e False s;
           Some (None, s)
         }
         else if key_differs (ce_key_length c) (ce_key c) key then Some (None, s)
         else do {
           let s = s\<lparr>db_stats_gets := db_stats_gets s + 1, db_stats_operations := db_stats_operations s + 1\<rparr>;
           if ce_writing c then Some (None, s)
           else do {
             s \<leftarrow> db_lru_hit e s;
             s \<leftarrow> db_entry_incref e False s;
             Some (Some e, s)
           }
         }
       }
   }"

text \<open>\<open>entry->key_length = length\<close> into 14 bits.\<close>

definition bits14 :: "nat \<Rightarrow> nat" where
  "bits14 n = n mod 2 ^ 14"

text \<open>\<open>kh_put(entry, table->cache_hash_set, hash, &ret); kh_value(...) = entry\<close>.\<close>

definition set_store :: "tptr \<Rightarrow> u32 \<Rightarrow> eptr \<Rightarrow> db_state \<Rightarrow> db_state option" where
  "set_store t hash e s = do {
     h \<leftarrow> hash_set_of t s;
     (h, k, _) \<leftarrow> kh_put h hash;
     h \<leftarrow> kh_set_value h k e;
     mod_table t (\<lambda>d. d\<lparr>cache_hash_set := Some h\<rparr>) s
   }"

text \<open>The part of \<open>db_entry_get_write\<close> after the old entry is gone: a new entry is set up and stored.\<close>

definition db_entry_write_new :: "tptr \<Rightarrow> string \<Rightarrow> bool \<Rightarrow> db_state \<Rightarrow> (eptr \<times> db_state) option" where
  "db_entry_write_new t key is_first_in_table s = do {
     let (e, s) = db_entry_new t s;
     s \<leftarrow> mod_entry e (\<lambda>c. c\<lparr>ce_block := - 2, ce_data_length := 0, ce_key := key,
       ce_key_length := bits14 (length key), ce_hash := hash_string key\<rparr>) s;
     s \<leftarrow> (if is_first_in_table then db_table_incref t s else Some s);
     s \<leftarrow> set_store t (hash_string key) e s;
     s \<leftarrow> db_entry_incref e False s;
     s \<leftarrow> mod_entry e (\<lambda>c. c\<lparr>ce_writing := True\<rparr>) s;
     Some (e, s)
   }"

definition db_entry_get_write :: "gc_env \<Rightarrow> tptr \<Rightarrow> string \<Rightarrow> db_state \<Rightarrow> (eptr option \<times> db_state) option" where
  "db_entry_get_write env t key s = do {
     (k, entry) \<leftarrow> find_entry t (hash_string key) s;
     let s = s\<lparr>db_stats_inserts := db_stats_inserts s + 1, db_stats_operations := db_stats_operations s + 1\<rparr>;
     h \<leftarrow> hash_set_of t s;
     let is_first_in_table = (kh_size h = 0);
     writing \<leftarrow> (case entry of None \<Rightarrow> Some False | Some e \<Rightarrow> do { c \<leftarrow> entries s e; Some (ce_writing c) });
     if writing then Some (None, s)
     else do {
       s \<leftarrow> (case entry of
           Some e \<Rightarrow> db_entry_handle_softdelete e k s
         | None \<Rightarrow> Some (s\<lparr>db_keys := db_keys s + 1\<rparr>));
       (e, s) \<leftarrow> db_entry_write_new t key is_first_in_table s;
       s \<leftarrow> (if db_stats_inserts s mod of_nat DB_LRU_EVERY = 0 then db_lru_gc env s else Some s);
       Some (Some e, s)
     }
   }"

definition db_entry_get_delete :: "tptr \<Rightarrow> string \<Rightarrow> db_state \<Rightarrow> (eptr option \<times> db_state) option" where
  "db_entry_get_delete t key s = do {
     (k, entry) \<leftarrow> find_entry t (hash_string key) s;
     case entry of
       None \<Rightarrow> Some (None, s)
     | Some e \<Rightarrow> do {
         c \<leftarrow> entries s e;
         if key_differs (ce_key_length c) (ce_key c) key then Some (None, s)
         else do {
           let s = s\<lparr>db_stats_deletes := db_stats_deletes s + 1, db_stats_operations := db_stats_operations s + 1\<rparr>;
           s \<leftarrow> db_entry_incref e False s;
           Some (Some e, s)
         }
       }
   }"

section \<open>Targets\<close>

text \<open>\<open>struct cache_target\<close>.\<close>

record cache_target =
  tgt_entry :: "eptr option"
  tgt_position :: int
  tgt_end_position :: int
  tgt_fd :: int

text \<open>
  \<open>open\<close> on the path of an entry: with \<open>O_CREAT | O_EXCL\<close> it fails when the file exists, without when it
  does not. \<open>newfd\<close> is the descriptor the kernel gives when it succeeds; other failures are not modelled.
\<close>

definition db_entry_open :: "eptr \<Rightarrow> bool \<Rightarrow> int \<Rightarrow> db_state \<Rightarrow> (int \<times> db_state) option" where
  "db_entry_open e create newfd s = do {
     c \<leftarrow> entries s e;
     path \<leftarrow> get_key_path c s;
     Some (if create
       then (if path \<in> files s then (- 1, s) else (newfd, s\<lparr>files := insert path (files s)\<rparr>))
       else (if path \<in> files s then (newfd, s) else (- 1, s)))
   }"

fun db_entry_open_create :: "nat \<Rightarrow> eptr \<Rightarrow> int \<Rightarrow> db_state \<Rightarrow> (int \<times> db_state) option" where
  "db_entry_open_create 0 e newfd s = Some (- 1, s)"
| "db_entry_open_create (Suc n) e newfd s = do {
     (fd, s) \<leftarrow> db_entry_open e True newfd s;
     if 0 \<le> fd then Some (fd, s)
     else do {
       s \<leftarrow> mod_entry e (\<lambda>c. c\<lparr>ce_it := ce_it c + 1\<rparr>) s;
       db_entry_open_create n e newfd s
     }
   }"

definition db_target_open :: "int \<Rightarrow> cache_target \<Rightarrow> bool \<Rightarrow> int \<Rightarrow> db_state \<Rightarrow> (cache_target \<times> db_state) option" where
  "db_target_open fd_blockfile tgt write newfd s = do {
     e \<leftarrow> tgt_entry tgt;
     c \<leftarrow> entries s e;
     (tgt, s) \<leftarrow> (if IS_SINGLE_FILE c then do {
         (fd, s) \<leftarrow> (if write then db_entry_open_create 65500 e newfd s else db_entry_open e False newfd s);
         Some (tgt\<lparr>tgt_position := 0, tgt_fd := fd\<rparr>, s)
       } else Some (tgt\<lparr>tgt_fd := fd_blockfile, tgt_position := ce_block c * int BLOCK_LENGTH\<rparr>, s));
     Some (tgt\<lparr>tgt_end_position := tgt_position tgt + uint (ce_data_length c)\<rparr>, s)
   }"

definition db_target_setup :: "int \<Rightarrow> cache_target \<Rightarrow> bool \<Rightarrow> int \<Rightarrow> db_state \<Rightarrow> (cache_target \<times> db_state) option" where
  "db_target_setup fd_blockfile tgt write newfd s =
     (if \<not> write then db_target_open fd_blockfile tgt write newfd s else Some (tgt\<lparr>tgt_fd := - 1\<rparr>, s))"

definition db_target_entry_close :: "int \<Rightarrow> cache_target \<Rightarrow> db_state \<Rightarrow> (cache_target \<times> db_state) option" where
  "db_target_entry_close fd_blockfile tgt s = do {
     (tgt, s) \<leftarrow> (case tgt_entry tgt of
         None \<Rightarrow> Some (tgt, s)
       | Some e \<Rightarrow> do {
           s \<leftarrow> (if tgt_fd tgt \<noteq> fd_blockfile \<and> 0 \<le> tgt_fd tgt then do {
               c \<leftarrow> entries s e;
               if ce_writing c then db_entry_delete e s else Some s
             } else Some s);
           s \<leftarrow> db_entry_deref e True s;
           Some (tgt\<lparr>tgt_fd := - 1, tgt_entry := None\<rparr>, s)
         });
     Some (tgt\<lparr>tgt_position := 0\<rparr>, s)
   }"

text \<open>
  \<open>db_target_write_allocate\<close>. The difference added to \<open>db_size_bytes\<close> in the second case is of two
  \<open>uint32_t\<close>: it wraps at 32 bits before it is widened.
\<close>

definition write_allocate_block :: "eptr \<Rightarrow> u32 \<Rightarrow> db_state \<Rightarrow> db_state option" where
  "write_allocate_block e data_length s = do {
     c \<leftarrow> entries s e;
     if ce_block c = - 2 then
       (if data_length \<le> of_nat BLOCK_LENGTH
        then (case db_block_allocate_new s of (b, s) \<Rightarrow> mod_entry e (\<lambda>c. c\<lparr>ce_block := b\<rparr>) s)
        else Some s)
     else if of_nat BLOCK_LENGTH < data_length then
       mod_entry e (\<lambda>c. c\<lparr>ce_block := - 1\<rparr>)
         (if \<not> IS_SINGLE_FILE c \<and> 0 \<le> ce_block c then db_block_free (ce_block c) s else s)
     else if IS_SINGLE_FILE c then do {
       path \<leftarrow> get_key_path c s;
       (case db_block_allocate_new (s\<lparr>files := files s - {path}\<rparr>) of (b, s) \<Rightarrow>
         mod_entry e (\<lambda>c. c\<lparr>ce_block := b\<rparr>) s)
     }
     else Some s
   }"

definition db_target_write_allocate ::
  "int \<Rightarrow> cache_target \<Rightarrow> u32 \<Rightarrow> int \<Rightarrow> db_state \<Rightarrow> (cache_target \<times> db_state) option" where
  "db_target_write_allocate fd_blockfile tgt data_length newfd s = do {
     e \<leftarrow> tgt_entry tgt;
     s \<leftarrow> write_allocate_block e data_length s;
     c \<leftarrow> entries s e;
     s \<leftarrow> (if ce_block c = - 2
       then mod_entry e (\<lambda>c. c\<lparr>ce_block := - 1\<rparr>) (s\<lparr>db_size_bytes := db_size_bytes s + ucast data_length\<rparr>)
       else Some (s\<lparr>db_size_bytes := db_size_bytes s + ucast (data_length - ce_data_length c)\<rparr>));
     s \<leftarrow> mod_entry e (\<lambda>c. c\<lparr>ce_data_length := data_length\<rparr>) s;
     db_target_open fd_blockfile tgt True newfd s
   }"

end
