(* ===== verification/DbInv.thy ===== *)
theory DbInv
  imports DbEntry
begin

text \<open>
  The invariant of the database engine between two of its operations, and what the hash tables
  contribute to it. \<open>db_ok s hs None\<close> says for the state \<open>s\<close> and the list \<open>hs\<close> of the handles that connections
  hold: the map of tables and the hash sets refer to live tables and entries that refer back, every
  entry that is not deleted is found under its hash, reference counts are the number of handles,
  nothing that a handle refers to has been freed, and every block is owned once. \<open>lru_ok s xs\<close> says that
  the LRU list is \<open>xs\<close> and holds exactly the entries that are neither deleted nor being written.
\<close>

section \<open>Hash tables\<close>

lemma kh_get_live:
  assumes inv: "kh_inv N h" and l: "kh_lookup h key = Some v"
  obtains k where "kh_get h key = Some k" "k < n_buckets h" "k \<in> kh_live h" "keys h ! k = key"
    "kh_value h k = Some v" "kh_shape h" "kh_counts h" "kh_exist h k"
proof -
  from l obtain k where f: "kh_find h key = Some k" "vals h ! k = Some v"
    by (auto simp: kh_lookup_def bind_Some_iff)
  have wf: "kh_wf h" using inv by (simp add: kh_inv_def)
  have "h \<noteq> kh_init" using f by auto
  with wf have sh: "kh_shape h" "kh_counts h" by (auto simp: kh_wf_def)
  from f have "k \<in> kh_live h" "keys h ! k = key" using kh_find_Some [OF sh(1)] by auto
  with f wf sh show thesis
    by (intro that [of k]) (auto simp: kh_get_eq kh_value_def kh_live_def kh_exist_def)
qed

lemma kh_get_absent:
  assumes inv: "kh_inv N h" and l: "kh_lookup h key = None"
  shows "kh_get h key = Some (n_buckets h)"
proof -
  have "key \<notin> kh_keys h" using inv l by (auto simp: kh_inv_def kh_full_def)
  then show ?thesis using inv by (simp add: kh_inv_def kh_get_eq kh_find_keys [symmetric])
qed

lemma kh_exist_lookup:
  assumes inv: "kh_inv N h" and k: "k < n_buckets h" "kh_exist h k"
  obtains v where "kh_value h k = Some v" "kh_lookup h (keys h ! k) = Some v" "k \<in> kh_live h"
    "kh_shape h" "kh_counts h"
proof -
  have kl: "k \<in> kh_live h" using k by (simp add: kh_live_def kh_exist_def)
  then have "h \<noteq> kh_init" by (auto simp: kh_live_def kh_init_def)
  with inv have sh: "kh_shape h" "kh_counts h" by (auto simp: kh_inv_def kh_wf_def)
  have "keys h ! k \<in> kh_keys h" using kl by (auto simp: kh_keys_def)
  with inv obtain v where "kh_lookup h (keys h ! k) = Some v" by (auto simp: kh_inv_def kh_full_def)
  then show thesis using sh kl k kh_lookup_eq [OF sh(1) kl]
    by (intro that [of v]) (auto simp: kh_value_def)
qed

lemma kh_del_inv:
  assumes inv: "kh_inv N h" and k: "k \<in> kh_live h" and sh: "kh_shape h" "kh_counts h"
  shows "kh_inv N (kh_del h k)" "kh_lookup (kh_del h k) = (kh_lookup h)(keys h ! k := None)"
    "n_buckets (kh_del h k) = n_buckets h"
  using del_ok [OF sh k] inv by (auto simp: kh_inv_def kh_wf_def kh_full_def)

lemma kh_del_end [simp]: "kh_del h (n_buckets h) = h"
  by (simp add: kh_del_def)

lemma kh_size_zero: "kh_inv N h \<Longrightarrow> kh_size h = 0 \<longleftrightarrow> kh_lookup h = Map.empty"
proof -
  assume inv: "kh_inv N h"
  then have "kh_keys h = dom (kh_lookup h)" by (simp add: kh_inv_def kh_full_def)
  moreover have "kh_size h = card (kh_live h)"
  proof (cases "h = kh_init")
    case True
    then show ?thesis by (simp add: kh_init_def kh_live_def)
  next
    case False
    then show ?thesis using inv by (simp add: kh_inv_def kh_wf_def kh_counts_def)
  qed
  moreover have "kh_keys h = {} \<longleftrightarrow> kh_live h = {}" by (simp add: kh_keys_def)
  ultimately have "kh_size h = 0 \<longleftrightarrow> dom (kh_lookup h) = {}" by simp
  then show ?thesis by (simp only: dom_eq_empty_conv)
qed

lemma kh_store_cap:
  assumes inv: "kh_inv N h" and cap: "N \<le> 2 ^ 28" "kh_size h < N"
  shows "\<exists>h1 k r h2. kh_put h key = Some (h1, k, r) \<and> kh_set_value h1 k v = Some h2
    \<and> kh_inv N h2 \<and> kh_lookup h2 = (kh_lookup h)(key \<mapsto> v)"
proof -
  have wf: "kh_wf h" and full: "kh_full h" and n: "kh_size h \<le> N" "n_buckets h \<le> max 4 (4 * N)"
    using inv by (auto simp: kh_inv_def)
  have "n_buckets h \<le> 2 ^ 30" using n(2) cap by simp
  from kh_put_ok [OF wf this, of key] obtain h1 x r where h1: "kh_put h key = Some (h1, x, r)"
    "kh_shape h1" "kh_counts h1" "x \<in> kh_live h1" "keys h1 ! x = key" "kh_keys h1 = insert key (kh_keys h)"
    "\<forall>k. k \<noteq> key \<longrightarrow> kh_lookup h1 k = kh_lookup h k"
    "kh_size h1 = kh_size h + (if key \<in> kh_keys h then 0 else 1)"
    "n_buckets h1 \<le> max (n_buckets h) (max 4 (4 * kh_size h))" by blast
  from set_value_ok [OF h1(2-4), of v] obtain h2 where h2: "kh_set_value h1 x v = Some h2" "kh_shape h2"
    "kh_counts h2" "kh_size h2 = kh_size h1" "n_buckets h2 = n_buckets h1" "kh_keys h2 = kh_keys h1"
    "kh_lookup h2 = (kh_lookup h1)(key \<mapsto> v)" unfolding h1(5) by blast
  have look: "kh_lookup h2 = (kh_lookup h)(key \<mapsto> v)" using h1(7) h2(7) by auto
  have "kh_full h2" using full h1(6) h2(6) by (simp add: kh_full_def look)
  moreover have "n_buckets h2 \<le> max 4 (4 * N)" "kh_size h2 \<le> N"
    using h1(8,9) h2(4,5) n cap by (auto split: if_splits)
  ultimately have "kh_inv N h2" using h2(2,3) by (simp add: kh_inv_def kh_wf_def)
  with h1(1) h2(1) look show ?thesis by blast
qed

lemma kh_init_inv: "kh_inv N kh_init"
  by (auto simp: kh_inv_def kh_full_def) (simp_all add: kh_init_def)

section \<open>The invariant\<close>

text \<open>The most tables, and entries in a table, at a time.\<close>

definition CAP :: nat where
  "CAP = 2 ^ 28"

text \<open>
  What a connection holds: a table, an entry with a reference to its table, or (within an operation)
  an entry alone.
\<close>

datatype handle = TableH tptr | EntryH eptr | BareH eptr

fun on_entry :: "eptr \<Rightarrow> handle \<Rightarrow> bool" where
  "on_entry e (EntryH x) = (x = e)"
| "on_entry e (BareH x) = (x = e)"
| "on_entry e (TableH t) = False"

definition table_of :: "db_state \<Rightarrow> eptr \<Rightarrow> tptr option" where
  "table_of s e = do { c \<leftarrow> entries s e; ce_table c }"

fun on_table :: "db_state \<Rightarrow> tptr \<Rightarrow> handle \<Rightarrow> bool" where
  "on_table s t (EntryH e) = (table_of s e = Some t)"
| "on_table s t (BareH e) = False"
| "on_table s t (TableH t') = (t' = t)"

definition entry_refs :: "handle list \<Rightarrow> eptr \<Rightarrow> nat" where
  "entry_refs hs e = length (filter (on_entry e) hs)"

definition table_refs :: "db_state \<Rightarrow> handle list \<Rightarrow> tptr \<Rightarrow> nat" where
  "table_refs s hs t = length (filter (on_table s t) hs)"

text \<open>
  The reference a table with entries has on itself; within an operation a table \<open>X\<close> may have it while
  its hash set is empty.
\<close>

definition own_ref :: "tptr option \<Rightarrow> tptr \<Rightarrow> db_table \<Rightarrow> nat" where
  "own_ref X t d = (if X = Some t then 1 else case cache_hash_set d of None \<Rightarrow> 0 | Some h \<Rightarrow> if kh_lookup h = Map.empty then 0 else 1)"

definition tables_ok :: "db_state \<Rightarrow> bool" where
  "tables_ok s \<longleftrightarrow> kh_inv CAP (tables s) \<and> (\<forall>hash t. kh_lookup (tables s) hash = Some t \<longrightarrow>
     (\<exists>d. dbtables s t = Some d \<and> tbl_hash d = hash \<and> \<not> tbl_deleted d))"

definition sets_ok :: "db_state \<Rightarrow> bool" where
  "sets_ok s \<longleftrightarrow> (\<forall>t d. dbtables s t = Some d \<longrightarrow> (case cache_hash_set d of
       None \<Rightarrow> tbl_deleted d
     | Some h \<Rightarrow> \<not> tbl_deleted d \<and> kh_inv CAP h \<and> (\<forall>hash e. kh_lookup h hash = Some e \<longrightarrow>
         (\<exists>c. entries s e = Some c \<and> ce_hash c = hash \<and> ce_table c = Some t \<and> \<not> ce_deleted c))))"

definition live_ok :: "db_state \<Rightarrow> bool" where
  "live_ok s \<longleftrightarrow> (\<forall>e c. entries s e = Some c \<and> \<not> ce_deleted c \<longrightarrow>
     (\<exists>t d h. ce_table c = Some t \<and> dbtables s t = Some d \<and> cache_hash_set d = Some h
       \<and> kh_lookup h (ce_hash c) = Some e))"

definition refs_ok :: "db_state \<Rightarrow> handle list \<Rightarrow> tptr option \<Rightarrow> bool" where
  "refs_ok s hs X \<longleftrightarrow>
     (\<forall>e c. entries s e = Some c \<longrightarrow> unat (ce_refs c) = entry_refs hs e \<and> (ce_deleted c \<longrightarrow> 0 < entry_refs hs e))
     \<and> (\<forall>e. 0 < entry_refs hs e \<longrightarrow> entries s e \<noteq> None)
     \<and> (\<forall>t d. dbtables s t = Some d \<longrightarrow>
         (if tbl_deleted d then own_ref X t d + table_refs s hs t \<le> unat (tbl_refs d) \<and> 0 < unat (tbl_refs d)
          else unat (tbl_refs d) = own_ref X t d + table_refs s hs t))
     \<and> (\<forall>t. 0 < table_refs s hs t \<longrightarrow> dbtables s t \<noteq> None)"

definition owned_blocks :: "db_state \<Rightarrow> int set" where
  "owned_blocks s = {b. 0 \<le> b \<and> (\<exists>e c. entries s e = Some c \<and> ce_block c = b)}"

definition blocks_ok :: "db_state \<Rightarrow> bool" where
  "blocks_ok s \<longleftrightarrow> blocks_inv s (owned_blocks s)
     \<and> (\<forall>e c. entries s e = Some c \<and> 0 \<le> ce_block c \<longrightarrow> \<not> IS_SINGLE_FILE c)
     \<and> (\<forall>e c e' c'. entries s e = Some c \<and> entries s e' = Some c' \<and> 0 \<le> ce_block c \<and> ce_block c = ce_block c'
         \<longrightarrow> e = e')"

definition fresh_ok :: "db_state \<Rightarrow> bool" where
  "fresh_ok s \<longleftrightarrow> (\<forall>p \<ge> next_ptr s. entries s p = None \<and> dbtables s p = None)"

definition db_ok :: "db_state \<Rightarrow> handle list \<Rightarrow> tptr option \<Rightarrow> bool" where
  "db_ok s hs X \<longleftrightarrow> tables_ok s \<and> sets_ok s \<and> live_ok s \<and> refs_ok s hs X \<and> blocks_ok s \<and> fresh_ok s
     \<and> length hs < 2 ^ 14"

definition idle_entries :: "db_state \<Rightarrow> eptr set" where
  "idle_entries s = {e. \<exists>c. entries s e = Some c \<and> \<not> ce_deleted c \<and> \<not> ce_writing c}"

definition lru_ok :: "db_state \<Rightarrow> eptr list \<Rightarrow> bool" where
  "lru_ok s xs \<longleftrightarrow> lru_inv s xs \<and> set xs = idle_entries s"

section \<open>The invariant does not see the links\<close>

lemma same_links_entries:
  "same_but_links s s' \<Longrightarrow> entries s' e = Some c' \<Longrightarrow> \<exists>c. entries s e = Some c \<and> core c = core c'"
  unfolding same_but_links_def by (metis map_option_eq_Some)

lemma same_links_sym: "same_but_links s s' \<Longrightarrow> same_but_links s' s"
proof -
  assume "same_but_links s s'"
  then have *: "s'\<lparr>entries := entries s, lru_head := lru_head s, lru_tail := lru_tail s\<rparr> = s"
    "\<forall>x. map_option core (entries s' x) = map_option core (entries s x)" by (auto simp: same_but_links_def)
  have "s\<lparr>entries := entries s', lru_head := lru_head s', lru_tail := lru_tail s'\<rparr> = s'"
    by (subst *(1) [symmetric]) simp
  with *(2) show ?thesis by (simp add: same_but_links_def)
qed

lemma core_eqD:
  "core c = core c' \<Longrightarrow> ce_table c = ce_table c' \<and> ce_hash c = ce_hash c' \<and> ce_deleted c = ce_deleted c'
     \<and> ce_writing c = ce_writing c' \<and> ce_refs c = ce_refs c' \<and> ce_data_length c = ce_data_length c'
     \<and> ce_block c = ce_block c' \<and> ce_key c = ce_key c' \<and> ce_key_length c = ce_key_length c'
     \<and> ce_expires c = ce_expires c' \<and> ce_it c = ce_it c'"
  by (cases c; cases c') (simp add: core_def)

section \<open>Using the invariant\<close>

lemma ok_set:
  assumes "db_ok s hs X" "dbtables s t = Some d" "cache_hash_set d = Some h"
  shows "\<not> tbl_deleted d \<and> kh_inv CAP h"
    and "kh_lookup h hash = Some e \<Longrightarrow>
      \<exists>c. entries s e = Some c \<and> ce_hash c = hash \<and> ce_table c = Some t \<and> \<not> ce_deleted c"
proof -
  have "sets_ok s" using assms(1) by (simp add: db_ok_def)
  from this [unfolded sets_ok_def, rule_format, OF assms(2)] assms(3)
  show "\<not> tbl_deleted d \<and> kh_inv CAP h"
    and "kh_lookup h hash = Some e \<Longrightarrow>
      \<exists>c. entries s e = Some c \<and> ce_hash c = hash \<and> ce_table c = Some t \<and> \<not> ce_deleted c"
    by simp_all
qed

lemma ok_set_iff:
  assumes "db_ok s hs X" "dbtables s t = Some d"
  shows "tbl_deleted d \<longleftrightarrow> cache_hash_set d = None"
proof -
  have "sets_ok s" using assms(1) by (simp add: db_ok_def)
  from this [unfolded sets_ok_def, rule_format, OF assms(2)] show ?thesis
    by (cases "cache_hash_set d") auto
qed

lemma ok_live:
  assumes "db_ok s hs X" "entries s e = Some c" "\<not> ce_deleted c"
  shows "\<exists>t d h. ce_table c = Some t \<and> dbtables s t = Some d \<and> cache_hash_set d = Some h
    \<and> \<not> tbl_deleted d \<and> kh_inv CAP h \<and> kh_lookup h (ce_hash c) = Some e"
proof -
  have "live_ok s" using assms(1) by (simp add: db_ok_def)
  with assms(2,3) obtain t d h where "ce_table c = Some t" "dbtables s t = Some d" "cache_hash_set d = Some h"
    "kh_lookup h (ce_hash c) = Some e" unfolding live_ok_def by blast
  with ok_set(1) [OF assms(1)] show ?thesis by blast
qed

lemma ok_refs:
  assumes "db_ok s hs X"
  shows "entries s e = Some c \<Longrightarrow> unat (ce_refs c) = entry_refs hs e"
    "entries s e = Some c \<Longrightarrow> ce_deleted c \<Longrightarrow> 0 < entry_refs hs e"
    "0 < entry_refs hs e \<Longrightarrow> \<exists>c. entries s e = Some c"
    "dbtables s t = Some d \<Longrightarrow> tbl_deleted d \<Longrightarrow> own_ref X t d + table_refs s hs t \<le> unat (tbl_refs d)"
    "dbtables s t = Some d \<Longrightarrow> tbl_deleted d \<Longrightarrow> 0 < unat (tbl_refs d)"
    "dbtables s t = Some d \<Longrightarrow> \<not> tbl_deleted d \<Longrightarrow> unat (tbl_refs d) = own_ref X t d + table_refs s hs t"
    "0 < table_refs s hs t \<Longrightarrow> \<exists>d. dbtables s t = Some d"
  using assms unfolding db_ok_def refs_ok_def by (auto split: if_splits)

lemma ok_tables:
  assumes "db_ok s hs X"
  shows "kh_inv CAP (tables s)"
    "kh_lookup (tables s) hash = Some t \<Longrightarrow> \<exists>d. dbtables s t = Some d \<and> tbl_hash d = hash \<and> \<not> tbl_deleted d"
  using assms unfolding db_ok_def tables_ok_def by auto

lemma ok_blocks:
  assumes "db_ok s hs X"
  shows "blocks_inv s (owned_blocks s)"
    "entries s x = Some c \<Longrightarrow> 0 \<le> ce_block c \<Longrightarrow> \<not> IS_SINGLE_FILE c"
    "entries s x = Some c \<Longrightarrow> entries s x' = Some c' \<Longrightarrow> 0 \<le> ce_block c \<Longrightarrow>
       ce_block c = ce_block c' \<Longrightarrow> x = x'"
  using assms unfolding db_ok_def blocks_ok_def by blast+

section \<open>Links do not matter\<close>

lemma same_links_fields:
  assumes "same_but_links s s'"
  shows "dbtables s' = dbtables s" "tables s' = tables s" "next_ptr s' = next_ptr s"
    "free_blocks s' = free_blocks s" "blocks_exist s' = blocks_exist s" "blocks_free s' = blocks_free s"
    "files s' = files s" "now_sec s' = now_sec s" "db_size_bytes s' = db_size_bytes s"
    "db_keys s' = db_keys s" "path_single s' = path_single s" "table_gc s' = table_gc s"
    "max_size s' = max_size s" "db_stats_inserts s' = db_stats_inserts s"
proof -
  have *: "s'\<lparr>entries := entries s, lru_head := lru_head s, lru_tail := lru_tail s\<rparr> = s"
    using assms by (simp add: same_but_links_def)
  show "dbtables s' = dbtables s" "tables s' = tables s" "next_ptr s' = next_ptr s"
    "free_blocks s' = free_blocks s" "blocks_exist s' = blocks_exist s" "blocks_free s' = blocks_free s"
    "files s' = files s" "now_sec s' = now_sec s" "db_size_bytes s' = db_size_bytes s"
    "db_keys s' = db_keys s" "path_single s' = path_single s" "table_gc s' = table_gc s"
    "max_size s' = max_size s" "db_stats_inserts s' = db_stats_inserts s"
    using * by (cases s; cases s'; simp)+
qed

lemma same_links_None: "same_but_links s s' \<Longrightarrow> entries s' e = None \<longleftrightarrow> entries s e = None"
  using same_but_links_alive by blast

lemma same_links_table_of: "same_but_links s s' \<Longrightarrow> table_of s' e = table_of s e"
  using same_links_entries [of s s' e] same_links_None [of s s' e]
  by (cases "entries s' e") (auto simp: table_of_def dest: core_eqD)

lemma same_links_table_refs: "same_but_links s s' \<Longrightarrow> table_refs s' hs t = table_refs s hs t"
proof -
  assume "same_but_links s s'"
  then have "on_table s' t = on_table s t"
    using same_links_table_of [of s s'] by (intro ext, rename_tac x, case_tac x) simp_all
  then show ?thesis by (simp add: table_refs_def)
qed

lemma blocks_inv_cong:
  "free_blocks s' = free_blocks s \<Longrightarrow> blocks_exist s' = blocks_exist s \<Longrightarrow> blocks_free s' = blocks_free s \<Longrightarrow>
   blocks_inv s' U = blocks_inv s U"
  by (simp add: blocks_inv_def)

lemma db_ok_links:
  assumes l: "same_but_links s s'" and ok: "db_ok s hs X"
  shows "db_ok s' hs X"
proof -
  note f = same_links_fields [OF l]
  have e: "entries s' e = Some c' \<Longrightarrow> \<exists>c. entries s e = Some c \<and> core c = core c'" for e c'
    using same_links_entries [OF l] by blast
  have e': "entries s e = Some c \<Longrightarrow> \<exists>c'. entries s' e = Some c' \<and> core c' = core c" for e c
    using same_links_entries [OF same_links_sym [OF l]] by blast
  have "tables_ok s'" using ok by (simp add: db_ok_def tables_ok_def f)
  moreover have "sets_ok s'"
    unfolding sets_ok_def f
  proof (intro allI impI)
    fix t d assume d: "dbtables s t = Some d"
    then have *: "case cache_hash_set d of None \<Rightarrow> tbl_deleted d
     | Some h \<Rightarrow> \<not> tbl_deleted d \<and> kh_inv CAP h \<and> (\<forall>hash e. kh_lookup h hash = Some e \<longrightarrow>
         (\<exists>c. entries s e = Some c \<and> ce_hash c = hash \<and> ce_table c = Some t \<and> \<not> ce_deleted c))"
      using ok by (simp add: db_ok_def sets_ok_def)
    then show "case cache_hash_set d of None \<Rightarrow> tbl_deleted d
     | Some h \<Rightarrow> \<not> tbl_deleted d \<and> kh_inv CAP h \<and> (\<forall>hash e. kh_lookup h hash = Some e \<longrightarrow>
         (\<exists>c. entries s' e = Some c \<and> ce_hash c = hash \<and> ce_table c = Some t \<and> \<not> ce_deleted c))"
    proof (cases "cache_hash_set d")
      case None
      with * show ?thesis by simp
    next
      case (Some h)
      have "\<exists>c. entries s' x = Some c \<and> ce_hash c = hash \<and> ce_table c = Some t \<and> \<not> ce_deleted c"
        if lk: "kh_lookup h hash = Some x" for hash x
      proof -
        from * Some lk obtain c where c: "entries s x = Some c" "ce_hash c = hash" "ce_table c = Some t" "\<not> ce_deleted c"
          by auto
        from e' [OF c(1)] obtain c' where "entries s' x = Some c'" "core c' = core c" by blast
        with c core_eqD [OF this(2)] show ?thesis by auto
      qed
      with * Some show ?thesis by simp
    qed
  qed
  moreover have "live_ok s'"
    unfolding live_ok_def f
  proof (intro allI impI)
    fix x c assume "entries s' x = Some c \<and> \<not> ce_deleted c"
    moreover from this e obtain c0 where "entries s x = Some c0" "core c0 = core c" by blast
    ultimately show "\<exists>t d h. ce_table c = Some t \<and> dbtables s t = Some d \<and> cache_hash_set d = Some h
       \<and> kh_lookup h (ce_hash c) = Some x"
      using ok_live [OF ok, of x c0] core_eqD [of c0 c] by auto
  qed
  moreover have "refs_ok s' hs X"
  proof -
    have "unat (ce_refs c) = entry_refs hs x \<and> (ce_deleted c \<longrightarrow> 0 < entry_refs hs x)"
      if "entries s' x = Some c" for x c
    proof -
      from that e obtain c0 where "entries s x = Some c0" "core c0 = core c" by blast
      then show ?thesis using ok_refs(1,2) [OF ok, of x c0] core_eqD [of c0 c] by simp
    qed
    then show ?thesis using ok same_links_None [OF l]
      by (simp add: db_ok_def refs_ok_def f same_links_table_refs [OF l])
  qed
  moreover have o: "owned_blocks s' = owned_blocks s"
  proof -
    have "(\<exists>x c. entries s' x = Some c \<and> ce_block c = b) = (\<exists>x c. entries s x = Some c \<and> ce_block c = b)" for b
      by (metis core_eqD e e')
    then show ?thesis by (simp add: owned_blocks_def)
  qed
  then have "blocks_ok s'"
  proof -
    assume o: "owned_blocks s' = owned_blocks s"
    note b = ok_blocks [OF ok]
    have "\<not> IS_SINGLE_FILE c" if "entries s' x = Some c" "0 \<le> ce_block c" for x c
    proof -
      from that e obtain c0 where "entries s x = Some c0" "core c0 = core c" by blast
      then show ?thesis using b(2) [of x c0] core_eqD [of c0 c] that by (simp add: IS_SINGLE_FILE_def)
    qed
    moreover have "x = x'" if a: "entries s' x = Some c" "entries s' x' = Some c'" "0 \<le> ce_block c"
      "ce_block c = ce_block c'" for x c x' c'
    proof -
      from e [OF a(1)] obtain c0 where c0: "entries s x = Some c0" "core c0 = core c" by blast
      from e [OF a(2)] obtain c1 where c1: "entries s x' = Some c1" "core c1 = core c'" by blast
      have "ce_block c0 = ce_block c" "ce_block c1 = ce_block c'"
        using core_eqD [OF c0(2)] core_eqD [OF c1(2)] by blast+
      with a(3,4) show ?thesis by (intro b(3) [OF c0(1) c1(1)]) simp_all
    qed
    ultimately show ?thesis
      using b(1) unfolding blocks_ok_def o blocks_inv_cong [OF f(4-6)] by blast
  qed
  moreover have "fresh_ok s'"
    using ok same_links_None [OF l] by (simp add: db_ok_def fresh_ok_def f)
  ultimately show ?thesis using ok by (simp add: db_ok_def)
qed

lemma idle_links: "same_but_links s s' \<Longrightarrow> idle_entries s' = idle_entries s"
proof -
  have "idle_entries s' \<subseteq> idle_entries s" if "same_but_links s s'" for s s'
  proof
    fix x assume "x \<in> idle_entries s'"
    then obtain c where c: "entries s' x = Some c" "\<not> ce_deleted c" "\<not> ce_writing c"
      by (auto simp: idle_entries_def)
    from same_links_entries [OF that c(1)] obtain c0 where "entries s x = Some c0" "core c0 = core c" by blast
    with c core_eqD [of c0 c] show "x \<in> idle_entries s" by (simp add: idle_entries_def)
  qed
  then show "same_but_links s s' \<Longrightarrow> idle_entries s' = idle_entries s"
    using same_links_sym by blast
qed

end
