(* ===== verification/DbIndex.thy ===== *)
theory DbIndex
  imports DbEntry
begin

text \<open>
  Saving and loading of the index (db.cpp: \<open>db_index_flush\<close>, \<open>db_load_from_save\<close>, \<open>db_open\<close>). The
  index is a text file: a line \<open>t:name\<close> for a table, then a line \<open>b:block:length:expires:it:key\<close> or
  \<open>e:...\<close> for each of its entries. Loading builds tables, entries and the LRU list from it and the
  free list of the block file from the blocks that no entry names.
\<close>

section \<open>Writing\<close>

text \<open>
  \<open>full_write\<close>: the results of \<open>write\<close> still to come are the first argument, of which none left
  means that everything is taken; the second result is what reached the file.
\<close>

fun full_write :: "int list \<Rightarrow> string \<Rightarrow> bool \<times> string \<times> int list" where
  "full_write [] buf = (True, buf, [])"
| "full_write (ret # rets) buf =
     (if ret < 0 then (False, [], rets)
      else let k = min (nat ret) (length buf) in
        if k = length buf then (True, buf, rets)
        else (case full_write rets (drop k buf) of (ok, out, rets) \<Rightarrow> (ok, take k buf @ out, rets)))"

definition index_char :: "cache_entry \<Rightarrow> char" where
  "index_char c = (if 0 \<le> ce_block c then CHR ''b'' else CHR ''e'')"

definition print_int :: "int \<Rightarrow> string" where
  "print_int i = (if i < 0 then CHR ''-'' # to_dec (nat (- i)) else to_dec (nat i))"

text \<open>\<open>"%c:%d:%u:%lu:%u:"\<close>.\<close>

definition index_prefix :: "cache_entry \<Rightarrow> string" where
  "index_prefix c = index_char c # CHR '':'' # print_int (ce_block c) @ '':'' @ to_dec (unat (ce_data_length c)) @ '':''
     @ to_dec (unat (of_int (ce_expires c) :: u64)) @ '':'' @ to_dec (unat (ce_it c)) @ '':''"

definition entry_chunks :: "cache_entry \<Rightarrow> string list" where
  "entry_chunks c = (if ce_writing c \<or> ce_deleted c then []
     else [index_prefix c, take (ce_key_length c) (ce_key c), [CHR 0x0A]])"

fun set_chunks :: "eptr kh \<Rightarrow> nat list \<Rightarrow> db_state \<Rightarrow> string list option" where
  "set_chunks h [] s = Some []"
| "set_chunks h (k # ks) s = do {
     rest \<leftarrow> set_chunks h ks s;
     if kh_exist h k then do {
       e \<leftarrow> kh_value h k;
       c \<leftarrow> entries s e;
       Some (entry_chunks c @ rest)
     } else Some rest
   }"

fun table_chunks :: "nat list \<Rightarrow> db_state \<Rightarrow> string list option" where
  "table_chunks [] s = Some []"
| "table_chunks (k # ks) s = do {
     rest \<leftarrow> table_chunks ks s;
     if kh_exist (tables s) k then do {
       t \<leftarrow> kh_value (tables s) k;
       d \<leftarrow> dbtables s t;
       if tbl_deleted d then Some rest
       else do {
         h \<leftarrow> cache_hash_set d;
         es \<leftarrow> set_chunks h [0..<n_buckets h] s;
         Some ([''t:'', take (unat (tbl_key_length d)) (tbl_key d), [CHR 0x0A]] @ es @ rest)
       }
     } else Some rest
   }"

definition index_chunks :: "db_state \<Rightarrow> string list option" where
  "index_chunks s = table_chunks [0..<n_buckets (tables s)] s"

fun write_chunks :: "int list \<Rightarrow> string list \<Rightarrow> bool \<times> string" where
  "write_chunks rets [] = (True, [])"
| "write_chunks rets (c # cs) = (case full_write rets c of (ok, out, rets) \<Rightarrow>
     if \<not> ok then (False, out)
     else case write_chunks rets cs of (ok, out') \<Rightarrow> (ok, out @ out'))"

record index_files =
  index_save :: "string option"
  index_temp :: "string option"

text \<open>
  \<open>db_index_flush\<close> in the process that writes. \<open>index.temp\<close> takes the text and replaces \<open>index.save\<close>
  when all of it was written.
\<close>

definition db_index_flush :: "bool \<Rightarrow> int list \<Rightarrow> db_state \<Rightarrow> index_files \<Rightarrow> index_files option" where
  "db_index_flush can_open rets s fs =
     (if \<not> can_open then Some fs
      else do {
        chunks \<leftarrow> index_chunks s;
        case write_chunks rets chunks of
          (True, out) \<Rightarrow> Some (fs\<lparr>index_save := Some out, index_temp := None\<rparr>)
        | (False, out) \<Rightarrow> Some (fs\<lparr>index_temp := Some out\<rparr>)
      })"

section \<open>Reading\<close>

text \<open>\<open>getline\<close>: lines with their newline.\<close>

fun split_lines :: "string \<Rightarrow> string list" where
  "split_lines [] = []"
| "split_lines (c # cs) = (if c = CHR 0x0A then [c] # split_lines cs
     else case split_lines cs of [] \<Rightarrow> [[c]] | l # ls \<Rightarrow> (c # l) # ls)"

text \<open>The directives of \<open>sscanf\<close> the code uses.\<close>

definition is_space :: "char \<Rightarrow> bool" where
  "is_space c \<longleftrightarrow> c \<in> {CHR '' '', CHR 0x09, CHR 0x0A, CHR 0x0B, CHR 0x0C, CHR 0x0D}"

definition scan_string :: "string \<Rightarrow> (string \<times> string) option" where
  "scan_string s = (let s = dropWhile is_space s in
     if s = [] then None else Some (takeWhile (\<lambda>c. \<not> is_space c) s, dropWhile (\<lambda>c. \<not> is_space c) s))"

definition scan_number :: "string \<Rightarrow> (int \<times> string) option" where
  "scan_number s = (let
     s = dropWhile is_space s;
     neg = (s \<noteq> [] \<and> hd s = CHR ''-'');
     s = (if s \<noteq> [] \<and> (hd s = CHR ''-'' \<or> hd s = CHR ''+'') then tl s else s);
     ds = takeWhile is_digit s
   in if ds = [] then None
      else Some (if neg then - dec_value 0 ds else dec_value 0 ds, dropWhile is_digit s))"

definition scan_char :: "char \<Rightarrow> string \<Rightarrow> string option" where
  "scan_char c s = (case s of x # xs \<Rightarrow> if x = c then Some xs else None | [] \<Rightarrow> None)"

text \<open>\<open>%d\<close> stores what \<open>strtol\<close> gives, \<open>%u\<close> what \<open>strtoul\<close> gives, cut to 32 bits.\<close>

definition store_d :: "int \<Rightarrow> int" where
  "store_d v = sint (of_int (max (- (2 ^ 63)) (min (2 ^ 63 - 1) v)) :: u32)"

definition store_u :: "int \<Rightarrow> u32" where
  "store_u v = (if \<bar>v\<bar> \<ge> 2 ^ 64 then - 1 else of_int v)"

definition sscanf_table :: "string \<Rightarrow> string option" where
  "sscanf_table line = do {
     s \<leftarrow> scan_char CHR ''t'' line;
     s \<leftarrow> scan_char CHR '':'' s;
     (name, _) \<leftarrow> scan_string s;
     Some name
   }"

definition sscanf_entry :: "string \<Rightarrow> (int \<times> u32 \<times> u32 \<times> u32 \<times> string) option" where
  "sscanf_entry line = do {
     s \<leftarrow> scan_char CHR '':'' line;
     (d1, s) \<leftarrow> scan_number s;
     s \<leftarrow> scan_char CHR '':'' s;
     (u2, s) \<leftarrow> scan_number s;
     s \<leftarrow> scan_char CHR '':'' s;
     (u3, s) \<leftarrow> scan_number s;
     s \<leftarrow> scan_char CHR '':'' s;
     (u4, s) \<leftarrow> scan_number s;
     s \<leftarrow> scan_char CHR '':'' s;
     (key, _) \<leftarrow> scan_string s;
     Some (store_d d1, store_u u2, store_u u3, store_u u4, key)
   }"

definition db_load_from_save_entry ::
  "tptr \<Rightarrow> string \<Rightarrow> int \<Rightarrow> u32 \<Rightarrow> int \<Rightarrow> u16 \<Rightarrow> db_state \<Rightarrow> (eptr \<times> db_state) option" where
  "db_load_from_save_entry t key block data_length expires it s = do {
     let (e, s) = db_entry_new t s;
     s \<leftarrow> mod_entry e (\<lambda>c. c\<lparr>ce_block := block, ce_data_length := data_length, ce_key := key,
       ce_key_length := bits14 (length key), ce_hash := hash_string key, ce_expires := expires, ce_it := it\<rparr>) s;
     Some (e, s)
   }"

definition db_load_from_save_insert :: "tptr \<Rightarrow> eptr \<Rightarrow> db_state \<Rightarrow> db_state option" where
  "db_load_from_save_insert t e s = do {
     let s = s\<lparr>db_keys := db_keys s + 1\<rparr>;
     h \<leftarrow> hash_set_of t s;
     s \<leftarrow> (if kh_size h = 0 then db_table_incref t s else Some s);
     c \<leftarrow> entries s e;
     s \<leftarrow> set_store t (ce_hash c) e s;
     s \<leftarrow> db_entry_incref e False s;
     Some (s\<lparr>db_size_bytes := db_size_bytes s + ucast (ce_data_length c)\<rparr>)
   }"

text \<open>
  One line. The loader's state has the current table and the blocks in use; a name of 2048 bytes or more
  overflows \<open>buffer2\<close>.
\<close>

record loader =
  ld_table :: "tptr option"
  ld_in_use :: "int set"
  ld_db :: db_state

definition load_table_line :: "string \<Rightarrow> loader \<Rightarrow> loader option" where
  "load_table_line line l = (case sscanf_table line of
       None \<Rightarrow> Some l
     | Some name \<Rightarrow>
         if 2048 \<le> length name then None
         else do {
           s \<leftarrow> (case ld_table l of Some t \<Rightarrow> db_table_deref t True (ld_db l) | None \<Rightarrow> Some (ld_db l));
           (t, s) \<leftarrow> db_table_get_write name s;
           Some (l\<lparr>ld_table := Some t, ld_db := s\<rparr>)
         })"

definition load_entry_line :: "string \<Rightarrow> loader \<Rightarrow> loader option" where
  "load_entry_line line l = (case ld_table l of
       None \<Rightarrow> Some l
     | Some t \<Rightarrow> (case sscanf_entry (tl line) of
         None \<Rightarrow> Some l
       | Some (d1, u2, u3, u4, key) \<Rightarrow>
           if 2048 \<le> length key then None
           else do {
             (e, s) \<leftarrow> db_load_from_save_entry t key d1 u2 (uint u3) (ucast u4) (ld_db l);
             c \<leftarrow> entries s e;
             skip \<leftarrow> (if d1 < 0 then do { path \<leftarrow> get_key_path c s; Some (path \<notin> files s) }
               else Some (blocks_exist s \<le> of_int d1));
             if skip then Some (l\<lparr>ld_db := free_entry e s\<rparr>)
             else do {
               s \<leftarrow> db_load_from_save_insert t e s;
               s \<leftarrow> db_lru_insert e s;
               Some (l\<lparr>ld_db := s, ld_in_use := (if d1 < 0 then ld_in_use l else insert d1 (ld_in_use l))\<rparr>)
             }
           }))"

definition load_line :: "string \<Rightarrow> loader \<Rightarrow> loader option" where
  "load_line line l =
     (if length line \<le> 2 \<or> line ! 1 \<noteq> CHR '':'' then Some l
      else let kind = hd line; line = takeWhile (\<lambda>c. c \<noteq> CHR 0x00) line in
        if kind = CHR ''t'' then load_table_line line l
        else if kind = CHR ''b'' \<or> kind = CHR ''e'' then load_entry_line line l
        else Some l)"

fun load_lines :: "string list \<Rightarrow> loader \<Rightarrow> loader option" where
  "load_lines [] l = Some l"
| "load_lines (x # xs) l = do { l \<leftarrow> load_line x l; load_lines xs l }"

text \<open>\<open>for (i = 0; i < blocks_exist; i++) if (not in use) db_block_free(i)\<close>; the bound is read each time.\<close>

fun free_unused :: "nat \<Rightarrow> int \<Rightarrow> int set \<Rightarrow> db_state \<Rightarrow> db_state" where
  "free_unused 0 i used s = s"
| "free_unused (Suc fuel) i used s =
     (if i < uint (blocks_exist s)
      then free_unused fuel (i + 1) used (if i \<in> used then s else db_block_free i s)
      else s)"

definition db_load_from_save :: "string option \<Rightarrow> db_state \<Rightarrow> (bool \<times> db_state) option" where
  "db_load_from_save index s = (case index of
       None \<Rightarrow> Some (False, s)
     | Some txt \<Rightarrow> do {
         l \<leftarrow> load_lines (split_lines txt) \<lparr>ld_table = None, ld_in_use = {}, ld_db = s\<rparr>;
         let s = free_unused (unat (blocks_exist (ld_db l))) 0 (ld_in_use l) (ld_db l);
         s \<leftarrow> (case ld_table l of Some t \<Rightarrow> db_table_deref t True s | None \<Rightarrow> Some s);
         Some (True, s)
       })"

section \<open>Opening\<close>

definition BLOCK_MAX_LOAD :: nat where "BLOCK_MAX_LOAD = 8192"

text \<open>The rest of \<open>db_open\<close> when there is no index: the block file is kept, up to a size, as free blocks.\<close>

definition open_blank :: "nat \<Rightarrow> db_state \<Rightarrow> db_state" where
  "open_blank fsize s = (let
     big = fsize > BLOCK_MAX_LOAD * BLOCK_LENGTH;
     fsize = (if big then BLOCK_MAX_LOAD * BLOCK_LENGTH else fsize);
     s = (if big then s\<lparr>blockfile_size := fsize, blocks_exist := of_nat (fsize div BLOCK_LENGTH)\<rparr> else s);
     truncated_size = fsize div BLOCK_LENGTH * BLOCK_LENGTH;
     s = (if fsize mod BLOCK_LENGTH \<noteq> 0 then s\<lparr>blockfile_size := truncated_size\<rparr> else s);
     fsize = (if fsize mod BLOCK_LENGTH \<noteq> 0 then truncated_size else fsize);
     s = foldl (\<lambda>s i. db_block_free (int i) s) s [0..<fsize div BLOCK_LENGTH]
   in s\<lparr>blocks_free := blocks_exist s\<rparr>)"

definition open_reset :: "string \<Rightarrow> nat \<Rightarrow> db_state \<Rightarrow> db_state" where
  "open_reset path fsize s = s\<lparr>path_single := take 399 (path @ ''/files/''), tables := kh_init, table_gc := 0,
     free_blocks := [], blocks_free := 0, lru_head := None, lru_tail := None, db_size_bytes := 0, db_keys := 0,
     db_stats_inserts := 0, db_stats_gets := 0, db_stats_deletes := 0, db_stats_operations := 0,
     blockfile_size := fsize, blocks_exist := of_nat (fsize div BLOCK_LENGTH)\<rparr>"

definition db_open :: "string \<Rightarrow> string option \<Rightarrow> nat \<Rightarrow> db_state \<Rightarrow> db_state option" where
  "db_open path index fsize s = do {
     (loaded, s) \<leftarrow> db_load_from_save index (open_reset path fsize s);
     Some (if loaded then s else open_blank fsize s)
   }"

end
