(* ===== verification/Settings.thy ===== *)
theory Settings
  imports DbIndex
begin

text \<open>
  The settings (src/core/settings.h, settings.cpp): the record, the options of the command line as
  \<open>getopt_long\<close> hands them over, and \<open>parse_binds\<close>, the state machine that reads a list of addresses to
  listen on. \<open>inet_pton\<close> is an argument: the bytes of an address, or \<open>None\<close> when the text is none, in
  which case the code goes on with the zeroed address.
\<close>

section \<open>Addresses to listen on\<close>

datatype address_family = AF_UNSPEC | AF_INET | AF_INET6 | AF_UNIX

record scache_bind =
  bind_af :: address_family
  bind_addr :: string
  bind_port :: int
  bind_transparent :: bool

datatype bind_parse_state = First | Ipv4 | Ipv6 | Unix_path | Port

text \<open>\<open>sizeof(struct sockaddr_un)\<close>, the size of \<open>addr\<close>; a longer path overflows it.\<close>

definition ADDR_SIZE :: nat where "ADDR_SIZE = 110"

text \<open>The locals of the loop: \<open>optarg\<close> with its final NUL, written to on the way, and the index of \<open>current\<close>.\<close>

record bind_parser =
  bp_optarg :: string
  bp_state :: bind_parse_state
  bp_start :: nat
  bp_current :: nat
  bp_binds :: "scache_bind list"

definition upd_bind :: "(scache_bind \<Rightarrow> scache_bind) \<Rightarrow> bind_parser \<Rightarrow> bind_parser option" where
  "upd_bind f b = (if bp_current b < length (bp_binds b)
     then Some (b\<lparr>bp_binds := (bp_binds b)[bp_current b := f (bp_binds b ! bp_current b)]\<rparr>) else None)"

definition c_string_at :: "string \<Rightarrow> nat \<Rightarrow> string" where
  "c_string_at s i = takeWhile (\<lambda>c. c \<noteq> CHR 0x00) (drop i s)"

definition atoi :: "string \<Rightarrow> int" where
  "atoi s = (case scan_number s of None \<Rightarrow> 0 | Some (v, _) \<Rightarrow> store_d v)"

text \<open>The address of \<open>current\<close> is read when a colon is met, in the states \<open>ipv4\<close> and \<open>ipv6\<close>.\<close>

definition bp_colon :: "(address_family \<Rightarrow> string \<Rightarrow> string option) \<Rightarrow> nat \<Rightarrow> bind_parser \<Rightarrow> bind_parser option" where
  "bp_colon pton i b = (if bp_optarg b ! i = CHR '':'' then do {
       let b = b\<lparr>bp_optarg := (bp_optarg b)[i := CHR 0x00]\<rparr>;
       b \<leftarrow> upd_bind (\<lambda>c. case pton (bind_af c) (c_string_at (bp_optarg b) (bp_start b)) of
           Some bytes \<Rightarrow> c\<lparr>bind_addr := bytes\<rparr> | None \<Rightarrow> c) b;
       Some (b\<lparr>bp_state := Port, bp_start := i + 1\<rparr>)
     } else Some b)"

definition bp_next :: "nat \<Rightarrow> bind_parser \<Rightarrow> bind_parser" where
  "bp_next i b = b\<lparr>bp_current := bp_current b + 1, bp_state := First, bp_start := i + 1\<rparr>"

text \<open>The body of the loop at \<open>i\<close>, with the index at which the loop goes on.\<close>

definition bp_step ::
  "(address_family \<Rightarrow> string \<Rightarrow> string option) \<Rightarrow> nat \<Rightarrow> bind_parser \<Rightarrow> (nat \<times> bind_parser) option" where
  "bp_step pton i b = (let c = bp_optarg b ! i in case bp_state b of
       First \<Rightarrow>
         if c = CHR ''['' then do {
           b \<leftarrow> upd_bind (\<lambda>x. x\<lparr>bind_af := AF_INET6\<rparr>) b;
           Some (i + 1, b\<lparr>bp_state := Ipv6, bp_start := bp_start b + 1\<rparr>)
         } else if c = CHR ''u'' \<and> bp_optarg b ! (i + 1) = CHR '':'' then do {
           b \<leftarrow> upd_bind (\<lambda>x. x\<lparr>bind_af := AF_UNIX\<rparr>) b;
           Some (i + 2, b\<lparr>bp_state := Unix_path, bp_start := bp_start b + 2\<rparr>)
         } else do {
           b \<leftarrow> upd_bind (\<lambda>x. x\<lparr>bind_af := AF_INET\<rparr>) b;
           b \<leftarrow> bp_colon pton i (b\<lparr>bp_state := Ipv4\<rparr>);
           Some (i + 1, b)
         }
     | Ipv4 \<Rightarrow> do { b \<leftarrow> bp_colon pton i b; Some (i + 1, b) }
     | Ipv6 \<Rightarrow> do { b \<leftarrow> bp_colon pton i b; Some (i + 1, b) }
     | Unix_path \<Rightarrow>
         if c = CHR 0x00 \<or> c = CHR '','' then
           (if ADDR_SIZE < i - bp_start b then None
            else do {
              b \<leftarrow> upd_bind (\<lambda>x. x\<lparr>bind_addr := take (i - bp_start b) (drop (bp_start b) (bp_optarg b)), bind_port := 0\<rparr>) b;
              Some (i + 1, if c = CHR '','' then bp_next i b else b)
            })
         else Some (i + 1, b)
     | Port \<Rightarrow>
         if c = CHR ''t'' then do { b \<leftarrow> upd_bind (\<lambda>x. x\<lparr>bind_transparent := True\<rparr>) b; Some (i + 1, b) }
         else if c = CHR 0x00 \<or> c = CHR '','' then
           (if bp_current b < length (bp_binds b) then do {
              let j = (if bind_transparent (bp_binds b ! bp_current b) then i - 1 else i);
              let b = b\<lparr>bp_optarg := (bp_optarg b)[j := CHR 0x00]\<rparr>;
              b \<leftarrow> upd_bind (\<lambda>x. x\<lparr>bind_port := atoi (c_string_at (bp_optarg b) (bp_start b))\<rparr>) b;
              Some (i + 1, if c = CHR '','' then bp_next i b else b)
            } else None)
         else Some (i + 1, b))"

lemma bp_step_grows: "bp_step pton i b = Some (j, b') \<Longrightarrow> i < j"
  by (auto simp: bp_step_def Let_def bind_Some_iff split: bind_parse_state.splits if_splits)

function bp_loop ::
  "(address_family \<Rightarrow> string \<Rightarrow> string option) \<Rightarrow> nat \<Rightarrow> nat \<Rightarrow> bind_parser \<Rightarrow> bind_parser option" where
  "bp_loop pton len i b = (if len < i then Some b
     else case bp_step pton i b of None \<Rightarrow> None | Some (j, b) \<Rightarrow> bp_loop pton len j b)"
  by auto
termination
  by (relation "measure (\<lambda>(_, len, i, _). Suc len - i)") (auto dest: bp_step_grows)

declare bp_loop.simps [simp del]

definition parse_binds :: "(address_family \<Rightarrow> string \<Rightarrow> string option) \<Rightarrow> string \<Rightarrow> scache_bind list option" where
  "parse_binds pton optarg_const = (let
     len = length optarg_const;
     optarg = optarg_const @ [CHR 0x00];
     num = length (filter (\<lambda>c. c = CHR '','' \<or> c = CHR 0x00) optarg);
     zero = \<lparr>bind_af = AF_UNSPEC, bind_addr = [], bind_port = 0, bind_transparent = False\<rparr>
   in do {
     b \<leftarrow> bp_loop pton len 0 \<lparr>bp_optarg = optarg, bp_state = First, bp_start = 0, bp_current = 0,
       bp_binds = replicate num zero\<rparr>;
     Some (bp_binds b)
   })"

section \<open>Options\<close>

record scache_settings =
  set_max_size :: u64
  set_db_file_path :: "string option"
  set_db_lru_clear :: rat
  set_pidfile :: "string option"
  set_leavepidfile :: bool
  set_daemon_mode :: bool
  set_daemon_output :: bool
  set_bind_cache :: "scache_bind list"
  set_bind_monitor :: "scache_bind list"

definition settings_default :: scache_settings where
  "settings_default = \<lparr>set_max_size = 0, set_db_file_path = None, set_db_lru_clear = 1 / 5, set_pidfile = None,
     set_leavepidfile = False, set_daemon_mode = False, set_daemon_output = False, set_bind_cache = [],
     set_bind_monitor = []\<rparr>"

text \<open>
  What \<open>getopt_long\<close> returns: an option character with its argument. \<open>atol\<close> is that of the library,
  here on 64 bits, \<open>atof\<close> an argument. \<open>None\<close> is the end of the process (usage, version) or undefined
  behaviour in \<open>parse_binds\<close>.
\<close>

definition atol :: "string \<Rightarrow> int" where
  "atol s = (case scan_number s of None \<Rightarrow> 0 | Some (v, _) \<Rightarrow> max (- (2 ^ 63)) (min (2 ^ 63 - 1) v))"

definition settings_option ::
  "(address_family \<Rightarrow> string \<Rightarrow> string option) \<Rightarrow> (string \<Rightarrow> rat) \<Rightarrow> char \<times> string \<Rightarrow> scache_settings \<Rightarrow> scache_settings option" where
  "settings_option pton atof opt st = (case opt of (r, arg) \<Rightarrow>
     if r = CHR ''d'' then Some (st\<lparr>set_daemon_mode := True\<rparr>)
     else if r = CHR ''o'' then Some (st\<lparr>set_daemon_output := True\<rparr>)
     else if r = CHR ''m'' then Some (st\<lparr>set_pidfile := Some arg\<rparr>)
     else if r = CHR ''M'' then Some (st\<lparr>set_leavepidfile := True\<rparr>)
     else if r = CHR ''s'' then Some (st\<lparr>set_max_size := of_int (atol arg)\<rparr>)
     else if r = CHR ''r'' then Some (st\<lparr>set_db_file_path := Some arg\<rparr>)
     else if r = CHR ''b'' then do { bs \<leftarrow> parse_binds pton arg; Some (st\<lparr>set_bind_cache := bs\<rparr>) }
     else if r = CHR ''B'' then do { bs \<leftarrow> parse_binds pton arg; Some (st\<lparr>set_bind_monitor := bs\<rparr>) }
     else if r = CHR ''l'' then Some (st\<lparr>set_db_lru_clear := atof arg / 100\<rparr>)
     else None)"

fun settings_options ::
  "(address_family \<Rightarrow> string \<Rightarrow> string option) \<Rightarrow> (string \<Rightarrow> rat) \<Rightarrow> (char \<times> string) list \<Rightarrow> scache_settings \<Rightarrow> scache_settings option" where
  "settings_options pton atof [] st = Some st"
| "settings_options pton atof (x # xs) st = do { st \<leftarrow> settings_option pton atof x st; settings_options pton atof xs st }"

definition settings_parse_arguments ::
  "(address_family \<Rightarrow> string \<Rightarrow> string option) \<Rightarrow> (string \<Rightarrow> rat) \<Rightarrow> (char \<times> string) list \<Rightarrow> scache_settings option" where
  "settings_parse_arguments pton atof opts = do {
     st \<leftarrow> settings_options pton atof opts settings_default;
     Some (if set_db_file_path st = None then st\<lparr>set_db_file_path := Some ''/var/lib/scache/''\<rparr> else st)
   }"

end
