(* ===== verification/Http.thy ===== *)
theory Http
  imports DbEntry "HOL-Library.Monad_Syntax"
begin

text \<open>
  A connection and what its handlers share (src/core/connection_structures.h, http.h, http.cpp,
  connection.cpp). The state of a handler is one record: the fields of the connection it runs on,
  then the database, the list of the monitoring connections and the answers of the kernel that are
  still to come. A handler is a state transformer with a \<open>state_action\<close>; \<open>None\<close> is undefined
  behaviour. The output buffer is the list of the bytes at its address, the function pointer
  \<open>handler\<close> a value of the datatype \<open>handler\<close>.
\<close>

section \<open>Requests and templates\<close>

definition LONGEST_REQMETHOD :: int where "LONGEST_REQMETHOD = 6"

definition REQUEST_HTTPADMIN :: u16 where "REQUEST_HTTPADMIN = 0x0200"
definition REQUEST_HTTPGET :: u16 where "REQUEST_HTTPGET = 0x0100"
definition REQUEST_HTTPPURGE :: u16 where "REQUEST_HTTPPURGE = 0x0080"
definition REQUEST_HTTPPUT :: u16 where "REQUEST_HTTPPUT = 0x0040"
definition REQUEST_HTTPDELETE :: u16 where "REQUEST_HTTPDELETE = 0x0020"
definition REQUEST_HTTPHEAD :: u16 where "REQUEST_HTTPHEAD = 0x0010"
definition REQUEST_CACHE_LEVELKEY :: u16 where "REQUEST_CACHE_LEVELKEY = 0x04"
definition REQUEST_CACHE_LEVELTABLE :: u16 where "REQUEST_CACHE_LEVELTABLE = 0x02"

definition REQUEST_IS :: "u16 \<Rightarrow> u16 \<Rightarrow> bool" where
  "REQUEST_IS type request_type \<longleftrightarrow>
     (request_type AND 0x0FF0 = 0 \<or> type AND (0x0FF0 AND request_type) = request_type AND 0x0FF0)
     \<and> (request_type AND 0x000F = 0 \<or> type AND (0x000F AND request_type) = request_type AND 0x000F)"

lemmas request_consts = REQUEST_HTTPADMIN_def REQUEST_HTTPGET_def REQUEST_HTTPPURGE_def REQUEST_HTTPPUT_def
  REQUEST_HTTPDELETE_def REQUEST_HTTPHEAD_def REQUEST_CACHE_LEVELKEY_def REQUEST_CACHE_LEVELTABLE_def

abbreviation crlf :: string where "crlf \<equiv> [CHR 0x0D, CHR 0x0A]"

definition http_templates :: "string list" where
  "http_templates = [
     ''HTTP/1.1 200 OK'' @ crlf @ ''Connection: Keep-Alive'' @ crlf,
     ''HTTP/1.1 404 Not Found'' @ crlf @ ''Connection: Keep-Alive'' @ crlf @ ''Content-Length: 15'' @ crlf @ crlf @ ''Key not Found'' @ crlf,
     ''HTTP/1.1 200 OK'' @ crlf @ ''Connection: Keep-Alive'' @ crlf @ ''Content-Length: 4'' @ crlf @ crlf @ ''OK'' @ crlf,
     crlf,
     crlf @ crlf,
     ''HTTP/1.1 400 Bad Request'' @ crlf @ ''Connection: Close'' @ crlf @ ''Content-Length: 16'' @ crlf @ crlf @ ''Invalid Method'' @ crlf,
     ''HTTP/1.1 200 OK'' @ crlf @ ''Connection: Keep-Alive'' @ crlf @ ''Content-Length: 9'' @ crlf @ crlf @ ''DELETED'' @ crlf,
     ''HTTP/1.1 200 OK'' @ crlf @ ''Connection: Close'' @ crlf,
     ''HTTP/1.1 400 Bad Request'' @ crlf @ ''Connection: Close'' @ crlf @ ''Content-Length: 24'' @ crlf @ crlf @ ''Invalid Content-Length'' @ crlf,
     ''HTTP/1.1 200 OK'' @ crlf @ ''Connection: Keep-Alive'' @ crlf @ ''Content-Length: 9'' @ crlf @ crlf @ ''BULK OK'' @ crlf,
     ''HTTP/1.1 200 OK'' @ crlf @ ''Connection: Keep-Alive'' @ crlf @ ''Content-Length: %d'' @ crlf @ crlf,
     ''HTTP/1.1 400 Bad Request'' @ crlf @ ''Connection: Close'' @ crlf @ ''Content-Length: 17'' @ crlf @ crlf @ ''Method too Long'' @ crlf,
     ''HTTP/1.1 400 Bad Request'' @ crlf @ ''Connection: Close'' @ crlf @ ''Content-Length: 16'' @ crlf @ crlf @ ''Unknown Method'' @ crlf,
     ''HTTP/1.1 400 Bad Request'' @ crlf @ ''Connection: Close'' @ crlf @ ''Content-Length: 19'' @ crlf @ crlf @ ''Request too large'' @ crlf,
     ''HTTP/1.1 400 Bad Request'' @ crlf @ ''Connection: Close'' @ crlf @ ''Content-Length: 17'' @ crlf @ crlf @ ''Unknown Request'' @ crlf,
     ''HTTP/1.1 200 OK'' @ crlf @ ''Connection: Keep-Alive'' @ crlf @ crlf,
     ''HTTP/1.1 200 OK'' @ crlf @ ''Connection: Close'' @ crlf @ ''Content-Type: text/x-streaming'' @ crlf @ ''X-Hostname: %s'' @ crlf @ crlf,
     ''HTTP/1.1 404 Not Found'' @ crlf @ ''Connection: Keep-Alive'' @ crlf @ ''Content-Length: 16'' @ crlf @ crlf @ ''Path Not Found'' @ crlf]"

definition HTTPTEMPLATE_HEADERS200 :: nat where "HTTPTEMPLATE_HEADERS200 = 0"
definition HTTPTEMPLATE_FULL404 :: nat where "HTTPTEMPLATE_FULL404 = 1"
definition HTTPTEMPLATE_FULL200OK :: nat where "HTTPTEMPLATE_FULL200OK = 2"
definition HTTPTEMPLATE_NEWLINE :: nat where "HTTPTEMPLATE_NEWLINE = 3"
definition HTTPTEMPLATE_FULLINVALIDMETHOD :: nat where "HTTPTEMPLATE_FULLINVALIDMETHOD = 5"
definition HTTPTEMPLATE_FULLHTTP200DELETED :: nat where "HTTPTEMPLATE_FULLHTTP200DELETED = 6"
definition HTTPTEMPLATE_HEADERS200_CONCLOSE :: nat where "HTTPTEMPLATE_HEADERS200_CONCLOSE = 7"
definition HTTPTEMPLATE_FULLINVALIDCONTENTLENGTH :: nat where "HTTPTEMPLATE_FULLINVALIDCONTENTLENGTH = 8"
definition HTTPTEMPLATE_BULK_OK :: nat where "HTTPTEMPLATE_BULK_OK = 9"
definition HTTPTEMPLATE_FULLLONGMETHOD :: nat where "HTTPTEMPLATE_FULLLONGMETHOD = 11"
definition HTTPTEMPLATE_FULLUNKNOWNMETHOD :: nat where "HTTPTEMPLATE_FULLUNKNOWNMETHOD = 12"
definition HTTPTEMPLATE_FULLREQUESTTOOLARGE :: nat where "HTTPTEMPLATE_FULLREQUESTTOOLARGE = 13"
definition HTTPTEMPLATE_FULLUNKNOWNREQUEST :: nat where "HTTPTEMPLATE_FULLUNKNOWNREQUEST = 14"
definition HTTPTEMPLATE_HEAD_ONLY :: nat where "HTTPTEMPLATE_HEAD_ONLY = 15"
definition HTTPTEMPLATE_MON_STREAM :: nat where "HTTPTEMPLATE_MON_STREAM = 16"
definition HTTPTEMPLATE_FULL404_PATHNOTFOUND :: nat where "HTTPTEMPLATE_FULL404_PATHNOTFOUND = 17"

text \<open>\<open>http_templates_init\<close> fills the array of the lengths.\<close>

definition http_templates_length :: "int list" where
  "http_templates_length = map (\<lambda>t. int (length t)) http_templates"

section \<open>Connections\<close>

datatype handler =
    http_cache_handle_method | http_cache_handle_url | http_cache_handle_httpversion
  | http_cache_handle_headers | http_cache_handle_headers_extract | http_cache_handle_request_body
  | http_cache_handle_eolstats | http_handle_eolwritetoend | http_discard_input
  | http_mon_handle_start | http_mon_handle_method | http_mon_handle_url | http_handle_mon_eolwrite_initial
  | http_respond_expires | http_respond_contentlength | http_respond_responseend | http_respond_contentbody
  | http_respond_writeonly | http_respond_cleanupafterwrite | http_respond_reset_connection | http_respond_stats
  | http_respond_listingentries | http_respond_listingtotal | http_respond_listing_separator
  | http_respond_listing | http_respond_close_connection
  | http_respond_start_to_count

datatype connection_ctype = cache_listener | mon_listener | cache_connection | mon_connection

text \<open>
  The fields of \<open>struct scache_connection\<close>. The union \<open>utarget\<close> has the shape of its member
  \<open>cache_target\<close>; the accessors below read the member \<open>table_target\<close> out of the same bytes. The
  monitoring fields of the other member of the anonymous union are in \<open>mon_nodes\<close>.
\<close>

record scache_connection =
  conn_ptr :: nat
  output_buffer :: "string option"
  output_buffer_free :: bool
  handler :: handler
  output_length :: int
  client_sock :: int
  input :: read_buffer
  conn_state :: u32
  conn_method :: u16
  is_writing :: bool
  epollin :: bool
  epollout :: bool
  epollrdhup :: bool
  ltype :: connection_ctype
  target :: cache_target

record mon_node =
  mon_prev :: "nat option"
  mon_next :: "nat option"
  scheduled_sec :: int
  scheduled_usec :: int
  mon_current :: u16

text \<open>
  What the kernel answers: to \<open>read\<close> on the socket (bytes, of which at most as many as asked for are
  delivered and none means end of file), to \<open>sendfile64\<close>, and to \<open>write\<close> (a limit to the bytes taken,
  negative for an error). When a list is empty, nothing is there to read yet, everything is written and
  \<open>epoll_ctl\<close> succeeds. \<open>event\<close> records what was written where.
\<close>

datatype read_result = Received string | Again | Read_error
datatype sendfile_result = Sent nat | Send_again | Send_error
datatype event = Sock_write int string | File_write int int string | Sendfile int int int int

record http_world = scache_connection +
  db :: db_state
  mon_nodes :: "nat \<Rightarrow> mon_node option"
  mon_head :: "nat option"
  mon_tail :: "nat option"
  mon_pending_head :: "nat option"
  mon_pending_tail :: "nat option"
  monitoring_rsp :: string
  fd_blockfile :: int
  gc :: gc_env
  newfd :: int
  stop_soon :: bool
  rx :: "read_result list"
  epoll_results :: "bool list"
  write_limits :: "int list"
  sendfile_results :: "sendfile_result list"
  events :: "event list"

type_synonym handler_result = "(http_world \<times> state_action) option"

text \<open>The member \<open>table_target\<close> of the union (little endian): the table, then two \<open>uint32_t\<close>.\<close>

abbreviation target_table :: "cache_target \<Rightarrow> tptr option" where
  "target_table tg \<equiv> tgt_entry tg"

definition target_start :: "cache_target \<Rightarrow> u32" where
  "target_start tg = of_int (tgt_position tg)"

definition target_limit :: "cache_target \<Rightarrow> u32" where
  "target_limit tg = of_int (tgt_position tg div 2 ^ 32)"

definition union_position :: "u32 \<Rightarrow> u32 \<Rightarrow> int" where
  "union_position start limit = uint start + sint limit * 2 ^ 32"

definition set_start :: "u32 \<Rightarrow> cache_target \<Rightarrow> cache_target" where
  "set_start v tg = tg\<lparr>tgt_position := union_position v (target_limit tg)\<rparr>"

definition set_limit :: "u32 \<Rightarrow> cache_target \<Rightarrow> cache_target" where
  "set_limit v tg = tg\<lparr>tgt_position := union_position (target_start tg) v\<rparr>"

section \<open>Registration and responses\<close>

text \<open>\<open>connection_event_update\<close>: the result of \<open>epoll_ctl\<close>.\<close>

definition connection_event_update :: "http_world \<Rightarrow> bool \<times> http_world" where
  "connection_event_update w = (case epoll_results w of
       [] \<Rightarrow> (True, w)
     | r # rs \<Rightarrow> (r, w\<lparr>epoll_results := rs\<rparr>))"

definition connection_register_write :: "http_world \<Rightarrow> bool \<times> http_world" where
  "connection_register_write w = connection_event_update (w\<lparr>epollout := True, epollin := False\<rparr>)"

definition connection_register_read :: "http_world \<Rightarrow> bool \<times> http_world" where
  "connection_register_read w = connection_event_update (w\<lparr>epollout := False, epollin := True\<rparr>)"

text \<open>A template becomes the output; the handlers below do this with a handler and a state.\<close>

definition set_template :: "nat \<Rightarrow> http_world \<Rightarrow> http_world" where
  "set_template http_template w = w\<lparr>output_buffer := Some (http_templates ! http_template),
     output_length := http_templates_length ! http_template\<rparr>"

definition http_write_response_after_eol :: "nat \<Rightarrow> http_world \<Rightarrow> http_world \<times> state_action" where
  "http_write_response_after_eol http_template w =
     ((set_template http_template (w\<lparr>handler := http_handle_eolwritetoend\<rparr>))\<lparr>conn_state := 1\<rparr>, needs_more_read)"

definition http_headers_response_after_eol :: "nat \<Rightarrow> http_world \<Rightarrow> http_world \<times> state_action" where
  "http_headers_response_after_eol http_template w =
     ((set_template http_template (w\<lparr>handler := http_handle_eolwritetoend\<rparr>))\<lparr>conn_state := 2\<rparr>, needs_more_read)"

definition http_write_response :: "nat \<Rightarrow> http_world \<Rightarrow> http_world \<times> state_action" where
  "http_write_response http_template w =
     (case connection_register_write ((set_template http_template (w\<lparr>handler := http_respond_writeonly\<rparr>))\<lparr>conn_state := 0\<rparr>) of
       (res, w) \<Rightarrow> (w, if res then registered_write else close_connection))"

definition http_stats_after_eol :: "http_world \<Rightarrow> http_world \<times> state_action" where
  "http_stats_after_eol w = (w\<lparr>conn_state := 0, handler := http_cache_handle_eolstats\<rparr>, needs_more_read)"

text \<open>\<open>RBUF_READMOVE(connection->input, by)\<close>, and a database operation within the world.\<close>

definition read_move :: "int \<Rightarrow> http_world \<Rightarrow> http_world" where
  "read_move by w = w\<lparr>input := RBUF_READMOVE (input w) by\<rparr>"

definition on_db :: "(db_state \<Rightarrow> ('a \<times> db_state) option) \<Rightarrow> http_world \<Rightarrow> ('a \<times> http_world) option" where
  "on_db f w = do { (x, s) \<leftarrow> f (db w); Some (x, w\<lparr>db := s\<rparr>) }"

definition run_db :: "(db_state \<Rightarrow> db_state option) \<Rightarrow> http_world \<Rightarrow> http_world option" where
  "run_db f w = do { s \<leftarrow> f (db w); Some (w\<lparr>db := s\<rparr>) }"

text \<open>\<open>http_connection_handler\<close>, run on a new connection.\<close>

definition http_connection_handler :: "http_world \<Rightarrow> http_world" where
  "http_connection_handler w = w\<lparr>handler := (if ltype w = cache_connection
     then http_cache_handle_method else http_mon_handle_start), conn_state := 0\<rparr>"

section \<open>The end of a request header\<close>

text \<open>
  \<open>http_read_eoltoend\<close>: the variable \<open>temporary\<close>, which is \<open>connection->state\<close> at every call, holds the
  number of line ends to wait for in its low half and the number seen in a row in its high half.
\<close>

definition eol_target :: "u32 \<Rightarrow> u16" where
  "eol_target temporary = ucast temporary"

definition eol_current :: "u32 \<Rightarrow> u16" where
  "eol_current temporary = ucast (drop_bit 16 temporary)"

definition eol_step :: "char \<Rightarrow> u32 \<Rightarrow> u32" where
  "eol_step c temporary = (let tgt = eol_target temporary; current = eol_current temporary in
     if c = CHR 0x0A then ucast tgt OR push_bit 16 (ucast (current + 1))
     else if c \<noteq> CHR 0x0D \<and> current \<noteq> 0 then ucast tgt
     else temporary)"

text \<open>The common part of \<open>http_read_eoltoend\<close> and \<open>http_mon_read_eol_inital\<close>: \<open>found\<close> is what is done
  when the end is found, before the write is registered.\<close>

definition read_eol :: "(http_world \<Rightarrow> http_world) \<Rightarrow> http_world \<Rightarrow> nat \<Rightarrow> int \<Rightarrow> handler_result" where
  "read_eol found w p n = do {
     c \<leftarrow> rbuf_at (input w) p;
     let t = eol_step c (conn_state w);
     let w = w\<lparr>conn_state := t\<rparr>;
     if eol_target t = eol_current t
     then (case connection_register_write (found (w\<lparr>conn_state := 0\<rparr>)) of (res, w) \<Rightarrow>
       if \<not> res then Some (w, close_connection)
       else Some (if n \<noteq> 0 then read_move n w else w, registered_write))
     else Some (w, continue_processing)
   }"

definition http_read_eoltoend :: "http_world \<Rightarrow> nat \<Rightarrow> int \<Rightarrow> handler_result" where
  "http_read_eoltoend = read_eol (\<lambda>w. w\<lparr>handler := http_respond_writeonly\<rparr>)"

text \<open>The frame of the handlers that wait for line ends: what was scanned in vain is consumed.\<close>

definition handle_eol :: "(http_world \<Rightarrow> nat \<Rightarrow> int \<Rightarrow> handler_result) \<Rightarrow> http_world \<Rightarrow> handler_result" where
  "handle_eol inner w = do {
     (w, n, ret) \<leftarrow> RBUF_ITERATE input inner w continue_processing;
     Some (if n \<noteq> 0 \<and> ret = needs_more_read then read_move n w else w, ret)
   }"

definition do_http_handle_eolwritetoend :: "http_world \<Rightarrow> handler_result" where
  "do_http_handle_eolwritetoend = handle_eol http_read_eoltoend"

definition do_http_discard_input :: "http_world \<Rightarrow> handler_result" where
  "do_http_discard_input w = Some (snd (connection_register_read w), continue_processing)"

end
