(* ===== verification/HttpCache.thy ===== *)
theory HttpCache
  imports Http
begin

text \<open>
  The request parser of the cache protocol (src/core/http_parse_cache.cpp): method, URL, version,
  header names, header values and request body, each a handler that scans the read buffer with
  \<open>RBUF_ITERATE\<close> and a function for one byte, and the routing of a complete request to the
  database. In the byte functions \<open>p\<close> is the index the pointer \<open>buffer\<close> points to and \<open>n\<close> the counter
  of the loop.
\<close>

definition DEFAULT_LISTING_LIMIT :: u32 where "DEFAULT_LISTING_LIMIT = 10000"

definition HEADER_CONTENTLENGTH :: u32 where "HEADER_CONTENTLENGTH = 1"
definition HEADER_XTTL :: u32 where "HEADER_XTTL = 2"
definition HEADER_XLIMIT :: u32 where "HEADER_XLIMIT = 3"
definition HEADER_XSTART :: u32 where "HEADER_XSTART = 4"
definition HEADER_XDELETE :: u32 where "HEADER_XDELETE = 5"

lemmas header_consts = HEADER_CONTENTLENGTH_def HEADER_XTTL_def HEADER_XLIMIT_def HEADER_XSTART_def HEADER_XDELETE_def

text \<open>\<open>rbuf_cmpn(&connection->input, word, n) == 0\<close>, and a key copied out of the buffer.\<close>

definition input_is :: "http_world \<Rightarrow> string \<Rightarrow> bool option" where
  "input_is w word = do { r \<leftarrow> rbuf_cmpn (input w) word (int (length word)); Some (r = 0) }"

definition copy_key :: "http_world \<Rightarrow> int \<Rightarrow> string option" where
  "copy_key w n = do { (key, _) \<leftarrow> rbuf_copyn (input w) n; if int (length key) = n then Some key else None }"

section \<open>Method\<close>

definition request_methods :: "(string \<times> u16) list" where
  "request_methods = [(''GET'', REQUEST_HTTPGET), (''PUT'', REQUEST_HTTPPUT), (''HEAD'', REQUEST_HTTPHEAD),
     (''DELETE'', REQUEST_HTTPDELETE), (''BULK'', REQUEST_HTTPPURGE), (''PURGE'', REQUEST_HTTPPURGE),
     (''ADMIN'', REQUEST_HTTPADMIN)]"

text \<open>The chain of comparisons: the first word of length \<open>n\<close> that the input starts with.\<close>

fun match_method :: "(string \<times> u16) list \<Rightarrow> http_world \<Rightarrow> int \<Rightarrow> u16 option option" where
  "match_method [] w n = Some None"
| "match_method ((word, m) # ms) w n = do {
     eq \<leftarrow> (if n = int (length word) then input_is w word else Some False);
     if eq then Some (Some m) else match_method ms w n
   }"

definition http_read_requeststartmethod :: "http_world \<Rightarrow> nat \<Rightarrow> int \<Rightarrow> handler_result" where
  "http_read_requeststartmethod w p n =
     (if n > LONGEST_REQMETHOD
      then Some (http_write_response_after_eol HTTPTEMPLATE_FULLLONGMETHOD (read_move (n + 1) w))
      else do {
        c \<leftarrow> rbuf_at (input w) p;
        if c = CHR '' '' then do {
          let w = w\<lparr>handler := http_cache_handle_url, conn_state := 0\<rparr>;
          m \<leftarrow> match_method request_methods w n;
          case m of
            Some m \<Rightarrow> Some (read_move (n + 1) (w\<lparr>conn_method := m\<rparr>), needs_more_read)
          | None \<Rightarrow> Some (http_write_response_after_eol HTTPTEMPLATE_FULLUNKNOWNMETHOD (read_move (n + 1) w))
        } else Some (w, continue_processing)
      })"

definition do_http_cache_handle_method :: "http_world \<Rightarrow> handler_result" where
  "do_http_cache_handle_method w = do {
     rb \<leftarrow> skip_over_newlines (input w);
     let w = w\<lparr>input := rb, conn_method := 0\<rparr>;
     (w, _, ret) \<leftarrow> RBUF_ITERATE input http_read_requeststartmethod w continue_processing;
     Some (w, ret)
   }"

section \<open>URL\<close>

text \<open>
  \<open>http_key_lookup\<close>; its result, a \<open>bool\<close>, is true on every path. The copied key is handed to the database.
\<close>

definition set_level_key :: "u16 \<Rightarrow> u16" where
  "set_level_key m = (m OR REQUEST_CACHE_LEVELKEY) AND NOT REQUEST_CACHE_LEVELTABLE"

definition key_lookup_db :: "string \<Rightarrow> http_world \<Rightarrow> (eptr option \<times> http_world) option" where
  "key_lookup_db key w = do {
     t \<leftarrow> target_table (target w);
     if REQUEST_IS (conn_method w) REQUEST_HTTPGET \<or> REQUEST_IS (conn_method w) REQUEST_HTTPHEAD
     then on_db (db_entry_get_read t key) w
     else if REQUEST_IS (conn_method w) REQUEST_HTTPPUT then do {
       (entry, w) \<leftarrow> on_db (db_entry_get_write (gc w) t key) w;
       Some (entry, if entry \<noteq> None then w\<lparr>is_writing := True\<rparr> else w)
     } else do {
       (entry, w) \<leftarrow> on_db (db_entry_get_delete t key) w;
       Some (entry, set_template HTTPTEMPLATE_FULLHTTP200DELETED w)
     }
   }"

definition http_key_lookup :: "http_world \<Rightarrow> int \<Rightarrow> http_world option" where
  "http_key_lookup w n = do {
     key \<leftarrow> copy_key w n;
     if REQUEST_IS (conn_method w) REQUEST_HTTPGET \<or> REQUEST_IS (conn_method w) REQUEST_HTTPHEAD
        \<or> REQUEST_IS (conn_method w) REQUEST_HTTPPUT \<or> REQUEST_IS (conn_method w) REQUEST_HTTPDELETE
     then do {
       (entry, w) \<leftarrow> key_lookup_db key w;
       let w = w\<lparr>conn_method := set_level_key (conn_method w), handler := http_cache_handle_httpversion\<rparr>;
       case entry of
         Some e \<Rightarrow> do {
           (tg, w) \<leftarrow> on_db (db_target_setup (fd_blockfile w) ((target w)\<lparr>tgt_entry := Some e\<rparr>)
             (REQUEST_IS (conn_method w) REQUEST_HTTPPUT) (newfd w)) w;
           Some (w\<lparr>target := tg\<rparr>)
         }
       | None \<Rightarrow> do {
           t \<leftarrow> target_table (target w);
           w \<leftarrow> run_db (db_table_close t) w;
           Some (w\<lparr>target := (target w)\<lparr>tgt_entry := None, tgt_fd := - 1\<rparr>\<rparr>)
         }
     } else Some (fst (http_write_response_after_eol HTTPTEMPLATE_FULLINVALIDMETHOD w))
   }"

text \<open>The two ends of the first part of the URL: a slash (\<open>/table/key\<close>) and a space (\<open>/\<close> or \<open>/table\<close>).\<close>

definition url_table_of_key :: "http_world \<Rightarrow> string \<Rightarrow> int \<Rightarrow> handler_result" where
  "url_table_of_key w key n = do {
     (t, w) \<leftarrow> (if REQUEST_IS (conn_method w) REQUEST_HTTPGET \<or> REQUEST_IS (conn_method w) REQUEST_HTTPDELETE
           \<or> REQUEST_IS (conn_method w) REQUEST_HTTPHEAD
        then on_db (db_table_get_read key) w
        else do { (t, w) \<leftarrow> on_db (db_table_get_write key) w; Some (Some t, w) });
     let w = w\<lparr>target := (target w)\<lparr>tgt_entry := t\<rparr>\<rparr>;
     if t \<noteq> None
     then Some (read_move n (w\<lparr>conn_state := conn_state w + 1\<rparr>), needs_more_read)
     else Some (http_headers_response_after_eol HTTPTEMPLATE_FULL404 w)
   }"

definition url_table :: "http_world \<Rightarrow> string \<Rightarrow> int \<Rightarrow> handler_result" where
  "url_table w key n =
     (if REQUEST_IS (conn_method w) REQUEST_HTTPGET \<or> REQUEST_IS (conn_method w) REQUEST_HTTPDELETE
         \<or> REQUEST_IS (conn_method w) REQUEST_HTTPPURGE
      then if n = 1 then Some (http_stats_after_eol (read_move (n + 1) w))
      else do {
        (t, w) \<leftarrow> on_db (db_table_get_read key) w;
        let w = w\<lparr>target := set_limit DEFAULT_LISTING_LIMIT (set_start 0 ((target w)\<lparr>tgt_entry := t\<rparr>))\<rparr>;
        Some ((read_move (n + 1) w)\<lparr>handler := http_cache_handle_headers, conn_state := 0\<rparr>, needs_more_read)
      }
      else if REQUEST_IS (conn_method w) REQUEST_HTTPADMIN \<and> n = 3 \<and> strncmp key ''gc'' (nat n) = 0
      then do {
        w \<leftarrow> run_db (db_lru_gc (gc w)) (read_move (n + 1) w);
        Some (http_stats_after_eol w)
      }
      else Some (http_write_response_after_eol HTTPTEMPLATE_FULLINVALIDMETHOD (read_move (n + 1) w)))"

definition http_read_requeststarturl1 :: "http_world \<Rightarrow> nat \<Rightarrow> int \<Rightarrow> handler_result" where
  "http_read_requeststarturl1 w p n =
     (if n = 0 then Some (w, continue_processing)
      else do {
        c \<leftarrow> rbuf_at (input w) p;
        if c \<noteq> CHR ''/'' \<and> c \<noteq> CHR '' '' then Some (w, continue_processing)
        else do {
          let w = read_move 1 w;
          key \<leftarrow> copy_key w (n - 1);
          let w = w\<lparr>conn_method := conn_method w OR REQUEST_CACHE_LEVELTABLE\<rparr>;
          if c = CHR ''/'' then url_table_of_key w key n else url_table w key n
        }
      })"

definition http_read_requeststarturl2 :: "http_world \<Rightarrow> nat \<Rightarrow> int \<Rightarrow> handler_result" where
  "http_read_requeststarturl2 w p n = do {
     c \<leftarrow> rbuf_at (input w) p;
     if c = CHR '' '' then do {
       w \<leftarrow> http_key_lookup w n;
       Some ((read_move (n + 1) w)\<lparr>conn_state := 0\<rparr>, needs_more_read)
     } else Some (w, continue_processing)
   }"

definition do_http_cache_handle_url :: "http_world \<Rightarrow> handler_result" where
  "do_http_cache_handle_url w = do {
     (w, _, ret) \<leftarrow> RBUF_ITERATE input
       (if conn_state w = 0 then http_read_requeststarturl1 else http_read_requeststarturl2) w continue_processing;
     Some (w, ret)
   }"

section \<open>Version\<close>

text \<open>
  \<open>http_read_version\<close> sets \<open>n\<close>, which it has by reference, to -1: the loop leaves it at 0. The flag
  beside the world records that.
\<close>

definition http_read_version :: "http_world \<times> bool \<Rightarrow> nat \<Rightarrow> int \<Rightarrow> ((http_world \<times> bool) \<times> state_action) option" where
  "http_read_version wv p n = do {
     c \<leftarrow> rbuf_at (input (fst wv)) p;
     if c = CHR 0x0A
     then Some ((read_move (n + 1) ((fst wv)\<lparr>conn_state := 1, handler := http_cache_handle_headers\<rparr>), True), needs_more_read)
     else Some (wv, continue_processing)
   }"

definition do_http_cache_handle_httpversion :: "http_world \<Rightarrow> handler_result" where
  "do_http_cache_handle_httpversion w = do {
     ((w, found), n, ret) \<leftarrow> RBUF_ITERATE (\<lambda>wv. input (fst wv)) http_read_version (w, False) continue_processing;
     let n = (if found then 0 else n);
     Some (if n \<noteq> 0 then read_move n w else w, ret)
   }"

section \<open>Header names and routing\<close>

text \<open>\<open>buffer - RBUF_READ(connection->input)\<close>, corrected when the pointer is in the second segment.\<close>

definition header_bytes :: "http_world \<Rightarrow> nat \<Rightarrow> int" where
  "header_bytes w p = (let bytes = int p - int (rbuf_index (read_position (input w))) in
     if bytes < 0 then rbuf_read_to_end (input w) + int p else bytes)"

definition extract_header :: "int \<Rightarrow> u32 \<Rightarrow> http_world \<Rightarrow> http_world" where
  "extract_header bytes header w =
     (read_move (bytes + 1) w)\<lparr>conn_state := header, handler := http_cache_handle_headers_extract\<rparr>"

fun match_header :: "(string list \<times> u32) list \<Rightarrow> int \<Rightarrow> http_world \<Rightarrow> handler_result" where
  "match_header [] bytes w = Some (w, continue_processing)"
| "match_header ((names, header) # hs) bytes w = do {
     eq \<leftarrow> (if bytes = int (length (hd names))
       then foldr (\<lambda>name rest. do { b \<leftarrow> input_is w name; if b then Some True else rest }) names (Some False)
       else Some False);
     if eq then Some (extract_header bytes header w, needs_more_read) else match_header hs bytes w
   }"

definition headers_for :: "u16 \<Rightarrow> (string list \<times> u32) list" where
  "headers_for m =
     (if REQUEST_IS m (REQUEST_HTTPPUT OR REQUEST_CACHE_LEVELKEY)
      then [([''Content-Length''], HEADER_CONTENTLENGTH), ([''X-Ttl'', ''x-ttl''], HEADER_XTTL)]
      else if REQUEST_IS m (REQUEST_HTTPGET OR REQUEST_CACHE_LEVELTABLE)
      then [([''X-Start'', ''x-start''], HEADER_XSTART), ([''X-Limit'', ''x-limit''], HEADER_XLIMIT)]
      else if REQUEST_IS m (REQUEST_HTTPPURGE OR REQUEST_CACHE_LEVELTABLE)
      then [([''X-Delete'', ''x-delete''], HEADER_XDELETE)]
      else [])"

text \<open>The routing of a complete request on a key (\<open>None\<close>: fall through to the table level) and on a table.\<close>

definition route_key :: "http_world \<Rightarrow> (http_world \<times> state_action) option option" where
  "route_key w =
     (if REQUEST_IS (conn_method w) REQUEST_HTTPPUT then do {
        no_length \<leftarrow> (case tgt_entry (target w) of
            None \<Rightarrow> Some False
          | Some e \<Rightarrow> do { c \<leftarrow> entries (db w) e; Some (ce_data_length c = 0) });
        if no_length then Some (Some (http_write_response HTTPTEMPLATE_FULLINVALIDCONTENTLENGTH w))
        else Some (Some (w\<lparr>handler := http_cache_handle_request_body\<rparr>, needs_more_read))
      }
      else case tgt_entry (target w) of
        None \<Rightarrow> Some (Some (http_write_response HTTPTEMPLATE_FULL404 w))
      | Some e \<Rightarrow>
          if REQUEST_IS (conn_method w) REQUEST_HTTPGET \<or> REQUEST_IS (conn_method w) REQUEST_HTTPHEAD
          then (case connection_register_write ((set_template HTTPTEMPLATE_HEADERS200 w)
                 \<lparr>conn_state := 0, handler := http_respond_expires\<rparr>) of
            (res, w) \<Rightarrow> Some (Some (w, if res then registered_write else close_connection)))
          else if REQUEST_IS (conn_method w) REQUEST_HTTPDELETE
          then do {
            (_, w) \<leftarrow> on_db (db_entry_handle_delete e) w;
            Some (Some (http_write_response HTTPTEMPLATE_FULLHTTP200DELETED w))
          }
          else Some None)"

definition route_table :: "http_world \<Rightarrow> handler_result" where
  "route_table w =
     (if REQUEST_IS (conn_method w) REQUEST_HTTPGET then
        (if target_table (target w) = None then Some (http_write_response HTTPTEMPLATE_FULL404 w)
         else (case connection_register_write ((set_template HTTPTEMPLATE_HEADERS200_CONCLOSE w)
                \<lparr>handler := http_respond_listingentries\<rparr>) of
           (res, w) \<Rightarrow> Some (w, if res then registered_write else close_connection)))
      else if REQUEST_IS (conn_method w) REQUEST_HTTPDELETE then
        (case target_table (target w) of
           None \<Rightarrow> Some (http_write_response HTTPTEMPLATE_FULL404 w)
         | Some t \<Rightarrow> do {
             w \<leftarrow> run_db (db_table_handle_delete t) w;
             Some (http_write_response HTTPTEMPLATE_FULLHTTP200DELETED w)
           })
      else if REQUEST_IS (conn_method w) REQUEST_HTTPPURGE \<or> REQUEST_IS (conn_method w) REQUEST_HTTPADMIN
      then Some (http_write_response HTTPTEMPLATE_BULK_OK w)
      else Some (http_write_response HTTPTEMPLATE_FULLUNKNOWNREQUEST w))"

definition http_route :: "http_world \<Rightarrow> handler_result" where
  "http_route w = do {
     r \<leftarrow> (if REQUEST_IS (conn_method w) REQUEST_CACHE_LEVELKEY then route_key w else Some None);
     case r of Some x \<Rightarrow> Some x | None \<Rightarrow> route_table w
   }"

definition http_read_headers :: "http_world \<Rightarrow> nat \<Rightarrow> int \<Rightarrow> handler_result" where
  "http_read_headers w p n = do {
     c \<leftarrow> rbuf_at (input w) p;
     if c = CHR '':'' then match_header (headers_for (conn_method w)) (header_bytes w p) w
     else if c = CHR 0x0A then do {
       let w = read_move (n + 1) w;
       let w = w\<lparr>conn_state := conn_state w + 1\<rparr>;
       if conn_state w = 2 then http_route w else Some (w, needs_more_read)
     }
     else Some (if c \<noteq> CHR 0x0D then w\<lparr>conn_state := 0\<rparr> else w, continue_processing)
   }"

definition do_http_cache_handle_headers :: "http_world \<Rightarrow> handler_result" where
  "do_http_cache_handle_headers w = do {
     (w, _, ret) \<leftarrow> RBUF_ITERATE input http_read_headers w continue_processing;
     if handler w = http_cache_handle_headers \<and> rbuf_write_remaining (input w) = 0
     then Some (http_write_response HTTPTEMPLATE_FULLREQUESTTOOLARGE w)
     else Some (w, ret)
   }"

section \<open>Header values\<close>

text \<open>\<open>int length = buffer - RBUF_READ(connection->input)\<close>, here without a correction.\<close>

definition value_length :: "http_world \<Rightarrow> nat \<Rightarrow> int" where
  "value_length w p = int p - int (rbuf_index (read_position (input w)))"

text \<open>
  The branches of the \<open>switch\<close>: \<open>Inl\<close> when the value is rejected and the handler returns, else the world
  with which it goes on after the \<open>switch\<close>.
\<close>

definition value_content_length :: "int \<Rightarrow> http_world \<Rightarrow> (unit + http_world) option" where
  "value_content_length len w =
     (if REQUEST_IS (conn_method w) (REQUEST_HTTPPUT OR REQUEST_CACHE_LEVELKEY) then do {
        r \<leftarrow> rbuf_strntol (input w) len;
        case r of
          None \<Rightarrow> Some (Inl ())
        | Some content_length \<Rightarrow>
            (case tgt_entry (target w) of
               Some e \<Rightarrow> do {
                 (tg, w) \<leftarrow> on_db (db_target_write_allocate (fd_blockfile w) (target w) (of_int content_length) (newfd w)) w;
                 c \<leftarrow> entries (db w) e;
                 Some (Inr (w\<lparr>target := tg\<lparr>tgt_end_position := (if IS_SINGLE_FILE c then uint (ce_data_length c)
                   else tgt_position tg + uint (ce_data_length c))\<rparr>\<rparr>))
               }
             | None \<Rightarrow> Some (Inr (w\<lparr>target := (target w)\<lparr>tgt_position := 0, tgt_end_position := content_length\<rparr>\<rparr>)))
      } else Some (Inr w))"

definition value_xttl :: "int \<Rightarrow> http_world \<Rightarrow> (unit + http_world) option" where
  "value_xttl len w =
     (if REQUEST_IS (conn_method w) (REQUEST_HTTPPUT OR REQUEST_CACHE_LEVELKEY) then
        (case tgt_entry (target w) of
           None \<Rightarrow> Some (Inr w)
         | Some e \<Rightarrow> do {
             r \<leftarrow> rbuf_strntol (input w) len;
             case r of
               None \<Rightarrow> Some (Inl ())
             | Some ttl \<Rightarrow>
                 if ttl \<noteq> 0 then do {
                   w \<leftarrow> run_db (\<lambda>s. mod_entry e (\<lambda>c. c\<lparr>ce_expires := ttl + now_sec s\<rparr>) s) w;
                   Some (Inr w)
                 } else Some (Inr w)
           })
      else Some (Inr w))"

definition value_listing :: "(u32 \<Rightarrow> cache_target \<Rightarrow> cache_target) \<Rightarrow> int \<Rightarrow> http_world \<Rightarrow> (unit + http_world) option" where
  "value_listing set_value len w =
     (if REQUEST_IS (conn_method w) (REQUEST_HTTPGET OR REQUEST_CACHE_LEVELTABLE) then do {
        r \<leftarrow> rbuf_strntol (input w) len;
        case r of
          None \<Rightarrow> Some (Inl ())
        | Some v \<Rightarrow> Some (Inr (if v \<ge> 0 then w\<lparr>target := set_value (of_int v) (target w)\<rparr> else w))
      } else Some (Inr w))"

definition value_xdelete :: "int \<Rightarrow> http_world \<Rightarrow> (unit + http_world) option" where
  "value_xdelete len w =
     (case target_table (target w) of
        Some t \<Rightarrow>
          if REQUEST_IS (conn_method w) (REQUEST_HTTPPURGE OR REQUEST_CACHE_LEVELTABLE) then do {
            key \<leftarrow> copy_key w len;
            (entry, w) \<leftarrow> on_db (db_entry_get_delete t key) w;
            case entry of
              None \<Rightarrow> Some (Inr w)
            | Some e \<Rightarrow> do {
                (table_gone, w) \<leftarrow> on_db (db_entry_handle_delete e) w;
                let w = (if table_gone then w\<lparr>target := (target w)\<lparr>tgt_entry := None\<rparr>\<rparr> else w);
                w \<leftarrow> run_db (db_entry_deref e False) w;
                Some (Inr w)
              }
          } else Some (Inr w)
      | None \<Rightarrow> Some (Inr w))"

definition header_value :: "int \<Rightarrow> http_world \<Rightarrow> (unit + http_world) option" where
  "header_value len w =
     (if conn_state w = HEADER_CONTENTLENGTH then value_content_length len w
      else if conn_state w = HEADER_XTTL then value_xttl len w
      else if conn_state w = HEADER_XLIMIT then value_listing set_limit len w
      else if conn_state w = HEADER_XSTART then value_listing set_start len w
      else if conn_state w = HEADER_XDELETE then value_xdelete len w
      else Some (Inr w))"

definition http_read_header_extraction :: "http_world \<Rightarrow> nat \<Rightarrow> int \<Rightarrow> handler_result" where
  "http_read_header_extraction w p n = do {
     c \<leftarrow> rbuf_at (input w) p;
     if c = CHR '' '' then Some (read_move 1 w, continue_processing)
     else if c = CHR 0x0A \<or> c = CHR 0x0D then do {
       let temporary = (if c = CHR 0x0D then 2 else 1);
       let len = value_length w p;
       r \<leftarrow> header_value len w;
       case r of
         Inl _ \<Rightarrow> Some (http_write_response HTTPTEMPLATE_FULLINVALIDMETHOD (read_move (len + temporary) w))
       | Inr w \<Rightarrow> Some (read_move (len + temporary) (w\<lparr>conn_state := 1, handler := http_cache_handle_headers\<rparr>), needs_more_read)
     }
     else Some (w, continue_processing)
   }"

definition do_http_cache_handle_headers_extract :: "http_world \<Rightarrow> handler_result" where
  "do_http_cache_handle_headers_extract w = do {
     (w, _, ret) \<leftarrow> RBUF_ITERATE input http_read_header_extraction w continue_processing;
     Some (w, ret)
   }"

section \<open>Statistics, body, end of the connection\<close>

definition do_http_cache_handle_eolstats :: "http_world \<Rightarrow> handler_result" where
  "do_http_cache_handle_eolstats w = do {
     (w, ret) \<leftarrow> handle_eol http_read_eoltoend w;
     Some (if ret = registered_write then w\<lparr>handler := http_respond_stats\<rparr> else w, ret)
   }"

text \<open>
  \<open>write\<close> on a file: the number of bytes taken, or -1. \<open>lseek64\<close> fails on a bad descriptor or a
  negative position. \<open>to_int\<close> is the conversion of an \<open>off64_t\<close> to \<open>int\<close>.
\<close>

definition file_write :: "int \<Rightarrow> int \<Rightarrow> string \<Rightarrow> http_world \<Rightarrow> int \<times> http_world" where
  "file_write fd pos bytes w = (let
     (limit, w) = (case write_limits w of [] \<Rightarrow> (int (length bytes), w) | l # ls \<Rightarrow> (l, w\<lparr>write_limits := ls\<rparr>))
   in if limit < 0 then (- 1, w)
      else let k = min (nat limit) (length bytes) in
        (int k, w\<lparr>events := events w @ [File_write fd pos (take k bytes)]\<rparr>))"

definition to_int :: "int \<Rightarrow> int" where
  "to_int x = sint (of_int x :: 32 word)"

definition body_write :: "int \<Rightarrow> http_world \<Rightarrow> (http_world + http_world) option" where
  "body_write to_write w =
     (if tgt_fd (target w) < 0 \<or> tgt_position (target w) < 0 then Some (Inl w)
      else do {
        bytes \<leftarrow> rbuf_mem (input w) (rbuf_index (read_position (input w))) to_write;
        let (read_bytes, w) = file_write (tgt_fd (target w)) (tgt_position (target w)) bytes w;
        Some (Inr ((read_move read_bytes w)\<lparr>target := (target w)\<lparr>tgt_position := tgt_position (target w) + read_bytes\<rparr>\<rparr>))
      })"

text \<open>The bytes of a body whose entry is being written elsewhere are dropped.\<close>

definition body_discard :: "int \<Rightarrow> http_world \<Rightarrow> http_world" where
  "body_discard to_write w = (let
     max_write = to_int (tgt_end_position (target w) - tgt_position (target w));
     to_write = (if to_write > max_write then max_write else to_write)
   in (read_move to_write w)\<lparr>target := (target w)\<lparr>tgt_position := tgt_position (target w) + to_write\<rparr>\<rparr>)"

definition body_done :: "http_world \<Rightarrow> handler_result" where
  "body_done w =
     (if tgt_end_position (target w) = tgt_position (target w) then do {
        w \<leftarrow> (if is_writing w then do {
            e \<leftarrow> tgt_entry (target w);
            w \<leftarrow> run_db (db_complete_writing e) w;
            Some (w\<lparr>is_writing := False\<rparr>)
          } else Some w);
        Some (http_write_response HTTPTEMPLATE_FULL200OK w)
      } else Some (w, continue_processing))"

definition do_http_cache_handle_request_body :: "http_world \<Rightarrow> handler_result" where
  "do_http_cache_handle_request_body w = do {
     let max_write = rbuf_read_to_end (input w);
     let to_write = to_int (tgt_end_position (target w) - tgt_position (target w));
     let to_write = (if to_write > max_write then max_write else to_write);
     if to_write = 0 then body_done w
     else if is_writing w then do {
       r \<leftarrow> body_write to_write w;
       case r of
         Inl w \<Rightarrow> Some (http_write_response HTTPTEMPLATE_FULL404 w)
       | Inr w \<Rightarrow> body_done w
     }
     else body_done (body_discard to_write w)
   }"

definition cache_destroy :: "http_world \<Rightarrow> http_world option" where
  "cache_destroy w =
     (if REQUEST_IS (conn_method w) REQUEST_CACHE_LEVELKEY then do {
        w \<leftarrow> (if is_writing w then do {
            e \<leftarrow> tgt_entry (target w);
            c \<leftarrow> entries (db w) e;
            w \<leftarrow> (if \<not> ce_deleted c then do { (_, w) \<leftarrow> on_db (db_entry_handle_delete e) w; Some w } else Some w);
            w \<leftarrow> run_db (mod_entry e (\<lambda>c. c\<lparr>ce_writing := False\<rparr>)) w;
            Some (w\<lparr>is_writing := False\<rparr>)
          } else Some w);
        if tgt_entry (target w) \<noteq> None then do {
          (tg, w) \<leftarrow> on_db (db_target_entry_close (fd_blockfile w) (target w)) w;
          Some (w\<lparr>target := tg\<rparr>)
        } else Some w
      }
      else if REQUEST_IS (conn_method w) REQUEST_CACHE_LEVELTABLE then
        (case target_table (target w) of
           Some t \<Rightarrow> do {
             w \<leftarrow> run_db (db_table_close t) w;
             Some (w\<lparr>target := (target w)\<lparr>tgt_entry := None\<rparr>\<rparr>)
           }
         | None \<Rightarrow> Some w)
      else Some w)"

end
