(* ===== verification/HttpRespond.thy ===== *)
theory HttpRespond
  imports HttpCache
begin

text \<open>
  The responses (src/core/http_respond.cpp): header lines, the body by \<open>sendfile\<close>, the listing of a
  table and the statistics, each a handler that runs when the output buffer has been written, sets
  the next piece of output and the next handler. At the end of a response the connection is cleaned
  up and reads again; \<open>http_register_read\<close> then runs the read handler at once, which is the argument
  \<open>rd\<close> of the handlers that do so.
\<close>

section \<open>Printing\<close>

definition to_sdec :: "int \<Rightarrow> string" where
  "to_sdec i = (if i < 0 then CHR ''-'' # to_dec (nat (- i)) else to_dec (nat i))"

text \<open>
  \<open>snprintf(header, sizeof(header), ...)\<close> and \<open>copy_to_outputbuffer\<close>, which copies as many bytes as
  \<open>snprintf\<close> says the text has: beyond the end of \<open>header\<close> when it was cut off.
\<close>

definition copy_to_outputbuffer :: "nat \<Rightarrow> string \<Rightarrow> http_world \<Rightarrow> http_world option" where
  "copy_to_outputbuffer header_size text w =
     (if length text < header_size
      then Some (w\<lparr>output_buffer := Some text, output_buffer_free := True, output_length := int (length text)\<rparr>)
      else None)"

definition the_entry :: "http_world \<Rightarrow> cache_entry option" where
  "the_entry w = do { e \<leftarrow> tgt_entry (target w); entries (db w) e }"

definition the_hash_set :: "http_world \<Rightarrow> eptr kh option" where
  "the_hash_set w = do { t \<leftarrow> target_table (target w); hash_set_of t (db w) }"

section \<open>Headers\<close>

definition REQUEST_GETKEY :: u16 where "REQUEST_GETKEY = REQUEST_HTTPGET OR REQUEST_CACHE_LEVELKEY"
definition REQUEST_HEADKEY :: u16 where "REQUEST_HEADKEY = REQUEST_HTTPHEAD OR REQUEST_CACHE_LEVELKEY"
definition REQUEST_GETTABLE :: u16 where "REQUEST_GETTABLE = REQUEST_HTTPGET OR REQUEST_CACHE_LEVELTABLE"

definition do_http_respond_expires :: "http_world \<Rightarrow> handler_result" where
  "do_http_respond_expires w = do {
     w \<leftarrow> (if REQUEST_IS (conn_method w) REQUEST_GETKEY \<or> REQUEST_IS (conn_method w) REQUEST_HEADKEY then do {
         c \<leftarrow> the_entry w;
         let expires = ce_expires c;
         copy_to_outputbuffer 32 (''X-Ttl: '' @ to_sdec (if expires = 0 then expires else expires - now_sec (db w)) @ crlf) w
       } else Some w);
     Some (w\<lparr>handler := http_respond_contentlength\<rparr>, continue_processing)
   }"

text \<open>\<open>%d\<close> of a \<open>uint32_t\<close>.\<close>

definition do_http_respond_contentlength :: "http_world \<Rightarrow> handler_result" where
  "do_http_respond_contentlength w = do {
     c \<leftarrow> the_entry w;
     w \<leftarrow> copy_to_outputbuffer 32 (''Content-Length: '' @ to_sdec (sint (ce_data_length c)) @ crlf) w;
     Some (w\<lparr>handler := http_respond_responseend\<rparr>, continue_processing)
   }"

definition do_http_respond_responseend :: "http_world \<Rightarrow> handler_result" where
  "do_http_respond_responseend w = Some ((set_template HTTPTEMPLATE_NEWLINE w)\<lparr>handler :=
     (if REQUEST_IS (conn_method w) REQUEST_HTTPGET then http_respond_contentbody
      else if REQUEST_IS (conn_method w) REQUEST_HTTPHEAD then http_respond_reset_connection
      else http_respond_writeonly)\<rparr>, continue_processing)"

section \<open>The end of a response\<close>

definition http_register_read :: "(http_world \<Rightarrow> handler_result) \<Rightarrow> http_world \<Rightarrow> (bool \<times> http_world) option" where
  "http_register_read rd w = (case connection_register_read w of (res, w) \<Rightarrow>
     if \<not> stop_soon w \<and> rbuf_write_remaining (input w) \<noteq> 0
     then do { (w, _) \<leftarrow> rd w; Some (res, w) }
     else Some (res, w))"

text \<open>The unlinking of a monitoring connection, \<open>monitoring_destroy\<close>, is the other argument.\<close>

definition http_cleanup :: "(http_world \<Rightarrow> http_world option) \<Rightarrow> http_world \<Rightarrow> http_world option" where
  "http_cleanup monitoring_destroy w =
     (if ltype w = cache_connection then cache_destroy w
      else if ltype w = mon_connection then monitoring_destroy w
      else Some w)"

definition do_http_respond_reset_connection ::
  "(http_world \<Rightarrow> http_world option) \<Rightarrow> (http_world \<Rightarrow> handler_result) \<Rightarrow> http_world \<Rightarrow> handler_result" where
  "do_http_respond_reset_connection md rd w = do {
     w \<leftarrow> http_cleanup md w;
     (res, w) \<leftarrow> http_register_read rd (w\<lparr>handler := http_cache_handle_method\<rparr>);
     Some (w, if res then continue_processing else close_connection)
   }"

definition do_http_respond_writeonly ::
  "(http_world \<Rightarrow> http_world option) \<Rightarrow> (http_world \<Rightarrow> handler_result) \<Rightarrow> http_world \<Rightarrow> handler_result" where
  "do_http_respond_writeonly md rd w = do {
     w \<leftarrow> http_cleanup md w;
     let w = (if ltype w = cache_connection then w\<lparr>handler := http_cache_handle_method\<rparr>
       else if ltype w = mon_connection then w\<lparr>handler := http_mon_handle_method\<rparr> else w);
     (res, w) \<leftarrow> http_register_read rd w;
     Some (w, if res then continue_processing else close_connection)
   }"

definition do_http_respond_cleanupafterwrite :: "http_world \<Rightarrow> handler_result" where
  "do_http_respond_cleanupafterwrite w = Some (snd (connection_register_read
     (w\<lparr>output_buffer := None, output_length := 0, handler := http_discard_input\<rparr>)), continue_processing)"

section \<open>The body\<close>

text \<open>\<open>sendfile64\<close>; the count is a \<open>size_t\<close>.\<close>

definition send_file :: "int \<Rightarrow> http_world \<Rightarrow> sendfile_result \<times> http_world" where
  "send_file count w = (let
     (r, w) = (case sendfile_results w of [] \<Rightarrow> (Sent (nat count), w) | r # rs \<Rightarrow> (r, w\<lparr>sendfile_results := rs\<rparr>))
   in case r of
        Sent k \<Rightarrow> (let k = min k (nat count) in
          (Sent k, w\<lparr>events := events w @ [Sendfile (client_sock w) (tgt_fd (target w)) (tgt_position (target w)) (int k)]\<rparr>))
      | _ \<Rightarrow> (r, w))"

definition do_http_respond_contentbody ::
  "(http_world \<Rightarrow> http_world option) \<Rightarrow> (http_world \<Rightarrow> handler_result) \<Rightarrow> http_world \<Rightarrow> handler_result" where
  "do_http_respond_contentbody md rd w = (let
     temp = uint (of_int (tgt_end_position (target w) - tgt_position (target w)) :: u64);
     finish = (\<lambda>w. if tgt_position (target w) = tgt_end_position (target w) then do {
         w \<leftarrow> http_cleanup md w;
         (res, w) \<leftarrow> http_register_read rd (w\<lparr>handler := http_cache_handle_method\<rparr>);
         Some (w, if res then continue_processing else close_connection)
       } else Some (w, continue_processing))
   in if temp = 0 then finish w
      else case send_file temp w of
        (Sent k, w) \<Rightarrow> if k = 0 then Some (w, close_connection)
          else finish (w\<lparr>target := (target w)\<lparr>tgt_position := tgt_position (target w) + int k\<rparr>\<rparr>)
      | (Send_again, w) \<Rightarrow> Some (w, continue_processing)
      | (Send_error, w) \<Rightarrow> Some (w, close_connection))"

section \<open>Listings\<close>

definition do_http_respond_listing_separator :: "http_world \<Rightarrow> handler_result" where
  "do_http_respond_listing_separator w =
     Some (w\<lparr>output_buffer := Some crlf, output_length := 2, handler := http_respond_listing\<rparr>, continue_processing)"

text \<open>
  The \<open>while\<close> loop over the buckets from \<open>i\<close> down. \<open>kh_exist\<close> reads the flags of a bucket out of words of
  16 each, which say empty beyond the last bucket; outside the words, and in a table without an array,
  the read is undefined.
\<close>

definition kh_exist_checked :: "'v kh \<Rightarrow> int \<Rightarrow> bool option" where
  "kh_exist_checked h i = (if 0 \<le> i \<and> 0 < n_buckets h \<and> nat i < max 16 (n_buckets h)
     then Some (nat i < n_buckets h \<and> kh_exist h (nat i)) else None)"

text \<open>\<open>limit\<close> goes down to 0, where the loop gives up: the result is the bucket and the limit, or none.\<close>

fun listing_scan :: "eptr kh \<Rightarrow> nat \<Rightarrow> int \<Rightarrow> (nat \<times> nat) option option" where
  "listing_scan h limit i = do {
     ex \<leftarrow> kh_exist_checked h i;
     if ex then Some (Some (nat i, limit))
     else case limit of 0 \<Rightarrow> Some None | Suc limit \<Rightarrow> listing_scan h limit (i - 1)
   }"

declare listing_scan.simps [simp del]

definition clamp_listing :: "u32 \<Rightarrow> cache_target \<Rightarrow> cache_target" where
  "clamp_listing kend tg =
     (if target_start tg > kend then set_limit 0 (set_start kend tg)
      else if target_limit tg + target_start tg > kend then set_limit (kend - (target_start tg + 1)) tg
      else tg)"

definition do_http_respond_listing :: "http_world \<Rightarrow> handler_result" where
  "do_http_respond_listing w = do {
     h \<leftarrow> the_hash_set w;
     let w = w\<lparr>target := clamp_listing (of_nat (n_buckets h)) (target w)\<rparr>;
     let limit = target_limit (target w);
     if limit > 0 then do {
       r \<leftarrow> listing_scan h (unat limit) (sint (limit + target_start (target w)));
       case r of
         None \<Rightarrow> Some (w\<lparr>target := set_limit 0 (target w)\<rparr>, close_connection)
       | Some (i, limit) \<Rightarrow> do {
           e \<leftarrow> kh_value h i;
           c \<leftarrow> entries (db w) e;
           Some (w\<lparr>target := set_limit (if limit \<noteq> 0 then of_nat limit - 1 else 0) (target w),
             output_buffer := Some (ce_key c), output_length := int (ce_key_length c),
             handler := (if limit \<noteq> 0 then http_respond_listing_separator else http_respond_close_connection)\<rparr>,
             continue_processing)
         }
     } else Some (w, close_connection)
   }"

definition do_http_respond_listingtotal :: "http_world \<Rightarrow> handler_result" where
  "do_http_respond_listingtotal w = do {
     w \<leftarrow> (if REQUEST_IS (conn_method w) REQUEST_GETTABLE then do {
         h \<leftarrow> the_hash_set w;
         copy_to_outputbuffer 32 (''X-Total: '' @ to_sdec (sint (of_nat (n_buckets h) :: u32)) @ crlf) w
       } else Some w);
     Some (w\<lparr>handler := http_respond_listing_separator\<rparr>, continue_processing)
   }"

definition do_http_respond_listingentries :: "http_world \<Rightarrow> handler_result" where
  "do_http_respond_listingentries w = do {
     w \<leftarrow> (if REQUEST_IS (conn_method w) REQUEST_GETTABLE then do {
         h \<leftarrow> the_hash_set w;
         copy_to_outputbuffer 32 (''X-Entries: '' @ to_sdec (sint (of_nat (kh_size h) :: u32)) @ crlf) w
       } else Some w);
     Some (w\<lparr>handler := http_respond_listingtotal\<rparr>, continue_processing)
   }"

section \<open>Statistics\<close>

text \<open>\<open>SCACHE_VERSION\<close> and \<open>SCACHE_REVISION\<close> are set by the build; these are their defaults in config.h.\<close>

definition SCACHE_VERSION :: string where "SCACHE_VERSION = ''0.0.0''"
definition SCACHE_REVISION :: string where "SCACHE_REVISION = ''<unknown>''"

definition stats_text :: "db_state \<Rightarrow> string" where
  "stats_text s =
     ''DB Keys: '' @ to_dec (unat (db_keys s)) @ crlf
     @ ''DB Tables: '' @ to_dec (kh_size (tables s)) @ crlf
     @ ''DB Size Bytes: '' @ to_dec (unat (db_size_bytes s)) @ crlf
     @ ''DB Blocks Free: '' @ to_dec (unat (blocks_free s)) @ ''/'' @ to_dec (unat (blocks_exist s)) @ crlf
     @ ''DB Stats Deletes: '' @ to_dec (unat (db_stats_deletes s)) @ crlf
     @ ''DB Stats Gets: '' @ to_dec (unat (db_stats_gets s)) @ crlf
     @ ''DB Stats Inserts: '' @ to_dec (unat (db_stats_inserts s)) @ crlf
     @ ''Scache Version: '' @ SCACHE_VERSION @ crlf @ ''Scache Revision: '' @ SCACHE_REVISION @ crlf"

text \<open>The template \<open>HTTPTEMPLATE_200CONTENT_LENGTH\<close> with its \<open>%d\<close> filled in.\<close>

definition content_length_header :: "int \<Rightarrow> string" where
  "content_length_header n = ''HTTP/1.1 200 OK'' @ crlf @ ''Connection: Keep-Alive'' @ crlf
     @ ''Content-Length: '' @ to_sdec n @ crlf @ crlf"

definition do_http_respond_stats :: "http_world \<Rightarrow> handler_result" where
  "do_http_respond_stats w = (let
     stat = stats_text (db w);
     header = content_length_header (int (length stat));
     out = header @ stat
   in if length stat < 4096 \<and> length header < 1024
      then Some (w\<lparr>output_buffer := Some out, output_buffer_free := True, output_length := int (length out),
        handler := http_respond_writeonly\<rparr>, continue_processing)
      else None)"

end
