(* ===== verification/HttpMon.thy ===== *)
theory HttpMon
  imports HttpRespond
begin

text \<open>
  The monitoring protocol (src/core/http_parse_mon.cpp): its request parser, the doubly linked lists
  of the connections that get a number every five seconds, and the numbers. The links are those of
  the connection structures, kept in \<open>mon_nodes\<close> under the address of the connection.
\<close>

section \<open>The lists\<close>

definition MONITORING_DEFAULT_INTERVAL :: int where "MONITORING_DEFAULT_INTERVAL = 5"

definition mod_node :: "nat \<Rightarrow> (mon_node \<Rightarrow> mon_node) \<Rightarrow> http_world \<Rightarrow> http_world option" where
  "mod_node c f w = do { m \<leftarrow> mon_nodes w c; Some (w\<lparr>mon_nodes := (mon_nodes w)(c \<mapsto> f m)\<rparr>) }"

text \<open>\<open>memset\<close> of the monitoring fields, then the schedule set to the current time.\<close>

definition blank_node :: "http_world \<Rightarrow> mon_node" where
  "blank_node w = \<lparr>mon_prev = None, mon_next = None, scheduled_sec = now_sec (db w),
     scheduled_usec = now_usec (db w), mon_current = 0\<rparr>"

text \<open>\<open>t = c->next; if (t != NULL) t->prev = c->prev\<close>, then the same in the other direction.\<close>

definition bypass_node :: "nat \<Rightarrow> http_world \<Rightarrow> http_world option" where
  "bypass_node c w = do {
     m \<leftarrow> mon_nodes w c;
     w \<leftarrow> (case mon_next m of Some t \<Rightarrow> mod_node t (\<lambda>x. x\<lparr>mon_prev := mon_prev m\<rparr>) w | None \<Rightarrow> Some w);
     m \<leftarrow> mon_nodes w c;
     case mon_prev m of Some t \<Rightarrow> mod_node t (\<lambda>x. x\<lparr>mon_next := mon_next m\<rparr>) w | None \<Rightarrow> Some w
   }"

definition monitoring_add :: "nat \<Rightarrow> http_world \<Rightarrow> http_world option" where
  "monitoring_add c w = do {
     _ \<leftarrow> mon_nodes w c;
     let m = blank_node w;
     let w = w\<lparr>mon_nodes := (mon_nodes w)(c \<mapsto> m)\<rparr>;
     let w = (if mon_pending_head w = Some c then w\<lparr>mon_pending_head := mon_next m\<rparr> else w);
     w \<leftarrow> (if mon_pending_tail w = Some c then Some (w\<lparr>mon_pending_tail := mon_prev m\<rparr>)
       else if mon_pending_tail w \<noteq> None then bypass_node c w
       else Some w);
     if mon_tail w = None then Some (w\<lparr>mon_tail := Some c, mon_head := Some c\<rparr>)
     else do {
       h \<leftarrow> mon_head w;
       w \<leftarrow> mod_node h (\<lambda>x. x\<lparr>mon_prev := Some c\<rparr>) w;
       w \<leftarrow> mod_node c (\<lambda>x. x\<lparr>mon_next := Some h\<rparr>) w;
       Some (w\<lparr>mon_head := Some c\<rparr>)
     }
   }"

text \<open>
  \<open>monitoring_destroy\<close> of the connection the world is at. A connection that is not pending clears
  \<open>mon_tail\<close>; the branch for the pending list does so too.
\<close>

definition monitoring_destroy :: "http_world \<Rightarrow> http_world option" where
  "monitoring_destroy w = do {
     let c = conn_ptr w;
     m \<leftarrow> mon_nodes w c;
     if \<not> is_writing w then do {
       let w = (if mon_pending_head w = Some c then w\<lparr>mon_pending_head := mon_next m\<rparr> else w);
       let w' = w\<lparr>mon_tail := mon_prev m\<rparr>;
       if mon_pending_tail w = Some c
       then if mon_pending_head w' = None then Some w' else bypass_node c w'
       else bypass_node c w
     } else do {
       let w = (if mon_head w = Some c then w\<lparr>mon_head := mon_next m\<rparr> else w);
       let w' = w\<lparr>mon_tail := mon_prev m\<rparr>;
       if mon_tail w = Some c
       then if mon_head w' = None then Some w' else bypass_node c w'
       else bypass_node c w
     }
   }"

section \<open>Numbers\<close>

text \<open>
  \<open>itoa\<close>: the digits in reverse order (the \<open>do\<close> loop; an \<open>int\<close> has at most 10), the sign, then
  \<open>reverse\<close>, which swaps from both ends.
\<close>

fun itoa_digits :: "nat \<Rightarrow> nat \<Rightarrow> string" where
  "itoa_digits 0 n = []"
| "itoa_digits (Suc fuel) n = char_of (n mod 10 + 48) # (if n div 10 > 0 then itoa_digits fuel (n div 10) else [])"

fun reverse_loop :: "nat \<Rightarrow> nat \<Rightarrow> string \<Rightarrow> string" where
  "reverse_loop i j s = (if i < j then reverse_loop (i + 1) (j - 1) (s[i := s ! j, j := s ! i]) else s)"

declare reverse_loop.simps [simp del]

definition reverse :: "string \<Rightarrow> string" where
  "reverse s = (if s = [] then s else reverse_loop 0 (length s - 1) s)"

definition itoa :: "int \<Rightarrow> string" where
  "itoa n = reverse (itoa_digits 10 (nat \<bar>n\<bar>) @ (if n < 0 then ''-'' else []))"

text \<open>\<open>monitoring_init\<close>: the text for a number, of 7 bytes with its terminator, and its length.\<close>

definition monitoring_string :: "u16 \<Rightarrow> string" where
  "monitoring_string i = itoa (uint i) @ [CHR 0x0A]"

definition monitoring_len :: "u16 \<Rightarrow> int" where
  "monitoring_len i = uint (of_nat (length (monitoring_string i)) :: 8 word)"

text \<open>\<open>sprintf\<close> of the template \<open>HTTPTEMPLATE_MON_STREAM\<close> with the host name.\<close>

definition monitoring_response :: "string \<Rightarrow> string" where
  "monitoring_response hostname = ''HTTP/1.1 200 OK'' @ crlf @ ''Connection: Close'' @ crlf
     @ ''Content-Type: text/x-streaming'' @ crlf @ ''X-Hostname: '' @ hostname @ crlf @ crlf"

definition monitoring_rsp_len :: "string \<Rightarrow> int" where
  "monitoring_rsp_len hostname = http_templates_length ! HTTPTEMPLATE_MON_STREAM + int (length hostname) - 2"

section \<open>Requests\<close>

text \<open>\<open>http_write_response_after_eol\<close> of this file: it waits for no line end.\<close>

definition mon_write_response_after_eol :: "nat \<Rightarrow> http_world \<Rightarrow> http_world \<times> state_action" where
  "mon_write_response_after_eol http_template w =
     ((set_template http_template (w\<lparr>handler := http_handle_eolwritetoend\<rparr>))\<lparr>conn_state := 0\<rparr>, needs_more_read)"

definition do_http_respond_start_to_count :: "http_world \<Rightarrow> handler_result" where
  "do_http_respond_start_to_count w = do {
     w \<leftarrow> monitoring_add (conn_ptr w) w;
     Some (w\<lparr>is_writing := True, handler := http_respond_cleanupafterwrite\<rparr>, continue_processing)
   }"

definition http_mon_read_eol_inital :: "http_world \<Rightarrow> nat \<Rightarrow> int \<Rightarrow> handler_result" where
  "http_mon_read_eol_inital = read_eol (\<lambda>w. w\<lparr>output_buffer := Some (monitoring_rsp w),
     output_length := int (length (monitoring_rsp w)), handler := http_respond_start_to_count\<rparr>)"

definition do_http_handle_mon_eolwrite_initial :: "http_world \<Rightarrow> handler_result" where
  "do_http_handle_mon_eolwrite_initial = handle_eol http_mon_read_eol_inital"

definition http_read_requeststartmethod_mon :: "http_world \<Rightarrow> nat \<Rightarrow> int \<Rightarrow> handler_result" where
  "http_read_requeststartmethod_mon w p n =
     (if n > LONGEST_REQMETHOD
      then Some (mon_write_response_after_eol HTTPTEMPLATE_FULLLONGMETHOD (read_move (n + 1) w))
      else do {
        c \<leftarrow> rbuf_at (input w) p;
        if c = CHR '' '' then do {
          let w = w\<lparr>handler := http_mon_handle_url, conn_state := 0\<rparr>;
          m \<leftarrow> match_method [(''GET'', REQUEST_HTTPGET), (''HEAD'', REQUEST_HTTPHEAD)] w n;
          case m of
            Some m \<Rightarrow> Some (read_move (n + 1) (w\<lparr>conn_method := m\<rparr>), needs_more_read)
          | None \<Rightarrow> Some (mon_write_response_after_eol HTTPTEMPLATE_FULLUNKNOWNMETHOD (read_move (n + 1) w))
        } else Some (w, continue_processing)
      })"

definition do_http_mon_handle_method :: "http_world \<Rightarrow> handler_result" where
  "do_http_mon_handle_method w = do {
     rb \<leftarrow> skip_over_newlines (input w);
     let w = w\<lparr>input := rb, conn_method := 0\<rparr>;
     (w, _, ret) \<leftarrow> RBUF_ITERATE input http_read_requeststartmethod_mon w continue_processing;
     Some (w, ret)
   }"

text \<open>\<open>strcmp(key, "conn") == 0\<close>; \<open>key\<close> ends at its first NUL.\<close>

definition http_mon_read_requeststarturl :: "http_world \<Rightarrow> nat \<Rightarrow> int \<Rightarrow> handler_result" where
  "http_mon_read_requeststarturl w p n =
     (if n = 0 then Some (w, continue_processing)
      else do {
        c \<leftarrow> rbuf_at (input w) p;
        if c \<noteq> CHR '' '' then Some (w, continue_processing)
        else do {
          let w = read_move 1 w;
          key \<leftarrow> copy_key w (n - 1);
          let w = read_move (n + 1) w;
          if n = 1 then
            Some (http_headers_response_after_eol (if REQUEST_IS (conn_method w) REQUEST_HTTPHEAD
              then HTTPTEMPLATE_HEAD_ONLY else HTTPTEMPLATE_FULL200OK) w)
          else if n = 5 \<and> takeWhile (\<lambda>c. c \<noteq> CHR 0x00) key = ''conn'' then
            do_http_handle_mon_eolwrite_initial (w\<lparr>conn_state := 2, handler := http_handle_mon_eolwrite_initial\<rparr>)
          else Some (mon_write_response_after_eol HTTPTEMPLATE_FULL404_PATHNOTFOUND w)
        }
      })"

definition do_http_mon_handle_url :: "http_world \<Rightarrow> handler_result" where
  "do_http_mon_handle_url w = do {
     (w, _, ret) \<leftarrow> RBUF_ITERATE input http_mon_read_requeststarturl w continue_processing;
     Some (w, ret)
   }"

definition do_http_mon_handle_start :: "http_world \<Rightarrow> handler_result" where
  "do_http_mon_handle_start w = do {
     w \<leftarrow> mod_node (conn_ptr w) (\<lambda>m. m\<lparr>scheduled_usec := now_usec (db w), scheduled_sec := now_sec (db w) + 5\<rparr>) w;
     Some (w\<lparr>handler := http_mon_handle_method\<rparr>, needs_more_read)
   }"

end
