(* ===== verification/HttpServe.thy ===== *)
theory HttpServe
  imports HttpMon
begin

text \<open>
  The two entry points of the HTTP layer (src/core/http.cpp): \<open>http_read_handle\<close>, which reads from the
  socket and runs handlers as long as they make progress, and \<open>http_write_handle\<close>, which writes the
  output buffer and runs the next handler when all of it is written. A handler can end in
  \<open>http_register_read\<close>, which runs \<open>http_read_handle\<close> again; the number of such nested runs is the
  argument \<open>d\<close>. It is never more than one: a connection that waits for input has a reading handler,
  and those do not nest.
\<close>

section \<open>Handlers\<close>

definition run_handler :: "(http_world \<Rightarrow> handler_result) \<Rightarrow> http_world \<Rightarrow> handler_result" where
  "run_handler rd w = (case handler w of
     http_cache_handle_method \<Rightarrow> do_http_cache_handle_method w
   | http_cache_handle_url \<Rightarrow> do_http_cache_handle_url w
   | http_cache_handle_httpversion \<Rightarrow> do_http_cache_handle_httpversion w
   | http_cache_handle_headers \<Rightarrow> do_http_cache_handle_headers w
   | http_cache_handle_headers_extract \<Rightarrow> do_http_cache_handle_headers_extract w
   | http_cache_handle_request_body \<Rightarrow> do_http_cache_handle_request_body w
   | http_cache_handle_eolstats \<Rightarrow> do_http_cache_handle_eolstats w
   | http_handle_eolwritetoend \<Rightarrow> do_http_handle_eolwritetoend w
   | http_discard_input \<Rightarrow> do_http_discard_input w
   | http_mon_handle_start \<Rightarrow> do_http_mon_handle_start w
   | http_mon_handle_method \<Rightarrow> do_http_mon_handle_method w
   | http_mon_handle_url \<Rightarrow> do_http_mon_handle_url w
   | http_handle_mon_eolwrite_initial \<Rightarrow> do_http_handle_mon_eolwrite_initial w
   | http_respond_expires \<Rightarrow> do_http_respond_expires w
   | http_respond_contentlength \<Rightarrow> do_http_respond_contentlength w
   | http_respond_responseend \<Rightarrow> do_http_respond_responseend w
   | http_respond_contentbody \<Rightarrow> do_http_respond_contentbody monitoring_destroy rd w
   | http_respond_writeonly \<Rightarrow> do_http_respond_writeonly monitoring_destroy rd w
   | http_respond_cleanupafterwrite \<Rightarrow> do_http_respond_cleanupafterwrite w
   | http_respond_reset_connection \<Rightarrow> do_http_respond_reset_connection monitoring_destroy rd w
   | http_respond_stats \<Rightarrow> do_http_respond_stats w
   | http_respond_listingentries \<Rightarrow> do_http_respond_listingentries w
   | http_respond_listingtotal \<Rightarrow> do_http_respond_listingtotal w
   | http_respond_listing_separator \<Rightarrow> do_http_respond_listing_separator w
   | http_respond_listing \<Rightarrow> do_http_respond_listing w
   | http_respond_close_connection \<Rightarrow> Some (w, close_connection)
   | http_respond_start_to_count \<Rightarrow> do_http_respond_start_to_count w)"

section \<open>Reading\<close>

text \<open>
  The \<open>do ... while\<close> loop, with \<open>run\<close> (no value before the first round) and \<open>to_end\<close>. It need not end
  by its form.
\<close>

partial_function (option) read_loop ::
  "(http_world \<Rightarrow> handler_result) \<Rightarrow> state_action option \<Rightarrow> int \<Rightarrow> http_world \<Rightarrow> (http_world \<times> state_action option) option" where
  "read_loop step run to_end w =
     (if \<not> epollin w then Some (w, run)
      else Option.bind (step w) (\<lambda>(w, run).
        let to_end_old = to_end; to_end = rbuf_read_remaining (input w)
        in if run = needs_more_read \<and> to_end \<noteq> 0 \<and> to_end \<noteq> to_end_old
           then read_loop step (Some run) to_end w
           else Some (w, Some run)))"

text \<open>\<open>read\<close> of at most \<open>num\<close> bytes; what is not taken stays in the socket.\<close>

definition sock_read :: "int \<Rightarrow> http_world \<Rightarrow> read_result \<times> http_world" where
  "sock_read num w = (case rx w of
       [] \<Rightarrow> (Again, w)
     | Received bs # rs \<Rightarrow> (Received (take (nat num) bs),
         w\<lparr>rx := (if length bs \<le> nat num then rs else Received (drop (nat num) bs) # rs)\<rparr>)
     | r # rs \<Rightarrow> (r, w\<lparr>rx := rs\<rparr>))"

text \<open>The part of \<open>http_read_handle\<close> after the socket was read; \<open>num\<close> is its result.\<close>

definition process_input :: "(http_world \<Rightarrow> handler_result) \<Rightarrow> int \<Rightarrow> http_world \<Rightarrow> handler_result" where
  "process_input step num w = do {
     (w, run) \<leftarrow> read_loop step None (- 1) w;
     run \<leftarrow> run;
     if run \<noteq> registered_write \<and> run \<noteq> close_connection \<and> num = 0 \<and> rbuf_write_remaining (input w) = 0
     then Some (w, close_connection)
     else Some (w, run)
   }"

fun http_read_handle :: "nat \<Rightarrow> http_world \<Rightarrow> handler_result" where
  "http_read_handle 0 w = None"
| "http_read_handle (Suc d) w = (let
     w = w\<lparr>input := rbuf_rewind (input w)\<rparr>;
     num = rbuf_write_to_end (input w)
   in if num > 0
      then (case sock_read num w of
          (Received bs, w) \<Rightarrow>
            if bs = [] then Some (w, close_connection)
            else do {
              rb \<leftarrow> rbuf_receive (input w) bs;
              process_input (run_handler (http_read_handle d)) (int (length bs)) (w\<lparr>input := rb\<rparr>)
            }
        | (Again, w) \<Rightarrow> Some (w, needs_more_read)
        | (Read_error, w) \<Rightarrow> Some (w, close_connection))
      else process_input (run_handler (http_read_handle d)) num w)"

section \<open>Writing\<close>

text \<open>
  \<open>write\<close> of the output buffer. After a short write the length is reduced; the address is not moved.
\<close>

definition sock_write :: "http_world \<Rightarrow> (int \<times> http_world) option" where
  "sock_write w = do {
     buf \<leftarrow> output_buffer w;
     if output_length w < 0 \<or> int (length buf) < output_length w then None
     else do {
       let bytes = take (nat (output_length w)) buf;
       let (limit, w) = (case write_limits w of [] \<Rightarrow> (int (length bytes), w) | l # ls \<Rightarrow> (l, w\<lparr>write_limits := ls\<rparr>));
       if limit < 0 then Some (- 1, w)
       else do {
         let k = min (nat limit) (length bytes);
         Some (int k, w\<lparr>events := events w @ [Sock_write (client_sock w) (take k bytes)]\<rparr>)
       }
     }
   }"

definition written :: "int \<Rightarrow> http_world \<Rightarrow> http_world" where
  "written num w = (let w = w\<lparr>output_length := output_length w - num\<rparr> in
     if output_length w = 0 then w\<lparr>output_buffer := None, output_buffer_free := False\<rparr> else w)"

definition http_write_handle :: "nat \<Rightarrow> http_world \<Rightarrow> handler_result" where
  "http_write_handle d w = do {
     (num, w) \<leftarrow> (if output_buffer w \<noteq> None then do {
         (num, w) \<leftarrow> sock_write w;
         Some (num, if num < 0 then w else written num w)
       } else Some (0, w));
     if num < 0 then Some (w, close_connection)
     else if output_buffer w = None \<and> epollout w then run_handler (http_read_handle d) w
     else Some (w, continue_processing)
   }"

end
