(* ===== verification/Server.thy ===== *)
theory Server
  imports HttpServe
begin

text \<open>
  The connections of the server and the events that drive them (src/core/connection.cpp): accepted
  sockets through the queue between the threads, socket events one connection at a time, the
  monitoring tick. The state is the set of connections beside the shared part of the world; a handler
  runs on a connection that is loaded into the world and stored back.
\<close>

section \<open>State\<close>

text \<open>\<open>struct connections_queued\<close>, and the queue between the accept threads and the event loop.\<close>

record connections_queued =
  q_client_sock :: int
  q_client_type :: connection_ctype

record server =
  conns :: "nat \<Rightarrow> scache_connection option"
  conn_next :: nat
  cq :: "connections_queued list"
  world :: http_world

definition load_conn :: "scache_connection \<Rightarrow> http_world \<Rightarrow> http_world" where
  "load_conn c w = scache_connection.extend c (scache_connection.more w)"

definition with_conn :: "nat \<Rightarrow> (http_world \<Rightarrow> (http_world \<times> 'a) option) \<Rightarrow> server \<Rightarrow> (server \<times> 'a) option" where
  "with_conn p f s = do {
     c \<leftarrow> conns s p;
     (w, x) \<leftarrow> f (load_conn c (world s));
     Some (s\<lparr>conns := (conns s)(p \<mapsto> scache_connection.truncate w), world := w\<rparr>, x)
   }"

section \<open>Accepting\<close>

text \<open>One entry at the tail of the queue, one off its head (under the lock, hence one step each).\<close>

definition cq_push :: "int \<Rightarrow> connection_ctype \<Rightarrow> server \<Rightarrow> server" where
  "cq_push sock type s = s\<lparr>cq := cq s @ [\<lparr>q_client_sock = sock, q_client_type = type\<rparr>]\<rparr>"

definition cq_pop :: "server \<Rightarrow> connections_queued option \<times> server" where
  "cq_pop s = (case cq s of [] \<Rightarrow> (None, s) | q # qs \<Rightarrow> (Some q, s\<lparr>cq := qs\<rparr>))"

definition zero_buffer :: read_buffer where
  "zero_buffer = \<lparr>buffer = (\<lambda>_. CHR 0x00), read_position = 0, write_position = 0\<rparr>"

definition connection_add :: "int \<Rightarrow> connection_ctype \<Rightarrow> server \<Rightarrow> nat \<times> server" where
  "connection_add fd client_type s = (let p = conn_next s;
     c = \<lparr>conn_ptr = p, output_buffer = None, output_buffer_free = False, handler = http_cache_handle_method,
       output_length = 0, client_sock = fd, input = rbuf_init zero_buffer, conn_state = 0, conn_method = 0,
       is_writing = False, epollin = False, epollout = False, epollrdhup = False, ltype = client_type,
       target = \<lparr>tgt_entry = None, tgt_position = 0, tgt_end_position = 0,
         tgt_fd = (if client_type = cache_listener then - 1 else 0)\<rparr>\<rparr>
   in (p, s\<lparr>conns := (conns s)(p \<mapsto> c), conn_next := p + 1,
        world := (world s)\<lparr>mon_nodes := (mon_nodes (world s))(p \<mapsto>
          \<lparr>mon_prev = None, mon_next = None, scheduled_sec = 0, scheduled_usec = 0, mon_current = 0\<rparr>)\<rparr>\<rparr>))"

definition connection_remove :: "nat \<Rightarrow> server \<Rightarrow> server" where
  "connection_remove p s = s\<lparr>conns := (conns s)(p := None),
     world := (world s)\<lparr>mon_nodes := (mon_nodes (world s))(p := None)\<rparr>\<rparr>"

text \<open>
  The loop of the event loop that empties the queue, one connection per element; \<open>epoll_ok\<close> says for each
  whether \<open>epoll_ctl\<close> added it.
\<close>

fun accept_all :: "nat \<Rightarrow> bool list \<Rightarrow> server \<Rightarrow> server option" where
  "accept_all 0 oks s = Some s"
| "accept_all (Suc fuel) oks s = (case cq_pop s of
       (None, s) \<Rightarrow> Some s
     | (Some q, s) \<Rightarrow> (case connection_add (q_client_sock q) (q_client_type q) s of
         (p, s) \<Rightarrow>
           if oks \<noteq> [] \<and> \<not> hd oks then accept_all fuel (tl oks) s
           else do {
             (s, _) \<leftarrow> with_conn p (\<lambda>w. Some (http_connection_handler (w\<lparr>epollin := True\<rparr>), ())) s;
             accept_all fuel (tl oks) s
           }))"

definition handle_accept :: "bool list \<Rightarrow> server \<Rightarrow> server option" where
  "handle_accept oks s = accept_all (length (cq s) + 1) oks s"

section \<open>Events on a connection\<close>

record socket_event =
  ev_in :: bool
  ev_out :: bool
  ev_err_hup :: bool
  ev_rdhup :: bool

definition close_connection_now :: "nat \<Rightarrow> server \<Rightarrow> server option" where
  "close_connection_now p s = do {
     (s, _) \<leftarrow> with_conn p (\<lambda>w. do { w \<leftarrow> http_cleanup monitoring_destroy w; Some (w, ()) }) s;
     Some (connection_remove p s)
   }"

definition handle_socket_event :: "nat \<Rightarrow> nat \<Rightarrow> socket_event \<Rightarrow> server \<Rightarrow> server option" where
  "handle_socket_event d p ev s = do {
     let do_close = ev_err_hup ev;
     (s, r) \<leftarrow> (if ev_in ev then with_conn p (http_read_handle d) s else Some (s, continue_processing));
     let do_close = (do_close \<or> r = close_connection);
     (s, r) \<leftarrow> (if ev_out ev then with_conn p (http_write_handle d) s else Some (s, continue_processing));
     let do_close = (do_close \<or> r = close_connection);
     (s, do_close) \<leftarrow> (if \<not> do_close \<and> ev_rdhup ev
       then with_conn p (\<lambda>w. Some (w\<lparr>epollrdhup := True\<rparr>, epollin w)) s
       else Some (s, do_close));
     if do_close then close_connection_now p s else Some s
   }"

section \<open>The monitoring tick\<close>

definition after :: "int \<Rightarrow> int \<Rightarrow> int \<Rightarrow> int \<Rightarrow> bool" where
  "after sec usec sec' usec' \<longleftrightarrow> (if sec = sec' then usec > usec' else sec > sec')"

definition not_yet :: "http_world \<Rightarrow> mon_node \<Rightarrow> bool" where
  "not_yet w m \<longleftrightarrow> after (scheduled_sec m) (scheduled_usec m) (now_sec (db w)) (now_usec (db w))"

definition monitoing_needs_to_run :: "http_world \<Rightarrow> bool option" where
  "monitoing_needs_to_run w = (case mon_head w of
     None \<Rightarrow> Some False
   | Some h \<Rightarrow> do { m \<leftarrow> mon_nodes w h; Some (\<not> not_yet w m) })"

text \<open>The connection \<open>c\<close>, already taken off the head, goes to the tail of the list.\<close>

definition move_to_tail :: "nat \<Rightarrow> http_world \<Rightarrow> http_world option" where
  "move_to_tail c w = do {
     w \<leftarrow> (if mon_tail w \<noteq> Some c then do {
         t \<leftarrow> mon_tail w;
         w \<leftarrow> mod_node t (\<lambda>m. m\<lparr>mon_next := Some c\<rparr>) w;
         w \<leftarrow> mod_node c (\<lambda>m. m\<lparr>mon_prev := Some t\<rparr>) w;
         Some (w\<lparr>mon_tail := Some c\<rparr>)
       } else mod_node c (\<lambda>m. m\<lparr>mon_prev := None\<rparr>) (w\<lparr>mon_tail := Some c, mon_head := Some c\<rparr>));
     mod_node c (\<lambda>m. m\<lparr>mon_next := None\<rparr>) w
   }"

text \<open>The output for the connection the world is at, and its next turn.\<close>

definition send_number :: "http_world \<Rightarrow> http_world option" where
  "send_number w = do {
     m \<leftarrow> mon_nodes w (conn_ptr w);
     let w = w\<lparr>output_buffer := Some (monitoring_string (mon_current m)), output_length := monitoring_len (mon_current m)\<rparr>;
     w \<leftarrow> mod_node (conn_ptr w) (\<lambda>m. m\<lparr>mon_current := mon_current m + 1, scheduled_usec := now_usec (db w),
       scheduled_sec := now_sec (db w) + MONITORING_DEFAULT_INTERVAL\<rparr>) w;
     Some (snd (connection_register_write w))
   }"

text \<open>The head of the list, whose fields are \<open>m\<close>, is taken off.\<close>

definition unlink_head :: "mon_node \<Rightarrow> http_world \<Rightarrow> http_world option" where
  "unlink_head m w = (let w = w\<lparr>mon_head := mon_next m\<rparr> in
     case mon_next m of Some h \<Rightarrow> mod_node h (\<lambda>m. m\<lparr>mon_prev := None\<rparr>) w | None \<Rightarrow> Some w)"

definition monitoring_turn :: "nat \<Rightarrow> server \<Rightarrow> server option" where
  "monitoring_turn p s = do {
     c \<leftarrow> conns s p;
     m \<leftarrow> mon_nodes (world s) p;
     w \<leftarrow> unlink_head m (world s);
     let s = s\<lparr>world := w\<rparr>;
     if output_buffer c \<noteq> None then close_connection_now p s
     else do {
       (s, _) \<leftarrow> with_conn p (\<lambda>w. do { w \<leftarrow> move_to_tail p w; w \<leftarrow> send_number w; Some (w, ()) }) s;
       Some s
     }
   }"

partial_function (option) monitoring_due :: "server \<Rightarrow> server option" where
  "monitoring_due s = (case mon_head (world s) of
       None \<Rightarrow> Some s
     | Some p \<Rightarrow> Option.bind (mon_nodes (world s) p) (\<lambda>m.
         if not_yet (world s) m then Some s
         else Option.bind (monitoring_turn p s) monitoring_due))"

partial_function (option) monitoring_expire :: "server \<Rightarrow> server option" where
  "monitoring_expire s = (case mon_pending_tail (world s) of
       None \<Rightarrow> Some s
     | Some p \<Rightarrow> Option.bind (mon_nodes (world s) p) (\<lambda>m.
         if not_yet (world s) m then Some s
         else Option.bind (close_connection_now p s) monitoring_expire))"

definition monitoring_check :: "server \<Rightarrow> server option" where
  "monitoring_check s = do { s \<leftarrow> monitoring_due s; monitoring_expire s }"

section \<open>Runs\<close>

text \<open>
  What can happen: an accepted socket, the event loop taking it over, a socket event with what the kernel
  has for the socket, the tick, time. A run is a list of these.
\<close>

datatype server_event =
    Accepted int connection_ctype
  | Take_over "bool list"
  | Socket_event nat socket_event "read_result list"
  | Monitoring_tick
  | Time int int

fun server_step :: "server_event \<Rightarrow> server \<Rightarrow> server option" where
  "server_step (Accepted sock type) s = Some (cq_push sock type s)"
| "server_step (Take_over oks) s = handle_accept oks s"
| "server_step (Socket_event p ev r) s = handle_socket_event 2 p ev (s\<lparr>world := (world s)\<lparr>rx := r\<rparr>\<rparr>)"
| "server_step Monitoring_tick s = monitoring_check s"
| "server_step (Time sec usec) s =
     Some (s\<lparr>world := (world s)\<lparr>db := (db (world s))\<lparr>now_sec := sec, now_usec := usec\<rparr>\<rparr>\<rparr>)"

fun server_run :: "server_event list \<Rightarrow> server \<Rightarrow> server option" where
  "server_run [] s = Some s"
| "server_run (e # es) s = do { s \<leftarrow> server_step e s; server_run es s }"

end
