(* ===== verification/HttpCacheProps.thy ===== *)
theory HttpCacheProps
  imports HttpCache
begin

text \<open>
  What the parser of the cache protocol does with the pending bytes, as functions on lists, and the
  defects of its bookkeeping of the read position.
\<close>

section \<open>Scanning\<close>

lemma scan_list_skip:
  "(\<And>i. i < length ys \<Longrightarrow> f c (ys ! i) (n + int i) = Some (c, continue_processing)) \<Longrightarrow>
   scan_list f c n (ys @ zs) = scan_list f c (n + int (length ys)) zs"
proof (induction ys arbitrary: n)
  case (Cons y ys)
  have "f c y n = Some (c, continue_processing)" using Cons.prems [of 0] by simp
  moreover have "scan_list f c (n + 1) (ys @ zs) = scan_list f c (n + 1 + int (length ys)) zs"
  proof (rule Cons.IH)
    fix i assume "i < length ys"
    then show "f c (ys ! i) (n + 1 + int i) = Some (c, continue_processing)"
      using Cons.prems [of "Suc i"] by (simp add: algebra_simps)
  qed
  ultimately show ?case by (simp add: algebra_simps)
qed simp

text \<open>A handler that looks at its byte through \<open>rbuf_at\<close> sees the bytes of the list.\<close>

lemma rbuf_at_contents:
  "k < rb_len rb \<Longrightarrow> rbuf_at rb ((rb_off rb + k) mod BUFFER_SIZE) = Some (contents rb ! k)"
  by (simp add: rbuf_at_def nth_contents BUFFER_SIZE_def)

lemmas iterate_input = iterate_scan [where inp = "input :: http_world \<Rightarrow> read_buffer"]

lemma read_move_fields [simp]:
  "input (read_move k w) = RBUF_READMOVE (input w) k" "conn_state (read_move k w) = conn_state w"
  "conn_method (read_move k w) = conn_method w" "target (read_move k w) = target w"
  "handler (read_move k w) = handler w" "db (read_move k w) = db w" "output_buffer (read_move k w) = output_buffer w"
  "epollin (read_move k w) = epollin w" "epollout (read_move k w) = epollout w" "events (read_move k w) = events w"
  "ltype (read_move k w) = ltype w" "is_writing (read_move k w) = is_writing w" "output_length (read_move k w) = output_length w"
  by (simp_all add: read_move_def)

lemma input_is_ok:
  assumes "rb_scan (input w)" "CHR 0x00 \<notin> set word"
  shows "input_is w word = Some (take (length word) (contents (input w)) = word)"
  using cmpn_contents [OF assms] by (auto simp: input_is_def)

lemma copy_key_ok:
  "rb_scan (input w) \<Longrightarrow> n \<le> rb_len (input w) \<Longrightarrow> copy_key w (int n) = Some (take n (contents (input w)))"
  by (simp add: copy_key_def copyn_contents)

section \<open>Methods\<close>

text \<open>What the bytes of a request say about its method: the rest is what is left in the buffer.\<close>

datatype method_verdict = Incomplete | Method u16 string | Refused nat string

definition method_verdict_of :: "string \<Rightarrow> method_verdict" where
  "method_verdict_of xs = (let word = takeWhile (\<lambda>c. c \<noteq> CHR '' '') xs in
     if length word \<le> 6 then
       (if length word = length xs then Incomplete
        else case map_of request_methods word of
          Some m \<Rightarrow> Method m (drop (length word + 1) xs)
        | None \<Rightarrow> Refused HTTPTEMPLATE_FULLUNKNOWNMETHOD (drop (length word + 1) xs))
     else if length xs \<le> 7 then Incomplete
     else Refused HTTPTEMPLATE_FULLLONGMETHOD (drop 8 xs))"

lemma match_method_ok:
  assumes "rb_scan (input w)" "n \<le> rb_len (input w)"
  shows "(\<forall>(a, m)\<in>set ms. CHR 0x00 \<notin> set a) \<Longrightarrow>
    match_method ms w (int n) = Some (map_of ms (take n (contents (input w))))"
proof (induction ms)
  case (Cons am ms)
  obtain a m where am: "am = (a, m)" by (cases am)
  have len: "length (take n (contents (input w))) = n" using assms(2) by simp
  have "(n = length a \<and> take (length a) (contents (input w)) = a) = (take n (contents (input w)) = a)"
    using len by auto
  then show ?case using Cons am assms(1) by (auto simp: input_is_ok)
qed simp

lemma request_methods_no_nul: "\<forall>(a, m)\<in>set request_methods. CHR 0x00 \<notin> set a"
  by (simp add: request_methods_def)

definition method_byte :: "http_world \<Rightarrow> char \<Rightarrow> int \<Rightarrow> handler_result" where
  "method_byte w c n =
     (if n > LONGEST_REQMETHOD
      then Some (http_write_response_after_eol HTTPTEMPLATE_FULLLONGMETHOD (read_move (n + 1) w))
      else if c = CHR '' '' then do {
          let w = w\<lparr>handler := http_cache_handle_url, conn_state := 0\<rparr>;
          m \<leftarrow> match_method request_methods w n;
          case m of
            Some m \<Rightarrow> Some (read_move (n + 1) (w\<lparr>conn_method := m\<rparr>), needs_more_read)
          | None \<Rightarrow> Some (http_write_response_after_eol HTTPTEMPLATE_FULLUNKNOWNMETHOD (read_move (n + 1) w))
        } else Some (w, continue_processing))"

lemma method_iterate:
  assumes "rb_scan (input w)"
  shows "RBUF_ITERATE input http_read_requeststartmethod w continue_processing
    = scan_list method_byte w 0 (contents (input w))"
proof (rule iterate_input [OF assms])
  fix w' :: http_world and k assume "input w' = input w" "k < rb_len (input w)"
  then show "http_read_requeststartmethod w' ((rb_off (input w) + k) mod BUFFER_SIZE) (int k)
    = method_byte w' (contents (input w) ! k) (int k)"
    by (simp add: http_read_requeststartmethod_def method_byte_def rbuf_at_contents)
next
  fix w' w'' :: http_world and x k
  assume "input w' = input w" "method_byte w' x k = Some (w'', continue_processing)"
  then show "input w'' = input w"
    by (auto simp: method_byte_def http_write_response_after_eol_def set_template_def bind_Some_iff Let_def
        split: if_splits option.splits)
qed

lemma takeWhile_split:
  assumes "takeWhile P xs \<noteq> xs"
  obtains x zs where "xs = takeWhile P xs @ x # zs" "\<not> P x"
proof -
  have "xs = takeWhile P xs @ dropWhile P xs" by simp
  moreover have "dropWhile P xs \<noteq> []"
    using assms by (metis append_Nil2 takeWhile_dropWhile_id)
  ultimately show thesis using that by (metis hd_Cons_tl hd_dropWhile)
qed


definition method_outcome :: "method_verdict \<Rightarrow> http_world \<Rightarrow> http_world \<Rightarrow> bool" where
  "method_outcome v w w' \<longleftrightarrow> (case v of
     Incomplete \<Rightarrow> w' = w
   | Method m rest \<Rightarrow> contents (input w') = rest \<and> handler w' = http_cache_handle_url \<and> conn_state w' = 0 \<and> conn_method w' = m
   | Refused t rest \<Rightarrow> contents (input w') = rest \<and> handler w' = http_handle_eolwritetoend \<and> conn_state w' = 1
       \<and> output_buffer w' = Some (http_templates ! t) \<and> output_length w' = http_templates_length ! t)"

lemma method_scan_ok:
  assumes rb: "rb_scan (input w)" and xs: "contents (input w) = xs"
  shows "\<exists>w' n. scan_list method_byte w 0 xs = Some (w', n, needs_more_read) \<and> db w' = db w
    \<and> method_outcome (method_verdict_of xs) w w'"
proof -
  define word where "word = takeWhile (\<lambda>c. c \<noteq> CHR '' '') xs"
  have len: "rb_len (input w) = length xs" using xs by (metis length_contents)
  have go: "method_byte w x (int i) = Some (w, continue_processing)" if "i \<le> 6" "x \<noteq> CHR '' ''" for x i
    using that by (simp add: method_byte_def LONGEST_REQMETHOD_def)
  have word_ne: "word ! i \<noteq> CHR '' ''" if "i < length word" for i
    using that nth_mem [OF that] set_takeWhileD unfolding word_def by fastforce
  have word_nth: "xs ! i = word ! i" if "i < length word" for i
    using that takeWhile_nth unfolding word_def by metis
  have moved: "contents (RBUF_READMOVE (input w) (int k)) = drop k xs" if "k \<le> length xs" for k
    using contents_readmove [of "int k" "input w"] that len xs by simp
  consider (all) "word = xs" "length xs \<le> 7" | (space) "word \<noteq> xs" "length word \<le> 6"
    | (long) "6 < length word" "7 < length xs"
  proof -
    have "length word \<le> length xs" unfolding word_def by (rule length_takeWhile_le)
    moreover have "word \<noteq> xs \<Longrightarrow> length word < length xs"
      unfolding word_def using takeWhile_split [of "\<lambda>c. c \<noteq> CHR '' ''" xs]
      by (metis length_append less_add_same_cancel1 length_greater_0_conv list.distinct(1))
    ultimately show thesis using that by fastforce
  qed
  then show ?thesis
  proof cases
    case all
    have "scan_list method_byte w 0 (xs @ []) = scan_list method_byte w (0 + int (length xs)) []"
      by (rule scan_list_skip) (use go all word_ne in auto)
    then have "scan_list method_byte w 0 xs = Some (w, int (length xs), needs_more_read)" by simp
    moreover have "method_verdict_of xs = Incomplete"
      using all by (auto simp: method_verdict_of_def word_def [symmetric] Let_def)
    ultimately show ?thesis by (simp add: method_outcome_def)
  next
    case space
    then obtain x zs where x: "xs = word @ x # zs" "x = CHR '' ''"
      using takeWhile_split [of "\<lambda>c. c \<noteq> CHR '' ''" xs] unfolding word_def by blast
    have lx: "length word \<noteq> length xs" by (simp add: x(1))
    have "scan_list method_byte w 0 xs = scan_list method_byte w (0 + int (length word)) (x # zs)"
      by (subst x(1), rule scan_list_skip) (use go space word_ne in auto)
    moreover have "match_method request_methods (w\<lparr>handler := http_cache_handle_url, conn_state := 0\<rparr>) (int (length word))
        = Some (map_of request_methods word)"
      using match_method_ok [OF _ _ request_methods_no_nul, of "w\<lparr>handler := http_cache_handle_url, conn_state := 0\<rparr>" "length word"]
        rb len xs x(1) by simp
    moreover have v: "method_verdict_of xs = (case map_of request_methods word of
          Some m \<Rightarrow> Method m (drop (length word + 1) xs)
        | None \<Rightarrow> Refused HTTPTEMPLATE_FULLUNKNOWNMETHOD (drop (length word + 1) xs))"
      using space lx by (simp add: method_verdict_of_def word_def [symmetric] Let_def)
    moreover have "contents (RBUF_READMOVE (input w) (int (length word) + 1)) = drop (length word + 1) xs"
      using moved [of "length word + 1"] x(1) by (simp add: algebra_simps)
    ultimately show ?thesis using x(2) space(2)
      by (auto simp: method_byte_def LONGEST_REQMETHOD_def method_outcome_def
          http_write_response_after_eol_def set_template_def split: option.splits)
  next
    case long
    have split: "xs = take 7 xs @ xs ! 7 # drop 8 xs" using id_take_nth_drop [OF long(2)] by simp
    have "scan_list method_byte w 0 xs = scan_list method_byte w (0 + int (length (take 7 xs))) (xs ! 7 # drop 8 xs)"
      by (subst split, rule scan_list_skip) (use go long word_ne word_nth in auto)
    moreover have "method_byte w (xs ! 7) 7 = Some (http_write_response_after_eol HTTPTEMPLATE_FULLLONGMETHOD (read_move 8 w))"
      by (simp add: method_byte_def LONGEST_REQMETHOD_def)
    ultimately have "scan_list method_byte w 0 xs
        = Some (fst (http_write_response_after_eol HTTPTEMPLATE_FULLLONGMETHOD (read_move 8 w)), 8, needs_more_read)"
      using long(2) by (simp add: http_write_response_after_eol_def)
    moreover have "method_verdict_of xs = Refused HTTPTEMPLATE_FULLLONGMETHOD (drop 8 xs)"
      using long by (auto simp: method_verdict_of_def word_def [symmetric] Let_def)
    ultimately show ?thesis using moved [of 8] long(2)
      by (auto simp: method_byte_def LONGEST_REQMETHOD_def method_outcome_def
          http_write_response_after_eol_def set_template_def)
  qed
qed

section \<open>Line ends\<close>

text \<open>
  The number of line ends in a row after some bytes, not counting carriage returns, and the place at
  which it first is \<open>tgt\<close>.
\<close>

definition eol_next :: "nat \<Rightarrow> char \<Rightarrow> nat" where
  "eol_next cur c = (if c = CHR 0x0A then cur + 1 else if c = CHR 0x0D then cur else 0)"

fun eol_end :: "nat \<Rightarrow> nat \<Rightarrow> string \<Rightarrow> nat option" where
  "eol_end tgt cur [] = None"
| "eol_end tgt cur (c # cs) =
     (if eol_next cur c = tgt then Some 0 else map_option Suc (eol_end tgt (eol_next cur c) cs))"

definition eol_count :: "nat \<Rightarrow> string \<Rightarrow> nat" where
  "eol_count cur cs = foldl eol_next cur cs"

definition eol_state :: "nat \<Rightarrow> nat \<Rightarrow> u32" where
  "eol_state tgt cur = ucast (of_nat tgt :: u16) OR push_bit 16 (ucast (of_nat cur :: u16))"

lemma eol_target_state [simp]: "eol_target (eol_state tgt cur) = of_nat tgt"
  unfolding eol_target_def eol_state_def by (rule bit_word_eqI) (auto simp: bit_simps)

lemma eol_current_state [simp]: "eol_current (eol_state tgt cur) = of_nat cur"
  unfolding eol_current_def eol_state_def by (rule bit_word_eqI) (auto simp: bit_simps dest: bit_imp_le_length)

lemma of_nat_u16_eq: "a < 65536 \<Longrightarrow> b < 65536 \<Longrightarrow> (of_nat a :: u16) = of_nat b \<longleftrightarrow> a = b"
  by (simp add: word_unat_eq_iff unat_of_nat take_bit_nat_eq_self)

lemma eol_step_state:
  assumes "cur < 65535"
  shows "eol_step c (eol_state tgt cur) = eol_state tgt (eol_next cur c)"
proof -
  have "(of_nat cur :: u16) = 0 \<longleftrightarrow> cur = 0" using of_nat_u16_eq [of cur 0] assms by simp
  moreover have "ucast (of_nat tgt :: u16) OR push_bit 16 (ucast (of_nat cur + 1 :: u16)) = eol_state tgt (cur + 1)"
    by (simp add: eol_state_def add.commute)
  moreover have "ucast (of_nat tgt :: u16) = eol_state tgt 0" by (simp add: eol_state_def)
  ultimately show ?thesis by (simp add: eol_step_def eol_next_def Let_def)
qed

lemma eol_state_init: "eol_state 1 0 = 1" "eol_state 2 0 = 2"
  by (simp_all add: eol_state_def)

lemma eol_end_count: "cur < tgt \<Longrightarrow> eol_end tgt cur cs = None \<Longrightarrow> eol_count cur cs < tgt"
proof (induction cs arbitrary: cur)
  case (Cons c cs)
  have "eol_next cur c < tgt" using Cons.prems by (auto simp: eol_next_def split: if_splits)
  with Cons show ?case by (simp add: eol_count_def split: if_splits)
qed (simp add: eol_count_def)

definition eol_byte :: "(http_world \<Rightarrow> http_world) \<Rightarrow> http_world \<Rightarrow> char \<Rightarrow> int \<Rightarrow> handler_result" where
  "eol_byte found w c n = (let t = eol_step c (conn_state w); w = w\<lparr>conn_state := t\<rparr> in
     if eol_target t = eol_current t
     then (case connection_register_write (found (w\<lparr>conn_state := 0\<rparr>)) of (res, w) \<Rightarrow>
       if \<not> res then Some (w, close_connection)
       else Some (if n \<noteq> 0 then read_move n w else w, registered_write))
     else Some (w, continue_processing))"

lemma eol_iterate:
  assumes "rb_scan (input w)"
  shows "RBUF_ITERATE input (read_eol found) w continue_processing
    = scan_list (eol_byte found) w 0 (contents (input w))"
proof (rule iterate_input [OF assms])
  fix w' :: http_world and k assume "input w' = input w" "k < rb_len (input w)"
  then show "read_eol found w' ((rb_off (input w) + k) mod BUFFER_SIZE) (int k)
    = eol_byte found w' (contents (input w) ! k) (int k)"
    by (simp add: read_eol_def eol_byte_def rbuf_at_contents)
next
  fix w' w'' :: http_world and x k
  assume "input w' = input w" "eol_byte found w' x k = Some (w'', continue_processing)"
  then show "input w'' = input w"
    by (auto simp: eol_byte_def Let_def split: if_splits prod.splits)
qed

text \<open>The world after \<open>tgt\<close> line ends were found at number \<open>n\<close>.\<close>

definition eol_found :: "(http_world \<Rightarrow> http_world) \<Rightarrow> http_world \<Rightarrow> int \<Rightarrow> http_world \<times> state_action" where
  "eol_found found w n = (case connection_register_write (found (w\<lparr>conn_state := 0\<rparr>)) of (res, w) \<Rightarrow>
     if res then (if n \<noteq> 0 then read_move n w else w, registered_write) else (w, close_connection))"

lemma eol_found_state [simp]: "eol_found found (w\<lparr>conn_state := t\<rparr>) n = eol_found found w n"
  by (simp add: eol_found_def)

lemma eol_scan:
  assumes "tgt < 65536" "cur < tgt" "conn_state w = eol_state tgt cur"
  shows "scan_list (eol_byte found) w n cs = (case eol_end tgt cur cs of
      None \<Rightarrow> Some (w\<lparr>conn_state := eol_state tgt (eol_count cur cs)\<rparr>, n + int (length cs), needs_more_read)
    | Some k \<Rightarrow> (case eol_found found w (n + int k) of (w', ret) \<Rightarrow> Some (w', n + int k + 1, ret)))"
  using assms
proof (induction cs arbitrary: w cur n)
  case Nil
  then show ?case by (simp add: eol_count_def)
next
  case (Cons c cs)
  let ?cur = "eol_next cur c"
  have step: "eol_step c (conn_state w) = eol_state tgt ?cur"
    using Cons.prems by (simp add: eol_step_state)
  have le: "?cur \<le> tgt" using Cons.prems by (simp add: eol_next_def)
  have hit: "(of_nat tgt :: u16) = of_nat ?cur \<longleftrightarrow> ?cur = tgt"
    using of_nat_u16_eq [of tgt ?cur] Cons.prems(1) le by auto
  show ?case
  proof (cases "?cur = tgt")
    case True
    then have t: "eol_target (eol_state tgt ?cur) = eol_current (eol_state tgt ?cur)" by simp
    show ?thesis using True
      by (auto simp: eol_byte_def step t eol_found_def Let_def split: prod.splits)
  next
    case False
    then have t: "(of_nat tgt :: u16) \<noteq> of_nat ?cur" using hit by simp
    have "scan_list (eol_byte found) w n (c # cs)
      = scan_list (eol_byte found) (w\<lparr>conn_state := eol_state tgt ?cur\<rparr>) (n + 1) cs"
      by (simp add: eol_byte_def step t Let_def)
    also have "\<dots> = (case eol_end tgt ?cur cs of
        None \<Rightarrow> Some (w\<lparr>conn_state := eol_state tgt (eol_count ?cur cs)\<rparr>, n + 1 + int (length cs), needs_more_read)
      | Some k \<Rightarrow> (case eol_found found (w\<lparr>conn_state := eol_state tgt ?cur\<rparr>) (n + 1 + int k) of
          (w', ret) \<Rightarrow> Some (w', n + 1 + int k + 1, ret)))"
      using Cons.IH [of ?cur "w\<lparr>conn_state := eol_state tgt ?cur\<rparr>" "n + 1"] Cons.prems(1) False le
      by (cases "eol_end tgt ?cur cs") simp_all
    finally show ?thesis using False
      by (cases "eol_end tgt ?cur cs") (simp_all add: eol_count_def add.assoc)
  qed
qed

section \<open>Moves of the read position\<close>

text \<open>What the handlers do to the database leaves the buffer alone.\<close>

lemma on_db_input: "on_db f w = Some (x, w') \<Longrightarrow> input w' = input w \<and> events w' = events w"
  by (auto simp: on_db_def bind_Some_iff)

lemma run_db_input: "run_db f w = Some w' \<Longrightarrow> input w' = input w \<and> events w' = events w"
  by (auto simp: run_db_def bind_Some_iff)

lemma register_input [simp]:
  "input (snd (connection_register_write w)) = input w" "input (snd (connection_register_read w)) = input w"
  by (auto simp: connection_register_write_def connection_register_read_def connection_event_update_def split: list.splits)

lemma set_template_input [simp]: "input (set_template t w) = input w"
  by (simp add: set_template_def)

lemma register_write_input: "connection_register_write w = (res, w') \<Longrightarrow> input w' = input w"
  using register_input(1) [of w] by simp

lemma response_input:
  "http_write_response t w = (w', ret) \<Longrightarrow> input w' = input w"
  "http_write_response_after_eol t w = (w', ret) \<Longrightarrow> input w' = input w"
  "http_headers_response_after_eol t w = (w', ret) \<Longrightarrow> input w' = input w"
  "http_stats_after_eol w = (w', ret) \<Longrightarrow> input w' = input w"
  by (auto simp: http_write_response_def http_write_response_after_eol_def http_headers_response_after_eol_def
      http_stats_after_eol_def dest!: register_write_input split: prod.splits)

lemma move_again: "RBUF_READMOVE (RBUF_READMOVE rb a) b = RBUF_READMOVE rb (a + b)"
  by (simp add: RBUF_READMOVE_def add.assoc)

lemma url_table_moves:
  assumes "url_table w key n = Some (w', ret)"
  shows "input w' = RBUF_READMOVE (input w) (n + 1)"
  using assms
  by (auto simp: url_table_def bind_Some_iff http_stats_after_eol_def Let_def dest!: on_db_input run_db_input response_input split: if_splits)

text \<open>Moving past the end of what is pending wraps the length around.\<close>

lemma move_past_end: "rb_len rb = n \<Longrightarrow> rb_len (RBUF_READMOVE rb (int n + 1)) = 65535"
proof -
  assume n: "rb_len rb = n"
  have "RBUF_READLEN rb = of_nat n" using n by (auto simp: rb_len_def)
  then have "RBUF_READLEN (RBUF_READMOVE rb (int n + 1)) = - 1"
    by (simp add: RBUF_READLEN_def RBUF_READMOVE_def algebra_simps)
  then show ?thesis by (simp add: rb_len_def unsigned_minus_1_eq_mask mask_eq_exp_minus_1)
qed

definition url1_byte :: "http_world \<Rightarrow> char \<Rightarrow> int \<Rightarrow> handler_result" where
  "url1_byte w c n =
     (if n = 0 \<or> c \<noteq> CHR ''/'' \<and> c \<noteq> CHR '' '' then Some (w, continue_processing)
      else do {
          let w = read_move 1 w;
          key \<leftarrow> copy_key w (n - 1);
          let w = w\<lparr>conn_method := conn_method w OR REQUEST_CACHE_LEVELTABLE\<rparr>;
          if c = CHR ''/'' then url_table_of_key w key n else url_table w key n
        })"

lemma url1_ret: "url_table w key n = Some (w', ret) \<Longrightarrow> ret = needs_more_read"
  by (auto simp: url_table_def bind_Some_iff http_stats_after_eol_def http_write_response_after_eol_def Let_def split: if_splits)

lemma url1_key_ret: "url_table_of_key w key n = Some (w', ret) \<Longrightarrow> ret = needs_more_read"
  by (auto simp: url_table_of_key_def bind_Some_iff http_headers_response_after_eol_def Let_def split: if_splits)

lemma url1_iterate:
  assumes "rb_scan (input w)"
  shows "RBUF_ITERATE input http_read_requeststarturl1 w continue_processing
    = scan_list url1_byte w 0 (contents (input w))"
proof (rule iterate_input [OF assms])
  fix w' :: http_world and k assume "input w' = input w" "k < rb_len (input w)"
  then show "http_read_requeststarturl1 w' ((rb_off (input w) + k) mod BUFFER_SIZE) (int k)
    = url1_byte w' (contents (input w) ! k) (int k)"
    by (auto simp: http_read_requeststarturl1_def url1_byte_def rbuf_at_contents)
next
  fix w' w'' :: http_world and x k
  assume "input w' = input w" "url1_byte w' x k = Some (w'', continue_processing)"
  then show "input w'' = input w"
    by (auto simp: url1_byte_def Let_def bind_Some_iff dest: url1_ret url1_key_ret split: if_splits)
qed

text \<open>A URL without a second slash, with nothing behind its space yet.\<close>

lemma url_space_moves:
  assumes rb: "rb_scan (input w)" and st: "conn_state w = 0"
    and cs: "contents (input w) = CHR ''/'' # name @ '' ''"
    and name: "CHR ''/'' \<notin> set name" "CHR '' '' \<notin> set name"
    and run: "do_http_cache_handle_url w = Some (w', ret)"
  shows "input w' = RBUF_READMOVE (input w) (int (rb_len (input w)) + 1)"
proof -
  let ?xs = "CHR ''/'' # name"
  have len: "rb_len (input w) = length name + 2" using cs by (metis length_contents length_append_singleton length_Cons append_Cons add_2_eq_Suc' length_append list.size(3) add_0_right add_Suc_right One_nat_def)
  have "scan_list url1_byte w 0 (?xs @ '' '') = scan_list url1_byte w (0 + int (length ?xs)) '' ''"
  proof (rule scan_list_skip)
    fix i assume i: "i < length ?xs"
    then have "i = 0 \<or> ?xs ! i \<in> set name" by (cases i) auto
    then show "url1_byte w (?xs ! i) (0 + int i) = Some (w, continue_processing)"
      using name by (auto simp: url1_byte_def)
  qed
  then have "scan_list url1_byte w 0 (contents (input w)) = scan_list url1_byte w (int (length name) + 1) '' ''"
    using cs by (simp add: add.commute)
  then obtain key where "url_table ((read_move 1 w)\<lparr>conn_method := conn_method w OR REQUEST_CACHE_LEVELTABLE\<rparr>) key (int (length name) + 1) = Some (w', ret)"
    using run url1_iterate [OF rb] st
    by (auto simp: do_http_cache_handle_url_def url1_byte_def bind_Some_iff Let_def dest: url1_ret split: if_splits option.splits prod.splits)
  from url_table_moves [OF this] show ?thesis by (simp add: move_again len algebra_simps)
qed

text \<open>A header value with its carriage return, and nothing behind it yet.\<close>

lemma header_value_input:
  assumes "header_value len w = Some (Inr w')"
  shows "input w' = input w"
  using assms
  by (auto simp: header_value_def value_content_length_def value_xttl_def value_listing_def value_xdelete_def
      Let_def elim!: bind_SomeE dest!: on_db_input run_db_input split: if_split_asm option.split_asm prod.split_asm)

definition value_byte :: "http_world \<Rightarrow> char \<Rightarrow> int \<Rightarrow> handler_result" where
  "value_byte w c n =
     (if c = CHR 0x0A \<or> c = CHR 0x0D then do {
       let temporary = (if c = CHR 0x0D then 2 else 1);
       r \<leftarrow> header_value n w;
       case r of
         Inl _ \<Rightarrow> Some (http_write_response HTTPTEMPLATE_FULLINVALIDMETHOD (read_move (n + temporary) w))
       | Inr w \<Rightarrow> Some (read_move (n + temporary) (w\<lparr>conn_state := 1, handler := http_cache_handle_headers\<rparr>), needs_more_read)
     }
     else Some (w, continue_processing))"

lemma seg1_position: "k < seg1 rb \<Longrightarrow> (rb_off rb + k) mod BUFFER_SIZE = rb_off rb + k"
  using seg1_le(2) [of rb] by simp

lemma value_ret: "http_write_response t w = (w', ret) \<Longrightarrow> ret \<noteq> continue_processing"
  by (auto simp: http_write_response_def split: prod.splits if_splits)

lemma value_iterate:
  assumes rb: "rb_scan (input w)" and flat: "seg1 (input w) = rb_len (input w)"
    and nosp: "CHR '' '' \<notin> set (contents (input w))"
  shows "RBUF_ITERATE input http_read_header_extraction w continue_processing
    = scan_list value_byte w 0 (contents (input w))"
proof (rule iterate_input [OF rb])
  fix w' :: http_world and k assume w': "input w' = input w" and k: "k < rb_len (input w)"
  have "contents (input w) ! k \<noteq> CHR '' ''" using nosp k by (metis length_contents nth_mem)
  moreover have "value_length w' ((rb_off (input w) + k) mod BUFFER_SIZE) = int k"
    using k flat by (simp add: value_length_def seg1_position w' rb_off_def [symmetric])
  ultimately show "http_read_header_extraction w' ((rb_off (input w) + k) mod BUFFER_SIZE) (int k)
    = value_byte w' (contents (input w) ! k) (int k)"
    using k by (simp add: http_read_header_extraction_def value_byte_def rbuf_at_contents w' Let_def)
next
  fix w' w'' :: http_world and x k
  assume "input w' = input w" "value_byte w' x k = Some (w'', continue_processing)"
  then show "input w'' = input w"
    by (auto simp: value_byte_def Let_def elim!: bind_SomeE dest: value_ret split: if_split_asm sum.split_asm)
qed

lemma value_cr_moves:
  assumes rb: "rb_scan (input w)" and flat: "seg1 (input w) = rb_len (input w)"
    and cs: "contents (input w) = v @ [CHR 0x0D]" and v: "\<forall>c\<in>set v. c \<noteq> CHR '' '' \<and> c \<noteq> CHR 0x0A \<and> c \<noteq> CHR 0x0D"
    and run: "do_http_cache_handle_headers_extract w = Some (w', ret)"
  shows "input w' = RBUF_READMOVE (input w) (int (rb_len (input w)) + 1)"
proof -
  have len: "rb_len (input w) = length v + 1" using cs by (metis length_contents length_append_singleton Suc_eq_plus1)
  have "CHR '' '' \<notin> set (contents (input w))" using cs v by auto
  note it = value_iterate [OF rb flat this]
  have "scan_list value_byte w 0 (v @ [CHR 0x0D]) = scan_list value_byte w (0 + int (length v)) [CHR 0x0D]"
    by (rule scan_list_skip) (use v in \<open>auto simp: value_byte_def\<close>)
  with it cs have "RBUF_ITERATE input http_read_header_extraction w continue_processing
      = scan_list value_byte w (int (length v)) [CHR 0x0D]" by simp
  then obtain n where "scan_list value_byte w (int (length v)) [CHR 0x0D] = Some (w', n, ret)"
    using run by (auto simp: do_http_cache_handle_headers_extract_def bind_Some_iff)
  then obtain ret' where "value_byte w CHR 0x0D (int (length v)) = Some (w', ret')"
    by (auto split: option.splits prod.splits if_splits)
  then have "input w' = RBUF_READMOVE (input w) (int (length v) + 2)"
    by (auto simp: value_byte_def elim!: bind_SomeE dest!: response_input header_value_input split: sum.split_asm)
  then show ?thesis by (simp add: len add.commute)
qed

section \<open>Bodies\<close>

definition body_count :: "http_world \<Rightarrow> nat" where
  "body_count w = min (nat (tgt_end_position (target w) - tgt_position (target w))) (seg1 (input w))"

lemma to_int_small: "0 \<le> x \<Longrightarrow> x < 2 ^ 31 \<Longrightarrow> to_int x = x"
  by (simp add: to_int_def sint_sbintrunc' signed_take_bit_int_eq_self)

lemma body_amount:
  assumes "rb_scan (input w)" "tgt_position (target w) \<le> tgt_end_position (target w)"
    "tgt_end_position (target w) - tgt_position (target w) < 2 ^ 31"
  shows "(let max_write = rbuf_read_to_end (input w);
      to_write = to_int (tgt_end_position (target w) - tgt_position (target w))
    in if to_write > max_write then max_write else to_write) = int (body_count w)"
  using assms by (auto simp: Let_def to_int_small to_end_seg1 body_count_def)

definition taken :: "http_world \<Rightarrow> nat" where
  "taken w = (case write_limits w of [] \<Rightarrow> body_count w | l # ls \<Rightarrow> min (nat l) (body_count w))"

lemma body_step:
  assumes rb: "rb_scan (input w)" "0 < rb_len (input w)" and wr: "is_writing w" "0 \<le> tgt_fd (target w)"
    and pos: "0 \<le> tgt_position (target w)" "tgt_position (target w) < tgt_end_position (target w)"
      "tgt_end_position (target w) - tgt_position (target w) < 2 ^ 31"
    and ok: "\<forall>l ls. write_limits w = l # ls \<longrightarrow> 0 \<le> l"
  shows "\<exists>w1. do_http_cache_handle_request_body w = body_done w1
    \<and> events w1 = events w @ [File_write (tgt_fd (target w)) (tgt_position (target w)) (take (taken w) (contents (input w)))]
    \<and> contents (input w1) = drop (taken w) (contents (input w))
    \<and> target w1 = (target w)\<lparr>tgt_position := tgt_position (target w) + int (taken w)\<rparr>
    \<and> db w1 = db w \<and> is_writing w1"
proof -
  let ?k = "body_count w" and ?bytes = "take (body_count w) (contents (input w))"
  have "0 < seg1 (input w)" using rb(2) rb_off_less [of "input w"] by (simp add: seg1_def)
  then have k0: "0 < ?k" using pos by (simp add: body_count_def)
  have ks: "?k \<le> seg1 (input w)" by (simp add: body_count_def)
  have kl: "?k \<le> rb_len (input w)" using ks seg1_le(1) [of "input w"] by simp
  have mem: "rbuf_mem (input w) (rbuf_index (read_position (input w))) (int ?k) = Some ?bytes"
    using mem_first [OF ks] by (simp add: rb_off_def)
  note amount = body_amount [OF rb(1) less_imp_le [OF pos(2)] pos(3), unfolded Let_def]
  let ?w = "w\<lparr>write_limits := tl (write_limits w),
    events := events w @ [File_write (tgt_fd (target w)) (tgt_position (target w)) (take (taken w) (contents (input w)))]\<rparr>"
  have tk: "taken w \<le> ?k" by (simp add: taken_def split: list.splits)
  have fw: "file_write (tgt_fd (target w)) (tgt_position (target w)) ?bytes w = (int (taken w), ?w)"
  proof (cases "write_limits w")
    case Nil
    then show ?thesis using kl by (simp add: file_write_def taken_def Let_def)
  next
    case (Cons l ls)
    then have "0 \<le> l" using ok by simp
    moreover have "min (nat l) (length ?bytes) = taken w" using Cons kl by (simp add: taken_def)
    moreover have "take (taken w) ?bytes = take (taken w) (contents (input w))" using tk by (simp add: min_def)
    ultimately show ?thesis using Cons by (simp add: file_write_def Let_def)
  qed
  have c: "contents (RBUF_READMOVE (input w) (int (taken w))) = drop (taken w) (contents (input w))"
    using contents_readmove [of "int (taken w)" "input w"] tk kl by simp
  let ?w2 = "(read_move (int (taken w)) ?w)
     \<lparr>target := (target w)\<lparr>tgt_position := tgt_position (target w) + int (taken w)\<rparr>\<rparr>"
  have "do_http_cache_handle_request_body w = body_done ?w2"
    using k0 wr pos(1) mem fw amount
    by (simp add: do_http_cache_handle_request_body_def body_write_def Let_def)
  then show ?thesis using c wr(1) by (intro exI [of _ ?w2]) (simp add: read_move_def)
qed

lemma body_failed:
  assumes rb: "rb_scan (input w)" "0 < rb_len (input w)" and wr: "is_writing w" "0 \<le> tgt_fd (target w)"
    and pos: "0 \<le> tgt_position (target w)" "tgt_position (target w) < tgt_end_position (target w)"
      "tgt_end_position (target w) - tgt_position (target w) < 2 ^ 31"
    and fail: "write_limits w = l # ls" "l < 0"
  shows "\<exists>w'. do_http_cache_handle_request_body w = Some (w', continue_processing)
    \<and> read_position (input w') = read_position (input w) - 1
    \<and> tgt_position (target w') = tgt_position (target w) - 1 \<and> events w' = events w"
proof -
  let ?k = "body_count w"
  have "0 < seg1 (input w)" using rb(2) rb_off_less [of "input w"] by (simp add: seg1_def)
  then have k0: "0 < ?k" using pos by (simp add: body_count_def)
  have mem: "rbuf_mem (input w) (rbuf_index (read_position (input w))) (int ?k) = Some (take ?k (contents (input w)))"
    using mem_first [of ?k "input w"] by (simp add: rb_off_def body_count_def)
  note amount = body_amount [OF rb(1) less_imp_le [OF pos(2)] pos(3), unfolded Let_def]
  have "do_http_cache_handle_request_body w = Some ((read_move (- 1) (w\<lparr>write_limits := ls\<rparr>))
     \<lparr>target := (target w)\<lparr>tgt_position := tgt_position (target w) - 1\<rparr>\<rparr>, continue_processing)"
    using k0 wr pos mem fail amount
    by (simp add: do_http_cache_handle_request_body_def body_write_def file_write_def body_done_def Let_def)
  then show ?thesis by (simp add: read_move_def RBUF_READMOVE_def)
qed

section \<open>Routing\<close>

lemma write_response_answers:
  "http_write_response t w = (w', ret) \<Longrightarrow> ret \<noteq> needs_more_read \<and> ret \<noteq> continue_processing
   \<and> output_buffer w' = Some (http_templates ! t) \<and> epollout w' \<and> \<not> epollin w' \<and> handler w' = http_respond_writeonly"
  by (auto simp: http_write_response_def connection_register_write_def connection_event_update_def set_template_def
      split: list.splits if_splits)

lemma register_write_answers:
  "connection_register_write w = (res, w') \<Longrightarrow> epollout w' \<and> \<not> epollin w' \<and> output_buffer w' = output_buffer w
   \<and> handler w' = handler w"
  by (auto simp: connection_register_write_def connection_event_update_def split: list.splits)

definition answered :: "http_world \<Rightarrow> state_action \<Rightarrow> bool" where
  "answered w ret \<longleftrightarrow> ret \<in> {registered_write, close_connection} \<and> epollout w \<and> \<not> epollin w
     \<and> (\<exists>t < length http_templates. output_buffer w = Some (http_templates ! t))"

lemma length_templates: "length http_templates = 18"
  by (simp add: http_templates_def)

lemma response_answered: "http_write_response t w = (w', ret) \<Longrightarrow> t < 18 \<Longrightarrow> answered w' ret"
  using write_response_answers [of t w w' ret] by (cases ret) (auto simp: answered_def length_templates)

lemma template_answered:
  "connection_register_write w = (res, w') \<Longrightarrow> output_buffer w = Some (http_templates ! t) \<Longrightarrow> t < 18 \<Longrightarrow>
   answered w' (if res then registered_write else close_connection)"
  using register_write_answers [of w res w'] by (auto simp: answered_def length_templates)

lemmas template_numbers = HTTPTEMPLATE_HEADERS200_def HTTPTEMPLATE_FULL404_def HTTPTEMPLATE_FULL200OK_def
  HTTPTEMPLATE_FULLINVALIDCONTENTLENGTH_def HTTPTEMPLATE_FULLHTTP200DELETED_def HTTPTEMPLATE_HEADERS200_CONCLOSE_def
  HTTPTEMPLATE_BULK_OK_def HTTPTEMPLATE_FULLUNKNOWNREQUEST_def

lemma route_key_answers:
  assumes "route_key w = Some (Some (w', ret))"
  shows "answered w' ret \<or> (REQUEST_IS (conn_method w) REQUEST_HTTPPUT \<and> ret = needs_more_read
    \<and> w' = w\<lparr>handler := http_cache_handle_request_body\<rparr>)"
  using assms
  by (auto simp: route_key_def template_numbers set_template_def elim!: bind_SomeE dest!: response_answered
      dest: template_answered [where t = 0] split: if_split_asm option.split_asm prod.split_asm)

lemma route_table_answers:
  assumes "route_table w = Some (w', ret)"
  shows "answered w' ret"
  using assms
  by (auto simp: route_table_def template_numbers set_template_def elim!: bind_SomeE dest!: response_answered
      dest: template_answered [where t = 7] split: if_split_asm option.split_asm prod.split_asm)

lemma route_returns:
  assumes "\<And>e. tgt_entry (target w) = Some e \<Longrightarrow> REQUEST_IS (conn_method w) REQUEST_CACHE_LEVELKEY \<Longrightarrow>
      entries (db w) e \<noteq> None \<and> (REQUEST_IS (conn_method w) REQUEST_HTTPDELETE \<longrightarrow> db_entry_handle_delete e (db w) \<noteq> None)"
    and "\<And>t. target_table (target w) = Some t \<Longrightarrow> REQUEST_IS (conn_method w) REQUEST_HTTPDELETE \<Longrightarrow>
      \<not> REQUEST_IS (conn_method w) REQUEST_CACHE_LEVELKEY \<Longrightarrow> db_table_handle_delete t (db w) \<noteq> None"
  shows "http_route w \<noteq> None"
proof -
  let ?key = "REQUEST_IS (conn_method w) REQUEST_CACHE_LEVELKEY"
  have key: "route_key w \<noteq> None \<and> (REQUEST_IS (conn_method w) REQUEST_HTTPDELETE \<longrightarrow> route_key w \<noteq> Some None)" if ?key
    using assms(1) [OF _ that] by (auto simp: route_key_def on_db_def split: option.splits prod.splits if_splits)
  have table: "route_table w \<noteq> None"
    if "REQUEST_IS (conn_method w) REQUEST_HTTPDELETE \<longrightarrow> \<not> ?key"
    using assms(2) that by (auto simp: route_table_def run_db_def split: option.splits prod.splits)
  show ?thesis using key table by (auto simp: http_route_def split: option.splits)
qed

section \<open>Properties\<close>

text \<open>A connection that has received \<open>s\<close>, beside an empty database, for concrete instances.\<close>

definition request_world :: "string \<Rightarrow> http_world" where
  "request_world s = \<lparr>conn_ptr = 1, output_buffer = None, output_buffer_free = False,
     handler = http_cache_handle_method, output_length = 0, client_sock = 7, input = ring_of 16384 s,
     conn_state = 0, conn_method = 0, is_writing = False, epollin = True, epollout = False, epollrdhup = False,
     ltype = cache_connection, target = \<lparr>tgt_entry = None, tgt_position = 0, tgt_end_position = 0, tgt_fd = - 1\<rparr>,
     db = empty_db, mon_nodes = Map.empty, mon_head = None, mon_tail = None, mon_pending_head = None,
     mon_pending_tail = None, monitoring_rsp = [], fd_blockfile = 5,
     gc = \<lparr>wait_result = 0, wait_exited = False, fork_pid = - 1\<rparr>, newfd = 9, stop_soon = False, rx = [],
     epoll_results = [], write_limits = [], sendfile_results = [], events = []\<rparr>"

lemma request_world_input [simp]: "input (request_world s) = ring_of 16384 s"
  by (simp add: request_world_def)

text \<open>
  C26. The method of a request, for every content of a buffer that is not full and whose leading line
  ends do not wrap around: with a known method word and a space the handler for the URL comes next and
  exactly the word and its space are consumed; with another word of up to six bytes, or seven bytes
  without a space, an error response is prepared; else nothing is consumed and more input is asked
  for. The database is not touched and nothing outside the buffer is read.
\<close>

theorem cache_method_parsed:
  assumes "rb_len (input w) < BUFFER_SIZE"
    and "seg1 (input w) = rb_len (input w) \<or> (\<exists>i < seg1 (input w). \<not> is_eol (contents (input w) ! i))"
  shows "\<exists>w0 w'. do_http_cache_handle_method w = Some (w', needs_more_read)
    \<and> contents (input w0) = dropWhile is_eol (contents (input w)) \<and> handler w0 = handler w \<and> conn_method w0 = 0
    \<and> method_outcome (method_verdict_of (dropWhile is_eol (contents (input w)))) w0 w' \<and> db w' = db w"
proof -
  have rb: "rb_scan (input w)" using assms(1) by (simp add: rb_scan_def)
  from skip_newlines_contents [OF rb assms(2)] obtain rb' where rb':
    "skip_over_newlines (input w) = Some rb'" "contents rb' = dropWhile is_eol (contents (input w))" by blast
  let ?w0 = "w\<lparr>input := rb', conn_method := 0\<rparr>"
  have "rb_len rb' \<le> rb_len (input w)" using rb'(2) by (metis length_contents length_dropWhile_le)
  then have "rb_scan (input ?w0)" using assms(1) by (simp add: rb_scan_def)
  from method_scan_ok [OF this refl] method_iterate [OF this] obtain w' n where
    "RBUF_ITERATE input http_read_requeststartmethod ?w0 continue_processing = Some (w', n, needs_more_read)"
    "db w' = db ?w0" "method_outcome (method_verdict_of (contents (input ?w0))) ?w0 w'" by auto
  with rb' show ?thesis by (intro exI [of _ ?w0] exI [of _ w']) (simp add: do_http_cache_handle_method_def)
qed

theorem cache_method_parsed_witness:
  "\<exists>w'. do_http_cache_handle_method (request_world (crlf @ ''PUT /t/k'')) = Some (w', needs_more_read)
    \<and> contents (input w') = ''/t/k'' \<and> handler w' = http_cache_handle_url \<and> conn_method w' = REQUEST_HTTPPUT"
proof -
  let ?w = "request_world (crlf @ ''PUT /t/k'')"
  have c: "contents (input ?w) = crlf @ ''PUT /t/k''" by (simp add: ring_of_eval)
  have v: "method_verdict_of (dropWhile is_eol (crlf @ ''PUT /t/k'')) = Method REQUEST_HTTPPUT ''/t/k''"
    by (simp add: is_eol_def method_verdict_of_def request_methods_def)
  have "rb_len (input ?w) < BUFFER_SIZE" "seg1 (input ?w) = rb_len (input ?w)" by (simp_all add: ring_of_eval)
  from cache_method_parsed [OF this(1), unfolded c v] this(2) show ?thesis
    by (auto simp: method_outcome_def)
qed

text \<open>
  C27. A handler that waits for \<open>tgt\<close> line ends in a row (carriage returns not counted) registers the
  response exactly when they have come, however the bytes are cut into pieces: \<open>eol_count\<close> of what was
  seen is kept in the connection, everything before the last line end is consumed, and without it
  everything is.
\<close>

theorem response_after_header_end:
  assumes "rb_scan (input w)" "tgt < 65536" "cur < tgt" "conn_state w = eol_state tgt cur" "epoll_results w = []"
  shows "\<exists>w' ret. do_http_handle_eolwritetoend w = Some (w', ret) \<and> (case eol_end tgt cur (contents (input w)) of
      None \<Rightarrow> ret = needs_more_read \<and> contents (input w') = [] \<and> handler w' = handler w
        \<and> conn_state w' = eol_state tgt (eol_count cur (contents (input w))) \<and> eol_count cur (contents (input w)) < tgt
    | Some k \<Rightarrow> ret = registered_write \<and> contents (input w') = drop k (contents (input w))
        \<and> handler w' = http_respond_writeonly \<and> epollout w' \<and> \<not> epollin w')"
proof -
  let ?cs = "contents (input w)"
  note scan = eol_scan [OF assms(2-4), of "\<lambda>w. w\<lparr>handler := http_respond_writeonly\<rparr>" 0 ?cs]
  note iter = eol_iterate [OF assms(1), of "\<lambda>w. w\<lparr>handler := http_respond_writeonly\<rparr>", unfolded scan]
  have moved: "contents (RBUF_READMOVE (input w) (int k)) = drop k ?cs" if "k \<le> rb_len (input w)" for k
    using contents_readmove [of "int k" "input w"] that by simp
  show ?thesis
  proof (cases "eol_end tgt cur ?cs")
    case None
    then show ?thesis using iter moved [of "rb_len (input w)"] eol_end_count [OF assms(3) None]
      by (auto simp: do_http_handle_eolwritetoend_def handle_eol_def http_read_eoltoend_def contents_def)
  next
    case (Some k)
    have "eol_end tgt cur cs = Some k \<Longrightarrow> k < length cs" for cs
      by (induction cs arbitrary: cur k) (auto split: if_splits)
    with Some have "k \<le> rb_len (input w)" by (metis length_contents less_imp_le)
    with Some iter moved [of k] assms(5) show ?thesis
      by (auto simp: do_http_handle_eolwritetoend_def handle_eol_def http_read_eoltoend_def eol_found_def
          connection_register_write_def connection_event_update_def)
  qed
qed

theorem response_after_header_end_witness:
  "\<exists>w'. do_http_handle_eolwritetoend ((request_world (''Host: x'' @ crlf @ crlf))\<lparr>conn_state := 2\<rparr>)
      = Some (w', registered_write) \<and> handler w' = http_respond_writeonly"
proof -
  let ?w = "(request_world (''Host: x'' @ crlf @ crlf))\<lparr>conn_state := 2\<rparr>"
  have c: "contents (input ?w) = ''Host: x'' @ crlf @ crlf" by (simp add: ring_of_eval)
  have e: "eol_end 2 0 (''Host: x'' @ crlf @ crlf) = Some 10" by (simp add: eol_next_def)
  have "rb_scan (input ?w)" "epoll_results ?w = []" by (simp add: ring_of_eval, simp add: request_world_def)
  from response_after_header_end [of ?w 2 0, unfolded c e, OF this(1) _ _ _ this(2)] show ?thesis
    by (auto simp: eol_state_init)
qed



text \<open>
  C28. One round of the body of a \<open>PUT\<close>: the pending bytes that belong to the body, up to the end of the
  array and to what \<open>write\<close> takes, reach the file at the current position; exactly they are consumed and
  the position moves behind them. So successive rounds write the body without gap or overlap.
\<close>

theorem body_bytes_reach_the_file:
  assumes "rb_scan (input w)" "0 < rb_len (input w)" "is_writing w" "0 \<le> tgt_fd (target w)"
    and "0 \<le> tgt_position (target w)" "tgt_position (target w) < tgt_end_position (target w)"
      "tgt_end_position (target w) - tgt_position (target w) < 2 ^ 31"
    and "\<forall>l ls. write_limits w = l # ls \<longrightarrow> 0 \<le> l"
  shows "\<exists>w1. do_http_cache_handle_request_body w = body_done w1
    \<and> events w1 = events w @ [File_write (tgt_fd (target w)) (tgt_position (target w)) (take (taken w) (contents (input w)))]
    \<and> contents (input w1) = drop (taken w) (contents (input w))
    \<and> target w1 = (target w)\<lparr>tgt_position := tgt_position (target w) + int (taken w)\<rparr>
    \<and> db w1 = db w \<and> is_writing w1"
  by (rule body_step [OF assms])

definition body_world :: http_world where
  "body_world = (request_world ''hello'')\<lparr>is_writing := True,
     target := \<lparr>tgt_entry = Some 3, tgt_position = 4096, tgt_end_position = 4104, tgt_fd = 5\<rparr>\<rparr>"

theorem body_bytes_reach_the_file_witness:
  "\<exists>w'. do_http_cache_handle_request_body body_world = Some (w', continue_processing)
    \<and> events w' = [File_write 5 4096 ''hello''] \<and> tgt_position (target w') = 4101"
proof -
  have i: "input body_world = ring_of 16384 ''hello''" by (simp add: body_world_def)
  have c: "contents (input body_world) = ''hello''" by (simp add: i ring_of_eval)
  have b: "rb_scan (input body_world)" "0 < rb_len (input body_world)" "seg1 (input body_world) = 5"
    by (simp_all add: i ring_of_eval)
  moreover have "target body_world = \<lparr>tgt_entry = Some 3, tgt_position = 4096, tgt_end_position = 4104, tgt_fd = 5\<rparr>"
    "write_limits body_world = []" by (simp_all add: body_world_def request_world_def)
  ultimately have t: "taken body_world = 5" by (simp add: taken_def body_count_def)
  have "\<exists>w1. do_http_cache_handle_request_body body_world = body_done w1
    \<and> events w1 = events body_world @ [File_write 5 4096 (take 5 ''hello'')]
    \<and> target w1 = (target body_world)\<lparr>tgt_position := 4096 + 5\<rparr>"
    using body_bytes_reach_the_file [of body_world, OF b(1,2), unfolded t c]
    by (auto simp: body_world_def request_world_def)
  then show ?thesis by (auto simp: body_done_def body_world_def request_world_def)
qed

text \<open>
  An error of \<open>write\<close> while a body is stored is not noticed: its result -1 is used as a length, so the
  read position and the position in the file each go back by one and reading continues.
\<close>

theorem body_write_error_goes_back:
  assumes "rb_scan (input w)" "0 < rb_len (input w)" "is_writing w" "0 \<le> tgt_fd (target w)"
    and "0 \<le> tgt_position (target w)" "tgt_position (target w) < tgt_end_position (target w)"
      "tgt_end_position (target w) - tgt_position (target w) < 2 ^ 31"
    and "write_limits w = l # ls" "l < 0"
  shows "\<exists>w'. do_http_cache_handle_request_body w = Some (w', continue_processing)
    \<and> read_position (input w') = read_position (input w) - 1
    \<and> tgt_position (target w') = tgt_position (target w) - 1 \<and> events w' = events w"
  by (rule body_failed [OF assms])

theorem body_write_error_goes_back_witness:
  "\<exists>w'. do_http_cache_handle_request_body (body_world\<lparr>write_limits := [- 1]\<rparr>) = Some (w', continue_processing)
    \<and> tgt_position (target w') = 4095"
  using body_write_error_goes_back [of "body_world\<lparr>write_limits := [- 1]\<rparr>" "- 1" "[]"]
  by (auto simp: body_world_def request_world_def ring_of_eval)

text \<open>
  The handler of the URL consumes one byte too many behind a URL without a second slash: when the
  space is the last byte received, the read position passes the write position and the buffer
  pretends to hold 65535 bytes, four times its size.
\<close>

theorem url_end_overruns_buffer:
  assumes "rb_scan (input w)" "conn_state w = 0" "contents (input w) = CHR ''/'' # name @ '' ''"
    and "CHR ''/'' \<notin> set name" "CHR '' '' \<notin> set name"
    and "do_http_cache_handle_url w = Some (w', ret)"
  shows "rb_len (input w') = 65535"
  unfolding url_space_moves [OF assms] by (rule move_past_end) simp

theorem url_end_overruns_buffer_witness:
  "\<exists>w'. do_http_cache_handle_url ((request_world ''/ '')\<lparr>conn_method := REQUEST_HTTPGET\<rparr>) = Some (w', needs_more_read)
    \<and> rb_len (input w') = 65535"
proof -
  let ?w = "(request_world ''/ '')\<lparr>conn_method := REQUEST_HTTPGET\<rparr>"
  have c: "contents (input ?w) = ''/ ''" and rb: "rb_scan (input ?w)" by (simp_all add: ring_of_eval)
  have b0: "url1_byte ?w CHR ''/'' 0 = Some (?w, continue_processing)" by (simp add: url1_byte_def)
  have key: "copy_key w' 0 = Some []" for w' by (simp add: copy_key_def rbuf_copyn_def)
  have get: "REQUEST_IS (REQUEST_HTTPGET OR REQUEST_CACHE_LEVELTABLE) REQUEST_HTTPGET"
    by (simp add: REQUEST_IS_def request_consts)
  have m: "conn_method ?w = REQUEST_HTTPGET" "conn_state ?w = 0" by (simp_all add: request_world_def)
  have b1: "\<exists>w'. url1_byte ?w CHR '' '' 1 = Some (w', needs_more_read)"
    unfolding url1_byte_def Let_def read_move_fields m by (simp add: key url_table_def get http_stats_after_eol_def)
  then have "\<exists>w'. do_http_cache_handle_url ?w = Some (w', needs_more_read)"
    using url1_iterate [OF rb] b0 m(2) unfolding c do_http_cache_handle_url_def by (auto simp del: request_world_input)
  then obtain w' where r: "do_http_cache_handle_url ?w = Some (w', needs_more_read)" by blast
  moreover have "rb_len (input w') = 65535"
    by (rule url_end_overruns_buffer [OF rb m(2) _ _ _ r, of "[]"]) (use c in simp_all)
  ultimately show ?thesis by blast
qed

text \<open>
  The handler of a header value consumes a line feed after a carriage return without looking: when
  the carriage return is the last byte received, the buffer again pretends to hold 65535 bytes.
\<close>

theorem header_value_overruns_buffer:
  assumes "rb_scan (input w)" "seg1 (input w) = rb_len (input w)" "contents (input w) = v @ [CHR 0x0D]"
    and "\<forall>c\<in>set v. c \<noteq> CHR '' '' \<and> c \<noteq> CHR 0x0A \<and> c \<noteq> CHR 0x0D"
    and "do_http_cache_handle_headers_extract w = Some (w', ret)"
  shows "rb_len (input w') = 65535"
  unfolding value_cr_moves [OF assms] by (rule move_past_end) simp

theorem header_value_overruns_buffer_witness:
  "\<exists>w'. do_http_cache_handle_headers_extract ((request_world [CHR ''5'', CHR 0x0D])\<lparr>conn_state := HEADER_CONTENTLENGTH,
      conn_method := REQUEST_HTTPPUT OR REQUEST_CACHE_LEVELKEY\<rparr>) = Some (w', needs_more_read)
    \<and> rb_len (input w') = 65535"
proof -
  let ?w = "(request_world [CHR ''5'', CHR 0x0D])\<lparr>conn_state := HEADER_CONTENTLENGTH,
      conn_method := REQUEST_HTTPPUT OR REQUEST_CACHE_LEVELKEY\<rparr>"
  have c: "contents (input ?w) = ''5'' @ [CHR 0x0D]" and rb: "rb_scan (input ?w)"
    and flat: "seg1 (input ?w) = rb_len (input ?w)" and s: "seg1 (input ?w) = 2" by (simp_all add: ring_of_eval)
  have "rbuf_strntol (input ?w) 1 = Some (Some 5)"
    using strntol_contents [OF rb, of 1] c s by (simp add: is_digit_def)
  then have "\<exists>w'. header_value 1 ?w = Some (Inr w')"
    by (simp add: header_value_def value_content_length_def REQUEST_IS_def request_consts request_world_def)
  moreover have "CHR '' '' \<notin> set (contents (input ?w))" unfolding c by simp
  note it = value_iterate [OF rb flat this, unfolded c]
  ultimately have "\<exists>w'. do_http_cache_handle_headers_extract ?w = Some (w', needs_more_read)"
    using it by (auto simp: do_http_cache_handle_headers_extract_def value_byte_def)
  then obtain w' where r: "do_http_cache_handle_headers_extract ?w = Some (w', needs_more_read)" by blast
  from header_value_overruns_buffer [OF rb flat c _ r] r show ?thesis by (auto simp del: request_world_input)
qed

end
