(* ===== verification/HttpServeProps.thy ===== *)
theory HttpServeProps
  imports Server HttpCacheProps
begin

text \<open>
  The control of a connection: which handlers run while it waits for input and which while it waits to
  write. A connection is well typed when it is registered for exactly one of the two and its handler is
  one of those its protocol has for it. Every handler keeps that, so the nesting of
  \<open>http_read_handle\<close> never exceeds one.
\<close>

section \<open>Typing\<close>

fun handler_ok :: "connection_ctype \<Rightarrow> bool \<Rightarrow> handler \<Rightarrow> bool" where
  "handler_ok cache_connection True h \<longleftrightarrow> h \<in> {http_cache_handle_method, http_cache_handle_url,
     http_cache_handle_httpversion, http_cache_handle_headers, http_cache_handle_headers_extract,
     http_cache_handle_request_body, http_cache_handle_eolstats, http_handle_eolwritetoend}"
| "handler_ok cache_connection False h \<longleftrightarrow> h \<in> {http_respond_expires, http_respond_contentlength,
     http_respond_responseend, http_respond_contentbody, http_respond_writeonly, http_respond_reset_connection,
     http_respond_stats, http_respond_listingentries, http_respond_listingtotal, http_respond_listing_separator,
     http_respond_listing, http_respond_close_connection}"
| "handler_ok mon_connection True h \<longleftrightarrow> h \<in> {http_mon_handle_start, http_mon_handle_method, http_mon_handle_url,
     http_handle_mon_eolwrite_initial, http_handle_eolwritetoend, http_discard_input}"
| "handler_ok mon_connection False h \<longleftrightarrow> h \<in> {http_respond_writeonly, http_respond_start_to_count,
     http_respond_cleanupafterwrite, http_discard_input}"
| "handler_ok ct reading h \<longleftrightarrow> False"

lemma handlers_ok [simp]:
  "handler_ok cache_connection True http_cache_handle_method" "handler_ok cache_connection True http_cache_handle_url"
  "handler_ok cache_connection True http_cache_handle_httpversion" "handler_ok cache_connection True http_cache_handle_headers"
  "handler_ok cache_connection True http_cache_handle_headers_extract" "handler_ok cache_connection True http_cache_handle_request_body"
  "handler_ok cache_connection True http_cache_handle_eolstats" "handler_ok cache_connection True http_handle_eolwritetoend"
  "handler_ok cache_connection False http_respond_expires" "handler_ok cache_connection False http_respond_contentlength"
  "handler_ok cache_connection False http_respond_responseend" "handler_ok cache_connection False http_respond_contentbody"
  "handler_ok cache_connection False http_respond_writeonly" "handler_ok cache_connection False http_respond_reset_connection"
  "handler_ok cache_connection False http_respond_stats" "handler_ok cache_connection False http_respond_listingentries"
  "handler_ok cache_connection False http_respond_listingtotal" "handler_ok cache_connection False http_respond_listing_separator"
  "handler_ok cache_connection False http_respond_listing" "handler_ok cache_connection False http_respond_close_connection"
  "handler_ok mon_connection True http_mon_handle_start" "handler_ok mon_connection True http_mon_handle_method"
  "handler_ok mon_connection True http_mon_handle_url" "handler_ok mon_connection True http_handle_mon_eolwrite_initial"
  "handler_ok mon_connection True http_handle_eolwritetoend" "handler_ok mon_connection True http_discard_input"
  "handler_ok mon_connection False http_respond_writeonly" "handler_ok mon_connection False http_respond_start_to_count"
  "handler_ok mon_connection False http_respond_cleanupafterwrite" "handler_ok mon_connection False http_discard_input"
  by simp_all

declare handler_ok.simps [simp del]

definition reads_as :: "connection_ctype \<Rightarrow> http_world \<Rightarrow> bool" where
  "reads_as ct w \<longleftrightarrow> ltype w = ct \<and> epollin w \<and> \<not> epollout w \<and> handler_ok ct True (handler w)"

definition writes_as :: "connection_ctype \<Rightarrow> http_world \<Rightarrow> bool" where
  "writes_as ct w \<longleftrightarrow> ltype w = ct \<and> epollout w \<and> \<not> epollin w \<and> handler_ok ct False (handler w)"

definition typed_as :: "connection_ctype \<Rightarrow> http_world \<Rightarrow> bool" where
  "typed_as ct w \<longleftrightarrow> reads_as ct w \<or> writes_as ct w"

lemmas typing = reads_as_def writes_as_def typed_as_def

section \<open>What the shared steps do to the type\<close>

definition same_shape :: "http_world \<Rightarrow> http_world \<Rightarrow> bool" where
  "same_shape w w' \<longleftrightarrow> ltype w' = ltype w \<and> epollin w' = epollin w \<and> epollout w' = epollout w \<and> handler w' = handler w"

lemma on_db_shape: "on_db f w = Some (x, w') \<Longrightarrow> same_shape w w'"
  by (auto simp: on_db_def same_shape_def elim!: bind_SomeE)

lemma run_db_shape: "run_db f w = Some w' \<Longrightarrow> same_shape w w'"
  by (auto simp: run_db_def same_shape_def elim!: bind_SomeE)

lemma mod_node_shape: "mod_node c f w = Some w' \<Longrightarrow> same_shape w w'"
  by (auto simp: mod_node_def same_shape_def elim!: bind_SomeE)

lemma file_write_shape: "file_write fd pos bs w = (k, w') \<Longrightarrow> same_shape w w'"
  by (auto simp: file_write_def same_shape_def Let_def split: list.split_asm if_split_asm)

lemma register_write_shape: "connection_register_write w = (res, w') \<Longrightarrow>
   ltype w' = ltype w \<and> epollin w' = False \<and> epollout w' = True \<and> handler w' = handler w"
  by (auto simp: connection_register_write_def connection_event_update_def split: list.splits)

lemma register_read_shape: "connection_register_read w = (res, w') \<Longrightarrow>
   ltype w' = ltype w \<and> epollin w' = True \<and> epollout w' = False \<and> handler w' = handler w"
  by (auto simp: connection_register_read_def connection_event_update_def split: list.splits)

lemma write_response_shape: "http_write_response t w = (w', ret) \<Longrightarrow>
   ltype w' = ltype w \<and> epollin w' = False \<and> epollout w' = True \<and> handler w' = http_respond_writeonly
   \<and> ret \<noteq> continue_processing"
  by (auto simp: http_write_response_def set_template_def dest!: register_write_shape split: prod.splits if_splits)

lemma set_template_fields [simp]:
  "ltype (set_template t w) = ltype w" "epollin (set_template t w) = epollin w"
  "epollout (set_template t w) = epollout w" "handler (set_template t w) = handler w"
  by (simp_all add: set_template_def)

lemma read_move_handler [simp]: "handler (read_move n w) = handler w" "ltype (read_move n w) = ltype w"
  "epollin (read_move n w) = epollin w" "epollout (read_move n w) = epollout w"
  by (simp_all add: read_move_def)

lemmas shapes = on_db_shape [unfolded same_shape_def] run_db_shape [unfolded same_shape_def]
  mod_node_shape [unfolded same_shape_def] file_write_shape [unfolded same_shape_def]
  register_write_shape register_read_shape write_response_shape

text \<open>A handler keeps the type if its function for one byte does.\<close>

lemma rbuf_loop_keeps:
  assumes "rbuf_loop inp f fin c n p r = Some (c', n', ret)"
    and "\<And>c p n c' ret. f c p n = Some (c', ret) \<Longrightarrow> I c \<Longrightarrow> if ret = continue_processing then I c' else T c'"
    and "if r = continue_processing then I c else T c"
  shows "if ret = continue_processing then I c' else T c'"
  using assms
proof (induction inp f fin c n p r rule: rbuf_loop.induct)
  case (1 inp f fin c n p r)
  show ?case
  proof (cases "r = continue_processing \<and> n < rbuf_read_remaining (inp c)")
    case True
    let ?p = "if fin = n then 0 else p"
    from 1(2) True obtain c1 r1 where f: "f c ?p n = Some (c1, r1)"
      "rbuf_loop inp f fin c1 (n + 1) (?p + 1) r1 = Some (c', n', ret)"
      by (subst (asm) rbuf_loop.simps) (auto simp: Let_def split: option.split_asm prod.split_asm)
    have c1: "if r1 = continue_processing then I c1 else T c1" using 1(3) [OF f(1)] 1(4) True by auto
    show ?thesis by (rule 1(1) [OF True refl f(1) refl f(2)]) (erule (1) 1(3), rule c1)
  next
    case False
    then show ?thesis using 1(2,4) by (subst (asm) rbuf_loop.simps) auto
  qed
qed

lemma RBUF_ITERATE_keeps:
  assumes run: "RBUF_ITERATE inp f c continue_processing = Some (c', n, ret)" and start: "I c"
    and step: "\<And>c p n c' ret. f c p n = Some (c', ret) \<Longrightarrow> I c \<Longrightarrow> if ret = continue_processing then I c' else T c'"
  shows "(I c' \<and> ret = needs_more_read \<or> T c') \<and> ret \<noteq> continue_processing"
proof -
  have loop: "if r = continue_processing then I c1 else T c1"
    if "rbuf_loop inp f fin c 0 p continue_processing = Some (c1, n1, r)" for fin p c1 n1 r
    using that by (rule rbuf_loop_keeps [where I = I and T = T]) (erule (1) step, simp add: start)
  show ?thesis
  proof (cases "rbuf_read_to_end (inp c) = 0")
    case True
    then show ?thesis using run start by (simp add: RBUF_ITERATE_def)
  next
    case False
    let ?p = "rbuf_index (read_position (inp c))"
    from run False obtain r where
      r: "rbuf_loop inp f (rbuf_read_to_end (inp c)) c 0 ?p continue_processing = Some (c', n, r)"
        "ret = (if r = continue_processing then needs_more_read else r)"
      by (auto simp: RBUF_ITERATE_def Let_def bind_Some_iff)
    from loop [OF r(1)] r(2) show ?thesis by (auto split: if_split_asm)
  qed
qed

section \<open>Handlers that read\<close>

lemma requeststartmethod_keeps:
  "http_read_requeststartmethod w p n = Some (w', ret) \<Longrightarrow> reads_as cache_connection w \<Longrightarrow>
   if ret = continue_processing then reads_as cache_connection w' else typed_as cache_connection w'"
  by (auto simp: http_read_requeststartmethod_def typing http_write_response_after_eol_def Let_def
      elim!: bind_SomeE split: if_split_asm option.split_asm prod.split_asm)

lemma read_eol_keeps:
  assumes "read_eol found w p n = Some (w', ret)" and "reads_as ct w"
    and "\<And>w. reads_as ct w \<Longrightarrow> ltype (found w) = ct \<and> handler_ok ct False (handler (found w))"
  shows "if ret = continue_processing then reads_as ct w' else writes_as ct w'"
  using assms(1,2) assms(3) [of "w\<lparr>conn_state := 0\<rparr>"]
  by (auto simp: read_eol_def typing Let_def
      elim!: bind_SomeE split: if_split_asm option.split_asm prod.split_asm dest!: shapes)

lemma key_lookup_shape: "key_lookup_db key w = Some (e, w') \<Longrightarrow> same_shape w w'"
  by (auto simp: key_lookup_db_def same_shape_def elim!: bind_SomeE split: if_split_asm prod.split_asm dest!: shapes)

lemma http_key_lookup_keeps:
  "http_key_lookup w n = Some w' \<Longrightarrow> reads_as cache_connection w \<Longrightarrow> reads_as cache_connection w'"
  by (auto simp: http_key_lookup_def typing http_write_response_after_eol_def Let_def elim!: bind_SomeE
      split: if_split_asm option.split_asm prod.split_asm dest!: shapes key_lookup_shape [unfolded same_shape_def])

lemma requeststarturl1_keeps:
  "http_read_requeststarturl1 w p n = Some (w', ret) \<Longrightarrow> reads_as cache_connection w \<Longrightarrow>
   if ret = continue_processing then reads_as cache_connection w' else typed_as cache_connection w'"
  by (auto simp: http_read_requeststarturl1_def url_table_of_key_def url_table_def typing Let_def
      http_write_response_after_eol_def http_headers_response_after_eol_def http_stats_after_eol_def
      elim!: bind_SomeE split: if_split_asm option.split_asm prod.split_asm dest!: shapes)

lemma requeststarturl2_keeps:
  "http_read_requeststarturl2 w p n = Some (w', ret) \<Longrightarrow> reads_as cache_connection w \<Longrightarrow>
   if ret = continue_processing then reads_as cache_connection w' else typed_as cache_connection w'"
  by (auto simp: http_read_requeststarturl2_def elim!: bind_SomeE split: if_split_asm prod.split_asm dest!: http_key_lookup_keeps)
    (auto simp: typing)


lemma version_keeps:
  "http_read_version wv p n = Some (wv', ret) \<Longrightarrow> reads_as cache_connection (fst wv) \<Longrightarrow>
   if ret = continue_processing then reads_as cache_connection (fst wv') else typed_as cache_connection (fst wv')"
  by (cases wv) (auto simp: http_read_version_def typing elim!: bind_SomeE split: if_split_asm)

lemma route_keeps:
  "http_route w = Some (w', ret) \<Longrightarrow> reads_as cache_connection w \<Longrightarrow>
   typed_as cache_connection w' \<and> ret \<noteq> continue_processing"
  by (auto simp: http_route_def route_key_def route_table_def typing Let_def elim!: bind_SomeE
      split: if_split_asm option.split_asm prod.split_asm dest!: shapes)

lemma match_header_keeps:
  "match_header hs bytes w = Some (w', ret) \<Longrightarrow> reads_as cache_connection w \<Longrightarrow> reads_as cache_connection w'"
  by (induction hs bytes w rule: match_header.induct)
    (auto simp: extract_header_def typing elim!: bind_SomeE split: if_split_asm)

lemma headers_byte_keeps:
  "http_read_headers w p n = Some (w', ret) \<Longrightarrow> reads_as cache_connection w \<Longrightarrow>
   if ret = continue_processing then reads_as cache_connection w' else typed_as cache_connection w'"
  by (auto simp: http_read_headers_def Let_def elim!: bind_SomeE split: if_split_asm dest!: route_keeps match_header_keeps)
    (auto simp: typing)

lemma header_value_keeps:
  "header_value len w = Some (Inr w') \<Longrightarrow> same_shape w w'"
  by (auto simp: header_value_def value_content_length_def value_xttl_def value_listing_def value_xdelete_def same_shape_def
      Let_def elim!: bind_SomeE split: if_split_asm option.split_asm prod.split_asm dest!: shapes)

lemma extraction_byte_keeps:
  "http_read_header_extraction w p n = Some (w', ret) \<Longrightarrow> reads_as cache_connection w \<Longrightarrow>
   if ret = continue_processing then reads_as cache_connection w' else typed_as cache_connection w'"
  by (auto simp: http_read_header_extraction_def typing Let_def elim!: bind_SomeE
      split: if_split_asm sum.split_asm prod.split_asm dest!: shapes header_value_keeps [unfolded same_shape_def])


section \<open>Handlers\<close>

lemma iterate_typed:
  assumes "RBUF_ITERATE input f w continue_processing = Some (w', n, ret)" "reads_as ct w"
    and "\<And>w p n w' ret. f w p n = Some (w', ret) \<Longrightarrow> reads_as ct w \<Longrightarrow>
      if ret = continue_processing then reads_as ct w' else typed_as ct w'"
  shows "typed_as ct w'"
proof -
  have "(reads_as ct w' \<and> ret = needs_more_read \<or> typed_as ct w') \<and> ret \<noteq> continue_processing"
    by (rule RBUF_ITERATE_keeps [where I = "reads_as ct" and T = "typed_as ct", OF assms(1,2)]) (erule (1) assms(3))
  then show ?thesis by (auto simp: typed_as_def)
qed

lemma handle_eol_typed:
  assumes "handle_eol (read_eol found) w = Some (w', ret)" "reads_as ct w"
    and "\<And>w. reads_as ct w \<Longrightarrow> ltype (found w) = ct \<and> handler_ok ct False (handler (found w))"
  shows "(reads_as ct w' \<and> ret = needs_more_read \<or> writes_as ct w') \<and> ret \<noteq> continue_processing"
proof -
  from assms(1) obtain w1 n where r: "RBUF_ITERATE input (read_eol found) w continue_processing = Some (w1, n, ret)"
    "w' = (if n \<noteq> 0 \<and> ret = needs_more_read then read_move n w1 else w1)"
    by (auto simp: handle_eol_def elim!: bind_SomeE)
  have "(reads_as ct w1 \<and> ret = needs_more_read \<or> writes_as ct w1) \<and> ret \<noteq> continue_processing"
    by (rule RBUF_ITERATE_keeps [where I = "reads_as ct" and T = "writes_as ct", OF r(1) assms(2)])
      (erule (1) read_eol_keeps, erule assms(3))
  then show ?thesis using r(2) by (auto simp: typing)
qed

lemma do_method_typed:
  "do_http_cache_handle_method w = Some (w', ret) \<Longrightarrow> reads_as cache_connection w \<Longrightarrow> typed_as cache_connection w'"
  by (auto simp: do_http_cache_handle_method_def Let_def elim!: bind_SomeE
      dest!: iterate_typed [where ct = cache_connection, OF _ _ requeststartmethod_keeps] split: prod.split_asm)
    (auto simp: typing)

lemma do_url_typed:
  assumes "do_http_cache_handle_url w = Some (w', ret)" "reads_as cache_connection w"
  shows "typed_as cache_connection w'"
proof (cases "conn_state w = 0")
  case True
  with assms show ?thesis by (auto simp: do_http_cache_handle_url_def elim!: bind_SomeE
        dest!: iterate_typed [where ct = cache_connection, OF _ _ requeststarturl1_keeps])
next
  case False
  with assms show ?thesis by (auto simp: do_http_cache_handle_url_def elim!: bind_SomeE
        dest!: iterate_typed [where ct = cache_connection, OF _ _ requeststarturl2_keeps])
qed

lemma do_version_typed:
  assumes "do_http_cache_handle_httpversion w = Some (w', ret)" "reads_as cache_connection w"
  shows "typed_as cache_connection w'"
proof -
  from assms(1) obtain w1 b n where r:
    "RBUF_ITERATE (\<lambda>wv. input (fst wv)) http_read_version (w, False) continue_processing = Some ((w1, b), n, ret)"
    "w' = w1 \<or> (\<exists>n. w' = read_move n w1)"
    by (fastforce simp: do_http_cache_handle_httpversion_def Let_def elim!: bind_SomeE split: if_split_asm)
  have "(reads_as cache_connection (fst (w1, b)) \<and> ret = needs_more_read \<or> typed_as cache_connection (fst (w1, b)))
    \<and> ret \<noteq> continue_processing"
    by (rule RBUF_ITERATE_keeps [where I = "\<lambda>wv. reads_as cache_connection (fst wv)", OF r(1)])
      (simp add: assms(2), erule (1) version_keeps)
  then show ?thesis using r(2) by (auto simp: typing)
qed

lemma do_headers_typed:
  "do_http_cache_handle_headers w = Some (w', ret) \<Longrightarrow> reads_as cache_connection w \<Longrightarrow> typed_as cache_connection w'"
  by (auto simp: do_http_cache_handle_headers_def elim!: bind_SomeE
      dest!: iterate_typed [where ct = cache_connection, OF _ _ headers_byte_keeps] split: if_split_asm prod.split_asm)
    (auto simp: typing dest!: shapes)

lemma do_extract_typed:
  "do_http_cache_handle_headers_extract w = Some (w', ret) \<Longrightarrow> reads_as cache_connection w \<Longrightarrow> typed_as cache_connection w'"
  by (auto simp: do_http_cache_handle_headers_extract_def elim!: bind_SomeE
      dest!: iterate_typed [where ct = cache_connection, OF _ _ extraction_byte_keeps])


lemma write_response_typed:
  "http_write_response t w = (w', ret) \<Longrightarrow> reads_as cache_connection w \<Longrightarrow> typed_as cache_connection w'"
  by (auto simp: typing dest!: shapes)

lemma body_done_typed:
  "body_done w = Some (w', ret) \<Longrightarrow> reads_as cache_connection w \<Longrightarrow> typed_as cache_connection w'"
  by (auto simp: body_done_def typing elim!: bind_SomeE split: if_split_asm prod.split_asm dest!: shapes)

lemma body_write_reads:
  "body_write k w = Some r \<Longrightarrow> reads_as cache_connection w \<Longrightarrow>
   (case r of Inl w' \<Rightarrow> reads_as cache_connection w' | Inr w' \<Rightarrow> reads_as cache_connection w')"
  by (auto simp: body_write_def typing Let_def elim!: bind_SomeE split: if_split_asm prod.split_asm dest!: shapes)

lemma do_body_typed:
  "do_http_cache_handle_request_body w = Some (w', ret) \<Longrightarrow> reads_as cache_connection w \<Longrightarrow> typed_as cache_connection w'"
proof -
  assume r: "do_http_cache_handle_request_body w = Some (w', ret)" and rd: "reads_as cache_connection w"
  have "reads_as cache_connection (body_discard k w)" for k using rd by (simp add: body_discard_def Let_def typing)
  with r rd show ?thesis
    by (auto simp: do_http_cache_handle_request_body_def Let_def elim!: bind_SomeE dest!: body_write_reads
        split: if_split_asm sum.split_asm intro: body_done_typed write_response_typed)
qed

lemma do_eoltoend_typed:
  assumes "do_http_handle_eolwritetoend w = Some (w', ret)" "reads_as ct w" "ct = cache_connection \<or> ct = mon_connection"
  shows "(reads_as ct w' \<and> ret = needs_more_read \<or> writes_as ct w') \<and> ret \<noteq> continue_processing"
  using assms(1) unfolding do_http_handle_eolwritetoend_def http_read_eoltoend_def
  by (rule handle_eol_typed) (use assms(2,3) in \<open>auto simp: reads_as_def\<close>)

lemma do_eolstats_typed:
  assumes "do_http_cache_handle_eolstats w = Some (w', ret)" "reads_as cache_connection w"
  shows "typed_as cache_connection w'"
proof -
  from assms(1) obtain w1 where "do_http_handle_eolwritetoend w = Some (w1, ret)"
    "w' = (if ret = registered_write then w1\<lparr>handler := http_respond_stats\<rparr> else w1)"
    by (auto simp: do_http_cache_handle_eolstats_def do_http_handle_eolwritetoend_def elim!: bind_SomeE)
  with do_eoltoend_typed [OF this(1) assms(2)] show ?thesis by (auto simp: typing)
qed

lemma requeststartmethod_mon_keeps:
  "http_read_requeststartmethod_mon w p n = Some (w', ret) \<Longrightarrow> reads_as mon_connection w \<Longrightarrow>
   if ret = continue_processing then reads_as mon_connection w' else typed_as mon_connection w'"
  by (auto simp: http_read_requeststartmethod_mon_def typing mon_write_response_after_eol_def Let_def
      elim!: bind_SomeE split: if_split_asm option.split_asm)

lemma do_mon_eol_typed:
  assumes "do_http_handle_mon_eolwrite_initial w = Some (w', ret)" "reads_as mon_connection w"
  shows "(reads_as mon_connection w' \<and> ret = needs_more_read \<or> writes_as mon_connection w') \<and> ret \<noteq> continue_processing"
  using assms(1) unfolding do_http_handle_mon_eolwrite_initial_def http_mon_read_eol_inital_def
  by (rule handle_eol_typed) (use assms(2) in \<open>auto simp: reads_as_def\<close>)

lemma requeststarturl_mon_keeps:
  "http_mon_read_requeststarturl w p n = Some (w', ret) \<Longrightarrow> reads_as mon_connection w \<Longrightarrow>
   if ret = continue_processing then reads_as mon_connection w' else typed_as mon_connection w'"
  by (auto simp: http_mon_read_requeststarturl_def typing mon_write_response_after_eol_def
      http_headers_response_after_eol_def Let_def elim!: bind_SomeE split: if_split_asm option.split_asm
      dest!: do_mon_eol_typed)

lemma do_mon_method_typed:
  "do_http_mon_handle_method w = Some (w', ret) \<Longrightarrow> reads_as mon_connection w \<Longrightarrow> typed_as mon_connection w'"
  by (auto simp: do_http_mon_handle_method_def Let_def elim!: bind_SomeE
      dest!: iterate_typed [where ct = mon_connection, OF _ _ requeststartmethod_mon_keeps] split: prod.split_asm)
    (auto simp: typing)

lemma do_mon_url_typed:
  "do_http_mon_handle_url w = Some (w', ret) \<Longrightarrow> reads_as mon_connection w \<Longrightarrow> typed_as mon_connection w'"
  by (auto simp: do_http_mon_handle_url_def elim!: bind_SomeE
      dest!: iterate_typed [where ct = mon_connection, OF _ _ requeststarturl_mon_keeps])

lemma do_mon_start_typed:
  "do_http_mon_handle_start w = Some (w', ret) \<Longrightarrow> reads_as mon_connection w \<Longrightarrow> typed_as mon_connection w'"
  by (auto simp: do_http_mon_handle_start_def typing elim!: bind_SomeE dest!: shapes)


section \<open>Handlers that respond\<close>

lemma cache_destroy_shape: "cache_destroy w = Some w' \<Longrightarrow> same_shape w w'"
  by (auto simp: cache_destroy_def same_shape_def elim!: bind_SomeE split: if_split_asm option.split_asm prod.split_asm
      dest!: shapes)

lemma bypass_node_shape: "bypass_node c w = Some w' \<Longrightarrow> same_shape w w'"
  by (auto simp: bypass_node_def same_shape_def elim!: bind_SomeE split: option.split_asm dest!: shapes)

lemma monitoring_destroy_shape: "monitoring_destroy w = Some w' \<Longrightarrow> same_shape w w'"
  by (auto simp: monitoring_destroy_def same_shape_def Let_def elim!: bind_SomeE split: if_split_asm
      dest!: bypass_node_shape [unfolded same_shape_def])

lemma monitoring_add_shape: "monitoring_add c w = Some w' \<Longrightarrow> same_shape w w'"
  by (auto simp: monitoring_add_def same_shape_def Let_def elim!: bind_SomeE split: if_split_asm
      dest!: bypass_node_shape [unfolded same_shape_def] shapes)

lemma http_cleanup_shape: "http_cleanup monitoring_destroy w = Some w' \<Longrightarrow> same_shape w w'"
  by (auto simp: http_cleanup_def split: if_split_asm dest!: cache_destroy_shape monitoring_destroy_shape)
    (simp add: same_shape_def)

lemma copy_to_outputbuffer_shape: "copy_to_outputbuffer k text w = Some w' \<Longrightarrow> same_shape w w'"
  by (auto simp: copy_to_outputbuffer_def same_shape_def split: if_split_asm)

lemma send_file_shape: "send_file k w = (r, w') \<Longrightarrow> same_shape w w'"
  by (auto simp: send_file_def same_shape_def Let_def split: list.split_asm sendfile_result.split_asm)

lemmas respond_shapes = shapes http_cleanup_shape [unfolded same_shape_def] monitoring_add_shape [unfolded same_shape_def]
  copy_to_outputbuffer_shape [unfolded same_shape_def] send_file_shape [unfolded same_shape_def]

lemma plain_responses_typed:
  assumes "writes_as cache_connection w"
  shows "do_http_respond_expires w = Some (w', ret) \<Longrightarrow> typed_as cache_connection w'"
    "do_http_respond_contentlength w = Some (w', ret) \<Longrightarrow> typed_as cache_connection w'"
    "do_http_respond_responseend w = Some (w', ret) \<Longrightarrow> typed_as cache_connection w'"
    "do_http_respond_stats w = Some (w', ret) \<Longrightarrow> typed_as cache_connection w'"
    "do_http_respond_listingentries w = Some (w', ret) \<Longrightarrow> typed_as cache_connection w'"
    "do_http_respond_listingtotal w = Some (w', ret) \<Longrightarrow> typed_as cache_connection w'"
    "do_http_respond_listing_separator w = Some (w', ret) \<Longrightarrow> typed_as cache_connection w'"
    "do_http_respond_listing w = Some (w', ret) \<Longrightarrow> typed_as cache_connection w'"
  using assms
  by (auto simp: do_http_respond_expires_def do_http_respond_contentlength_def do_http_respond_responseend_def
      do_http_respond_stats_def do_http_respond_listingentries_def do_http_respond_listingtotal_def
      do_http_respond_listing_separator_def do_http_respond_listing_def typing Let_def
      elim!: bind_SomeE split: if_split_asm option.split_asm prod.split_asm dest!: respond_shapes)

lemma start_to_count_typed:
  "do_http_respond_start_to_count w = Some (w', ret) \<Longrightarrow> writes_as mon_connection w \<Longrightarrow> typed_as mon_connection w'"
  by (auto simp: do_http_respond_start_to_count_def typing elim!: bind_SomeE dest!: respond_shapes)

lemma back_to_reading: "snd (connection_register_read w) = w' \<Longrightarrow> ltype w = ct \<Longrightarrow> handler_ok ct True (handler w) \<Longrightarrow> reads_as ct w'"
  by (auto simp: reads_as_def connection_register_read_def connection_event_update_def split: list.splits)

lemma cleanupafterwrite_typed:
  "do_http_respond_cleanupafterwrite w = Some (w', ret) \<Longrightarrow> writes_as mon_connection w \<Longrightarrow> typed_as mon_connection w'"
  by (auto simp: do_http_respond_cleanupafterwrite_def typed_as_def writes_as_def intro!: back_to_reading [OF refl])

lemma discard_typed: "do_http_discard_input w = Some (w', ret) \<Longrightarrow> ltype w = mon_connection \<Longrightarrow> handler w = http_discard_input \<Longrightarrow>
   typed_as mon_connection w'"
  by (auto simp: do_http_discard_input_def typed_as_def intro!: back_to_reading [OF refl])

text \<open>
  The interface to the read handler that the last handler of a response runs: it keeps the type of a
  connection that waits for input.
\<close>

locale nested_reader =
  fixes rd :: "http_world \<Rightarrow> handler_result"
  assumes rd_typed: "rd w = Some (w', ret) \<Longrightarrow> reads_as ct w \<Longrightarrow> typed_as ct w'"
begin

lemma register_read_typed:
  "http_register_read rd w = Some (res, w') \<Longrightarrow> ltype w = ct \<Longrightarrow> handler_ok ct True (handler w) \<Longrightarrow> typed_as ct w'"
proof -
  assume r: "http_register_read rd w = Some (res, w')" and t: "ltype w = ct" "handler_ok ct True (handler w)"
  obtain b w1 where w1: "connection_register_read w = (b, w1)" by fastforce
  with t have "reads_as ct w1" using back_to_reading [of w w1 ct] by simp
  with r w1 show ?thesis
    by (auto simp: http_register_read_def typed_as_def elim!: bind_SomeE split: if_split_asm
        dest: rd_typed [unfolded typed_as_def])
qed

lemma reset_typed:
  "do_http_respond_reset_connection monitoring_destroy rd w = Some (w', ret) \<Longrightarrow> writes_as cache_connection w \<Longrightarrow>
   typed_as cache_connection w'"
  by (auto simp: do_http_respond_reset_connection_def writes_as_def elim!: bind_SomeE
      dest!: http_cleanup_shape [unfolded same_shape_def] intro: register_read_typed)

lemma writeonly_typed:
  "do_http_respond_writeonly monitoring_destroy rd w = Some (w', ret) \<Longrightarrow> writes_as ct w \<Longrightarrow>
   ct = cache_connection \<or> ct = mon_connection \<Longrightarrow> typed_as ct w'"
  by (auto simp: do_http_respond_writeonly_def writes_as_def Let_def elim!: bind_SomeE
      dest!: http_cleanup_shape [unfolded same_shape_def] intro: register_read_typed)

lemma contentbody_typed:
  "do_http_respond_contentbody monitoring_destroy rd w = Some (w', ret) \<Longrightarrow> writes_as cache_connection w \<Longrightarrow>
   typed_as cache_connection w'"
  by (auto simp: do_http_respond_contentbody_def writes_as_def Let_def elim!: bind_SomeE
      split: if_split_asm prod.split_asm sendfile_result.split_asm
      dest!: http_cleanup_shape [unfolded same_shape_def] send_file_shape [unfolded same_shape_def] intro: register_read_typed)
    (simp_all add: typing)

end


section \<open>The read handler\<close>

lemma run_reading_typed:
  assumes "run_handler rd w = Some (w', ret)" and r: "reads_as ct w"
  shows "typed_as ct w'"
proof (cases ct)
  case cache_connection
  have "handler_ok cache_connection True (handler w)" using r cache_connection by (simp add: reads_as_def)
  then show ?thesis using assms unfolding cache_connection
    by (cases "handler w") (auto simp: run_handler_def handler_ok.simps typed_as_def dest: do_method_typed do_url_typed
        do_version_typed do_headers_typed do_extract_typed do_body_typed do_eolstats_typed do_eoltoend_typed)
next
  case mon_connection
  have "handler_ok mon_connection True (handler w)" "ltype w = mon_connection"
    using r mon_connection by (simp_all add: reads_as_def)
  then show ?thesis using assms unfolding mon_connection
    by (cases "handler w") (auto simp: run_handler_def handler_ok.simps typed_as_def dest: do_mon_start_typed do_mon_method_typed
        do_mon_url_typed do_mon_eol_typed do_eoltoend_typed discard_typed)
qed (use r in \<open>simp_all add: reads_as_def handler_ok.simps\<close>)

lemma run_reading_alone: "reads_as ct w \<Longrightarrow> run_handler rd w = run_handler rd' w"
  by (cases ct; cases "handler w") (simp_all add: run_handler_def reads_as_def handler_ok.simps)

lemma typed_epollin: "typed_as ct w \<Longrightarrow> epollin w \<Longrightarrow> reads_as ct w"
  by (auto simp: typed_as_def writes_as_def)

lemma read_loop_agrees:
  assumes "read_loop f run te w = Some r" and "typed_as ct w"
    and "\<And>w. reads_as ct w \<Longrightarrow> f w = g w" and "\<And>w w' ret. f w = Some (w', ret) \<Longrightarrow> reads_as ct w \<Longrightarrow> typed_as ct w'"
  shows "read_loop g run te w = Some r \<and> typed_as ct (fst r)"
  using assms
proof (induction f run te w r rule: read_loop.raw_induct [rotated, consumes 1, case_names 1])
  case (1 loop f run te w r)
  show ?case
  proof (cases "epollin w")
    case True
    then have rd: "reads_as ct w" using 1(3) typed_epollin by blast
    from 1(2) True obtain w1 run1 where f: "f w = Some (w1, run1)" by (auto elim!: bind_SomeE)
    then have t: "typed_as ct w1" and g: "g w = Some (w1, run1)" using 1(4,5) rd by auto
    show ?thesis
    proof (cases "run1 = needs_more_read \<and> rbuf_read_remaining (input w1) \<noteq> 0 \<and> rbuf_read_remaining (input w1) \<noteq> te")
      case False
      with 1(2) True f have "r = (w1, Some run1)" by (auto simp: Let_def)
      with True False g t show ?thesis by (subst read_loop.simps) (auto simp: Let_def)
    next
      case more: True
      with 1(2) True f have l: "loop f (Some run1) (rbuf_read_remaining (input w1)) w1 = Some r" by (simp add: Let_def)
      have "read_loop g (Some run1) (rbuf_read_remaining (input w1)) w1 = Some r \<and> typed_as ct (fst r)"
        by (rule 1(1) [OF l t 1(4,5)])
      with True more g show ?thesis by (subst read_loop.simps) (simp add: Let_def)
    qed
  next
    case False
    with 1(2,3) show ?thesis by (subst read_loop.simps) auto
  qed
qed

lemma process_input_agrees:
  assumes "process_input (run_handler rd) num w = Some (w', ret)" and "typed_as ct w"
  shows "process_input (run_handler rd') num w = Some (w', ret) \<and> typed_as ct w'"
proof -
  from assms(1) obtain w1 run where l: "read_loop (run_handler rd) None (- 1) w = Some (w1, Some run)"
    and w': "w' = w1"
    by (auto simp: process_input_def elim!: bind_SomeE split: if_split_asm)
  have "read_loop (run_handler rd') None (- 1) w = Some (w1, Some run) \<and> typed_as ct (fst (w1, Some run))"
    by (rule read_loop_agrees [OF l assms(2)]) (erule run_reading_alone, erule (1) run_reading_typed)
  then show ?thesis using assms(1) l w' by (simp add: process_input_def)
qed

lemma option_eqI: "(\<And>y. x = Some y \<Longrightarrow> x' = Some y) \<Longrightarrow> (\<And>y. x' = Some y \<Longrightarrow> x = Some y) \<Longrightarrow> x = x'"
  by (cases x; cases x') auto

lemma process_input_alone:
  assumes "typed_as ct w"
  shows "process_input (run_handler rd) num w = process_input (run_handler rd') num w"
proof (rule option_eqI)
  show "process_input (run_handler rd') num w = Some y" if "process_input (run_handler rd) num w = Some y" for y rd rd'
    using process_input_agrees [OF _ assms, of rd num "fst y" "snd y" rd'] that by simp
  then show "process_input (run_handler rd) num w = Some y" if "process_input (run_handler rd') num w = Some y" for y
    using that by blast
qed

lemma sock_read_shape: "sock_read num w = (r, w') \<Longrightarrow> same_shape w w'"
  by (auto simp: sock_read_def same_shape_def split: list.split_asm read_result.split_asm)

lemma typed_input [simp]: "typed_as ct (w\<lparr>input := rb\<rparr>) = typed_as ct w"
  by (simp add: typing)

lemma typed_same: "same_shape w w' \<Longrightarrow> typed_as ct w' = typed_as ct w"
  by (simp add: same_shape_def typing)

lemma read_handle_alone: "typed_as ct w \<Longrightarrow> http_read_handle (Suc d) w = http_read_handle (Suc d') w"
proof -
  assume t: "typed_as ct w"
  have *: "process_input (run_handler (http_read_handle d)) num w1 = process_input (run_handler (http_read_handle d')) num w1"
    if "typed_as ct w1" for num w1
    using that by (rule process_input_alone)
  let ?w = "w\<lparr>input := rbuf_rewind (input w)\<rparr>" and ?num = "rbuf_write_to_end (rbuf_rewind (input w))"
  obtain r w1 where s: "sock_read ?num ?w = (r, w1)" by fastforce
  have w1: "typed_as ct w1" using typed_same [OF sock_read_shape [OF s]] t by simp
  have "process_input (run_handler (http_read_handle d)) num (w1\<lparr>input := rb\<rparr>)
      = process_input (run_handler (http_read_handle d')) num (w1\<lparr>input := rb\<rparr>)" for num rb
    by (rule *) (simp add: w1)
  moreover have "process_input (run_handler (http_read_handle d)) num ?w
      = process_input (run_handler (http_read_handle d')) num ?w" for num
    by (rule *) (simp add: t)
  ultimately show ?thesis using s by (simp add: Let_def split: read_result.split)
qed

lemma read_handle_typed:
  assumes "http_read_handle d w = Some (w', ret)" "typed_as ct w"
  shows "typed_as ct w'"
proof (cases d)
  case 0
  with assms show ?thesis by simp
next
  case (Suc d')
  note agree = process_input_agrees [of "http_read_handle d'", THEN conjunct2]
  from assms Suc show ?thesis
    by (auto simp: Let_def typed_same elim!: bind_SomeE split: if_split_asm prod.split_asm read_result.split_asm
        dest!: sock_read_shape dest: agree)
qed

section \<open>The write handler\<close>

lemma register_read_alone:
  assumes "ltype w = ct" "handler_ok ct True (handler w)"
  shows "http_register_read (http_read_handle (Suc d)) w = http_register_read (http_read_handle (Suc d')) w"
proof -
  obtain b w1 where w1: "connection_register_read w = (b, w1)" by fastforce
  with assms have "typed_as ct w1" using back_to_reading [of w w1 ct] by (simp add: typed_as_def)
  from read_handle_alone [OF this, of d d'] w1 show ?thesis by (simp add: http_register_read_def)
qed

lemma bind_eqI: "(\<And>a. x = Some a \<Longrightarrow> f a = g a) \<Longrightarrow> Option.bind x f = Option.bind x g"
  by (cases x) auto

lemma run_responding_alone:
  assumes w: "writes_as ct w"
  shows "run_handler (http_read_handle (Suc d)) w = run_handler (http_read_handle (Suc d')) w"
proof -
  note alone = register_read_alone [of _ _ d d']
  have ct: "ct = cache_connection \<or> ct = mon_connection" and "ltype w = ct"
    using w by (cases ct; simp add: writes_as_def handler_ok.simps)+
  have reset: "do_http_respond_reset_connection monitoring_destroy (http_read_handle (Suc d)) w
      = do_http_respond_reset_connection monitoring_destroy (http_read_handle (Suc d')) w"
    if "ltype w = cache_connection"
    unfolding do_http_respond_reset_connection_def
    by (rule bind_eqI, subst alone [where ct = cache_connection])
      (use that in \<open>auto dest: http_cleanup_shape simp: same_shape_def\<close>)
  have only: "do_http_respond_writeonly monitoring_destroy (http_read_handle (Suc d)) w
      = do_http_respond_writeonly monitoring_destroy (http_read_handle (Suc d')) w"
    unfolding do_http_respond_writeonly_def Let_def
    by (rule bind_eqI, subst alone [where ct = ct])
      (use ct \<open>ltype w = ct\<close> in \<open>auto dest: http_cleanup_shape simp: same_shape_def\<close>)
  have body: "do_http_respond_contentbody monitoring_destroy (http_read_handle (Suc d)) w
      = do_http_respond_contentbody monitoring_destroy (http_read_handle (Suc d')) w"
    if "ltype w = cache_connection"
  proof -
    have *: "Option.bind (http_cleanup monitoring_destroy w1) (\<lambda>w. Option.bind
          (http_register_read (http_read_handle (Suc d)) (w\<lparr>handler := http_cache_handle_method\<rparr>)) g)
        = Option.bind (http_cleanup monitoring_destroy w1) (\<lambda>w. Option.bind
          (http_register_read (http_read_handle (Suc d')) (w\<lparr>handler := http_cache_handle_method\<rparr>)) g)"
      if "ltype w1 = cache_connection" for w1 and g :: "bool \<times> http_world \<Rightarrow> handler_result"
      by (rule bind_eqI, subst alone [where ct = cache_connection])
        (use that in \<open>auto dest: http_cleanup_shape simp: same_shape_def\<close>)
    obtain r w1 where f: "send_file (uint (of_int (tgt_end_position (target w) - tgt_position (target w)) :: u64)) w = (r, w1)"
      by fastforce
    have "ltype w1 = cache_connection" using send_file_shape [OF f] that by (simp add: same_shape_def)
    then show ?thesis using that f by (simp add: do_http_respond_contentbody_def Let_def * split: sendfile_result.split)
  qed
  show ?thesis using w ct \<open>ltype w = ct\<close> reset only body
    by (cases "handler w") (auto simp: run_handler_def writes_as_def handler_ok.simps)
qed

interpretation reader: nested_reader "http_read_handle d" for d
proof
  show "typed_as ct w'" if "http_read_handle d w = Some (w', ret)" "reads_as ct w" for w w' ret ct
    using read_handle_typed [OF that(1)] that(2) by (simp add: typed_as_def)
qed

lemma run_responding_typed:
  assumes "run_handler (http_read_handle d) w = Some (w', ret)" and r: "writes_as ct w"
  shows "typed_as ct w'"
proof (cases ct)
  case cache_connection
  have "handler_ok cache_connection False (handler w)" using r cache_connection by (simp add: writes_as_def)
  then show ?thesis using assms unfolding cache_connection
    by (cases "handler w") (auto simp: run_handler_def handler_ok.simps dest: plain_responses_typed reader.reset_typed
        reader.writeonly_typed reader.contentbody_typed, simp add: typed_as_def)
next
  case mon_connection
  have "handler_ok mon_connection False (handler w)" "ltype w = mon_connection"
    using r mon_connection by (simp_all add: writes_as_def)
  then show ?thesis using assms unfolding mon_connection
    by (cases "handler w") (auto simp: run_handler_def handler_ok.simps dest: start_to_count_typed cleanupafterwrite_typed
        reader.writeonly_typed discard_typed)
qed (use r in \<open>simp_all add: writes_as_def handler_ok.simps\<close>)

lemma sock_write_shape: "sock_write w = Some (n, w') \<Longrightarrow> same_shape w w'"
  by (auto simp: sock_write_def same_shape_def Let_def elim!: bind_SomeE split: if_split_asm list.split_asm)

lemma written_shape [simp]: "typed_as ct (written n w) = typed_as ct w"
  by (simp add: written_def typing Let_def)

lemma typed_epollout: "typed_as ct w \<Longrightarrow> epollout w \<Longrightarrow> writes_as ct w"
  by (auto simp: typed_as_def reads_as_def)

lemma write_handle_typed:
  assumes "http_write_handle d w = Some (w', ret)" "typed_as ct w"
  shows "typed_as ct w'"
proof -
  from assms(1) obtain num w1 where
    1: "(if output_buffer w \<noteq> None then do {
         (num, w) \<leftarrow> sock_write w;
         Some (num, if num < 0 then w else written num w)
       } else Some (0, w)) = Some (num, w1)" and
    2: "(if num < 0 then Some (w1, close_connection)
     else if output_buffer w1 = None \<and> epollout w1 then run_handler (http_read_handle d) w1
     else Some (w1, continue_processing)) = Some (w', ret)"
    by (auto simp: http_write_handle_def elim!: bind_SomeE)
  have "typed_as ct w1" using 1 assms(2) by (auto elim!: bind_SomeE split: if_split_asm dest!: sock_write_shape simp: typed_same)
  with 2 show ?thesis by (auto split: if_split_asm dest: run_responding_typed typed_epollout)
qed

lemma write_handle_alone:
  assumes "typed_as ct w"
  shows "http_write_handle (Suc d) w = http_write_handle (Suc d') w"
  unfolding http_write_handle_def
proof (rule bind_eqI, clarify)
  fix num w1
  assume "(if output_buffer w \<noteq> None then do {
         (num, w) \<leftarrow> sock_write w;
         Some (num, if num < 0 then w else written num w)
       } else Some (0, w)) = Some (num, w1)"
  then have "typed_as ct w1" using assms by (auto elim!: bind_SomeE split: if_split_asm dest!: sock_write_shape simp: typed_same)
  then show "(if num < 0 then Some (w1, close_connection)
     else if output_buffer w1 = None \<and> epollout w1 then run_handler (http_read_handle (Suc d)) w1
     else Some (w1, continue_processing)) = (if num < 0 then Some (w1, close_connection)
     else if output_buffer w1 = None \<and> epollout w1 then run_handler (http_read_handle (Suc d')) w1
     else Some (w1, continue_processing))"
    using run_responding_alone [of ct w1 d d'] typed_epollout by auto
qed


section \<open>All connections\<close>

definition server_typed :: "server \<Rightarrow> bool" where
  "server_typed s \<longleftrightarrow> (\<forall>p c. conns s p = Some c \<longrightarrow> (\<exists>ct. typed_as ct (load_conn c (world s))))"

lemma load_conn_fields [simp]:
  "ltype (load_conn c w) = ltype c" "epollin (load_conn c w) = epollin c" "epollout (load_conn c w) = epollout c"
  "handler (load_conn c w) = handler c"
  by (simp_all add: load_conn_def scache_connection.extend_def)

lemma truncate_fields [simp]:
  "ltype (scache_connection.truncate w) = ltype w" "epollin (scache_connection.truncate w) = epollin w"
  "epollout (scache_connection.truncate w) = epollout w" "handler (scache_connection.truncate w) = handler w"
  by (simp_all add: scache_connection.truncate_def)

lemma typed_load: "typed_as ct (load_conn (scache_connection.truncate w) w') = typed_as ct w"
  by (simp add: typing)

lemma typed_load_other: "typed_as ct (load_conn c w) = typed_as ct (load_conn c w')"
  by (simp add: typing)

lemma with_conn_typed:
  assumes r: "with_conn p f s = Some (s', x)" and s: "server_typed s"
    and f: "\<And>w w' x ct. f w = Some (w', x) \<Longrightarrow> typed_as ct w \<Longrightarrow> \<exists>ct. typed_as ct w'"
  shows "server_typed s'"
proof -
  from r obtain c w where c: "conns s p = Some c" and w: "f (load_conn c (world s)) = Some (w, x)"
    and s': "s' = s\<lparr>conns := (conns s)(p \<mapsto> scache_connection.truncate w), world := w\<rparr>"
    by (auto simp: with_conn_def elim!: bind_SomeE)
  from s c obtain ct where "typed_as ct (load_conn c (world s))" by (auto simp: server_typed_def)
  from f [OF w this] obtain ct' where "typed_as ct' w" ..
  then show ?thesis using s unfolding server_typed_def s'
    by (auto simp: typed_load) (metis typed_load_other)
qed

lemma remove_typed: "server_typed s \<Longrightarrow> server_typed (connection_remove p s)"
  unfolding server_typed_def connection_remove_def by (auto split: if_splits) (metis typed_load_other)

lemma close_typed: "close_connection_now p s = Some s' \<Longrightarrow> server_typed s \<Longrightarrow> server_typed s'"
  by (auto simp: close_connection_now_def elim!: bind_SomeE intro!: remove_typed
      elim!: with_conn_typed dest!: http_cleanup_shape simp: typed_same)

lemma socket_event_typed:
  assumes "handle_socket_event d p ev s = Some s'" "server_typed s"
  shows "server_typed s'"
proof -
  let ?rd = "\<lambda>s. if ev_in ev then with_conn p (http_read_handle d) s else Some (s, continue_processing)"
  let ?wr = "\<lambda>s. if ev_out ev then with_conn p (http_write_handle d) s else Some (s, continue_processing)"
  let ?b = "\<lambda>r1 r2. (ev_err_hup ev \<or> r1 = close_connection) \<or> r2 = close_connection"
  let ?hup = "\<lambda>b s. if \<not> b \<and> ev_rdhup ev then with_conn p (\<lambda>w. Some (w\<lparr>epollrdhup := True\<rparr>, epollin w)) s else Some (s, b)"
  from assms(1) obtain s1 r1 s2 r2 s3 b' where
    1: "?rd s = Some (s1, r1)" and 2: "?wr s1 = Some (s2, r2)" and 3: "?hup (?b r1 r2) s2 = Some (s3, b')"
    and 4: "(if b' then close_connection_now p s3 else Some s3) = Some s'"
    by (auto simp: handle_socket_event_def Let_def elim!: bind_SomeE)
  have "server_typed s1" using 1 assms(2)
    by (auto split: if_split_asm intro: read_handle_typed elim!: with_conn_typed)
  then have "server_typed s2" using 2
    by (auto split: if_split_asm intro: write_handle_typed elim!: with_conn_typed)
  then have "server_typed s3" using 3
    by (auto split: if_split_asm elim!: with_conn_typed simp: typing)
  then show ?thesis using 4 by (auto split: if_split_asm dest: close_typed)
qed

definition queue_ok :: "server \<Rightarrow> bool" where
  "queue_ok s \<longleftrightarrow> (\<forall>q \<in> set (cq s). q_client_type q \<in> {cache_connection, mon_connection})"

lemma add_typed:
  assumes "connection_add fd type s = (p, s1)" "server_typed s" "type \<in> {cache_connection, mon_connection}"
    and "with_conn p (\<lambda>w. Some (http_connection_handler (w\<lparr>epollin := True\<rparr>), ())) s1 = Some (s2, u)"
  shows "server_typed s2 \<and> cq s2 = cq s"
proof -
  from assms(1) have p: "p = conn_next s" and c: "\<exists>c. conns s1 p = Some c \<and> ltype c = type \<and> \<not> epollout c"
    and o: "\<And>q. q \<noteq> p \<Longrightarrow> conns s1 q = conns s q" and q: "cq s1 = cq s"
    by (auto simp: connection_add_def Let_def)
  from c assms(4) obtain c where c: "conns s1 p = Some c" "ltype c = type" "\<not> epollout c"
    and s2: "s2 = s1\<lparr>conns := (conns s1)(p \<mapsto> scache_connection.truncate
        (http_connection_handler ((load_conn c (world s1))\<lparr>epollin := True\<rparr>))),
      world := http_connection_handler ((load_conn c (world s1))\<lparr>epollin := True\<rparr>)\<rparr>"
    by (auto simp: with_conn_def)
  have "typed_as type (http_connection_handler ((load_conn c (world s1))\<lparr>epollin := True\<rparr>))"
    using assms(3) c(2,3) by (auto simp: http_connection_handler_def typing)
  then show ?thesis using assms(2) unfolding server_typed_def s2
    by (auto simp: typed_load o q split: if_splits) (metis typed_load_other)
qed

lemma accept_typed:
  "accept_all fuel oks s = Some s' \<Longrightarrow> server_typed s \<Longrightarrow> False \<notin> set oks \<Longrightarrow> queue_ok s \<Longrightarrow>
   server_typed s' \<and> queue_ok s'"
proof (induction fuel oks s rule: accept_all.induct)
  case (2 fuel oks s)
  show ?case
  proof (cases "cq s")
    case Nil
    with 2(3-6) show ?thesis by (simp add: cq_pop_def)
  next
    case (Cons q qs)
    let ?s = "s\<lparr>cq := qs\<rparr>"
    have t: "server_typed ?s" "q_client_type q \<in> {cache_connection, mon_connection}" "queue_ok ?s"
      using 2(4,6) Cons by (simp_all add: server_typed_def queue_ok_def)
    obtain p s1 where a: "connection_add (q_client_sock q) (q_client_type q) ?s = (p, s1)" by fastforce
    have ok: "\<not> (oks \<noteq> [] \<and> \<not> hd oks)" using 2(5) by (cases oks) auto
    with 2(3) Cons a obtain s2 u where
      w: "with_conn p (\<lambda>w. Some (http_connection_handler (w\<lparr>epollin := True\<rparr>), ())) s1 = Some (s2, u)"
      and rest: "accept_all fuel (tl oks) s2 = Some s'"
      by (auto simp: cq_pop_def elim!: bind_SomeE)
    from add_typed [OF a t(1,2) w] t(3) have "server_typed s2" "queue_ok s2" by (auto simp: queue_ok_def)
    moreover have "False \<notin> set (tl oks)" using 2(5) by (cases oks) auto
    ultimately show ?thesis
      using 2(2) [OF _ refl _ _ _ _ rest] Cons a ok w by (auto simp: cq_pop_def)
  qed
qed simp

text \<open>The events of a run without a monitoring tick, on which every \<open>epoll_ctl\<close> for a new socket succeeds.\<close>

fun event_ok :: "server_event \<Rightarrow> bool" where
  "event_ok (Accepted sock type) \<longleftrightarrow> type \<in> {cache_connection, mon_connection}"
| "event_ok (Take_over oks) \<longleftrightarrow> False \<notin> set oks"
| "event_ok Monitoring_tick \<longleftrightarrow> False"
| "event_ok e \<longleftrightarrow> True"

lemma with_conn_queue: "with_conn p f s = Some (s', x) \<Longrightarrow> cq s' = cq s"
  by (auto simp: with_conn_def elim!: bind_SomeE)

lemma socket_event_queue: "handle_socket_event d p ev s = Some s' \<Longrightarrow> cq s' = cq s"
  by (auto simp: handle_socket_event_def close_connection_now_def connection_remove_def Let_def elim!: bind_SomeE
      split: if_split_asm dest!: with_conn_queue)

lemma step_typed:
  assumes "server_step e s = Some s'" "event_ok e" "server_typed s" "queue_ok s"
  shows "server_typed s' \<and> queue_ok s'"
proof -
  have w: "server_typed (s\<lparr>world := w\<rparr>)" for w
    using assms(3) unfolding server_typed_def by simp (metis typed_load_other)
  show ?thesis
  proof (cases e)
    case (Accepted sock type)
    then show ?thesis using assms by (auto simp: cq_push_def server_typed_def queue_ok_def)
  next
    case (Take_over oks)
    then show ?thesis using assms accept_typed [of "length (cq s) + 1" oks s s']
      by (simp add: handle_accept_def del: accept_all.simps)
  next
    case (Socket_event p ev r)
    then show ?thesis using assms socket_event_typed [OF _ w] socket_event_queue by (auto simp: queue_ok_def)
  next
    case (Time sec usec)
    then show ?thesis using assms w by (auto simp: queue_ok_def)
  qed (use assms in simp)
qed

lemma with_conn_alone:
  assumes "server_typed s" "\<And>ct w. typed_as ct w \<Longrightarrow> f w = g w"
  shows "with_conn p f s = with_conn p g s"
proof (cases "conns s p")
  case (Some c)
  with assms(1) obtain ct where "typed_as ct (load_conn c (world s))" by (auto simp: server_typed_def)
  from assms(2) [OF this] Some show ?thesis by (simp add: with_conn_def)
qed (simp add: with_conn_def)

section \<open>Properties\<close>


definition empty_server :: "http_world \<Rightarrow> server" where
  "empty_server w = \<lparr>conns = Map.empty, conn_next = 0, cq = [], world = w\<rparr>"




text \<open>
  A short write corrupts the response: after \<open>write\<close> took the first \<open>k\<close> bytes only, the next write
  starts again at the first byte, and the last \<open>k\<close> bytes are never sent.
\<close>

theorem short_write_repeats:
  assumes "output_buffer w = Some buf" "output_length w = int (length buf)"
    and "write_limits w = [int k]" "0 < k" "k < length buf"
  shows "\<exists>w1 w2. http_write_handle d w = Some (w1, continue_processing)
    \<and> sock_write w1 = Some (int (length buf - k), w2)
    \<and> events w2 = events w @ [Sock_write (client_sock w) (take k buf), Sock_write (client_sock w) (take (length buf - k) buf)]"
  using assms by (simp add: http_write_handle_def sock_write_def written_def Let_def nat_diff_distrib)

theorem short_write_repeats_witness:
  "\<exists>w1 w2. http_write_handle 1 ((request_world [])\<lparr>output_buffer := Some ''HTTP/1.1'', output_length := 8, write_limits := [5]\<rparr>)
      = Some (w1, continue_processing)
    \<and> sock_write w1 = Some (3, w2) \<and> events w2 = [Sock_write 7 ''HTTP/'', Sock_write 7 ''HTT'']"
  using short_write_repeats [of "(request_world [])\<lparr>output_buffer := Some ''HTTP/1.1'', output_length := 8, write_limits := [5]\<rparr>"
      "''HTTP/1.1''" 5 1]
  by (simp add: request_world_def)

text \<open>
  An input event on a connection that is registered for writing only, which is what a monitoring
  tick earlier in the same batch of events leaves, makes \<open>http_read_handle\<close> return the variable \<open>run\<close>
  that nothing has set, as soon as there is a byte to read.
\<close>

theorem input_while_writing_is_undefined:
  assumes "conns s p = Some c" "\<not> epollin c" "ev_in ev" "rx (world s) = Received bs # rs" "bs \<noteq> []"
    and "rbuf_write_to_end (rbuf_rewind (input c)) > 0"
  shows "handle_socket_event (Suc d) p ev s = None"
proof -
  let ?w = "load_conn c (world s)"
  have "rx ?w = rx (world s)" by (cases "world s") (simp add: load_conn_def scache_connection.extend_def)
  moreover have "input ?w = input c" by (simp add: load_conn_def scache_connection.extend_def)
  ultimately have i: "input ?w = input c" "rx ?w = rx (world s)" "\<not> epollin ?w" using assms(2) by simp_all
  have none: "process_input f num w = None" if "\<not> epollin w" for f num w
    using that by (simp add: process_input_def read_loop.simps)
  have "http_read_handle (Suc d) ?w = None"
    using assms(4-6) i by (auto simp: Let_def sock_read_def none intro!: bind_eq_None_conv [THEN iffD2])
  then show ?thesis using assms(1,3) by (simp add: handle_socket_event_def with_conn_def)
qed

theorem input_while_writing_is_undefined_witness:
  "handle_socket_event 2 0 \<lparr>ev_in = True, ev_out = False, ev_err_hup = False, ev_rdhup = False\<rparr>
     \<lparr>conns = [0 \<mapsto> scache_connection.truncate ((request_world [])\<lparr>epollin := False, epollout := True\<rparr>)], conn_next = 1,
      cq = [], world = (request_world [])\<lparr>rx := [Received ''x'']\<rparr>\<rparr> = None"
  unfolding numeral_2_eq_2
  by (rule input_while_writing_is_undefined [of _ _ "scache_connection.truncate ((request_world [])\<lparr>epollin := False, epollout := True\<rparr>)"
        _ "''x''" "[]"])
    (simp_all add: scache_connection.truncate_def request_world_def ring_of_eval rbuf_rewind_def rbuf_write_to_end_def)

end
