(* ===== verification/HttpRespondProps.thy ===== *)
theory HttpRespondProps
  imports HttpServe HttpCacheProps
begin

text \<open>
  The responses: that the texts the handlers print fit the arrays they are printed into, and what the
  listing of a table contains.
\<close>

section \<open>Printed numbers\<close>

lemma length_to_base: "length (to_base b fuel n) \<le> fuel"
  by (induction b fuel n rule: to_base.induct) auto

lemma length_to_base_small: "n < b ^ Suc k \<Longrightarrow> length (to_base b fuel n) \<le> Suc k"
proof (induction b fuel n arbitrary: k rule: to_base.induct)
  case (2 b fuel n)
  show ?case
  proof (cases "n < b")
    case False
    with 2(2) obtain k' where k: "k = Suc k'" by (cases k) auto
    from 2(2) have "n div b < b ^ Suc k'" unfolding k by (simp add: less_mult_imp_div_less mult.commute)
    from 2(1) [OF False this] False k show ?thesis by simp
  qed simp
qed simp

lemma length_to_dec: "length (to_dec n) \<le> 20"
  unfolding to_dec_def by (rule length_to_base)

lemma length_to_sdec: "length (to_sdec i) \<le> 21"
  using length_to_dec [of "nat (- i)"] length_to_dec [of "nat i"] by (simp add: to_sdec_def)

section \<open>The target of a listing\<close>

lemma target_limit_set [simp]: "target_limit (set_limit v tg) = v"
proof -
  have "uint (target_start tg) div 2 ^ 32 = 0" using uint_lt2p [of "target_start tg"] by simp
  then have "(uint (target_start tg) + sint v * 2 ^ 32) div 2 ^ 32 = sint v" by simp
  then show ?thesis by (simp add: set_limit_def target_limit_def union_position_def)
qed

lemma target_start_set [simp]: "target_start (set_limit v tg) = target_start tg"
proof -
  have "(4294967296 :: u32) = 0" by simp
  then have "v * 4294967296 = 0" by (metis mult_zero_right)
  then show ?thesis by (simp add: set_limit_def target_start_def union_position_def)
qed

section \<open>Listings\<close>

text \<open>The occupied buckets from \<open>start\<close> to \<open>start + limit\<close>, the highest first.\<close>

definition occupied :: "'v kh \<Rightarrow> nat \<Rightarrow> nat \<Rightarrow> nat list" where
  "occupied h start limit = rev (filter (kh_exist h) [start..<start + limit + 1])"

lemma listing_scan_occupied:
  "start + limit < n_buckets h \<Longrightarrow> listing_scan h limit (int (start + limit)) =
     Some (case occupied h start limit of [] \<Rightarrow> None | i # _ \<Rightarrow> Some (i, i - start))"
proof (induction limit)
  case 0
  then show ?case by (subst listing_scan.simps) (simp add: kh_exist_checked_def occupied_def)
next
  case (Suc limit)
  then show ?case by (subst listing_scan.simps) (simp add: kh_exist_checked_def occupied_def nat_add_distrib)
qed

text \<open>The handlers of a listing in turn, each output written in full: the keys the client receives.\<close>

fun listing_outputs :: "nat \<Rightarrow> http_world \<Rightarrow> string list option" where
  "listing_outputs 0 w = None"
| "listing_outputs (Suc fuel) w = do {
     (w, ret) \<leftarrow> do_http_respond_listing w;
     if ret = close_connection then Some []
     else do {
       buf \<leftarrow> output_buffer w;
       let key = take (nat (output_length w)) buf;
       if handler w = http_respond_close_connection then Some [key]
       else do {
         (w, _) \<leftarrow> do_http_respond_listing_separator w;
         rest \<leftarrow> listing_outputs fuel w;
         Some (key # rest)
       }
     }
   }"

text \<open>
  The buckets a listing visits: the first one of the range only when its neighbour is empty.
\<close>

definition listed :: "'v kh \<Rightarrow> nat \<Rightarrow> nat \<Rightarrow> nat list" where
  "listed h start limit = (if limit = 0 then []
     else rev (filter (kh_exist h) [start + 1..<start + limit + 1])
       @ (if kh_exist h start \<and> \<not> kh_exist h (start + 1) then [start] else []))"

lemma listed_unfold:
  "0 < limit \<Longrightarrow> listed h start limit = (case occupied h start limit of [] \<Rightarrow> []
    | i # _ \<Rightarrow> i # (if i = start then [] else listed h start (i - start - 1)))"
proof (induction limit)
  case (Suc l)
  note Suc_IH = Suc.IH
  have o: "occupied h start (Suc l) = (if kh_exist h (start + Suc l) then [start + Suc l] else []) @ occupied h start l"
    by (simp add: occupied_def)
  show ?case
  proof (cases l)
    case 0
    then show ?thesis by (simp add: occupied_def listed_def)
  next
    case (Suc l')
    then have "listed h start (Suc l) = (if kh_exist h (start + Suc l) then [start + Suc l] else []) @ listed h start l"
      by (simp add: listed_def)
    then show ?thesis using Suc_IH o Suc by simp
  qed
qed simp

lemma clamp_within:
  assumes "unat (target_start tg) + unat (target_limit tg) < n" "n \<le> 2 ^ 30"
  shows "clamp_listing (of_nat n) tg = tg"
proof -
  have n: "unat (of_nat n :: u32) = n" using assms(2) by (simp add: unat_of_nat take_bit_nat_eq_self)
  have "unat (target_limit tg + target_start tg) = unat (target_limit tg) + unat (target_start tg)"
    using assms by (subst unat_add_lem [THEN iffD1]) simp_all
  then show ?thesis using assms n by (simp add: clamp_listing_def word_less_nat_alt)
qed

lemma target_entry_set [simp]: "tgt_entry (set_limit v tg) = tgt_entry tg"
  by (simp add: set_limit_def)

definition bucket_key :: "db_state \<Rightarrow> eptr kh \<Rightarrow> nat \<Rightarrow> string option" where
  "bucket_key s h k = do { e \<leftarrow> kh_value h k; c \<leftarrow> entries s e; Some (take (ce_key_length c) (ce_key c)) }"

lemma occupied_range: "i \<in> set (occupied h start limit) \<Longrightarrow> start \<le> i \<and> i \<le> start + limit \<and> kh_exist h i"
  by (auto simp: occupied_def split: if_splits)

lemma listing_step:
  assumes h: "the_hash_set w = Some h"
    and range: "unat (target_start (target w)) + unat (target_limit (target w)) < n_buckets h" "n_buckets h \<le> 2 ^ 30"
    and pos: "0 < unat (target_limit (target w))"
  shows "occupied h (unat (target_start (target w))) (unat (target_limit (target w))) = [] \<Longrightarrow>
      \<exists>w'. do_http_respond_listing w = Some (w', close_connection)"
    and "occupied h (unat (target_start (target w))) (unat (target_limit (target w))) = i # is \<Longrightarrow>
      bucket_key (db w) h i = Some key \<Longrightarrow>
      \<exists>w' buf. do_http_respond_listing w = Some (w', continue_processing)
        \<and> output_buffer w' = Some buf \<and> take (nat (output_length w')) buf = key
        \<and> handler w' = (if i = unat (target_start (target w)) then http_respond_close_connection else http_respond_listing_separator)
        \<and> db w' = db w \<and> target w' = set_limit (of_nat (i - unat (target_start (target w)) - 1)) (target w)"
proof -
  let ?start = "unat (target_start (target w))" and ?limit = "unat (target_limit (target w))"
  note clamp = clamp_within [OF range]
  have sum: "unat (target_limit (target w) + target_start (target w)) = ?start + ?limit"
    using range by (subst unat_add_lem [THEN iffD1]) simp_all
  have "target_limit (target w) + target_start (target w) \<le> 2147483647"
    using range sum by (simp add: word_le_nat_alt)
  from sint_small [OF this] have i: "sint (target_limit (target w) + target_start (target w)) = int (?start + ?limit)"
    unfolding sum [symmetric] by simp
  have scan: "listing_scan h ?limit (sint (target_limit (target w) + target_start (target w)))
      = Some (case occupied h ?start ?limit of [] \<Rightarrow> None | i # _ \<Rightarrow> Some (i, i - ?start))"
    unfolding i by (rule listing_scan_occupied [OF range(1)])
  have pos': "0 < target_limit (target w)" using pos by (simp add: word_less_nat_alt)
  show "\<exists>w'. do_http_respond_listing w = Some (w', close_connection)" if "occupied h ?start ?limit = []"
    using h clamp scan pos' that by (simp add: do_http_respond_listing_def)
  assume o: "occupied h ?start ?limit = i # is" and k: "bucket_key (db w) h i = Some key"
  from k obtain e c where e: "kh_value h i = Some e" "entries (db w) e = Some c" "key = take (ce_key_length c) (ce_key c)"
    by (auto simp: bucket_key_def bind_Some_iff)
  have "(of_nat (i - ?start) :: u32) - 1 = of_nat (i - ?start - 1)" if "0 < i - ?start"
    using that by (simp add: of_nat_diff)
  then show "\<exists>w' buf. do_http_respond_listing w = Some (w', continue_processing)
        \<and> output_buffer w' = Some buf \<and> take (nat (output_length w')) buf = key
        \<and> handler w' = (if i = ?start then http_respond_close_connection else http_respond_listing_separator)
        \<and> db w' = db w \<and> target w' = set_limit (of_nat (i - ?start - 1)) (target w)"
    using h clamp scan pos' o e occupied_range [of i h ?start ?limit] by (auto simp: do_http_respond_listing_def algebra_simps)
qed

lemma listing_outputs_mono: "listing_outputs m w = Some xs \<Longrightarrow> m \<le> n \<Longrightarrow> listing_outputs n w = Some xs"
proof (induction m arbitrary: w n xs)
  case (Suc m)
  then obtain n' where n: "n = Suc n'" "m \<le> n'" by (cases n) auto
  from Suc.prems(1) obtain w1 ret where w1: "do_http_respond_listing w = Some (w1, ret)" by (auto elim!: bind_SomeE)
  show ?case
  proof (cases "ret = close_connection")
    case True
    with Suc.prems(1) n w1 show ?thesis by simp
  next
    case go: False
    with Suc.prems(1) w1 obtain buf where buf: "output_buffer w1 = Some buf" by (auto elim!: bind_SomeE)
    show ?thesis
    proof (cases "handler w1 = http_respond_close_connection")
      case True
      with Suc.prems(1) n w1 go buf show ?thesis by simp
    next
      case False
      with Suc.prems(1) w1 go buf obtain w2 u rest where w2: "do_http_respond_listing_separator w1 = Some (w2, u)"
        "listing_outputs m w2 = Some rest" "xs = take (nat (output_length w1)) buf # rest"
        by (auto simp: bind_Some_iff)
      from Suc.IH [OF w2(2) n(2)] n(1) w1 go buf False w2 show ?thesis by simp
    qed
  qed
qed simp

lemma listing_outputs_listed:
  assumes "the_hash_set w = Some h" "n_buckets h \<le> 2 ^ 30"
    and "unat (target_start (target w)) + unat (target_limit (target w)) < n_buckets h"
    and "\<And>k. k < n_buckets h \<Longrightarrow> kh_exist h k \<Longrightarrow> bucket_key (db w) h k = Some (key k)"
  shows "listing_outputs (Suc (unat (target_limit (target w)))) w
    = Some (map key (listed h (unat (target_start (target w))) (unat (target_limit (target w)))))"
  using assms(1,3,4)
proof (induction "unat (target_limit (target w))" arbitrary: w rule: less_induct)
  case (less w)
  let ?start = "unat (target_start (target w))" and ?limit = "unat (target_limit (target w))"
  show ?case
  proof (cases "?limit = 0")
    case True
    then have "target_limit (target w) = 0" by (simp add: word_unat_eq_iff)
    moreover have "clamp_listing (of_nat (n_buckets h)) (target w) = target w" by (rule clamp_within [OF less(3) assms(2)])
    ultimately show ?thesis using less(2) True by (simp add: do_http_respond_listing_def listed_def)
  next
    case False
    then have pos: "0 < ?limit" by simp
    show ?thesis
    proof (cases "occupied h ?start ?limit")
      case Nil
      then show ?thesis using listing_step(1) [OF less(2,3) assms(2) pos Nil] listed_unfold [OF pos, of h ?start] by (auto simp: Nil)
    next
      case (Cons i js)
      have i: "?start \<le> i" "i \<le> ?start + ?limit" "kh_exist h i"
        using occupied_range [of i h ?start ?limit] Cons by auto
      have key: "bucket_key (db w) h i = Some (key i)" using less(3,4) i by simp
      from listing_step(2) [OF less(2,3) assms(2) pos Cons key] obtain w1 buf where
        w1: "do_http_respond_listing w = Some (w1, continue_processing)" "output_buffer w1 = Some buf"
          "take (nat (output_length w1)) buf = key i" "db w1 = db w"
          "handler w1 = (if i = ?start then http_respond_close_connection else http_respond_listing_separator)"
          "target w1 = set_limit (of_nat (i - ?start - 1)) (target w)" by blast
      show ?thesis
      proof (cases "i = ?start")
        case True
        then show ?thesis using w1 Cons listed_unfold [OF pos, of h ?start] by simp
      next
        case no: False
        let ?w2 = "w1\<lparr>output_buffer := Some crlf, output_length := 2, handler := http_respond_listing\<rparr>"
        have l: "unat (target_limit (target ?w2)) = i - ?start - 1"
          using w1(6) i(2) less(3) assms(2) by (simp add: unat_of_nat take_bit_nat_eq_self)
        have s: "target_start (target ?w2) = target_start (target w)" using w1(6) by simp
        have "listing_outputs (Suc (i - ?start - 1)) ?w2 = Some (map key (listed h ?start (i - ?start - 1)))"
          using less(1) [of ?w2, unfolded l s] less(2-4) i no w1(4,6)
          by (simp add: the_hash_set_def)
        then have "listing_outputs ?limit ?w2 = Some (map key (listed h ?start (i - ?start - 1)))"
          using i no by (elim listing_outputs_mono) simp
        then show ?thesis using w1 Cons no listed_unfold [OF pos, of h ?start] i
          by (simp add: do_http_respond_listing_separator_def)
      qed
    qed
  qed
qed

section \<open>Properties\<close>

text \<open>A table of four buckets with entries in the buckets 0, 1 and 3, and a connection listing it.\<close>

definition sample_entry :: "string \<Rightarrow> cache_entry" where
  "sample_entry key = \<lparr>ce_table = Some 0, ce_hash = 0, ce_key = key, ce_key_length = length key, ce_writing = False,
     ce_deleted = False, ce_refs = 0, ce_data_length = 5, ce_block = 0, ce_expires = 100, ce_lru_next = None,
     ce_lru_prev = None, ce_it = 0\<rparr>"

definition sample_set :: "eptr kh" where
  "sample_set = \<lparr>n_buckets = 4, kh_size = 3, n_occupied = 3, upper_bound = 3, flags = [Live, Live, Empty, Live],
     keys = [4, 1, 0, 3], vals = [Some 10, Some 11, None, Some 13]\<rparr>"

definition sample_table :: "eptr kh \<Rightarrow> db_table" where
  "sample_table h = \<lparr>tbl_hash = 0, tbl_key = ''t'', tbl_key_length = 1, cache_hash_set = Some h, tbl_refs = 1, tbl_deleted = False\<rparr>"

definition listing_world :: "eptr kh \<Rightarrow> u32 \<Rightarrow> http_world" where
  "listing_world h limit = (request_world [])\<lparr>conn_method := REQUEST_GETTABLE,
     target := set_limit limit \<lparr>tgt_entry = Some 0, tgt_position = 0, tgt_end_position = 0, tgt_fd = - 1\<rparr>,
     db := empty_db\<lparr>dbtables := [0 \<mapsto> sample_table h],
       entries := [10 \<mapsto> sample_entry ''a'', 11 \<mapsto> sample_entry ''b'', 13 \<mapsto> sample_entry ''c'']\<rparr>\<rparr>"

lemma listing_world_fields:
  "the_hash_set (listing_world h limit) = Some h" "target_limit (target (listing_world h limit)) = limit"
  "target_start (target (listing_world h limit)) = 0"
  by (simp_all add: listing_world_def the_hash_set_def hash_set_of_def sample_table_def) (simp add: target_start_def)



text \<open>
  A listing of a table whose hash set has no array yet, which is what a \<open>PURGE\<close> or \<open>ADMIN\<close> request
  for \<open>/table/key\<close> creates, reads the flags through a null pointer at bucket -1.
\<close>

theorem listing_empty_table_is_undefined:
  assumes "the_hash_set w = Some h" "n_buckets h = 0"
    and "target_start (target w) = 0" "target_limit (target w) \<noteq> 0"
  shows "do_http_respond_listing w = None"
proof -
  have c: "clamp_listing 0 (target w) = set_limit (- 1) (target w)"
    using assms(3,4) by (simp add: clamp_listing_def word_gt_0)
  show ?thesis
    using assms(1-3) c by (simp add: do_http_respond_listing_def listing_scan.simps kh_exist_checked_def Let_def word_gt_0)
qed

theorem listing_empty_table_is_undefined_witness:
  "do_http_respond_listing (listing_world kh_init DEFAULT_LISTING_LIMIT) = None"
  by (rule listing_empty_table_is_undefined [OF listing_world_fields(1)])
    (simp_all add: listing_world_fields kh_init_def DEFAULT_LISTING_LIMIT_def)

text \<open>
  No text that a response prints is cut off or copied from beyond its array: for every entry, table
  and statistics the header lines are the whole line, and the statistics come with the length of their
  body as \<open>Content-Length\<close>.
\<close>

lemma length_stats: "length (stats_text s) < 4096" "length (content_length_header n) < 1024"
proof -
  note d = length_to_dec [of "unat (db_keys s)"] length_to_dec [of "kh_size (tables s)"]
    length_to_dec [of "unat (db_size_bytes s)"] length_to_dec [of "unat (blocks_free s)"]
    length_to_dec [of "unat (blocks_exist s)"] length_to_dec [of "unat (db_stats_deletes s)"]
    length_to_dec [of "unat (db_stats_gets s)"] length_to_dec [of "unat (db_stats_inserts s)"]
  show "length (stats_text s) < 4096"
    using d by (simp add: stats_text_def SCACHE_VERSION_def SCACHE_REVISION_def)
  show "length (content_length_header n) < 1024"
    using length_to_sdec [of n] by (simp add: content_length_header_def)
qed

lemma length_sdec32: "length (to_sdec (sint n)) \<le> 11" for n :: u32
proof -
  have "- (2 ^ 31) \<le> sint n" "sint n < 2 ^ 31" using sint_range_size [of n] by (simp_all add: word_size)
  then have "nat (- sint n) < 10 ^ Suc 9" "nat (sint n) < 10 ^ Suc 9" by simp_all
  then show ?thesis
    using length_to_base_small [of "nat (- sint n)" 10 9 20] length_to_base_small [of "nat (sint n)" 10 9 20]
    by (simp add: to_sdec_def to_dec_def)
qed

lemma copy_fits: "length text < k \<Longrightarrow> copy_to_outputbuffer k text w
    = Some (w\<lparr>output_buffer := Some text, output_buffer_free := True, output_length := int (length text)\<rparr>)"
  by (simp add: copy_to_outputbuffer_def)

theorem response_texts_fit:
  assumes "tgt_entry (target w) = Some e" "entries (db w) e = Some c" "REQUEST_IS (conn_method w) REQUEST_GETKEY"
  shows "\<exists>w1 w2 w3. do_http_respond_expires w = Some (w1, continue_processing)
      \<and> output_buffer w1 = Some (''X-Ttl: '' @ to_sdec (if ce_expires c = 0 then 0 else ce_expires c - now_sec (db w)) @ crlf)
      \<and> do_http_respond_contentlength w = Some (w2, continue_processing)
      \<and> output_buffer w2 = Some (''Content-Length: '' @ to_sdec (sint (ce_data_length c)) @ crlf)
      \<and> do_http_respond_stats w = Some (w3, continue_processing)
      \<and> output_buffer w3 = Some (content_length_header (int (length (stats_text (db w)))) @ stats_text (db w))"
proof -
  have e: "the_entry w = Some c" using assms(1,2) by (simp add: the_entry_def)
  have x: "length (''X-Ttl: '' @ to_sdec (if ce_expires c = 0 then ce_expires c else ce_expires c - now_sec (db w)) @ crlf) < 32"
    using length_to_sdec [of "if ce_expires c = 0 then ce_expires c else ce_expires c - now_sec (db w)"] by simp
  have "length (''Content-Length: '' @ to_sdec (sint (ce_data_length c)) @ crlf) < 32" using length_sdec32 [of "ce_data_length c"] by simp
  then show ?thesis
    using e assms(3) copy_fits [OF x, of w] length_stats
    by (simp add: do_http_respond_expires_def do_http_respond_contentlength_def do_http_respond_stats_def copy_fits Let_def)
qed

theorem response_texts_fit_witness:
  "\<exists>w1. do_http_respond_expires ((listing_world kh_init 0)\<lparr>conn_method := REQUEST_GETKEY,
      target := \<lparr>tgt_entry = Some 10, tgt_position = 0, tgt_end_position = 5, tgt_fd = 5\<rparr>\<rparr>) = Some (w1, continue_processing)
    \<and> output_buffer w1 = Some (''X-Ttl: '' @ to_sdec 100 @ crlf)"
  using response_texts_fit [of "(listing_world kh_init 0)\<lparr>conn_method := REQUEST_GETKEY,
      target := \<lparr>tgt_entry = Some 10, tgt_position = 0, tgt_end_position = 5, tgt_fd = 5\<rparr>\<rparr>" 10 "sample_entry ''a''"]
  by (auto simp: listing_world_def sample_entry_def REQUEST_IS_def REQUEST_GETKEY_def request_consts empty_db_def)

end
