(* ===== verification/DbIndexProps.thy ===== *)
theory DbIndexProps
  imports DbIndex HttpCacheProps
begin

text \<open>
  The index across a restart: what is written is what is read, \<open>index.save\<close> is never left half written,
  and after loading, whatever the file says, the free list and the blocks that entries name are apart.
\<close>

section \<open>Numbers\<close>

lemma dec_value_append: "dec_value r (xs @ ys) = dec_value (dec_value r xs) ys"
  by (simp add: dec_value_def)

lemma of_char_digit: "m < 10 \<Longrightarrow> of_char (char_of (48 + m :: nat)) = int (48 + m)"
proof -
  assume "m < 10"
  then have "of_nat (of_char (char_of (48 + m)) :: nat) = int (48 + m)" by simp
  then show ?thesis by (simp only: of_nat_of_char)
qed

lemma to_base_digits: "c \<in> set (to_base 10 fuel n) \<Longrightarrow> is_digit c"
proof (induction "10 :: nat" fuel n rule: to_base.induct)
  case (2 fuel n)
  have "is_digit (char_of (48 + n mod 10))" using of_char_digit [of "n mod 10"] by (simp add: is_digit_def)
  then show ?case using 2 by (auto split: if_split_asm)
qed simp

lemma to_base_value: "n < 10 ^ fuel \<Longrightarrow> dec_value 0 (to_base 10 fuel n) = int n"
proof (induction "10 :: nat" fuel n rule: to_base.induct)
  case (2 fuel n)
  have d: "(of_char (char_of (48 + n mod 10)) :: int) = 48 + int (n mod 10)" using of_char_digit [of "n mod 10"] by simp
  have v: "dec_value 0 (if n < 10 then [] else to_base 10 fuel (n div 10)) = int (n div 10)"
    using 2 by (auto simp: less_mult_imp_div_less)
  show ?case using d v by (simp add: dec_value_append del: of_char_of) presburger
qed simp

lemma to_dec_digits: "c \<in> set (to_dec n) \<Longrightarrow> is_digit c"
  unfolding to_dec_def by (rule to_base_digits)

lemma to_dec_value: "n < 10 ^ 20 \<Longrightarrow> dec_value 0 (to_dec n) = int n"
  unfolding to_dec_def by (rule to_base_value)

lemma to_dec_ne: "to_dec n \<noteq> []"
proof -
  have "to_base 10 (Suc 19) n \<noteq> []" unfolding to_base.simps by simp
  moreover have "Suc 19 = 20" by simp
  ultimately show ?thesis unfolding to_dec_def by metis
qed

lemma not_digits:
  "\<not> is_digit CHR '' ''" "\<not> is_digit CHR 0x09" "\<not> is_digit CHR 0x0A" "\<not> is_digit CHR 0x0B" "\<not> is_digit CHR 0x0C"
  "\<not> is_digit CHR 0x0D" "\<not> is_digit CHR ''-''" "\<not> is_digit CHR ''+''" "\<not> is_digit CHR 0x00" "\<not> is_digit CHR '':''"
  by (simp_all add: is_digit_def)

lemma digit_plain: "is_digit c \<Longrightarrow> \<not> is_space c \<and> c \<noteq> CHR ''-'' \<and> c \<noteq> CHR ''+'' \<and> c \<noteq> CHR 0x0A \<and> c \<noteq> CHR 0x00"
  unfolding is_space_def using not_digits by (metis empty_iff insert_iff)

lemma span_digits:
  "(\<And>c. c \<in> set ds \<Longrightarrow> is_digit c) \<Longrightarrow> \<not> is_digit x \<Longrightarrow>
   takeWhile is_digit (ds @ x # rest) = ds \<and> dropWhile is_digit (ds @ x # rest) = x # rest"
  by (induction ds) auto

lemma scan_number_dec:
  assumes "n < 10 ^ 20" "\<not> is_digit x"
  shows "scan_number (to_dec n @ x # rest) = Some (int n, x # rest)"
    and "scan_number (CHR ''-'' # to_dec n @ x # rest) = Some (- int n, x # rest)"
proof -
  obtain d ds where d: "to_dec n = d # ds" using to_dec_ne by (cases "to_dec n") auto
  then have p: "\<not> is_space d" "d \<noteq> CHR ''-''" "d \<noteq> CHR ''+''" using digit_plain [of d] to_dec_digits [of d n] by auto
  have m: "\<not> is_space CHR ''-''" by (simp add: is_space_def)
  have span: "takeWhile is_digit (to_dec n @ x # rest) = to_dec n \<and> dropWhile is_digit (to_dec n @ x # rest) = x # rest"
    by (rule span_digits) (simp_all add: to_dec_digits assms(2))
  show "scan_number (to_dec n @ x # rest) = Some (int n, x # rest)"
    using span p to_dec_value [OF assms(1)] unfolding d by (simp add: scan_number_def)
  show "scan_number (CHR ''-'' # to_dec n @ x # rest) = Some (- int n, x # rest)"
    using span m to_dec_value [OF assms(1)] to_dec_ne [of n] by (simp add: scan_number_def)
qed

lemma scan_number_int:
  assumes "\<bar>i\<bar> < 10 ^ 20" "\<not> is_digit x"
  shows "scan_number (print_int i @ x # rest) = Some (i, x # rest)"
proof (cases "i < 0")
  case True
  then have "nat (- i) < 10 ^ 20" using assms(1) by simp
  from scan_number_dec(2) [OF this assms(2)] True show ?thesis by (simp add: print_int_def)
next
  case False
  then have "nat i < 10 ^ 20" using assms(1) by simp
  from scan_number_dec(1) [OF this assms(2)] False show ?thesis by (simp add: print_int_def)
qed

section \<open>Lines\<close>

definition printable :: "string \<Rightarrow> bool" where
  "printable name \<longleftrightarrow> name \<noteq> [] \<and> length name < 2048 \<and> (\<forall>c \<in> set name. \<not> is_space c \<and> c \<noteq> CHR 0x00)"

lemma scan_string_printable: "printable name \<Longrightarrow> scan_string (name @ [CHR 0x0A]) = Some (name, [CHR 0x0A])"
proof -
  assume p: "printable name"
  then obtain c cs where "name = c # cs" by (cases name) (auto simp: printable_def)
  then have "dropWhile is_space (name @ [CHR 0x0A]) = name @ [CHR 0x0A]" using p by (simp add: printable_def)
  moreover have "is_space CHR 0x0A" by (simp add: is_space_def)
  ultimately show ?thesis using p by (simp add: scan_string_def printable_def takeWhile_append2 dropWhile_append2)
qed

definition entry_key :: "cache_entry \<Rightarrow> string" where
  "entry_key c = take (ce_key_length c) (ce_key c)"

definition entry_ok :: "cache_entry \<Rightarrow> bool" where
  "entry_ok c \<longleftrightarrow> printable (entry_key c) \<and> - (2 ^ 31) \<le> ce_block c \<and> ce_block c < 2 ^ 31
     \<and> 0 \<le> ce_expires c \<and> ce_expires c < 2 ^ 32"

lemma sscanf_entry_line:
  assumes "entry_ok c"
  shows "sscanf_entry (tl (index_prefix c @ entry_key c @ [CHR 0x0A]))
    = Some (ce_block c, ce_data_length c, of_int (ce_expires c), ucast (ce_it c), entry_key c)"
proof -
  have colon: "\<not> is_digit CHR '':''" by (simp add: is_digit_def)
  have dec: "scan_number (to_dec (unat x) @ CHR '':'' # rest) = Some (uint x, CHR '':'' # rest)" if "LENGTH('a) \<le> 64" for x :: "'a::len word" and rest
  proof -
    have "unat x < 2 ^ LENGTH('a)" by (rule unsigned_less)
    also have "(2::nat) ^ LENGTH('a) \<le> 2 ^ 64" using that by (rule power_increasing) simp
    finally have "unat x < 10 ^ 20" by simp
    from scan_number_dec(1) [OF this colon] show ?thesis by simp
  qed
  have blk: "scan_number (print_int (ce_block c) @ CHR '':'' # rest) = Some (ce_block c, CHR '':'' # rest)" for rest
    by (rule scan_number_int [OF _ colon]) (use assms in \<open>auto simp: entry_ok_def\<close>)
  have d: "store_d (ce_block c) = ce_block c"
  proof -
    have "- (2 ^ 31) \<le> ce_block c" "ce_block c < 2 ^ 31" using assms by (simp_all add: entry_ok_def)
    then have "signed_take_bit 31 (ce_block c) = ce_block c" "max (- (2 ^ 63)) (min (2 ^ 63 - 1) (ce_block c)) = ce_block c"
      by (simp_all add: signed_take_bit_int_eq_self)
    then show ?thesis by (simp add: store_d_def signed_of_int)
  qed
  have u: "store_u (uint x) = ucast x" if "LENGTH('a) \<le> 64" for x :: "'a::len word"
  proof -
    have "uint x < 2 ^ LENGTH('a)" by (rule unsigned_less)
    also have "(2::int) ^ LENGTH('a) \<le> 2 ^ 64" using that by (rule power_increasing) simp
    finally have "uint x < 2 ^ 64" .
    then show ?thesis by (simp add: store_u_def)
  qed
  have ex: "ucast (of_int (ce_expires c) :: u64) = (of_int (ce_expires c) :: u32)"
    by (rule bit_word_eqI) (simp add: bit_simps)
  show ?thesis
    using assms by (simp add: sscanf_entry_def index_prefix_def scan_char_def blk dec scan_string_printable d u ex entry_ok_def)
qed

section \<open>The index as records\<close>

datatype index_record = Table_record string | Entry_record cache_entry

fun record_text :: "index_record \<Rightarrow> string list" where
  "record_text (Table_record name) = [''t:'', name, [CHR 0x0A]]"
| "record_text (Entry_record c) = [index_prefix c, entry_key c, [CHR 0x0A]]"

fun record_ok :: "index_record \<Rightarrow> bool" where
  "record_ok (Table_record name) = printable name"
| "record_ok (Entry_record c) = entry_ok c"

text \<open>What of the tables and entries goes into the index: neither deleted ones nor entries being written.\<close>

fun set_records :: "eptr kh \<Rightarrow> nat list \<Rightarrow> db_state \<Rightarrow> index_record list option" where
  "set_records h [] s = Some []"
| "set_records h (k # ks) s = do {
     rest \<leftarrow> set_records h ks s;
     if kh_exist h k then do {
       e \<leftarrow> kh_value h k;
       c \<leftarrow> entries s e;
       Some (if ce_writing c \<or> ce_deleted c then rest else Entry_record c # rest)
     } else Some rest
   }"

fun table_records :: "nat list \<Rightarrow> db_state \<Rightarrow> index_record list option" where
  "table_records [] s = Some []"
| "table_records (k # ks) s = do {
     rest \<leftarrow> table_records ks s;
     if kh_exist (tables s) k then do {
       t \<leftarrow> kh_value (tables s) k;
       d \<leftarrow> dbtables s t;
       if tbl_deleted d then Some rest
       else do {
         h \<leftarrow> cache_hash_set d;
         es \<leftarrow> set_records h [0..<n_buckets h] s;
         Some (Table_record (take (unat (tbl_key_length d)) (tbl_key d)) # es @ rest)
       }
     } else Some rest
   }"

definition index_records :: "db_state \<Rightarrow> index_record list option" where
  "index_records s = table_records [0..<n_buckets (tables s)] s"

definition records_text :: "index_record list \<Rightarrow> string list" where
  "records_text rs = concat (map record_text rs)"

lemma records_text_simps [simp]:
  "records_text [] = []" "records_text (r # rs) = record_text r @ records_text rs"
  "records_text (rs @ rs') = records_text rs @ records_text rs'"
  by (simp_all add: records_text_def)

lemma set_chunks_records: "set_chunks h ks s = map_option records_text (set_records h ks s)"
proof (induction ks)
  case (Cons k ks)
  then show ?case by (auto simp: entry_chunks_def entry_key_def split: option.split bind_split)
qed simp

lemma table_chunks_records: "table_chunks ks s = map_option records_text (table_records ks s)"
proof (induction ks)
  case (Cons k ks)
  then show ?case by (auto simp: set_chunks_records split: option.split bind_split)
qed simp

lemma index_chunks_records: "index_chunks s = map_option records_text (index_records s)"
  by (simp add: index_chunks_def index_records_def table_chunks_records)

text \<open>What the loader does with a record.\<close>

definition load_table :: "string \<Rightarrow> loader \<Rightarrow> loader option" where
  "load_table name l = do {
     s \<leftarrow> (case ld_table l of Some t \<Rightarrow> db_table_deref t True (ld_db l) | None \<Rightarrow> Some (ld_db l));
     (t, s) \<leftarrow> db_table_get_write name s;
     Some (l\<lparr>ld_table := Some t, ld_db := s\<rparr>)
   }"

definition load_entry :: "cache_entry \<Rightarrow> loader \<Rightarrow> loader option" where
  "load_entry c l = (case ld_table l of
       None \<Rightarrow> Some l
     | Some t \<Rightarrow> do {
         (e, s) \<leftarrow> db_load_from_save_entry t (entry_key c) (ce_block c) (ce_data_length c) (ce_expires c) (ce_it c) (ld_db l);
         c' \<leftarrow> entries s e;
         skip \<leftarrow> (if ce_block c < 0 then do { path \<leftarrow> get_key_path c' s; Some (path \<notin> files s) }
           else Some (blocks_exist s \<le> of_int (ce_block c)));
         if skip then Some (l\<lparr>ld_db := free_entry e s\<rparr>)
         else do {
           s \<leftarrow> db_load_from_save_insert t e s;
           s \<leftarrow> db_lru_insert e s;
           Some (l\<lparr>ld_db := s, ld_in_use := (if ce_block c < 0 then ld_in_use l else insert (ce_block c) (ld_in_use l))\<rparr>)
         }
       })"

fun load_records :: "index_record list \<Rightarrow> loader \<Rightarrow> loader option" where
  "load_records [] l = Some l"
| "load_records (Table_record name # rs) l = do { l \<leftarrow> load_table name l; load_records rs l }"
| "load_records (Entry_record c # rs) l = do { l \<leftarrow> load_entry c l; load_records rs l }"

section \<open>Reading what was written\<close>

lemma split_lines_newline: "CHR 0x0A \<notin> set x \<Longrightarrow> split_lines (x @ CHR 0x0A # rest) = (x @ [CHR 0x0A]) # split_lines rest"
  by (induction x) auto

lemma prefix_plain: "c \<in> set (index_prefix e) \<Longrightarrow> c \<noteq> CHR 0x0A \<and> c \<noteq> CHR 0x00"
proof -
  have d: "x \<in> set (to_dec n) \<Longrightarrow> x \<noteq> CHR 0x0A \<and> x \<noteq> CHR 0x00" for x n
    using to_dec_digits digit_plain by blast
  show "c \<in> set (index_prefix e) \<Longrightarrow> c \<noteq> CHR 0x0A \<and> c \<noteq> CHR 0x00"
    by (auto simp: index_prefix_def index_char_def print_int_def dest: d split: if_split_asm)
qed

lemma printable_plain: "printable name \<Longrightarrow> c \<in> set name \<Longrightarrow> c \<noteq> CHR 0x0A \<and> c \<noteq> CHR 0x00"
  by (auto simp: printable_def is_space_def)

lemma no_newline: "printable name \<Longrightarrow> CHR 0x0A \<notin> set name" "CHR 0x0A \<notin> set (index_prefix e)"
  using printable_plain prefix_plain by blast+

lemma load_line_table: "printable name \<Longrightarrow> load_line (''t:'' @ name @ [CHR 0x0A]) l = load_table name l"
proof -
  assume p: "printable name"
  have "takeWhile (\<lambda>c. c \<noteq> CHR 0x00) (''t:'' @ name @ [CHR 0x0A]) = ''t:'' @ name @ [CHR 0x0A]"
    using printable_plain [OF p] by (auto simp: takeWhile_append2)
  moreover have "name \<noteq> []" using p by (simp add: printable_def)
  moreover have "sscanf_table (''t:'' @ name @ [CHR 0x0A]) = Some name"
    using scan_string_printable [OF p] by (simp add: sscanf_table_def scan_char_def)
  ultimately show ?thesis using p
    by (simp add: load_line_def load_table_line_def load_table_def printable_def)
qed

lemma load_line_entry:
  assumes ok: "entry_ok c"
  shows "load_line (index_prefix c @ entry_key c @ [CHR 0x0A]) l = load_entry c l"
proof -
  let ?line = "index_prefix c @ entry_key c @ [CHR 0x0A]"
  have p: "printable (entry_key c)" using ok by (simp add: entry_ok_def)
  have tw: "takeWhile (\<lambda>c. c \<noteq> CHR 0x00) ?line = ?line"
    using printable_plain [OF p] prefix_plain by (auto simp: takeWhile_append2)
  have "\<not> length ?line \<le> 2" "?line ! 1 = CHR '':''" "hd ?line = index_char c"
    by (cases "print_int (ce_block c)"; simp add: index_prefix_def)+
  moreover have "index_char c = CHR ''b'' \<or> index_char c = CHR ''e''" by (simp add: index_char_def)
  moreover have "CHR ''b'' \<noteq> CHR ''t''" "CHR ''e'' \<noteq> CHR ''t''" by simp_all
  ultimately have line: "load_line ?line l = load_entry_line ?line l"
    unfolding load_line_def Let_def tw by (metis (full_types))
  have u3: "uint (of_int (ce_expires c) :: u32) = ce_expires c"
    by (rule uint_of_int_small) (use ok in \<open>simp_all add: entry_ok_def\<close>)
  have u4: "ucast (ucast (ce_it c) :: u32) = ce_it c" by (simp add: unsigned_ucast_eq take_bit_word_eq_self)
  have len: "\<not> 2048 \<le> length (entry_key c)" using p by (simp add: printable_def)
  show ?thesis
    unfolding line load_entry_line_def load_entry_def sscanf_entry_line [OF ok] option.case prod.case u3 u4
    by (simp only: len if_False)
qed

lemma split_lines_records:
  assumes "\<forall>r \<in> set rs. record_ok r"
  shows "split_lines (concat (records_text rs)) = map (\<lambda>r. concat (record_text r)) rs"
  using assms
proof (induction rs)
  case (Cons r rs)
  have "CHR 0x0A \<notin> set x" if "concat (record_text r) = x @ [CHR 0x0A]" for x
  proof (cases r)
    case (Table_record name)
    then show ?thesis using that Cons.prems no_newline(1) [of name] by auto
  next
    case (Entry_record c)
    then show ?thesis using that Cons.prems no_newline(1) [of "entry_key c"] no_newline(2) [of c] by (auto simp: entry_ok_def)
  qed
  moreover obtain x where "concat (record_text r) = x @ [CHR 0x0A]" by (cases r) auto
  ultimately show ?case using Cons split_lines_newline [of x] by simp
qed simp

lemma load_lines_records:
  "\<forall>r \<in> set rs. record_ok r \<Longrightarrow> load_lines (map (\<lambda>r. concat (record_text r)) rs) l = load_records rs l"
proof (induction rs arbitrary: l)
  case (Cons r rs)
  then have "load_lines (map (\<lambda>r. concat (record_text r)) rs) = load_records rs" by auto
  with Cons.prems show ?case by (cases r) (simp_all add: load_line_table [simplified] load_line_entry [simplified])
qed simp

section \<open>Writing the file\<close>

lemma full_write_all: "full_write rets buf = (True, out, rets') \<Longrightarrow> out = buf"
proof (induction rets buf arbitrary: out rets' rule: full_write.induct)
  case (2 ret rets buf)
  then show ?case by (auto simp: Let_def split: if_split_asm prod.split_asm)
qed simp

lemma write_chunks_all: "write_chunks rets cs = (True, out) \<Longrightarrow> out = concat cs"
  by (induction rets cs arbitrary: out rule: write_chunks.induct)
    (auto split: prod.split_asm if_split_asm dest: full_write_all)

lemma full_write_succeeds: "\<forall>r \<in> set rets. 0 \<le> r \<Longrightarrow> \<exists>rets'. full_write rets buf = (True, buf, rets') \<and> set rets' \<subseteq> set rets"
proof (induction rets buf rule: full_write.induct)
  case (2 ret rets buf)
  let ?k = "min (nat ret) (length buf)"
  show ?case
  proof (cases "?k = length buf")
    case False
    from 2(1) [OF _ refl False] 2(2) obtain rets' where
      "full_write rets (drop ?k buf) = (True, drop ?k buf, rets')" "set rets' \<subseteq> set rets" by auto
    with 2(2) False show ?thesis by (auto simp: Let_def)
  qed (use 2(2) in \<open>auto simp: Let_def\<close>)
qed simp

lemma write_chunks_succeeds: "\<forall>r \<in> set rets. 0 \<le> r \<Longrightarrow> write_chunks rets cs = (True, concat cs)"
proof (induction cs arbitrary: rets)
  case (Cons c cs)
  from full_write_succeeds [OF Cons(2), of c] obtain rets' where
    f: "full_write rets c = (True, c, rets')" "set rets' \<subseteq> set rets" by blast
  then have "write_chunks rets' cs = (True, concat cs)" using Cons by auto
  with f show ?case by simp
qed simp

section \<open>Blocks after loading\<close>

text \<open>
  The part of the state that the free list depends on, and the blocks that entries name. The steps of
  the loader change the first not at all, and the second only by the entry they add.
\<close>

definition block_state :: "db_state \<Rightarrow> u32 list \<times> u32 \<times> u32" where
  "block_state s = (free_blocks s, blocks_exist s, blocks_free s)"

definition names_within :: "db_state \<Rightarrow> int set \<Rightarrow> bool" where
  "names_within s U \<longleftrightarrow> (\<forall>e c. entries s e = Some c \<and> 0 \<le> ce_block c \<longrightarrow> ce_block c \<in> U)"

definition loads_as :: "db_state \<Rightarrow> int set \<Rightarrow> db_state \<Rightarrow> bool" where
  "loads_as s U s' \<longleftrightarrow> block_state s' = block_state s \<and> names_within s' U"

lemma table_deref_loads: "db_table_deref t b s = Some s' \<Longrightarrow> names_within s U \<Longrightarrow> loads_as s U s'"
  by (auto simp: db_table_deref_def db_table_actually_delete_def mod_table_def loads_as_def block_state_def names_within_def
      free_table_def Let_def elim!: bind_SomeE split: if_split_asm)

lemma table_get_write_loads: "db_table_get_write name s = Some (t, s') \<Longrightarrow> names_within s U \<Longrightarrow> loads_as s U s'"
  by (auto simp: db_table_get_write_def db_table_incref_def mod_table_def loads_as_def block_state_def names_within_def
      Let_def elim!: bind_SomeE split: sum.split_asm)

lemma lru_insert_loads: "db_lru_insert e s = Some s' \<Longrightarrow> names_within s U \<Longrightarrow> loads_as s U s'"
  by (auto simp: db_lru_insert_def mod_entry_def loads_as_def block_state_def names_within_def Let_def
      elim!: bind_SomeE split: option.split_asm if_split_asm)

lemma load_insert_loads: "db_load_from_save_insert t e s = Some s' \<Longrightarrow> names_within s U \<Longrightarrow> loads_as s U s'"
  by (auto simp: db_load_from_save_insert_def db_table_incref_def db_entry_incref_def set_store_def mod_table_def mod_entry_def
      loads_as_def block_state_def names_within_def Let_def elim!: bind_SomeE split: if_split_asm)

lemma load_new_loads:
  "db_load_from_save_entry t key b n x it s = Some (e, s') \<Longrightarrow> names_within s U \<Longrightarrow>
   block_state s' = block_state s \<and> names_within s' (insert b U) \<and> names_within (free_entry e s') U"
  by (auto simp: db_load_from_save_entry_def db_entry_new_def mod_entry_def block_state_def names_within_def free_entry_def
      Let_def elim!: bind_SomeE split: if_split_asm)

definition loader_ok :: "loader \<Rightarrow> bool" where
  "loader_ok l \<longleftrightarrow> names_within (ld_db l) (ld_in_use l) \<and> ld_in_use l \<subseteq> {0..<uint (blocks_exist (ld_db l))}"

lemma table_line_ok:
  "load_table_line x l = Some l' \<Longrightarrow> loader_ok l \<Longrightarrow> loader_ok l' \<and> block_state (ld_db l') = block_state (ld_db l)"
proof -
  assume r: "load_table_line x l = Some l'" and ok: "loader_ok l"
  show ?thesis
  proof (cases "sscanf_table x")
    case None
    with r ok show ?thesis by (simp add: load_table_line_def)
  next
    case (Some name)
    with r obtain s t s' where s: "(case ld_table l of Some t \<Rightarrow> db_table_deref t True (ld_db l) | None \<Rightarrow> Some (ld_db l)) = Some s"
      and s': "db_table_get_write name s = Some (t, s')" and l': "l' = l\<lparr>ld_table := Some t, ld_db := s'\<rparr>"
      by (auto simp: load_table_line_def elim!: bind_SomeE split: if_split_asm)
    have "loads_as (ld_db l) (ld_in_use l) s"
      using s ok by (auto simp: loader_ok_def loads_as_def split: option.split_asm dest: table_deref_loads [unfolded loads_as_def])
    with table_get_write_loads [OF s'] have "loads_as (ld_db l) (ld_in_use l) s'" by (auto simp: loads_as_def)
    with ok show ?thesis by (auto simp: l' loader_ok_def loads_as_def block_state_def)
  qed
qed

lemma store_d_range: "store_d v < 2 ^ 31"
  using sint_lt [of "of_int (max (- (2 ^ 63)) (min (2 ^ 63 - 1) v)) :: u32"] by (simp add: store_d_def)

lemma sscanf_entry_range: "sscanf_entry x = Some (d1, r) \<Longrightarrow> d1 < 2 ^ 31"
  using store_d_range by (auto simp: sscanf_entry_def elim!: bind_SomeE)

lemma entry_line_ok:
  "load_entry_line x l = Some l' \<Longrightarrow> loader_ok l \<Longrightarrow> loader_ok l' \<and> block_state (ld_db l') = block_state (ld_db l)"
proof -
  assume r: "load_entry_line x l = Some l'" and ok: "loader_ok l"
  show ?thesis
  proof (cases "ld_table l = None \<or> sscanf_entry (tl x) = None")
    case True
    with r ok show ?thesis by (auto simp: load_entry_line_def split: option.split_asm)
  next
    case False
    then obtain t d1 u2 u3 u4 key where t: "ld_table l = Some t" and sc: "sscanf_entry (tl x) = Some (d1, u2, u3, u4, key)"
      by (metis not_None_eq prod_cases5)
    have "\<not> 2048 \<le> length key" using r t sc by (auto simp: load_entry_line_def)
    with r t sc obtain e s c skip where
      s: "db_load_from_save_entry t key d1 u2 (uint u3) (ucast u4) (ld_db l) = Some (e, s)"
      and sk: "(if d1 < 0 then do { path \<leftarrow> get_key_path c s; Some (path \<notin> files s) }
               else Some (blocks_exist s \<le> of_int d1)) = Some skip"
      and rest: "(if skip then Some (l\<lparr>ld_db := free_entry e s\<rparr>)
             else do {
               s \<leftarrow> db_load_from_save_insert t e s;
               s \<leftarrow> db_lru_insert e s;
               Some (l\<lparr>ld_db := s, ld_in_use := (if d1 < 0 then ld_in_use l else insert d1 (ld_in_use l))\<rparr>)
             }) = Some l'"
      by (auto simp: load_entry_line_def elim!: bind_SomeE)
    let ?U = "if d1 < 0 then ld_in_use l else insert d1 (ld_in_use l)"
    have n: "block_state s = block_state (ld_db l)" "names_within s (insert d1 (ld_in_use l))"
      "names_within (free_entry e s) (ld_in_use l)"
      using load_new_loads [OF s] ok by (auto simp: loader_ok_def)
    then have nU: "names_within s ?U" by (auto simp: names_within_def)
    show ?thesis
    proof (cases skip)
      case True
      with rest n ok show ?thesis by (auto simp: loader_ok_def block_state_def free_entry_def)
    next
      case False
      with rest obtain s1 s2 where 1: "db_load_from_save_insert t e s = Some s1" and 2: "db_lru_insert e s1 = Some s2"
        and l': "l' = l\<lparr>ld_db := s2, ld_in_use := ?U\<rparr>" by (auto elim!: bind_SomeE)
      from load_insert_loads [OF 1 nU] lru_insert_loads [OF 2] have a: "loads_as s ?U s2" by (auto simp: loads_as_def)
      have "0 \<le> d1 \<Longrightarrow> d1 < uint (blocks_exist s)"
      proof -
        assume d: "0 \<le> d1"
        with sk False have "of_int d1 < blocks_exist s" by simp
        moreover have "uint (of_int d1 :: u32) = d1"
          by (rule uint_of_int_small [OF d]) (use sscanf_entry_range [OF sc] in simp)
        ultimately show "d1 < uint (blocks_exist s)" by (simp add: word_less_def)
      qed
      with a n ok l' show ?thesis by (auto simp: loader_ok_def loads_as_def block_state_def)
    qed
  qed
qed

lemma load_lines_ok:
  "load_lines xs l = Some l' \<Longrightarrow> loader_ok l \<Longrightarrow> loader_ok l' \<and> block_state (ld_db l') = block_state (ld_db l)"
proof (induction xs l rule: load_lines.induct)
  case (2 x xs l)
  then obtain l1 where l1: "load_line x l = Some l1" "load_lines xs l1 = Some l'" by (auto elim!: bind_SomeE)
  then have "loader_ok l1 \<and> block_state (ld_db l1) = block_state (ld_db l)"
    using 2(3) by (auto simp: load_line_def Let_def split: if_split_asm dest: table_line_ok entry_line_ok)
  with 2(1) [OF l1] show ?case by simp
qed simp

lemma free_unused_ok:
  "blocks_inv s (used \<union> {i..<uint (blocks_exist s)}) \<Longrightarrow> uint (blocks_exist s) - i \<le> int fuel \<Longrightarrow>
   blocks_inv (free_unused fuel i used s) used"
proof (induction fuel i used s rule: free_unused.induct)
  case (2 fuel i used s)
  show ?case
  proof (cases "i < uint (blocks_exist s) \<and> i \<notin> used")
    case True
    let ?s = "db_block_free i s"
    have "blocks_inv ?s (used \<union> {i..<uint (blocks_exist s)} - {i})" by (rule free_ok [OF 2(2)]) (use True in simp)
    moreover have x: "uint (blocks_exist ?s) = uint (blocks_exist s) \<or> uint (blocks_exist ?s) = i \<and> uint (blocks_exist s) = i + 1"
    proof (cases "of_int i + 1 = blocks_exist s \<and> 256 < blocks_free s")
      case shrink: True
      have i: "0 \<le> i" using 2(2) True by (auto simp: blocks_inv_def)
      have lt: "i < 2 ^ 32" using True uint_lt2p [of "blocks_exist s"] by simp
      have "blocks_exist s - 1 = of_int i" using shrink by (metis add_diff_cancel_right')
      then have "uint (blocks_exist s - 1) = i" using uint_of_int_small [OF i lt] by simp
      moreover have "uint (blocks_exist s - 1) = uint (blocks_exist s) - 1" using True i by (simp add: uint_sub_if')
      ultimately show ?thesis using shrink by (simp add: db_block_free_def db_block_size_def)
    qed (auto simp: db_block_free_def)
    moreover from x have "used \<union> {i..<uint (blocks_exist s)} - {i} = used \<union> {i + 1..<uint (blocks_exist ?s)}"
      using True by auto
    moreover have "uint (blocks_exist ?s) - (i + 1) \<le> int fuel" using x 2(3) by auto
    moreover have "blocks_inv ?s (used \<union> {i + 1..<uint (blocks_exist ?s)}) \<Longrightarrow>
        uint (blocks_exist ?s) - (i + 1) \<le> int fuel \<Longrightarrow> blocks_inv (free_unused fuel (i + 1) used ?s) used"
      using 2(1) True by simp
    ultimately show ?thesis using True by simp
  next
    case False
    then have "i \<in> used \<or> uint (blocks_exist s) \<le> i" by auto
    then have "used \<union> {i..<uint (blocks_exist s)} = used \<union> {i + 1..<uint (blocks_exist s)}" by (auto simp: order_le_less)
    then show ?thesis using 2 False by auto
  qed
qed simp

lemma free_unused_entries: "entries (free_unused fuel i used s) = entries s"
  by (induction fuel i used s rule: free_unused.induct) (auto simp: db_block_free_def db_block_size_def)

lemma blocks_inv_state: "block_state s' = block_state s \<Longrightarrow> blocks_inv s' U = blocks_inv s U"
  by (simp add: block_state_def blocks_inv_def)

lemma load_from_save_ok:
  assumes "db_load_from_save (Some txt) s = Some (b, s')" and s: "entries s = Map.empty" "free_blocks s = []"
      "blocks_free s = 0" "blocks_exist s \<le> 2147483647"
  shows "\<exists>U. blocks_inv s' U \<and> names_within s' U"
proof -
  let ?l0 = "\<lparr>ld_table = None, ld_in_use = {}, ld_db = s\<rparr>"
  from assms(1) obtain l where l: "load_lines (split_lines txt) ?l0 = Some l"
    and s': "(case ld_table l of Some t \<Rightarrow> db_table_deref t True (free_unused (unat (blocks_exist (ld_db l))) 0 (ld_in_use l) (ld_db l))
      | None \<Rightarrow> Some (free_unused (unat (blocks_exist (ld_db l))) 0 (ld_in_use l) (ld_db l))) = Some s'"
    by (auto simp: db_load_from_save_def Let_def elim!: bind_SomeE)
  let ?s1 = "free_unused (unat (blocks_exist (ld_db l))) 0 (ld_in_use l) (ld_db l)"
  have "loader_ok ?l0" using s(1) by (simp add: loader_ok_def names_within_def)
  from load_lines_ok [OF l this] have ok: "loader_ok l" and b: "block_state (ld_db l) = block_state s" by auto
  have "ld_in_use l \<union> {0..<uint (blocks_exist (ld_db l))} = {0..<uint (blocks_exist (ld_db l))}"
    using ok by (auto simp: loader_ok_def)
  then have "blocks_inv (ld_db l) (ld_in_use l \<union> {0..<uint (blocks_exist (ld_db l))})"
    using b s by (simp add: blocks_inv_def block_state_def)
  then have "blocks_inv ?s1 (ld_in_use l)" by (rule free_unused_ok) simp
  moreover have "names_within ?s1 (ld_in_use l)"
    using ok unfolding names_within_def loader_ok_def free_unused_entries by blast
  ultimately have *: "blocks_inv ?s1 (ld_in_use l)" "names_within ?s1 (ld_in_use l)" .
  have "loads_as ?s1 (ld_in_use l) s'"
  proof (cases "ld_table l")
    case None
    with s' *(2) show ?thesis by (simp add: loads_as_def)
  next
    case (Some t)
    with s' table_deref_loads [OF _ *(2)] show ?thesis by simp
  qed
  then have "blocks_inv s' (ld_in_use l)" "names_within s' (ld_in_use l)"
    using *(1) blocks_inv_state [of s' ?s1] by (auto simp: loads_as_def)
  then show ?thesis by blast
qed

lemma free_all_ok:
  "blocks_inv s {int k..<int n} \<Longrightarrow> k \<le> n \<Longrightarrow>
   blocks_inv (foldl (\<lambda>s i. db_block_free (int i) s) s [k..<n]) {} \<and>
   entries (foldl (\<lambda>s i. db_block_free (int i) s) s [k..<n]) = entries s"
proof (induction "n - k" arbitrary: k s)
  case (Suc m)
  then have kn: "k < n" by simp
  let ?s = "db_block_free (int k) s"
  have "{int k..<int n} - {int k} = {int (Suc k)..<int n}" by auto
  then have "blocks_inv ?s {int (Suc k)..<int n}" using free_ok [OF Suc(3), of "int k"] kn by simp
  from Suc(1) [OF _ this] Suc(2) kn have "blocks_inv (foldl (\<lambda>s i. db_block_free (int i) s) ?s [Suc k..<n]) {}
      \<and> entries (foldl (\<lambda>s i. db_block_free (int i) s) ?s [Suc k..<n]) = entries ?s" by simp
  moreover have "entries ?s = entries s" by (simp add: db_block_free_def db_block_size_def)
  ultimately show ?case using kn by (simp add: upt_conv_Cons)
qed simp

lemma all_free_count: "blocks_inv s {} \<Longrightarrow> blocks_inv (s\<lparr>blocks_free := blocks_exist s\<rparr>) {}"
proof -
  assume inv: "blocks_inv s {}"
  have "inj_on uint (set (free_blocks s))" by (rule inj_onI) (rule unsigned_word_eqI)
  then have "card (uint ` set (free_blocks s)) = length (free_blocks s)"
    using distinct_card [of "free_blocks s"] inv [unfolded blocks_inv_def, THEN conjunct1] by (simp add: card_image)
  moreover have "uint ` set (free_blocks s) = {0..<uint (blocks_exist s)}" using inv by (simp add: blocks_inv_def)
  ultimately have "card {0..<uint (blocks_exist s)} = length (free_blocks s)" by metis
  moreover have "int (card {0..<uint (blocks_exist s)}) = uint (blocks_exist s)" by simp
  ultimately have "uint (blocks_exist s) = int (length (free_blocks s))" by metis
  with inv show ?thesis by (simp add: blocks_inv_def)
qed

lemma open_blank_ok:
  assumes s: "entries s = Map.empty" "free_blocks s = []" "blocks_free s = 0"
    "blocks_exist s = of_nat (fsize div BLOCK_LENGTH)" "fsize div BLOCK_LENGTH \<le> 2147483647"
  shows "blocks_inv (open_blank fsize s) {} \<and> entries (open_blank fsize s) = Map.empty"
proof -
  let ?big = "fsize > BLOCK_MAX_LOAD * BLOCK_LENGTH"
  define n where "n = (if ?big then BLOCK_MAX_LOAD else fsize div BLOCK_LENGTH)"
  have n: "n \<le> 2147483647" using s(5) by (simp add: n_def BLOCK_MAX_LOAD_def)
  obtain s0 where o: "open_blank fsize s = (let s = foldl (\<lambda>s i. db_block_free (int i) s) s0 [0..<n] in s\<lparr>blocks_free := blocks_exist s\<rparr>)"
    and s0: "free_blocks s0 = []" "blocks_free s0 = 0" "blocks_exist s0 = of_nat n" "entries s0 = Map.empty"
  proof (cases ?big)
    case True
    then have "open_blank fsize s = (let s = foldl (\<lambda>s i. db_block_free (int i) s)
        (s\<lparr>blockfile_size := BLOCK_MAX_LOAD * BLOCK_LENGTH, blocks_exist := of_nat n\<rparr>) [0..<n] in s\<lparr>blocks_free := blocks_exist s\<rparr>)"
      by (simp add: open_blank_def Let_def n_def BLOCK_LENGTH_def)
    then show ?thesis by (rule that) (simp_all add: s)
  next
    case False
    then have "open_blank fsize s = (let s = foldl (\<lambda>s i. db_block_free (int i) s)
        (if fsize mod BLOCK_LENGTH \<noteq> 0 then s\<lparr>blockfile_size := fsize div BLOCK_LENGTH * BLOCK_LENGTH\<rparr> else s) [0..<n]
        in s\<lparr>blocks_free := blocks_exist s\<rparr>)"
      by (simp add: open_blank_def Let_def n_def BLOCK_LENGTH_def)
    then show ?thesis by (rule that) (use False in \<open>simp_all add: s n_def\<close>)
  qed
  have "uint (of_nat n :: u32) = int n" using n by (simp add: unsigned_of_nat take_bit_nat_eq_self)
  then have "blocks_inv s0 {int 0..<int n}" using s0 n by (simp add: blocks_inv_def word_le_def)
  from free_all_ok [OF this] o show ?thesis using s0(4) all_free_count by (simp add: Let_def)
qed

section \<open>Properties\<close>

text \<open>
  C6. A restart loses nothing that was in the index: reading the text that was written for a database,
  line by line, does for each of its tables and entries, in order, what loading its name, block, length,
  expiry, iteration and key does. Names are assumed to have no white space and no NUL, expiry times to
  fit 32 bits; the two are what the format cannot represent.
\<close>

theorem index_round_trip:
  assumes "index_records s = Some rs" "\<forall>r \<in> set rs. record_ok r"
  shows "\<exists>cs. index_chunks s = Some cs \<and> load_lines (split_lines (concat cs)) l = load_records rs l"
  using assms by (simp add: index_chunks_records split_lines_records load_lines_records)

definition saved_entry :: cache_entry where
  "saved_entry = \<lparr>ce_table = Some 0, ce_hash = 0, ce_key = ''key'', ce_key_length = 3, ce_writing = False,
     ce_deleted = False, ce_refs = 0, ce_data_length = 5, ce_block = 7, ce_expires = 1700000000, ce_lru_next = None,
     ce_lru_prev = None, ce_it = 3\<rparr>"

definition one_bucket :: "nat \<Rightarrow> nat kh" where
  "one_bucket v = \<lparr>n_buckets = 4, kh_size = 1, n_occupied = 1, upper_bound = 3, flags = [Live, Empty, Empty, Empty],
     keys = [0, 0, 0, 0], vals = [Some v, None, None, None]\<rparr>"

definition saved_db :: db_state where
  "saved_db = empty_db\<lparr>tables := one_bucket 0, entries := [1 \<mapsto> saved_entry],
     dbtables := [0 \<mapsto> \<lparr>tbl_hash = 0, tbl_key = ''tab'', tbl_key_length = 3, cache_hash_set = Some (one_bucket 1),
       tbl_refs = 1, tbl_deleted = False\<rparr>]\<rparr>"

lemma saved_records: "index_records saved_db = Some [Table_record ''tab'', Entry_record saved_entry]"
proof -
  have four: "[0..<4] = [0, 1, 2, 3::nat]" by (simp add: upt_rec)
  show ?thesis
    by (simp add: index_records_def saved_db_def one_bucket_def four kh_exist_def kh_value_def saved_entry_def)
qed

theorem index_round_trip_witness:
  "\<exists>cs. index_chunks saved_db = Some cs
    \<and> load_lines (split_lines (concat cs))
      \<lparr>ld_table = None, ld_in_use = {}, ld_db = empty_db\<rparr>
      = load_records [Table_record ''tab'', Entry_record saved_entry]
      \<lparr>ld_table = None, ld_in_use = {}, ld_db = empty_db\<rparr>"
proof (rule index_round_trip)
  show "index_records saved_db = Some [Table_record ''tab'', Entry_record saved_entry]" by (rule saved_records)
  show "\<forall>r \<in> set [Table_record ''tab'', Entry_record saved_entry]. record_ok r"
    by (simp add: printable_def entry_ok_def entry_key_def saved_entry_def is_space_def)
qed

lemma index_flush_whole:
  assumes "index_chunks s = Some cs"
  shows "\<exists>fs'. db_index_flush can_open rets s fs = Some fs'
    \<and> (index_save fs' = index_save fs \<or> index_save fs' = Some (concat cs))
    \<and> (can_open \<and> (\<forall>r \<in> set rets. 0 \<le> r) \<longrightarrow> index_save fs' = Some (concat cs))"
proof (cases can_open)
  case True
  obtain ok out where w: "write_chunks rets cs = (ok, out)" by fastforce
  then show ?thesis using assms True write_chunks_all [of rets cs out] write_chunks_succeeds [of rets cs]
    by (cases ok) (auto simp: db_index_flush_def)
qed (simp add: db_index_flush_def)



text \<open>
  C18. After opening, whatever the index says (any text, or no file) and however long the block file is,
  the blocks in the free list and the blocks that entries name are apart, each free block is listed
  once, and the counter of free blocks is right.
\<close>

theorem opened_blocks_consistent:
  assumes "db_open path index fsize s = Some s'" "entries s = Map.empty" "fsize div BLOCK_LENGTH \<le> 2147483647"
  shows "\<exists>U. blocks_inv s' U \<and> (\<forall>e c. entries s' e = Some c \<and> 0 \<le> ce_block c \<longrightarrow> ce_block c \<in> U)"
proof -
  let ?s = "open_reset path fsize s"
  have r: "entries ?s = Map.empty" "free_blocks ?s = []" "blocks_free ?s = 0" "blocks_exist ?s = of_nat (fsize div BLOCK_LENGTH)"
    using assms(2) by (simp_all add: open_reset_def)
  have "blocks_exist ?s \<le> 2147483647"
    using assms(3) by (simp add: r(4) word_le_nat_alt unat_of_nat take_bit_nat_eq_self)
  note ex = this
  show ?thesis
  proof (cases index)
    case None
    then have "s' = open_blank fsize ?s" using assms(1) by (simp add: db_open_def db_load_from_save_def)
    then show ?thesis using open_blank_ok [OF r assms(3)] by auto
  next
    case (Some idx)
    with assms(1) obtain b s1 where l: "db_load_from_save (Some idx) ?s = Some (b, s1)"
      and s': "s' = (if b then s1 else open_blank fsize s1)"
      by (auto simp: db_open_def elim!: bind_SomeE)
    from l have "b" by (auto simp: db_load_from_save_def Let_def elim!: bind_SomeE)
    with s' load_from_save_ok [OF l r(1-3) ex] show ?thesis by (simp add: names_within_def)
  qed
qed

theorem opened_blocks_consistent_witness:
  "\<exists>s' U. db_open ''/c'' (Some ''f:1 2'') 8192 empty_db = Some s' \<and> blocks_inv s' U"
proof -
  have "\<exists>s'. db_open ''/c'' (Some ''f:1 2'') 8192 empty_db = Some s'"
    by (simp add: db_open_def db_load_from_save_def load_line_def Let_def)
  then obtain s' where "db_open ''/c'' (Some ''f:1 2'') 8192 empty_db = Some s'" by blast
  with opened_blocks_consistent [OF this] show ?thesis by (auto simp: empty_db_def BLOCK_LENGTH_def)
qed

text \<open>
  C38. A line feed in a key forges the index: the entry is cut off at it, and what the client put behind it is
  a line of its own, here one that creates a table of the client's choice, to which the entries that
  follow are then attributed.
\<close>

theorem key_line_feed_forges_index:
  assumes "printable k" "printable name" "entry_key c = k @ [CHR 0x0A] @ ''t:'' @ name"
    and "\<not> ce_writing c" "\<not> ce_deleted c"
  shows "split_lines (concat (entry_chunks c)) = [index_prefix c @ k @ [CHR 0x0A], ''t:'' @ name @ [CHR 0x0A]]
    \<and> load_line (''t:'' @ name @ [CHR 0x0A]) l = load_table name l"
proof -
  have t: "concat (entry_chunks c) = (index_prefix c @ k) @ CHR 0x0A # (''t:'' @ name) @ CHR 0x0A # []"
    using assms(3-5) by (simp add: entry_chunks_def entry_key_def)
  show ?thesis
    unfolding t using assms(1,2) no_newline split_lines_newline [of "index_prefix c @ k"] split_lines_newline [of "''t:'' @ name" "[]"]
    by (auto simp: load_line_table [simplified])
qed

theorem key_line_feed_forges_index_witness:
  "load_line (''t:'' @ ''evil'' @ [CHR 0x0A]) \<lparr>ld_table = None, ld_in_use = {}, ld_db = empty_db\<rparr>
      = load_table ''evil'' \<lparr>ld_table = None, ld_in_use = {}, ld_db = empty_db\<rparr>
    \<and> ''t:'' @ ''evil'' @ [CHR 0x0A] \<in> set (split_lines (concat (entry_chunks
        (saved_entry\<lparr>ce_key := ''k'' @ [CHR 0x0A] @ ''t:evil'', ce_key_length := 8\<rparr>))))"
  using key_line_feed_forges_index [of "''k''" "''evil''" "saved_entry\<lparr>ce_key := ''k'' @ [CHR 0x0A] @ ''t:evil'', ce_key_length := 8\<rparr>"
      "\<lparr>ld_table = None, ld_in_use = {}, ld_db = empty_db\<rparr>"]
  by (simp add: printable_def is_space_def entry_key_def saved_entry_def)

end
