(* ===== verification/MonProps.thy ===== *)
theory MonProps
  imports HttpServeProps
begin

text \<open>
  The list of the monitoring connections and the tick. \<open>mon_list w xs\<close> says that the links of the
  connections are those of the list \<open>xs\<close>; entering, leaving and taking a turn are then the list
  operations, and a tick serves the due connections at the front of the list and ends.
\<close>

section \<open>The list behind the links\<close>

fun mlist :: "(nat \<Rightarrow> mon_node option) \<Rightarrow> nat option \<Rightarrow> nat list \<Rightarrow> nat option \<Rightarrow> bool" where
  "mlist h p [] n = True"
| "mlist h p (x # xs) n = (case h x of
     None \<Rightarrow> False
   | Some m \<Rightarrow> mon_prev m = p \<and> mon_next m = hd_or n xs \<and> mlist h (Some x) xs n)"

definition mon_list :: "http_world \<Rightarrow> nat list \<Rightarrow> bool" where
  "mon_list w xs \<longleftrightarrow> distinct xs \<and> mon_head w = hd_or None xs \<and> mon_tail w = last_or None xs
     \<and> mlist (mon_nodes w) None xs None \<and> mon_pending_head w = None \<and> mon_pending_tail w = None"

lemma mlist_append: "mlist h p (xs @ ys) n \<longleftrightarrow> mlist h p xs (hd_or n ys) \<and> mlist h (last_or p xs) ys n"
  by (induction xs arbitrary: p) (auto split: option.splits)

lemma mlist_cong: "(\<And>x. x \<in> set xs \<Longrightarrow> h x = h' x) \<Longrightarrow> mlist h p xs n = mlist h' p xs n"
  by (induction xs arbitrary: p) (auto split: option.splits)

lemma mlist_upd_notin [simp]: "x \<notin> set xs \<Longrightarrow> mlist (h(x := v)) p xs n = mlist h p xs n"
  by (rule mlist_cong) auto

lemma mlist_in: "mlist h p xs n \<Longrightarrow> x \<in> set xs \<Longrightarrow> \<exists>m. h x = Some m"
  by (induction xs arbitrary: p) (auto split: option.splits)

lemma mod_node_Some [simp]: "mon_nodes w c = Some m \<Longrightarrow> mod_node c f w = Some (w\<lparr>mon_nodes := (mon_nodes w)(c \<mapsto> f m)\<rparr>)"
  by (simp add: mod_node_def)

lemma add_ok:
  assumes l: "mon_list w xs" and c: "mon_nodes w c = Some m" "c \<notin> set xs"
  shows "\<exists>w'. monitoring_add c w = Some w' \<and> mon_list w' (c # xs)"
proof (cases xs)
  case Nil
  with l c show ?thesis by (simp add: monitoring_add_def mon_list_def blank_node_def)
next
  case (Cons x ys)
  with l c obtain mx where "mon_nodes w x = Some mx" "x \<noteq> c" by (auto simp: mon_list_def split: option.splits)
  moreover have "last_or None (x # ys) \<noteq> None" using last_or_None [of "x # ys"] by simp
  ultimately show ?thesis using l c Cons by (auto simp: monitoring_add_def mon_list_def blank_node_def)
qed

lemma leave_ok:
  assumes l: "mon_list w (as @ c # bs)" and c: "conn_ptr w = c" "is_writing w"
  shows "\<exists>w'. monitoring_destroy w = Some w' \<and> mon_list w' (as @ bs)"
proof -
  let ?h = "mon_nodes w"
  have d: "distinct (as @ c # bs)" and hd: "mon_head w = hd_or None (as @ c # bs)"
    and tl: "mon_tail w = last_or None (as @ c # bs)" and m: "mlist ?h None (as @ c # bs) None"
    and p: "mon_pending_head w = None" "mon_pending_tail w = None"
    using l by (auto simp: mon_list_def)
  from m obtain mc where mc: "?h c = Some mc" "mon_prev mc = last_or None as" "mon_next mc = hd_or None bs"
    and ma: "mlist ?h None as (Some c)" and mb: "mlist ?h (Some c) bs None"
    by (auto simp: mlist_append split: option.splits)
  note defs = monitoring_destroy_def bypass_node_def mon_list_def mlist_append
  show ?thesis
  proof (cases as rule: rev_cases)
    case Nil
    note as = this
    show ?thesis
    proof (cases bs)
      case Nil
      with as mc hd tl c p show ?thesis by (simp add: defs)
    next
      case (Cons b bs')
      with mb obtain x where "?h b = Some x" "mon_prev x = Some c" "mon_next x = hd_or None bs'" "mlist ?h (Some b) bs' None"
        by (auto split: option.splits)
      moreover have "last_or (Some b) bs' \<noteq> Some c"
        using last_or_in [of None "b # bs'" c] d Cons by auto
      ultimately show ?thesis using as Cons mc hd tl c p d by (auto simp: defs)
    qed
  next
    case (snoc as' a)
    note as = this
    from ma obtain y where y: "?h a = Some y" "mon_prev y = last_or None as'" "mon_next y = Some c" "mlist ?h None as' (Some a)"
      unfolding as by (auto simp: mlist_append split: option.splits)
    have hd': "hd_or None (as @ c # bs) = hd_or None (as @ bs)" "hd_or None (as @ bs) \<noteq> Some c" "hd_or None (as @ bs) \<noteq> None"
      using d by (cases as'; auto simp: as)+
    show ?thesis
    proof (cases bs)
      case Nil
      with as mc hd hd' tl d y c p show ?thesis by (auto simp: defs)
    next
      case (Cons b bs')
      with mb obtain x where "?h b = Some x" "mon_prev x = Some c" "mon_next x = hd_or None bs'" "mlist ?h (Some b) bs' None"
        by (auto split: option.splits)
      moreover have "last_or (Some b) bs' \<noteq> Some c"
        using last_or_in [of None "b # bs'" c] d Cons by auto
      ultimately show ?thesis using as Cons mc hd hd' tl d y c p by (auto simp: defs)
    qed
  qed
qed

text \<open>A connection that never entered the list leaves it alone.\<close>

lemma leave_out:
  assumes "mon_list w xs" "mon_nodes w (conn_ptr w) = Some m" "mon_prev m = None" "mon_next m = None" "\<not> is_writing w"
  shows "monitoring_destroy w = Some w"
  using assms by (simp add: monitoring_destroy_def bypass_node_def mon_list_def)

text \<open>The head goes to the tail; in between it is in no list.\<close>

definition head_off :: "http_world \<Rightarrow> nat \<Rightarrow> nat list \<Rightarrow> bool" where
  "head_off w p xs \<longleftrightarrow> distinct (p # xs) \<and> mon_head w = hd_or None xs \<and> mon_tail w = last_or (Some p) xs
     \<and> mlist (mon_nodes w) None xs None \<and> (\<exists>m. mon_nodes w p = Some m \<and> mon_prev m = None)
     \<and> mon_pending_head w = None \<and> mon_pending_tail w = None"

lemma unlink_head_ok:
  assumes l: "mon_list w (p # xs)" and m: "mon_nodes w p = Some m"
  shows "\<exists>w'. unlink_head m w = Some w' \<and> head_off w' p xs"
proof (cases xs)
  case Nil
  with l m show ?thesis by (simp add: unlink_head_def mon_list_def head_off_def)
next
  case (Cons y ys)
  with l m show ?thesis by (auto simp: unlink_head_def mon_list_def head_off_def split: option.split_asm)
qed

lemma move_to_tail_ok: "head_off w p xs \<Longrightarrow> \<exists>w'. move_to_tail p w = Some w' \<and> mon_list w' (xs @ [p])"
proof (cases xs rule: rev_cases)
  case Nil
  assume "head_off w p xs"
  with Nil show ?thesis by (auto simp: move_to_tail_def mon_list_def head_off_def)
next
  case (snoc ys t)
  assume "head_off w p xs"
  then show ?thesis unfolding snoc
    by (cases ys) (auto simp: move_to_tail_def mon_list_def head_off_def mlist_append split: option.split_asm)
qed

section \<open>What the steps leave alone\<close>

definition sched :: "mon_node \<Rightarrow> int \<times> int \<times> u16" where
  "sched m = (scheduled_sec m, scheduled_usec m, mon_current m)"

definition relinked :: "http_world \<Rightarrow> http_world \<Rightarrow> bool" where
  "relinked w w' \<longleftrightarrow> (\<forall>x. map_option sched (mon_nodes w' x) = map_option sched (mon_nodes w x)) \<and> db w' = db w
     \<and> scache_connection.truncate w' = scache_connection.truncate w"

lemma relinked_refl [simp]: "relinked w w"
  by (simp add: relinked_def)

lemma relinked_trans: "relinked w w1 \<Longrightarrow> relinked w1 w2 \<Longrightarrow> relinked w w2"
  by (simp add: relinked_def)

lemma mod_node_relinked:
  "mod_node c f w = Some w' \<Longrightarrow> (\<And>m. sched (f m) = sched m) \<Longrightarrow> relinked w w'"
  by (auto simp: mod_node_def relinked_def scache_connection.truncate_def elim!: bind_SomeE)

lemma head_tail_relinked [simp]:
  "relinked w (w\<lparr>mon_head := h\<rparr>)" "relinked w (w\<lparr>mon_tail := t\<rparr>)" "relinked (w\<lparr>mon_head := h\<rparr>) w' = relinked w w'"
  "relinked (w\<lparr>mon_tail := t\<rparr>) w' = relinked w w'" "relinked w (w'\<lparr>mon_tail := t\<rparr>) = relinked w w'"
  "relinked w (w'\<lparr>mon_head := t\<rparr>) = relinked w w'"
  by (simp_all add: relinked_def scache_connection.truncate_def)

lemma sched_links [simp]: "sched (m\<lparr>mon_prev := a\<rparr>) = sched m" "sched (m\<lparr>mon_next := a\<rparr>) = sched m"
  by (simp_all add: sched_def)

lemma unlink_head_relinked: "unlink_head m w = Some w' \<Longrightarrow> relinked w w'"
  by (auto simp: unlink_head_def Let_def split: option.split_asm dest!: mod_node_relinked)

lemma move_to_tail_relinked: "move_to_tail p w = Some w' \<Longrightarrow> relinked w w'"
  by (auto simp: move_to_tail_def elim!: bind_SomeE split: if_split_asm dest!: mod_node_relinked intro: relinked_trans)

lemma relinked_conn_ptr: "relinked w w' \<Longrightarrow> conn_ptr w' = conn_ptr w"
  by (drule relinked_def [THEN iffD1], elim conjE, drule arg_cong [where f = conn_ptr])
    (simp add: scache_connection.truncate_def)

section \<open>The list is a list\<close>

text \<open>
  What the two sides promise each other: a connection enters at the front and only once, one that is in the
  list can leave it from any place, the first can go to the back. Whatever the sequence, the links are those of the list.
\<close>

datatype turn_op = Enter nat | Leave nat | Front_to_back

fun turn_op_ok :: "turn_op \<Rightarrow> nat list \<Rightarrow> bool" where
  "turn_op_ok (Enter c) xs = (c \<notin> set xs)"
| "turn_op_ok (Leave c) xs = (c \<in> set xs)"
| "turn_op_ok Front_to_back xs = (xs \<noteq> [])"

fun turn_op_list :: "turn_op \<Rightarrow> nat list \<Rightarrow> nat list" where
  "turn_op_list (Enter c) xs = c # xs"
| "turn_op_list (Leave c) xs = remove1 c xs"
| "turn_op_list Front_to_back xs = rotate1 xs"

fun turn_ops_ok :: "turn_op list \<Rightarrow> nat list \<Rightarrow> bool" where
  "turn_ops_ok [] xs = True"
| "turn_ops_ok (t # ts) xs = (turn_op_ok t xs \<and> turn_ops_ok ts (turn_op_list t xs))"

locale turn_list =
  fixes repr :: "'w \<Rightarrow> nat list \<Rightarrow> bool"
    and allocated :: "'w \<Rightarrow> nat set"
    and step :: "turn_op \<Rightarrow> 'w \<Rightarrow> 'w option"
  assumes enter: "repr w xs \<Longrightarrow> c \<in> allocated w \<Longrightarrow> c \<notin> set xs \<Longrightarrow> \<exists>w'. step (Enter c) w = Some w' \<and> repr w' (c # xs)"
    and leave: "repr w xs \<Longrightarrow> c \<in> set xs \<Longrightarrow> \<exists>w'. step (Leave c) w = Some w' \<and> repr w' (remove1 c xs)"
    and turn: "repr w xs \<Longrightarrow> xs \<noteq> [] \<Longrightarrow> \<exists>w'. step Front_to_back w = Some w' \<and> repr w' (rotate1 xs)"
    and allocated: "step t w = Some w' \<Longrightarrow> allocated w' = allocated w"
begin

lemma step_refines:
  assumes "repr w xs" "turn_op_ok t xs" "\<And>c. t = Enter c \<Longrightarrow> c \<in> allocated w"
  shows "\<exists>w'. step t w = Some w' \<and> repr w' (turn_op_list t xs) \<and> allocated w' = allocated w"
proof (cases t)
  case (Enter c)
  with assms enter [of w xs c] allocated [of t w] show ?thesis by auto
next
  case (Leave c)
  with assms leave [of w xs c] allocated [of t w] show ?thesis by auto
next
  case Front_to_back
  with assms turn [of w xs] allocated [of t w] show ?thesis by auto
qed

lemma run_refines:
  "repr w xs \<Longrightarrow> turn_ops_ok ts xs \<Longrightarrow> (\<And>c. Enter c \<in> set ts \<Longrightarrow> c \<in> allocated w) \<Longrightarrow>
   \<exists>w'. foldl (\<lambda>a t. Option.bind a (step t)) (Some w) ts = Some w' \<and> repr w' (fold turn_op_list ts xs)"
proof (induction ts arbitrary: w xs)
  case (Cons t ts)
  from step_refines [of w xs t] Cons.prems obtain w1 where
    "step t w = Some w1" "repr w1 (turn_op_list t xs)" "allocated w1 = allocated w" by auto
  with Cons.IH [of w1 "turn_op_list t xs"] Cons.prems show ?case by auto
qed simp

end

text \<open>The operations of the code on the links.\<close>

fun mon_step :: "turn_op \<Rightarrow> http_world \<Rightarrow> http_world option" where
  "mon_step (Enter c) w = monitoring_add c w"
| "mon_step (Leave c) w = monitoring_destroy (w\<lparr>conn_ptr := c, is_writing := True\<rparr>)"
| "mon_step Front_to_back w = do {
     p \<leftarrow> mon_head w;
     m \<leftarrow> mon_nodes w p;
     w \<leftarrow> unlink_head m w;
     move_to_tail p w
   }"

lemma mon_list_conn [simp]: "mon_list (w\<lparr>conn_ptr := c\<rparr>) xs = mon_list w xs" "mon_list (w\<lparr>is_writing := b\<rparr>) xs = mon_list w xs"
  by (simp_all add: mon_list_def)

lemma mon_list_node: "mon_list w xs \<Longrightarrow> c \<in> set xs \<Longrightarrow> \<exists>m. mon_nodes w c = Some m"
  by (auto simp: mon_list_def dest: mlist_in)

definition node_set :: "http_world \<Rightarrow> nat set" where
  "node_set w = dom (mon_nodes w)"

lemma node_set_upd [simp]:
  "node_set (w\<lparr>mon_head := a\<rparr>) = node_set w" "node_set (w\<lparr>mon_tail := a\<rparr>) = node_set w"
  "node_set (w\<lparr>mon_pending_head := a\<rparr>) = node_set w" "node_set (w\<lparr>mon_pending_tail := a\<rparr>) = node_set w"
  "node_set (w\<lparr>conn_ptr := c\<rparr>) = node_set w" "node_set (w\<lparr>is_writing := v\<rparr>) = node_set w"
  "node_set (w\<lparr>mon_nodes := (mon_nodes w)(x \<mapsto> m)\<rparr>) = insert x (node_set w)"
  by (simp_all add: node_set_def)

lemma node_set_in: "mon_nodes w c = Some m \<Longrightarrow> insert c (node_set w) = node_set w"
  by (auto simp: node_set_def)

lemma mod_node_dom: "mod_node c f w = Some w' \<Longrightarrow> node_set w' = node_set w"
  by (auto simp: mod_node_def node_set_in elim!: bind_SomeE)

lemma bypass_dom: "bypass_node c w = Some w' \<Longrightarrow> node_set w' = node_set w"
  by (auto simp: bypass_node_def elim!: bind_SomeE split: option.split_asm dest!: mod_node_dom)

lemma destroy_dom: "monitoring_destroy w = Some w' \<Longrightarrow> node_set w' = node_set w"
  by (auto simp: monitoring_destroy_def Let_def elim!: bind_SomeE split: if_split_asm dest!: bypass_dom)

lemma add_dom:
  assumes "monitoring_add c w = Some w'" shows "node_set w' = node_set w"
proof -
  have "insert c (node_set w) = node_set w"
    using assms node_set_in by (cases "mon_nodes w c") (auto simp: monitoring_add_def)
  with assms show ?thesis
    by (simp add: monitoring_add_def Let_def split: if_split_asm)
      ((elim bind_SomeE | drule bypass_dom | drule mod_node_dom | hypsubst | simp split: if_split_asm)+)
qed

lemma relinked_dom: "relinked w w' \<Longrightarrow> node_set w' = node_set w"
  unfolding relinked_def node_set_def dom_def by (metis option.map_disc_iff)

lemma mon_step_dom: "mon_step t w = Some w' \<Longrightarrow> node_set w' = node_set w"
proof (cases t)
  case (Enter c)
  assume "mon_step t w = Some w'"
  with Enter show ?thesis by (simp add: add_dom)
next
  case (Leave c)
  assume "mon_step t w = Some w'"
  with Leave show ?thesis by (simp add: destroy_dom)
next
  case Front_to_back
  assume "mon_step t w = Some w'"
  with Front_to_back obtain p m w1 where "unlink_head m w = Some w1" "move_to_tail p w1 = Some w'"
    by (auto elim!: bind_SomeE)
  then show ?thesis by (metis move_to_tail_relinked relinked_dom unlink_head_relinked)
qed

interpretation turns: turn_list mon_list "\<lambda>w. node_set w" mon_step
proof (unfold_locales, goal_cases)
  case (1 w xs c)
  then show ?case using add_ok [of w xs c] by (auto simp: node_set_def)
next
  case (2 w xs c)
  then obtain as bs where xs: "xs = as @ c # bs" "c \<notin> set as" by (meson split_list_first)
  with 2 leave_ok [of "w\<lparr>conn_ptr := c, is_writing := True\<rparr>" as c bs] show ?case by (simp add: remove1_append)
next
  case (3 w xs)
  then obtain p ys where xs: "xs = p # ys" by (cases xs) auto
  with 3 obtain m where m: "mon_nodes w p = Some m" by (metis list.set_intros(1) mon_list_node)
  have "mon_head w = Some p" using 3 xs by (simp add: mon_list_def)
  with 3 xs m unlink_head_ok [of w p ys m] move_to_tail_ok show ?case by fastforce
next
  case (4 t w w')
  then show ?case by (rule mon_step_dom)
qed

text \<open> C21. The links of the monitoring connections (\<open>mon_head\<close>, \<open>mon_tail\<close>, \<open>prev\<close> and \<open>next\<close>) refine a
  list: whatever the sequence of connections that enter (\<open>monitoring_add\<close>), leave (\<open>monitoring_destroy\<close>) and take
  their turn (the two halves of \<open>monitoring_check\<close>'s loop), no step follows a null or dangling pointer, and the
  links that result are those of the list that gets its elements at the front, loses them anywhere and is rotated. \<close>

theorem monitoring_list_refines:
  assumes "mon_list w xs" "turn_ops_ok ts xs" "\<And>c. Enter c \<in> set ts \<Longrightarrow> c \<in> node_set w"
  shows "\<exists>w'. foldl (\<lambda>a t. Option.bind a (mon_step t)) (Some w) ts = Some w' \<and> mon_list w' (fold turn_op_list ts xs)"
  using assms by (rule turns.run_refines)

text \<open>A world of three connections, none in the list yet.\<close>

definition three_world :: http_world where
  "three_world = (request_world [])\<lparr>mon_nodes := (\<lambda>x. if x < 3
     then Some \<lparr>mon_prev = None, mon_next = None, scheduled_sec = 0, scheduled_usec = 0, mon_current = 0\<rparr> else None),
     mon_head := None, mon_tail := None, mon_pending_head := None, mon_pending_tail := None\<rparr>"

theorem monitoring_list_refines_witness:
  "\<exists>w'. foldl (\<lambda>a t. Option.bind a (mon_step t)) (Some three_world) [Enter 0, Enter 1, Enter 2, Front_to_back, Leave 0] = Some w'
    \<and> mon_list w' [1, 2]"
proof -
  have "mon_list three_world []" by (simp add: three_world_def mon_list_def)
  moreover have "c \<in> node_set three_world" if "Enter c \<in> set [Enter 0, Enter 1, Enter 2, Front_to_back, Leave 0]" for c
    using that by (auto simp: three_world_def node_set_def)
  ultimately show ?thesis
    using monitoring_list_refines [of three_world "[]" "[Enter 0, Enter 1, Enter 2, Front_to_back, Leave 0]"] by simp
qed

section \<open>One turn of the tick\<close>

lemma load_conn_mon [simp]:
  "mon_nodes (load_conn c w) = mon_nodes w" "mon_head (load_conn c w) = mon_head w" "mon_tail (load_conn c w) = mon_tail w"
  "mon_pending_head (load_conn c w) = mon_pending_head w" "mon_pending_tail (load_conn c w) = mon_pending_tail w"
  "db (load_conn c w) = db w" "conn_ptr (load_conn c w) = conn_ptr c" "output_buffer (load_conn c w) = output_buffer c"
  by (cases w; simp add: load_conn_def scache_connection.extend_def)+

lemma mon_list_load [simp]: "mon_list (load_conn c w) xs = mon_list w xs"
  by (simp add: mon_list_def)

text \<open>The number a connection gets, and the node it then has.\<close>

definition number_sent :: "mon_node \<Rightarrow> scache_connection \<Rightarrow> bool" where
  "number_sent m c \<longleftrightarrow> output_buffer c = Some (monitoring_string (mon_current m)) \<and> output_length c = monitoring_len (mon_current m)
     \<and> epollout c \<and> \<not> epollin c"

definition next_turn :: "db_state \<Rightarrow> mon_node \<Rightarrow> int \<times> int \<times> u16" where
  "next_turn s m = (now_sec s + 5, now_usec s, mon_current m + 1)"

lemma mlist_same_links:
  "h c = Some m \<Longrightarrow> mon_prev m' = mon_prev m \<Longrightarrow> mon_next m' = mon_next m \<Longrightarrow> mlist (h(c \<mapsto> m')) p xs n = mlist h p xs n"
  by (induction xs arbitrary: p) (auto split: option.splits)

lemma send_number_ok:
  assumes m: "mon_nodes w (conn_ptr w) = Some m" and l: "mon_list w xs"
  shows "\<exists>w'. send_number w = Some w' \<and> mon_list w' xs \<and> number_sent m (scache_connection.truncate w')
    \<and> map_option sched (mon_nodes w' (conn_ptr w)) = Some (next_turn (db w) m)
    \<and> (\<forall>x. x \<noteq> conn_ptr w \<longrightarrow> mon_nodes w' x = mon_nodes w x) \<and> db w' = db w \<and> conn_ptr w' = conn_ptr w"
  using assms mlist_same_links [of "mon_nodes w" "conn_ptr w" m "m\<lparr>mon_current := mon_current m + 1, scheduled_usec := now_usec (db w),
      scheduled_sec := now_sec (db w) + MONITORING_DEFAULT_INTERVAL\<rparr>" None xs None]
  by (cases "epoll_results w")
    (simp_all add: send_number_def connection_register_write_def connection_event_update_def mon_list_def number_sent_def
      next_turn_def sched_def scache_connection.truncate_def MONITORING_DEFAULT_INTERVAL_def Let_def)

lemma turn_served:
  assumes l: "mon_list (world s) (p # xs)" and c: "conns s p = Some c" "conn_ptr c = p" "output_buffer c = None"
    and m: "mon_nodes (world s) p = Some m"
  shows "\<exists>s' c'. monitoring_turn p s = Some s' \<and> mon_list (world s') (xs @ [p])
    \<and> conns s' = (conns s)(p \<mapsto> c') \<and> number_sent m c'
    \<and> map_option sched (mon_nodes (world s') p) = Some (next_turn (db (world s)) m)
    \<and> (\<forall>x. x \<noteq> p \<longrightarrow> map_option sched (mon_nodes (world s') x) = map_option sched (mon_nodes (world s) x))
    \<and> db (world s') = db (world s)"
proof -
  from unlink_head_ok [OF l m] obtain w1 where w1: "unlink_head m (world s) = Some w1" "head_off w1 p xs" by blast
  then have "head_off (load_conn c w1) p xs" by (simp add: head_off_def)
  from move_to_tail_ok [OF this] obtain w2 where w2: "move_to_tail p (load_conn c w1) = Some w2" "mon_list w2 (xs @ [p])"
    by blast
  have r1: "relinked (world s) w1" by (rule unlink_head_relinked [OF w1(1)])
  have r2: "relinked (load_conn c w1) w2" by (rule move_to_tail_relinked [OF w2(1)])
  have t: "conn_ptr w2 = p" using relinked_conn_ptr [OF r2] c(2) by simp
  have s12: "map_option sched (mon_nodes w2 x) = map_option sched (mon_nodes (world s) x)" "db w2 = db (world s)" for x
    using r1 r2 by (simp_all add: relinked_def)
  with m obtain m2 where m2: "mon_nodes w2 p = Some m2" "sched m2 = sched m" by (metis map_option_eq_Some option.simps(9))
  then have cur: "mon_current m2 = mon_current m" by (simp add: sched_def)
  from send_number_ok [of w2 m2 "xs @ [p]"] w2(2) m2 t obtain w3 where
    w3: "send_number w2 = Some w3" "mon_list w3 (xs @ [p])" "number_sent m2 (scache_connection.truncate w3)"
      "map_option sched (mon_nodes w3 p) = Some (next_turn (db w2) m2)" "\<forall>x. x \<noteq> p \<longrightarrow> mon_nodes w3 x = mon_nodes w2 x"
      "db w3 = db w2" by auto
  have "monitoring_turn p s = Some (s\<lparr>conns := (conns s)(p \<mapsto> scache_connection.truncate w3), world := w3\<rparr>)"
    using c m w1(1) w2(1) w3(1) by (simp add: monitoring_turn_def with_conn_def)
  then show ?thesis using w3 s12 cur by (auto simp: number_sent_def next_turn_def)
qed

section \<open>The tick\<close>

text \<open>A connection that is due and has nothing left to write.\<close>

definition due_conn :: "server \<Rightarrow> nat \<Rightarrow> bool" where
  "due_conn s p \<longleftrightarrow> (case (conns s p, mon_nodes (world s) p) of
     (Some c, Some m) \<Rightarrow> conn_ptr c = p \<and> output_buffer c = None \<and> \<not> not_yet (world s) m
   | _ \<Rightarrow> False)"

text \<open>The list ends, or goes on with a connection whose time has not come.\<close>

definition at_rest :: "http_world \<Rightarrow> nat list \<Rightarrow> bool" where
  "at_rest w rest \<longleftrightarrow> (case rest of [] \<Rightarrow> True | q # _ \<Rightarrow> (case mon_nodes w q of Some m \<Rightarrow> not_yet w m | None \<Rightarrow> False))"

text \<open>What the tick has done for a connection: the number in its output, the next turn five seconds from now.\<close>

definition served :: "server \<Rightarrow> server \<Rightarrow> nat \<Rightarrow> bool" where
  "served s s' p \<longleftrightarrow> (case (mon_nodes (world s) p, conns s' p, mon_nodes (world s') p) of
     (Some m, Some c, Some m') \<Rightarrow> number_sent m c \<and> sched m' = next_turn (db (world s)) m
   | _ \<Rightarrow> False)"

definition untouched :: "server \<Rightarrow> server \<Rightarrow> nat \<Rightarrow> bool" where
  "untouched s s' p \<longleftrightarrow> conns s' p = conns s p \<and> map_option sched (mon_nodes (world s') p) = map_option sched (mon_nodes (world s) p)"

lemma untouched_due: "untouched s s' p \<Longrightarrow> db (world s') = db (world s) \<Longrightarrow> due_conn s p \<Longrightarrow> due_conn s' p"
  unfolding untouched_def due_conn_def
  by (auto split: option.splits simp: sched_def not_yet_def)

lemma untouched_rest:
  "at_rest (world s) (q # r) \<Longrightarrow> untouched s s' q \<Longrightarrow> db (world s') = db (world s) \<Longrightarrow> at_rest (world s') (q # r')"
  unfolding untouched_def at_rest_def
  by (auto split: option.splits simp: sched_def not_yet_def)

lemma untouched_served:
  assumes u: "untouched s s1 x" "db (world s1) = db (world s)" and d: "served s1 s' x"
  shows "served s s' x"
proof -
  from d obtain m1 c m' where 1: "mon_nodes (world s1) x = Some m1" "conns s' x = Some c" "mon_nodes (world s') x = Some m'"
    "number_sent m1 c" "sched m' = next_turn (db (world s1)) m1"
    by (auto simp: served_def split: option.splits)
  with u(1) obtain m where m: "mon_nodes (world s) x = Some m" "sched m = sched m1"
    by (cases "mon_nodes (world s) x") (auto simp: untouched_def)
  then have "mon_current m = mon_current m1" by (simp add: sched_def)
  with 1 m(1) u(2) show ?thesis by (simp add: served_def number_sent_def next_turn_def)
qed

lemma next_turn_rests: "sched m = next_turn (db w) m0 \<Longrightarrow> not_yet w m"
  by (simp add: sched_def next_turn_def not_yet_def after_def)

lemma due_turn:
  assumes l: "mon_list (world s) (p # xs)" and d: "due_conn s p"
  shows "\<exists>s'. monitoring_turn p s = Some s' \<and> mon_list (world s') (xs @ [p]) \<and> served s s' p
    \<and> (\<forall>x. x \<noteq> p \<longrightarrow> untouched s s' x) \<and> db (world s') = db (world s)"
proof -
  from d obtain c m where cm: "conns s p = Some c" "mon_nodes (world s) p = Some m" "conn_ptr c = p" "output_buffer c = None"
    by (auto simp: due_conn_def split: option.splits)
  from turn_served [OF l cm(1,3,4,2)] show ?thesis using cm(2)
    by (fastforce simp: served_def untouched_def split: option.splits)
qed

lemma due_stops: "mon_list (world s) rest \<Longrightarrow> at_rest (world s) rest \<Longrightarrow> monitoring_due s = Some s"
  by (subst monitoring_due.simps) (auto simp: mon_list_def at_rest_def split: list.splits option.splits)

lemma due_goes_on:
  assumes "mon_list (world s) (p # xs)" "due_conn s p" "monitoring_turn p s = Some s'"
  shows "monitoring_due s = monitoring_due s'"
  using assms by (subst monitoring_due.simps) (auto simp: mon_list_def due_conn_def split: option.splits)

lemma due_serves:
  "mon_list (world s) (ds @ rest) \<Longrightarrow> \<forall>p\<in>set ds. due_conn s p \<Longrightarrow> at_rest (world s) rest \<Longrightarrow>
   \<exists>s'. monitoring_due s = Some s' \<and> mon_list (world s') (rest @ ds) \<and> (\<forall>p\<in>set ds. served s s' p)
     \<and> (\<forall>x. x \<notin> set ds \<longrightarrow> untouched s s' x) \<and> db (world s') = db (world s)"
proof (induction ds arbitrary: s rest)
  case Nil
  then show ?case using due_stops [of s rest] by (auto simp: untouched_def)
next
  case (Cons p ds)
  have dist: "p \<notin> set ds" "p \<notin> set rest" using Cons.prems(1) by (auto simp: mon_list_def)
  from due_turn [of s p "ds @ rest"] Cons.prems obtain s1 where
    s1: "monitoring_turn p s = Some s1" "mon_list (world s1) (ds @ rest @ [p])" "served s s1 p"
      "\<And>x. x \<noteq> p \<Longrightarrow> untouched s s1 x" "db (world s1) = db (world s)" by auto
  have "\<forall>x\<in>set ds. due_conn s1 x"
    using Cons.prems(2) dist s1(4,5) by (metis list.set_intros(2) untouched_due)
  moreover have "at_rest (world s1) (rest @ [p])"
  proof (cases rest)
    case Nil
    with s1(3,5) show ?thesis
      by (auto simp: served_def at_rest_def split: option.splits intro: next_turn_rests)
  next
    case (Cons q r)
    with dist Cons.prems(3) s1(4,5) show ?thesis by (auto intro: untouched_rest)
  qed
  ultimately obtain s' where
    s': "monitoring_due s1 = Some s'" "mon_list (world s') (rest @ p # ds)" "\<forall>x\<in>set ds. served s1 s' x"
      "\<forall>x. x \<notin> set ds \<longrightarrow> untouched s1 s' x" "db (world s') = db (world s1)"
    using Cons.IH [of s1 "rest @ [p]"] s1(2) by auto
  have "monitoring_due s = Some s'" using due_goes_on [OF _ _ s1(1)] Cons.prems s'(1) by simp
  moreover have "served s s' p"
    using s1(3) s'(4) dist by (auto simp: served_def untouched_def split: option.splits)
  moreover have "served s s' x" if "x \<in> set ds" for x
    using untouched_served [of s s1 x s'] s1(4) [of x] s1(5) s'(3) dist that by metis
  moreover have "untouched s s' x" if "x \<notin> set (p # ds)" for x
    using s1(4) [of x] s'(4) that by (auto simp: untouched_def)
  ultimately show ?case using s'(2,5) s1(5) by auto
qed

text \<open> C20. A monitoring tick (\<open>monitoring_check\<close>) ends and does all that is due: if the connections at the front of
  the list whose time has come have nothing left to write, each gets the text of its counter in its output buffer and is
  registered for writing, its counter goes up (modulo 2^16) and its next turn is five seconds from now; they
  stand at the back of the list in the same order, and no other connection is changed. \<close>

theorem monitoring_tick_serves_due:
  assumes "mon_list (world s) (ds @ rest)" "\<forall>p\<in>set ds. due_conn s p" "at_rest (world s) rest"
  shows "\<exists>s'. monitoring_check s = Some s' \<and> mon_list (world s') (rest @ ds)
    \<and> (\<forall>p\<in>set ds. served s s' p) \<and> (\<forall>p. p \<notin> set ds \<longrightarrow> untouched s s' p)"
proof -
  from due_serves [OF assms] obtain s' where s': "monitoring_due s = Some s'" "mon_list (world s') (rest @ ds)"
    "\<forall>p\<in>set ds. served s s' p" "\<forall>x. x \<notin> set ds \<longrightarrow> untouched s s' x" by auto
  moreover have "monitoring_expire s' = Some s'"
    using s'(2) by (subst monitoring_expire.simps) (simp add: mon_list_def)
  ultimately show ?thesis by (auto simp: monitoring_check_def)
qed

text \<open>Two connections at second 100: connection 3 is due since 95, connection 4 is due at 103.\<close>

definition two_due :: server where
  "two_due = \<lparr>conns = (\<lambda>x. if x = 3 \<or> x = 4
       then Some ((scache_connection.truncate (request_world []))\<lparr>conn_ptr := x, output_buffer := None\<rparr>) else None),
     conn_next = 5, cq = [],
     world = (request_world [])\<lparr>mon_nodes := [3 \<mapsto> \<lparr>mon_prev = None, mon_next = Some 4, scheduled_sec = 95, scheduled_usec = 0, mon_current = 7\<rparr>,
       4 \<mapsto> \<lparr>mon_prev = Some 3, mon_next = None, scheduled_sec = 103, scheduled_usec = 0, mon_current = 2\<rparr>],
       mon_head := Some 3, mon_tail := Some 4, mon_pending_head := None, mon_pending_tail := None,
       db := empty_db\<lparr>now_sec := 100\<rparr>\<rparr>\<rparr>"

theorem monitoring_tick_serves_due_witness:
  "\<exists>s'. monitoring_check two_due = Some s' \<and> mon_list (world s') [4, 3] \<and> served two_due s' 3 \<and> untouched two_due s' 4"
  using monitoring_tick_serves_due [of two_due "[3]" "[4]"]
  by (auto simp: two_due_def mon_list_def due_conn_def at_rest_def not_yet_def after_def empty_db_def scache_connection.truncate_def)

end
