(* ===== verification/DbTableProps.thy ===== *)
theory DbTableProps
  imports DbTable
begin

text \<open>
  Deleting a table with its entries (\<open>db_table_handle_delete\<close>). The loop takes each entry out with
  \<open>softdelete\<close>, which frees an entry that nobody holds, and then removes its file through the same pointer.
\<close>

text \<open>What an entry that nobody holds looks like in bucket \<open>k\<close> of the table.\<close>

definition idle_at :: "tptr \<Rightarrow> nat \<Rightarrow> eptr \<Rightarrow> db_state \<Rightarrow> bool" where
  "idle_at t k e s \<longleftrightarrow> (case (hash_set_of t s, entries s e) of
     (Some h, Some c) \<Rightarrow> kh_exist h k \<and> kh_value h k = Some e \<and> ce_refs c = 0 \<and> \<not> ce_deleted c
   | _ \<Rightarrow> False)"

text \<open>What the steps on one entry leave of the others and of the tables.\<close>

definition others_same :: "eptr \<Rightarrow> db_state \<Rightarrow> db_state \<Rightarrow> bool" where
  "others_same e s s' \<longleftrightarrow> (\<forall>x. x \<noteq> e \<longrightarrow> map_option core (entries s' x) = map_option core (entries s x))"

lemma others_same_refl [simp]: "others_same e s s"
  by (simp add: others_same_def)

lemma others_same_trans: "others_same e s t \<Longrightarrow> others_same e t u \<Longrightarrow> others_same e s u"
  by (simp add: others_same_def)

lemma core_fields: "core c = core c' \<Longrightarrow> ce_refs c = ce_refs c' \<and> ce_deleted c = ce_deleted c' \<and> ce_table c = ce_table c'
    \<and> ce_data_length c = ce_data_length c'"
  by (cases c; cases c') (simp add: core_def)

lemma remove_node_frame:
  assumes "db_lru_remove_node e s = Some s'"
  shows "(\<forall>x. map_option core (entries s' x) = map_option core (entries s x)) \<and> dbtables s' = dbtables s"
  using assms by (auto simp: db_lru_remove_node_def mod_entry_def elim!: bind_SomeE split: option.split_asm if_split_asm)

lemma set_del_frame: "set_del e k s = Some s' \<Longrightarrow> entries s' = entries s"
  by (auto simp: set_del_def mod_table_def elim!: bind_SomeE)

lemma set_del_hash_set:
  assumes "set_del e k s = Some s'" "hash_set_of t s = Some h"
  shows "\<exists>h'. hash_set_of t s' = Some h' \<and> (h' = h \<or> h' = kh_del h k)"
  using assms by (auto simp: set_del_def mod_table_def hash_set_of_def elim!: bind_SomeE)

lemma kh_del_other: "k \<noteq> k' \<Longrightarrow> kh_exist (kh_del h k') k = kh_exist h k \<and> kh_value (kh_del h k') k = kh_value h k"
  by (simp add: kh_del_def kh_exist_def kh_value_def)

text \<open>The entry that is taken out: an idle one is gone, a held one stays and only its table's set loses the bucket.\<close>

lemma softdelete_frees:
  assumes "entries s e = Some c" "ce_refs c = 0" "\<not> ce_deleted c" "db_entry_handle_softdelete e k s = Some s'"
  shows "entries s' e = None"
proof -
  from assms obtain s1 s2 s3 c3 where
    1: "set_del e k s1 = Some s2" "entries s1 e = Some (c\<lparr>ce_deleted := True\<rparr>)" and
    3: "entries s3 e = Some c3" "(if ce_refs c3 = 0 then db_entry_actually_delete e s3 else Some s3) = Some s'" and
    r: "(if \<not> ce_writing c then db_lru_remove_node e (s2\<lparr>db_size_bytes := db_size_bytes s2 - ucast (ce_data_length c)\<rparr>)
        else Some (s2\<lparr>db_size_bytes := db_size_bytes s2 - ucast (ce_data_length c)\<rparr>)) = Some s3"
    by (auto simp: db_entry_handle_softdelete_def db_entry_delete_def mod_entry_def Let_def elim!: bind_SomeE split: if_split_asm)
  have "map_option core (entries s3 e) = map_option core (entries s1 e)"
    using r set_del_frame [OF 1(1)] by (auto split: if_split_asm dest: remove_node_frame)
  with 1(2) 3(1) core_fields [of c3 "c\<lparr>ce_deleted := True\<rparr>"] assms(2) have "ce_refs c3 = 0" by simp
  with 3(2) show ?thesis by (auto simp: db_entry_actually_delete_def free_entry_def elim!: bind_SomeE)
qed

lemma softdelete_keeps_idle:
  assumes i: "idle_at t k e s" and c: "entries s x = Some c" "ce_refs c \<noteq> 0" "x \<noteq> e" "k' \<noteq> k"
    and d: "db_entry_handle_softdelete x k' s = Some s'"
  shows "idle_at t k e s'"
proof (cases "ce_deleted c")
  case True
  with d c i show ?thesis by (simp add: db_entry_handle_softdelete_def)
next
  case False
  with c d obtain s1 s2 s3 c3 where
    1: "set_del x k' s1 = Some s2" "entries s1 = (entries s)(x \<mapsto> c\<lparr>ce_deleted := True\<rparr>)" "dbtables s1 = dbtables s" and
    3: "entries s3 x = Some c3" "(if ce_refs c3 = 0 then db_entry_actually_delete x s3 else Some s3) = Some s'" and
    r: "(if \<not> ce_writing c then db_lru_remove_node x (s2\<lparr>db_size_bytes := db_size_bytes s2 - ucast (ce_data_length c)\<rparr>)
        else Some (s2\<lparr>db_size_bytes := db_size_bytes s2 - ucast (ce_data_length c)\<rparr>)) = Some s3"
    by (auto simp: db_entry_handle_softdelete_def db_entry_delete_def mod_entry_def Let_def elim!: bind_SomeE split: if_split_asm)
  have f: "map_option core (entries s3 y) = map_option core (entries s1 y)" "dbtables s3 = dbtables s2" for y
    using r set_del_frame [OF 1(1)] by (auto split: if_split_asm dest: remove_node_frame)
  from f(1) [of x] 1(2) 3(1) core_fields [of c3 "c\<lparr>ce_deleted := True\<rparr>"] c(2) have "ce_refs c3 \<noteq> 0" by simp
  with 3(2) have s': "s' = s3" by simp
  from i obtain h ce where ih: "hash_set_of t s = Some h" "entries s e = Some ce" "kh_exist h k" "kh_value h k = Some e"
    "ce_refs ce = 0" "\<not> ce_deleted ce" by (auto simp: idle_at_def split: option.splits)
  have "hash_set_of t s1 = Some h" using ih(1) 1(3) by (simp add: hash_set_of_def)
  from set_del_hash_set [OF 1(1) this] obtain h' where h': "hash_set_of t s2 = Some h'" "h' = h \<or> h' = kh_del h k'" by blast
  have e3: "map_option core (entries s3 e) = Some (core ce)" using f(1) [of e] 1(2) c(3) ih(2) by simp
  then obtain c' where "entries s3 e = Some c'" "core c' = core ce" by auto
  moreover have "hash_set_of t s3 = Some h'" using h'(1) f(2) by (simp add: hash_set_of_def)
  moreover have "kh_exist h' k" "kh_value h' k = Some e" using h'(2) ih(3,4) kh_del_other [of k k' h] c(4) by auto
  ultimately show ?thesis using ih(5,6) core_fields [of c' ce] by (simp add: idle_at_def s')
qed

lemma cleanup_idle: "db_entry_cleanup x s = Some s' \<Longrightarrow> idle_at t k e s' = idle_at t k e s"
proof -
  assume "db_entry_cleanup x s = Some s'"
  then have "entries s' = entries s" "dbtables s' = dbtables s"
    by (auto simp: db_entry_cleanup_def elim!: bind_SomeE split: if_split_asm)
  then show ?thesis by (simp add: idle_at_def hash_set_of_def)
qed

lemma delete_keys_idle: "k \<in> set kes \<Longrightarrow> idle_at t k e s \<Longrightarrow> db_table_delete_keys t kes s = None"
proof (induction kes arbitrary: s)
  case (Cons ke kes)
  show ?case
  proof (rule ccontr)
    assume "db_table_delete_keys t (ke # kes) s \<noteq> None"
    then obtain r h s2 where run: "db_table_delete_keys t kes s2 = Some r" and h: "hash_set_of t s = Some h"
      and step: "(if kh_exist h ke then do {
         x \<leftarrow> kh_value h ke; c \<leftarrow> entries s x;
         if \<not> ce_deleted c then do { s \<leftarrow> db_entry_handle_softdelete x ke s; db_entry_cleanup x s } else Some s
       } else Some s) = Some s2"
      by (auto elim!: bind_SomeE)
    from Cons.prems(2) h obtain ce where e: "entries s e = Some ce" "kh_exist h k" "kh_value h k = Some e"
      "ce_refs ce = 0" "\<not> ce_deleted ce" by (auto simp: idle_at_def split: option.splits)
    have gone: False if "db_entry_handle_softdelete x ke s = Some s1" "db_entry_cleanup x s1 = Some s2"
      "entries s x = Some c" "ce_refs c = 0" "\<not> ce_deleted c" for x s1 c
      using softdelete_frees [OF that(3,4,5,1)] that(2) by (simp add: db_entry_cleanup_def)
    have "ke \<noteq> k" using step e gone by (auto elim!: bind_SomeE)
    moreover have "idle_at t k e s2"
    proof (cases "kh_exist h ke")
      case False
      with step Cons.prems(2) show ?thesis by simp
    next
      case True
      with step obtain x c where x: "kh_value h ke = Some x" "entries s x = Some c"
        "(if \<not> ce_deleted c then do { s \<leftarrow> db_entry_handle_softdelete x ke s; db_entry_cleanup x s } else Some s) = Some s2"
        by (auto elim!: bind_SomeE)
      show ?thesis
      proof (cases "ce_deleted c")
        case True
        with x(3) Cons.prems(2) show ?thesis by simp
      next
        case False
        with x(3) obtain s1 where s1: "db_entry_handle_softdelete x ke s = Some s1" "db_entry_cleanup x s1 = Some s2"
          by (auto elim!: bind_SomeE)
        with gone x(2) False have "ce_refs c \<noteq> 0" by blast
        moreover from this x(2) e have "x \<noteq> e" by auto
        ultimately show ?thesis
          using softdelete_keeps_idle [OF Cons.prems(2) x(2) _ _ \<open>ke \<noteq> k\<close> s1(1)] cleanup_idle [OF s1(2)] by simp
      qed
    qed
    ultimately have "db_table_delete_keys t kes s2 = None" using Cons by auto
    with run show False by simp
  qed
qed simp

text \<open>
  C33. Deleting a table (\<open>db_table_handle_delete\<close>, the request to purge a table) that has an entry nobody holds at
  the moment uses freed memory, in whatever bucket the entry is and whatever else the database holds:
  \<open>db_entry_handle_softdelete\<close> frees such an entry and \<open>db_entry_cleanup\<close> then reads its length.
\<close>

theorem table_delete_uses_freed_entry:
  assumes "idle_at t k e s"
  shows "db_table_handle_delete t s = None"
proof (rule ccontr)
  assume "db_table_handle_delete t s \<noteq> None"
  then obtain s1 h r where s1: "mod_table t (\<lambda>d. d\<lparr>tbl_deleted := True\<rparr>) s = Some s1" "hash_set_of t s1 = Some h"
    "db_table_delete_keys t [0..<n_buckets h] s1 = Some r"
    by (auto simp: db_table_handle_delete_def db_table_handle_delete_at_def elim!: bind_SomeE)
  from s1(1) have i: "idle_at t k e s1"
    using assms by (auto simp: idle_at_def hash_set_of_def mod_table_def elim!: bind_SomeE split: option.splits)
  then have "k < n_buckets h" using s1(2) by (auto simp: idle_at_def kh_value_def split: option.splits if_splits)
  with delete_keys_idle [OF _ i, of "[0..<n_buckets h]"] s1(3) show False by simp
qed

text \<open>A table with one entry, stored and idle: taking the entry out succeeds, deleting the table does not.\<close>

definition one_entry_db :: db_state where
  "one_entry_db = empty_db\<lparr>
     entries := [1 \<mapsto> \<lparr>ce_table = Some 0, ce_hash = 9, ce_key = ''k'', ce_key_length = 1, ce_writing = False,
       ce_deleted = False, ce_refs = 0, ce_data_length = 5, ce_block = - 2, ce_expires = 0, ce_lru_next = None,
       ce_lru_prev = None, ce_it = 0\<rparr>],
     dbtables := [0 \<mapsto> \<lparr>tbl_hash = 3, tbl_key = ''t'', tbl_key_length = 1,
       cache_hash_set = Some \<lparr>n_buckets = 4, kh_size = 1, n_occupied = 1, upper_bound = 3,
         flags = [Empty, Live, Empty, Empty], keys = [0, 9, 0, 0], vals = [None, Some 1, None, None]\<rparr>,
       tbl_refs = 1, tbl_deleted = False\<rparr>],
     lru_head := Some 1, lru_tail := Some 1, next_ptr := 2\<rparr>"

theorem table_delete_uses_freed_entry_witness:
  "db_table_handle_delete 0 one_entry_db = None \<and> db_entry_handle_softdelete 1 1 one_entry_db \<noteq> None"
proof
  show "db_table_handle_delete 0 one_entry_db = None"
    by (rule table_delete_uses_freed_entry [of _ 1 1])
      (simp add: idle_at_def one_entry_db_def hash_set_of_def kh_exist_def kh_value_def)
  show "db_entry_handle_softdelete 1 1 one_entry_db \<noteq> None"
    by (simp add: one_entry_db_def db_entry_handle_softdelete_def IS_SINGLE_FILE_def BLOCK_LENGTH_def set_del_def hash_set_of_def
        mod_table_def db_lru_remove_node_def db_entry_actually_delete_def)
qed

end
