(* ===== verification/SettingsProps.thy ===== *)
theory SettingsProps
  imports Settings
begin

text \<open>
  What \<open>parse_binds\<close> makes of a list of addresses: the state machine over the text against the entries it is made of.
\<close>

section \<open>What the entries say\<close>

text \<open>
  An entry of the list. The third kind is every entry that starts with a bracket: \<open>a\<close> is what follows up to the first
  colon, which for an IPv6 address is its first group or nothing.
\<close>

datatype bind_entry = Inet string string bool | Unix string | Bracket string string

fun bind_text :: "bind_entry \<Rightarrow> string" where
  "bind_text (Inet a p t) = a @ CHR '':'' # p @ (if t then ''t'' else [])"
| "bind_text (Unix path) = ''u:'' @ path"
| "bind_text (Bracket a p) = CHR ''['' # a @ CHR '':'' # p"

definition no_chars :: "string \<Rightarrow> string \<Rightarrow> bool" where
  "no_chars cs s \<longleftrightarrow> set cs \<inter> set s = {}"

fun bind_ok :: "bind_entry \<Rightarrow> bool" where
  "bind_ok (Inet a p t) = (no_chars [CHR '':'', CHR '','', CHR 0x00, CHR ''[''] a \<and> a \<noteq> ''u'' \<and> no_chars [CHR '','', CHR ''t'', CHR 0x00] p)"
| "bind_ok (Unix path) = (no_chars [CHR '','', CHR 0x00] path \<and> length path \<le> ADDR_SIZE)"
| "bind_ok (Bracket a p) = (no_chars [CHR '':'', CHR '','', CHR 0x00] a \<and> no_chars [CHR '','', CHR ''t'', CHR 0x00] p)"

definition zero_bind :: scache_bind where
  "zero_bind = \<lparr>bind_af = AF_UNSPEC, bind_addr = [], bind_port = 0, bind_transparent = False\<rparr>"

definition address_bytes :: "(address_family \<Rightarrow> string \<Rightarrow> string option) \<Rightarrow> address_family \<Rightarrow> string \<Rightarrow> string" where
  "address_bytes pton af a = (case pton af a of Some bytes \<Rightarrow> bytes | None \<Rightarrow> [])"

fun bind_meaning :: "(address_family \<Rightarrow> string \<Rightarrow> string option) \<Rightarrow> bind_entry \<Rightarrow> scache_bind" where
  "bind_meaning pton (Inet a p t) = \<lparr>bind_af = AF_INET, bind_addr = address_bytes pton AF_INET a, bind_port = atoi p, bind_transparent = t\<rparr>"
| "bind_meaning pton (Unix path) = \<lparr>bind_af = AF_UNIX, bind_addr = path, bind_port = 0, bind_transparent = False\<rparr>"
| "bind_meaning pton (Bracket a p) = \<lparr>bind_af = AF_INET6, bind_addr = address_bytes pton AF_INET6 a, bind_port = atoi p, bind_transparent = False\<rparr>"

fun join_binds :: "bind_entry list \<Rightarrow> string" where
  "join_binds [] = []"
| "join_binds [e] = bind_text e"
| "join_binds (e # e' # es) = bind_text e @ CHR '','' # join_binds (e' # es)"

section \<open>Stretches of the text\<close>

fun quiet :: "bind_parse_state \<Rightarrow> char \<Rightarrow> bool" where
  "quiet First c = False"
| "quiet Ipv4 c = (c \<noteq> CHR '':'')"
| "quiet Ipv6 c = (c \<noteq> CHR '':'')"
| "quiet Unix_path c = (c \<noteq> CHR 0x00 \<and> c \<noteq> CHR '','')"
| "quiet Port c = (c \<noteq> CHR ''t'' \<and> c \<noteq> CHR 0x00 \<and> c \<noteq> CHR '','')"

lemma loop_step: "i \<le> len \<Longrightarrow> bp_step pton i b = Some (j, b') \<Longrightarrow> bp_loop pton len i b = bp_loop pton len j b'"
  by (subst bp_loop.simps) simp

lemma quiet_step: "quiet (bp_state b) (bp_optarg b ! i) \<Longrightarrow> bp_step pton i b = Some (i + 1, b)"
  by (cases "bp_state b") (auto simp: bp_step_def bp_colon_def Let_def)

lemma scan_quiet:
  assumes "bp_optarg b = pre @ xs @ ys" "\<forall>c\<in>set xs. quiet (bp_state b) c" "length pre + length xs \<le> len"
  shows "bp_loop pton len (length pre) b = bp_loop pton len (length pre + length xs) b"
  using assms
proof (induction xs arbitrary: pre)
  case (Cons x xs)
  have "bp_loop pton len (length pre) b = bp_loop pton len (length (pre @ [x])) b"
    using Cons.prems loop_step [OF _ quiet_step, of "length pre" len b pton] by (simp add: nth_append)
  also have "\<dots> = bp_loop pton len (length (pre @ [x]) + length xs) b"
    using Cons.prems by (intro Cons.IH) auto
  finally show ?case by simp
qed simp

lemma c_string_mid: "no_chars [CHR 0x00] s \<Longrightarrow> c_string_at (pre @ s @ CHR 0x00 # post) (length pre) = s"
  by (auto simp: c_string_at_def no_chars_def takeWhile_tail)

text \<open>An address up to its colon.\<close>

definition set_address :: "(address_family \<Rightarrow> string \<Rightarrow> string option) \<Rightarrow> string \<Rightarrow> scache_bind \<Rightarrow> scache_bind" where
  "set_address pton a c = (case pton (bind_af c) a of Some bytes \<Rightarrow> c\<lparr>bind_addr := bytes\<rparr> | None \<Rightarrow> c)"

lemma address_run:
  assumes o: "bp_optarg b = pre @ a @ CHR '':'' # ys" and a: "no_chars [CHR '':'', CHR 0x00] a"
    and s: "bp_state b = Ipv4 \<or> bp_state b = Ipv6" and st: "bp_start b = length pre" and k: "bp_current b < length (bp_binds b)"
    and len: "length pre + length a \<le> len"
  shows "bp_loop pton len (length pre) b = bp_loop pton len (length pre + length a + 1)
    (b\<lparr>bp_optarg := pre @ a @ CHR 0x00 # ys, bp_binds := (bp_binds b)[bp_current b := set_address pton a (bp_binds b ! bp_current b)],
       bp_state := Port, bp_start := length pre + length a + 1\<rparr>)"
proof -
  have "bp_loop pton len (length pre) b = bp_loop pton len (length pre + length a) b"
    using o a s len by (intro scan_quiet [where ys = "CHR '':'' # ys"]) (auto simp: no_chars_def)
  also have "\<dots> = bp_loop pton len (length pre + length a + 1)
    (b\<lparr>bp_optarg := pre @ a @ CHR 0x00 # ys, bp_binds := (bp_binds b)[bp_current b := set_address pton a (bp_binds b ! bp_current b)],
       bp_state := Port, bp_start := length pre + length a + 1\<rparr>)"
  proof (rule loop_step [OF len])
    have nth: "bp_optarg b ! (length pre + length a) = CHR '':''" using o by (simp add: nth_append)
    have upd: "(bp_optarg b)[length pre + length a := CHR 0x00] = pre @ a @ CHR 0x00 # ys" using o by (simp add: list_update_append)
    have c: "c_string_at (pre @ a @ CHR 0x00 # ys) (length pre) = a" using a by (intro c_string_mid) (simp add: no_chars_def)
    show "bp_step pton (length pre + length a) b = Some (length pre + length a + 1, b\<lparr>bp_optarg := pre @ a @ CHR 0x00 # ys,
       bp_binds := (bp_binds b)[bp_current b := set_address pton a (bp_binds b ! bp_current b)],
       bp_state := Port, bp_start := length pre + length a + 1\<rparr>)"
      using s k by (auto simp: bp_step_def bp_colon_def nth upd c st upd_bind_def set_address_def Let_def split: option.splits)
  qed
  finally show ?thesis .
qed

text \<open>Where an entry ends: after its last character, a comma or the end, the next one starts.\<close>

definition entry_read :: "nat \<Rightarrow> nat \<Rightarrow> char \<Rightarrow> string \<Rightarrow> scache_bind list \<Rightarrow> bind_parser \<Rightarrow> bool" where
  "entry_read i k x post bs b \<longleftrightarrow> bp_binds b = bs \<and> (\<exists>pre. bp_optarg b = pre @ post \<and> length pre = i)
     \<and> (x = CHR '','' \<longrightarrow> bp_state b = First \<and> bp_start b = i \<and> bp_current b = k + 1)"

lemma port_run:
  assumes o: "bp_optarg b = pre @ p @ (if t then ''t'' else []) @ x # post" and p: "no_chars [CHR '','', CHR ''t'', CHR 0x00] p"
    and s: "bp_state b = Port" and st: "bp_start b = length pre" and k: "bp_current b < length (bp_binds b)"
    and tr: "\<not> bind_transparent (bp_binds b ! bp_current b)" and x: "x = CHR '','' \<or> x = CHR 0x00"
    and len: "length pre + length p + (if t then 1 else 0) \<le> len"
  shows "\<exists>b'. bp_loop pton len (length pre) b = bp_loop pton len (length pre + length p + (if t then 1 else 0) + 1) b'
    \<and> entry_read (length pre + length p + (if t then 1 else 0) + 1) (bp_current b) x post
        ((bp_binds b)[bp_current b := (bp_binds b ! bp_current b)\<lparr>bind_port := atoi p, bind_transparent := t\<rparr>]) b'"
proof -
  let ?k = "bp_current b" and ?i = "length pre + length p"
  have scan: "bp_loop pton len (length pre) b = bp_loop pton len ?i b"
    using o p s len by (intro scan_quiet [where ys = "(if t then ''t'' else []) @ x # post"]) (auto simp: no_chars_def)
  have c: "c_string_at (pre @ p @ CHR 0x00 # ys) (length pre) = p" for ys
    using p by (intro c_string_mid) (simp add: no_chars_def)
  show ?thesis
  proof (cases t)
    case False
    have nth: "bp_optarg b ! ?i = x" and upd: "(bp_optarg b)[?i := CHR 0x00] = pre @ p @ CHR 0x00 # post"
      using o False by (simp_all add: nth_append list_update_append)
    have "\<exists>b'. bp_step pton ?i b = Some (?i + 1, b') \<and> entry_read (?i + 1) ?k x post
        ((bp_binds b)[?k := (bp_binds b ! ?k)\<lparr>bind_port := atoi p, bind_transparent := t\<rparr>]) b'"
      using x s k tr False by (cases "bp_binds b ! ?k")
        (auto simp: bp_step_def nth upd c st upd_bind_def Let_def bp_next_def entry_read_def intro!: exI [of _ "pre @ p @ [CHR 0x00]"])
    with scan loop_step [of ?i len pton b] len False show ?thesis by fastforce
  next
    case True
    let ?b = "b\<lparr>bp_binds := (bp_binds b)[?k := (bp_binds b ! ?k)\<lparr>bind_transparent := True\<rparr>]\<rparr>"
    have nth: "bp_optarg b ! ?i = CHR ''t''" "bp_optarg b ! Suc ?i = x"
      and upd: "(bp_optarg b)[?i := CHR 0x00] = pre @ p @ CHR 0x00 # x # post"
      using o True by (simp_all add: nth_append list_update_append)
    have "bp_step pton ?i b = Some (?i + 1, ?b)" using s k by (simp add: bp_step_def nth upd_bind_def Let_def)
    moreover have "\<exists>b'. bp_step pton (?i + 1) ?b = Some (?i + 2, b') \<and> entry_read (?i + 2) ?k x post
        ((bp_binds b)[?k := (bp_binds b ! ?k)\<lparr>bind_port := atoi p, bind_transparent := t\<rparr>]) b'"
      using x s k True by (cases "bp_binds b ! ?k")
        (auto simp: bp_step_def nth upd c st upd_bind_def Let_def bp_next_def entry_read_def intro!: exI [of _ "pre @ p @ [CHR 0x00, x]"])
    ultimately show ?thesis using scan loop_step [of ?i len pton b] loop_step [of "?i + 1" len pton ?b] len True by fastforce
  qed
qed

section \<open>One entry, and the list\<close>

definition entry_start :: "bind_parser \<Rightarrow> nat \<Rightarrow> nat \<Rightarrow> scache_bind list \<Rightarrow> string \<Rightarrow> bool" where
  "entry_start b i k bs ys \<longleftrightarrow> bp_state b = First \<and> bp_start b = i \<and> bp_current b = k \<and> bp_binds b = bs
     \<and> (\<exists>pre. bp_optarg b = pre @ ys \<and> length pre = i)"

lemma entry_run:
  assumes b: "entry_start b i k bs (bind_text e @ x # post)" and e: "bind_ok e" and k: "k < length bs" "bs ! k = zero_bind"
    and x: "x = CHR '','' \<or> x = CHR 0x00" and len: "i + length (bind_text e) \<le> len"
  shows "\<exists>b'. bp_loop pton len i b = bp_loop pton len (i + length (bind_text e) + 1) b'
    \<and> entry_read (i + length (bind_text e) + 1) k x post (bs[k := bind_meaning pton e]) b'"
proof -
  from b obtain pre where o: "bp_optarg b = pre @ bind_text e @ x # post" and pre: "length pre = i"
    and st: "bp_state b = First" "bp_start b = i" "bp_current b = k" "bp_binds b = bs" by (auto simp: entry_start_def)
  show ?thesis
  proof (cases e)
    case (Inet a p t)
    let ?ys = "p @ (if t then ''t'' else []) @ x # post"
    let ?b = "b\<lparr>bp_state := Ipv4, bp_binds := bs[k := zero_bind\<lparr>bind_af := AF_INET\<rparr>]\<rparr>"
    have o': "bp_optarg b = pre @ a @ CHR '':'' # ?ys" using o Inet by simp
    have "bp_optarg b ! i \<noteq> CHR ''['' \<and> \<not> (bp_optarg b ! i = CHR ''u'' \<and> bp_optarg b ! Suc i = CHR '':'')"
    proof (cases a)
      case (Cons c cs)
      then show ?thesis using o' pre e Inet by (cases cs) (auto simp: nth_append no_chars_def)
    qed (use o' pre in \<open>simp add: nth_append\<close>)
    then have "bp_step pton i b = bp_step pton i ?b"
      using st k by (auto simp: bp_step_def upd_bind_def bp_colon_def Let_def split: option.splits)
    then have "bp_loop pton len i b = bp_loop pton len i ?b" using len by (subst (1 2) bp_loop.simps) simp
    also have "\<dots> = bp_loop pton len (i + length a + 1) (?b\<lparr>bp_optarg := pre @ a @ CHR 0x00 # ?ys,
       bp_binds := bs[k := set_address pton a (zero_bind\<lparr>bind_af := AF_INET\<rparr>)], bp_state := Port, bp_start := i + length a + 1\<rparr>)"
      using address_run [of ?b pre a ?ys len pton] o' pre st k e len Inet by (auto simp: no_chars_def)
    finally show ?thesis
      using port_run [of "?b\<lparr>bp_optarg := pre @ a @ CHR 0x00 # ?ys,
         bp_binds := bs[k := set_address pton a (zero_bind\<lparr>bind_af := AF_INET\<rparr>)], bp_state := Port, bp_start := i + length a + 1\<rparr>"
         "pre @ a @ [CHR 0x00]" p t x post len pton] pre st k e x len Inet
      by (auto simp: set_address_def zero_bind_def address_bytes_def ac_simps split: option.splits)
  next
    case (Bracket a p)
    let ?ys = "p @ x # post"
    let ?b = "b\<lparr>bp_state := Ipv6, bp_start := i + 1, bp_binds := bs[k := zero_bind\<lparr>bind_af := AF_INET6\<rparr>]\<rparr>"
    have "bp_step pton i b = Some (i + 1, ?b)"
      using o pre st k Bracket by (simp add: bp_step_def upd_bind_def nth_append Let_def)
    then have "bp_loop pton len i b = bp_loop pton len (i + 1) ?b" using len by (intro loop_step) auto
    also have "\<dots> = bp_loop pton len (i + length a + 2) (?b\<lparr>bp_optarg := pre @ CHR ''['' # a @ CHR 0x00 # ?ys,
       bp_binds := bs[k := set_address pton a (zero_bind\<lparr>bind_af := AF_INET6\<rparr>)], bp_state := Port, bp_start := i + length a + 2\<rparr>)"
      using address_run [of ?b "pre @ ''[''" a ?ys len pton] o pre st k e len Bracket by (auto simp: no_chars_def)
    finally show ?thesis
      using port_run [of "?b\<lparr>bp_optarg := pre @ CHR ''['' # a @ CHR 0x00 # ?ys,
         bp_binds := bs[k := set_address pton a (zero_bind\<lparr>bind_af := AF_INET6\<rparr>)], bp_state := Port, bp_start := i + length a + 2\<rparr>"
         "pre @ CHR ''['' # a @ [CHR 0x00]" p False x post len pton] pre st k e x len Bracket
      by (auto simp: set_address_def zero_bind_def address_bytes_def ac_simps split: option.splits)
  next
    case (Unix path)
    let ?b = "b\<lparr>bp_state := Unix_path, bp_start := i + 2, bp_binds := bs[k := zero_bind\<lparr>bind_af := AF_UNIX\<rparr>]\<rparr>"
    let ?j = "i + 2 + length path"
    have "bp_step pton i b = Some (i + 2, ?b)"
      using o pre st k Unix by (simp add: bp_step_def upd_bind_def nth_append Let_def)
    then have "bp_loop pton len i b = bp_loop pton len (i + 2) ?b" using len by (intro loop_step) auto
    also have "\<dots> = bp_loop pton len ?j ?b"
      using scan_quiet [of ?b "pre @ ''u:''" path "x # post" len pton] o pre e len Unix by (auto simp: no_chars_def)
    finally have 1: "bp_loop pton len i b = bp_loop pton len ?j ?b" .
    have nth: "bp_optarg b ! ?j = x" and mid: "take (length path) (drop (i + 2) (bp_optarg b)) = path"
      using o pre Unix by (simp_all add: nth_append)
    have "\<exists>b'. bp_step pton ?j ?b = Some (?j + 1, b') \<and> entry_read (?j + 1) k x post (bs[k := bind_meaning pton e]) b'"
      using x st k e o pre Unix nth mid
      by (auto simp: bp_step_def upd_bind_def Let_def bp_next_def entry_read_def zero_bind_def intro!: exI [of _ "pre @ ''u:'' @ path @ [x]"])
    with 1 loop_step [of ?j len pton ?b] len Unix show ?thesis by fastforce
  qed
qed

lemma join_run:
  assumes "entry_start b i k (ds @ replicate (length es) zero_bind) (join_binds es @ [CHR 0x00])" "es \<noteq> []" "list_all bind_ok es"
    and "k = length ds" "len = i + length (join_binds es)"
  shows "\<exists>b'. bp_loop pton len i b = Some b' \<and> bp_binds b' = ds @ map (bind_meaning pton) es"
  using assms
proof (induction es arbitrary: b i k ds rule: join_binds.induct)
  case (2 e)
  from entry_run [of b i k "ds @ [zero_bind]" e "CHR 0x00" "[]" len pton] 2 obtain b' where
    "bp_loop pton len i b = bp_loop pton len (len + 1) b'" "bp_binds b' = ds @ [bind_meaning pton e]"
    by (auto simp: entry_read_def)
  moreover have "bp_loop pton len (len + 1) b' = Some b'" by (subst bp_loop.simps) simp
  ultimately show ?case by simp
next
  case (3 e e' es)
  let ?i = "i + length (bind_text e) + 1"
  from entry_run [of b i k "ds @ zero_bind # replicate (Suc (length es)) zero_bind" e "CHR '',''" "join_binds (e' # es) @ [CHR 0x00]" len pton]
    "3.prems" obtain b' where b': "bp_loop pton len i b = bp_loop pton len ?i b'"
    "entry_start b' ?i (k + 1) ((ds @ [bind_meaning pton e]) @ replicate (length (e' # es)) zero_bind) (join_binds (e' # es) @ [CHR 0x00])"
    by (auto simp: entry_read_def entry_start_def)
  with "3.IH" [OF this(2)] "3.prems" show ?case by auto
qed simp

lemma number_of_binds:
  "list_all bind_ok es \<Longrightarrow> es \<noteq> [] \<Longrightarrow>
   length (filter (\<lambda>c. c = CHR '','' \<or> c = CHR 0x00) (join_binds es @ [CHR 0x00])) = length es"
proof (induction es rule: join_binds.induct)
  case (2 e)
  then show ?case by (cases e) (auto simp: no_chars_def filter_empty_conv)
next
  case (3 e e' es)
  then have "filter (\<lambda>c. c = CHR '','' \<or> c = CHR 0x00) (bind_text e) = []" by (cases e) (auto simp: no_chars_def filter_empty_conv)
  with 3 show ?case by simp
qed simp

text \<open>
  C31. \<open>parse_binds\<close> reads every list of addresses as its entries say, one bind for each, in order, and stays inside
  the text and the array: the IPv4 address before the colon goes to \<open>inet_pton\<close>, the port is the number before the optional
  \<open>t\<close>, a Unix path is copied. Of an entry in brackets it takes only what stands before the first colon for the
  address, and the rest up to the comma for the port, so no IPv6 address but one without a colon is ever read.
\<close>

theorem parse_binds_correct:
  assumes "es \<noteq> []" "list_all bind_ok es"
  shows "parse_binds pton (join_binds es) = Some (map (bind_meaning pton) es)"
proof -
  have "\<exists>b'. bp_loop pton (length (join_binds es)) 0 \<lparr>bp_optarg = join_binds es @ [CHR 0x00], bp_state = First, bp_start = 0, bp_current = 0,
       bp_binds = replicate (length es) zero_bind\<rparr> = Some b' \<and> bp_binds b' = map (bind_meaning pton) es"
    using join_run [of _ 0 0 "[]" es "length (join_binds es)" pton] assms by (auto simp: entry_start_def)
  then show ?thesis
    using number_of_binds [OF assms(2,1)] by (auto simp: parse_binds_def Let_def zero_bind_def)
qed

theorem parse_binds_correct_witness:
  "parse_binds (\<lambda>af a. if a = ''127.0.0.1'' then Some ''abcd'' else None) ''127.0.0.1:80t,u:/tmp/s,[::1]:81''
    = Some [\<lparr>bind_af = AF_INET, bind_addr = ''abcd'', bind_port = 80, bind_transparent = True\<rparr>,
        \<lparr>bind_af = AF_UNIX, bind_addr = ''/tmp/s'', bind_port = 0, bind_transparent = False\<rparr>,
        \<lparr>bind_af = AF_INET6, bind_addr = [], bind_port = 0, bind_transparent = False\<rparr>]"
proof -
  have "atoi ''80'' = 80" "atoi '':1]:81'' = 0" by code_simp+
  then show ?thesis
    using parse_binds_correct [of "[Inet ''127.0.0.1'' ''80'' True, Unix ''/tmp/s'', Bracket [] '':1]:81'']"
        "\<lambda>af a. if a = ''127.0.0.1'' then Some ''abcd'' else None"]
    by (simp add: no_chars_def ADDR_SIZE_def address_bytes_def)
qed

end
