(* ===== verification/Listener.thy ===== *)
theory Listener
  imports Server Settings
begin

text \<open>
  The sockets the server listens on, and the two threads that accept on them (src/core/connection.cpp):
  \<open>connection_setup\<close>, \<open>connection_open_listener\<close> and \<open>connection_open_bind\<close>, then the loop of
  \<open>connection_handle_accept\<close> over the events of one \<open>epoll_wait\<close>, with the queue to the event loop as
  the linked list it is. What the system calls return is the argument of each function; what they are called
  with is recorded. \<open>FATAL\<close> and \<open>PFATAL\<close> end the process, which is the error value \<open>Process_exit\<close>.
\<close>

section \<open>Opening\<close>

datatype exit_code = Process_exit

type_synonym 'a or_exit = "exit_code + 'a"

text \<open>
  The addresses as \<open>bind\<close> gets them. \<open>addr\<close> of a bind is an array of 110 zeroed bytes into which
  \<open>bind_addr\<close> was written; \<open>memcpy\<close> takes as many as the field of the address has.
\<close>

definition addr_bytes :: "nat \<Rightarrow> scache_bind \<Rightarrow> string" where
  "addr_bytes n b = take n (bind_addr b @ replicate ADDR_SIZE (CHR 0x00))"

text \<open>\<open>htons\<close> on a little endian machine, of an \<open>int\<close>.\<close>

definition htons :: "int \<Rightarrow> u16" where
  "htons port = (let p = of_int port :: u16 in push_bit 8 p OR drop_bit 8 p)"

datatype sockaddr =
    Sockaddr_in u16 string
  | Sockaddr_in6 u16 string
  | Sockaddr_un string

datatype net_call =
    Call_socket address_family
  | Call_cloexec int
  | Call_reuseaddr int
  | Call_transparent int
  | Call_unlink string
  | Call_bind int sockaddr
  | Call_chmod string
  | Call_nonblock int
  | Call_listen int

text \<open>What the system calls return for one listener (\<open>fcntl(F_GETFL)\<close> does not matter).\<close>

record listen_results =
  res_socket :: int
  res_cloexec :: int
  res_reuseaddr :: int
  res_transparent :: int
  res_errno :: int
  res_bind :: int
  res_chmod :: int
  res_nonblock :: int
  res_listen :: int

definition c_text :: "string \<Rightarrow> string" where
  "c_text s = takeWhile (\<lambda>c. c \<noteq> CHR 0x00) s"

definition bind_sockaddr :: "scache_bind \<Rightarrow> sockaddr option" where
  "bind_sockaddr b = (case bind_af b of
       AF_INET \<Rightarrow> Some (Sockaddr_in (htons (bind_port b)) (addr_bytes 4 b))
     | AF_INET6 \<Rightarrow> Some (Sockaddr_in6 (htons (bind_port b)) (addr_bytes 16 b))
     | AF_UNIX \<Rightarrow> Some (Sockaddr_un (addr_bytes 108 b))
     | AF_UNSPEC \<Rightarrow> None)"

text \<open>The result of \<open>connection_open_bind\<close>, with the calls it made.\<close>

definition connection_open_bind :: "listen_results \<Rightarrow> scache_bind \<Rightarrow> int \<Rightarrow> (int \<times> net_call list) or_exit" where
  "connection_open_bind r ibind listenfd = (case bind_sockaddr ibind of
       None \<Rightarrow> Inl Process_exit
     | Some tobind \<Rightarrow> Inr (let
         calls = (if bind_af ibind = AF_UNIX then [Call_unlink (c_text (bind_addr ibind))] else [])
       in if bind_transparent ibind \<and> res_transparent r = - 1
          then (- res_errno r, calls @ [Call_transparent listenfd])
          else let calls = calls @ (if bind_transparent ibind then [Call_transparent listenfd] else []) @ [Call_bind listenfd tobind]
          in if res_bind r < 0 then (- res_errno r, calls)
             else if bind_af ibind = AF_UNIX
             then (if res_chmod r < 0 then res_chmod r else 0, calls @ [Call_chmod (c_text (addr_bytes 108 ibind))])
             else (0, calls)))"

text \<open>Every failure of \<open>connection_open_listener\<close> ends the process.\<close>

definition connection_open_listener :: "listen_results \<Rightarrow> scache_bind \<Rightarrow> (int \<times> net_call list) or_exit" where
  "connection_open_listener r ibind = (let
     listenfd = res_socket r;
     inet = (bind_af ibind = AF_INET \<or> bind_af ibind = AF_INET6)
   in if listenfd < 0 \<or> res_cloexec r \<noteq> 0 \<or> inet \<and> res_reuseaddr r < 0 then Inl Process_exit
      else case connection_open_bind r ibind listenfd of
        Inl e \<Rightarrow> Inl e
      | Inr (res, calls) \<Rightarrow>
          if res < 0 \<or> res_nonblock r < 0 \<or> res_listen r < 0 then Inl Process_exit
          else Inr (listenfd, [Call_socket (bind_af ibind), Call_cloexec listenfd]
            @ (if inet then [Call_reuseaddr listenfd] else []) @ calls @ [Call_nonblock listenfd, Call_listen listenfd]))"

record listener_entry =
  listener_fd :: int
  listener_type :: connection_ctype

fun open_listeners ::
  "connection_ctype \<Rightarrow> (scache_bind \<times> listen_results) list \<Rightarrow> (listener_entry list \<times> net_call list) or_exit" where
  "open_listeners type [] = Inr ([], [])"
| "open_listeners type ((b, r) # bs) = (case connection_open_listener r b of
       Inl e \<Rightarrow> Inl e
     | Inr (fd, calls) \<Rightarrow> (case open_listeners type bs of
         Inl e \<Rightarrow> Inl e
       | Inr (ls, calls') \<Rightarrow> Inr (\<lparr>listener_fd = fd, listener_type = type\<rparr> # ls, calls @ calls')))"

text \<open>\<open>connection_setup\<close>: the array holds the cache listeners, then the monitoring listeners.\<close>

definition connection_setup ::
  "(scache_bind \<times> listen_results) list \<Rightarrow> (scache_bind \<times> listen_results) list \<Rightarrow> (listener_entry list \<times> net_call list) or_exit" where
  "connection_setup cache_binds monitor_binds = (case open_listeners cache_listener cache_binds of
       Inl e \<Rightarrow> Inl e
     | Inr (ls, calls) \<Rightarrow> (case open_listeners mon_listener monitor_binds of
         Inl e \<Rightarrow> Inl e
       | Inr (ls', calls') \<Rightarrow> Inr (ls @ ls', calls @ calls')))"

text \<open>\<open>connection_close_listeners\<close>: the descriptors that are closed, in order.\<close>

definition connection_close_listeners :: "listener_entry list \<Rightarrow> int list" where
  "connection_close_listeners ls = map listener_fd ls"

section \<open>The queue between the threads\<close>

text \<open>
  \<open>struct connections_queued\<close> as nodes at addresses, \<open>cq_head\<close> and \<open>cq_tail\<close>. Each operation runs with the
  lock held. \<open>None\<close> is undefined behaviour.
\<close>

record cq_node =
  qn_client_sock :: int
  qn_client_type :: connection_ctype
  qn_next :: "nat option"

record conn_queue =
  cq_nodes :: "nat \<Rightarrow> cq_node option"
  cq_head :: "nat option"
  cq_tail :: "nat option"

definition mod_cq :: "nat \<Rightarrow> (cq_node \<Rightarrow> cq_node) \<Rightarrow> conn_queue \<Rightarrow> conn_queue option" where
  "mod_cq p f q = do { x \<leftarrow> cq_nodes q p; Some (q\<lparr>cq_nodes := (cq_nodes q)(p \<mapsto> f x)\<rparr>) }"

text \<open>The insertion of the node at \<open>p\<close>, which \<open>malloc\<close> returned.\<close>

definition cq_enqueue :: "nat \<Rightarrow> int \<Rightarrow> connection_ctype \<Rightarrow> conn_queue \<Rightarrow> conn_queue option" where
  "cq_enqueue p sock client_type q = do {
     let q = q\<lparr>cq_nodes := (cq_nodes q)(p \<mapsto> \<lparr>qn_client_sock = sock, qn_client_type = client_type, qn_next = None\<rparr>)\<rparr>;
     case cq_tail q of
       None \<Rightarrow> Some (q\<lparr>cq_tail := Some p, cq_head := Some p\<rparr>)
     | Some t \<Rightarrow> do {
         q \<leftarrow> mod_cq t (\<lambda>x. x\<lparr>qn_next := Some p\<rparr>) q;
         Some (q\<lparr>cq_tail := Some p\<rparr>)
       }
   }"

text \<open>The removal of the first node, which is freed once its fields are read.\<close>

definition cq_dequeue :: "conn_queue \<Rightarrow> ((int \<times> connection_ctype) option \<times> conn_queue) option" where
  "cq_dequeue q = (case cq_head q of
       None \<Rightarrow> Some (None, q)
     | Some p \<Rightarrow> do {
         x \<leftarrow> cq_nodes q p;
         let q = q\<lparr>cq_head := qn_next x\<rparr>;
         let q = (if cq_head q = None then q\<lparr>cq_tail := None\<rparr> else q);
         Some (Some (qn_client_sock x, qn_client_type x), q\<lparr>cq_nodes := (cq_nodes q)(p := None)\<rparr>)
       })"

section \<open>Accepting\<close>

text \<open>
  One event of a listener: an error or hang-up, or something to accept, with what \<open>accept4\<close> returns (a socket, nothing
  there, too many open files or no socket, another error), the address \<open>malloc\<close> returns and whether the \<open>write\<close> to the
  event descriptor, which is retried while it writes nothing, succeeds.
\<close>

datatype accept_result = Accept_sock int | Accept_again | Accept_fatal | Accept_error

record listen_event =
  le_fd :: int
  le_err_hup :: bool
  le_in :: bool
  le_accept :: accept_result
  le_malloc :: "nat option"
  le_write_ok :: bool

text \<open>
  The \<open>for\<close> loop over the events. After \<open>accept4\<close> or \<open>malloc\<close> failed, \<open>n++; continue\<close> steps over the next event
  too. A failing \<open>write\<close> ends the process: \<open>errno\<close> is compared with \<open>-EAGAIN\<close>, which it never is.
\<close>

function accept_events :: "connection_ctype \<Rightarrow> listen_event list \<Rightarrow> conn_queue \<Rightarrow> conn_queue or_exit option" where
  "accept_events client_type [] q = Some (Inr q)"
| "accept_events client_type (ev # evs) q =
     (if le_err_hup ev then Some (Inl Process_exit)
      else if le_in ev then (case le_accept ev of
          Accept_fatal \<Rightarrow> Some (Inl Process_exit)
        | Accept_again \<Rightarrow> accept_events client_type (drop 1 evs) q
        | Accept_error \<Rightarrow> accept_events client_type (drop 1 evs) q
        | Accept_sock sock \<Rightarrow> (case le_malloc ev of
            None \<Rightarrow> accept_events client_type (drop 1 evs) q
          | Some p \<Rightarrow> do {
              q \<leftarrow> cq_enqueue p sock client_type q;
              if le_write_ok ev then accept_events client_type evs q else Some (Inl Process_exit)
            }))
      else accept_events client_type evs q)"
  by pat_completeness auto
termination
  by (relation "measure (\<lambda>(_, evs, _). length evs)") auto

definition client_type_of :: "connection_ctype \<Rightarrow> connection_ctype" where
  "client_type_of our_type = (if our_type = cache_listener then cache_connection else mon_connection)"

text \<open>
  The thread for one type of listener: the listeners it waits for, and its loop, one list of events for each
  return of \<open>epoll_wait\<close>; it ends when the flag \<open>stop_soon\<close> is set, which is looked at before each round.
\<close>

definition accept_fds :: "connection_ctype \<Rightarrow> listener_entry list \<Rightarrow> int list" where
  "accept_fds our_type ls = map listener_fd (filter (\<lambda>l. listener_type l = our_type) ls)"

fun connection_handle_accept ::
  "connection_ctype \<Rightarrow> (bool \<times> listen_event list) list \<Rightarrow> conn_queue \<Rightarrow> conn_queue or_exit option" where
  "connection_handle_accept our_type [] q = Some (Inr q)"
| "connection_handle_accept our_type ((stop, evs) # rounds) q =
     (if stop then Some (Inr q)
      else do {
        r \<leftarrow> accept_events (client_type_of our_type) evs q;
        case r of Inl e \<Rightarrow> Some (Inl e) | Inr q \<Rightarrow> connection_handle_accept our_type rounds q
      })"

end
