(* ===== verification/EventLoop.thy ===== *)
theory EventLoop
  imports Listener
begin

text \<open>
  The event loop (\<open>connection_event_loop\<close> in src/core/connection.cpp), the signals (timer.cpp,
  signal_handle.cpp) and the end of the process (\<open>main\<close> in src/server/scache.cpp, \<open>monitoring_close\<close>,
  \<open>connection_cleanup\<close>, \<open>db_close\<close>). A round of the loop is what one \<open>epoll_wait\<close> returns: first the two
  event descriptors are served, then the sockets, one after the other.
\<close>

section \<open>One round\<close>

text \<open>
  What is ready: the event descriptor of the acceptors (with the results of \<open>epoll_ctl\<close> for what is in the queue), that
  of the timer, a connection (with what the kernel has for its socket).
\<close>

datatype ready = Ready_accept "bool list" | Ready_timer | Ready_conn nat socket_event "read_result list"

fun serve_descriptor :: "ready \<Rightarrow> server \<Rightarrow> server option" where
  "serve_descriptor (Ready_accept oks) s = (if stop_soon (world s) then Some s else handle_accept oks s)"
| "serve_descriptor Ready_timer s = monitoring_check s"
| "serve_descriptor (Ready_conn p ev r) s = Some s"

text \<open>The pointer of the event is followed: a connection that is gone by then is undefined behaviour.\<close>

fun serve_connection :: "ready \<Rightarrow> server \<Rightarrow> server option" where
  "serve_connection (Ready_conn p ev r) s = do {
     c \<leftarrow> conns s p;
     if ltype c = cache_connection \<or> ltype c = mon_connection
     then handle_socket_event 2 p ev (s\<lparr>world := (world s)\<lparr>rx := r\<rparr>\<rparr>)
     else Some s
   }"
| "serve_connection (Ready_accept oks) s = Some s"
| "serve_connection Ready_timer s = Some s"

fun run_pass :: "(ready \<Rightarrow> server \<Rightarrow> server option) \<Rightarrow> ready list \<Rightarrow> server \<Rightarrow> server option" where
  "run_pass f [] s = Some s"
| "run_pass f (e # es) s = do { s \<leftarrow> f e s; run_pass f es s }"

definition event_round :: "ready list \<Rightarrow> server \<Rightarrow> server option" where
  "event_round es s = do { s \<leftarrow> run_pass serve_descriptor es s; run_pass serve_connection es s }"

section \<open>Signals\<close>

text \<open>
  The handlers, each run to its end: the alarm every five milliseconds (with the time of day), the end of child processes (with
  what \<open>waitpid\<close> returns until it returns none), the request to flush, the request to stop.
\<close>

datatype signal = Sig_alarm int int | Sig_child "int list" | Sig_usr1 gc_env | Sig_term

definition timer_store_current_time :: "int \<Rightarrow> int \<Rightarrow> server \<Rightarrow> server" where
  "timer_store_current_time sec usec s =
     s\<lparr>world := (world s)\<lparr>db := (db (world s))\<lparr>now_sec := sec, now_usec := usec\<rparr>\<rparr>\<rparr>"

text \<open>The second component: whether the event descriptor of the timer is written to.\<close>

definition timer_handler :: "int \<Rightarrow> int \<Rightarrow> server \<Rightarrow> (server \<times> bool) option" where
  "timer_handler sec usec s = do {
     let s = timer_store_current_time sec usec s;
     b \<leftarrow> monitoing_needs_to_run (world s);
     Some (s, b)
   }"

fun child_handler :: "int list \<Rightarrow> db_state \<Rightarrow> db_state" where
  "child_handler [] s = s"
| "child_handler (pid # pids) s = (if pid \<le> 0 then s else child_handler pids (db_handle_sigchld pid s))"

definition upd_db :: "db_state \<Rightarrow> server \<Rightarrow> server" where
  "upd_db d s = s\<lparr>world := (world s)\<lparr>db := d\<rparr>\<rparr>"

definition abort_handler :: "server \<Rightarrow> server or_exit" where
  "abort_handler s = (if stop_soon (world s) then Inl Process_exit else Inr (s\<lparr>world := (world s)\<lparr>stop_soon := True\<rparr>\<rparr>))"

fun signal_step :: "signal \<Rightarrow> server \<Rightarrow> (server \<times> bool) or_exit option" where
  "signal_step (Sig_alarm sec usec) s = do { r \<leftarrow> timer_handler sec usec s; Some (Inr r) }"
| "signal_step (Sig_child pids) s = Some (Inr (upd_db (child_handler pids (db (world s))) s, False))"
| "signal_step (Sig_usr1 env) s = do { d \<leftarrow> db_lru_gc env (db (world s)); Some (Inr (upd_db d s, False)) }"
| "signal_step Sig_term s = Some (case abort_handler s of Inl e \<Rightarrow> Inl e | Inr s \<Rightarrow> Inr (s, False))"

section \<open>The loop\<close>

text \<open>
  What happens before a round returns: signals (here between rounds), the acceptors putting sockets into the
  queue. Then the flag is looked at, and the round is served.
\<close>

datatype before = Signal signal | Queued int connection_ctype

fun before_step :: "before \<Rightarrow> server \<Rightarrow> server or_exit option" where
  "before_step (Signal sig) s = do { r \<leftarrow> signal_step sig s; Some (case r of Inl e \<Rightarrow> Inl e | Inr (s, _) \<Rightarrow> Inr s) }"
| "before_step (Queued sock type) s = Some (Inr (cq_push sock type s))"

fun before_steps :: "before list \<Rightarrow> server \<Rightarrow> server or_exit option" where
  "before_steps [] s = Some (Inr s)"
| "before_steps (b # bs) s = do {
     r \<leftarrow> before_step b s;
     case r of Inl e \<Rightarrow> Some (Inl e) | Inr s \<Rightarrow> before_steps bs s
   }"

fun connection_event_loop :: "(before list \<times> ready list) list \<Rightarrow> server \<Rightarrow> server or_exit option" where
  "connection_event_loop [] s = Some (Inr s)"
| "connection_event_loop ((bs, es) # rounds) s =
     (if stop_soon (world s) then Some (Inr s)
      else do {
        r \<leftarrow> before_steps bs s;
        case r of
          Inl e \<Rightarrow> Some (Inl e)
        | Inr s \<Rightarrow> do { s \<leftarrow> event_round es s; connection_event_loop rounds s }
      })"

section \<open>The end\<close>

text \<open>
  \<open>monitoring_close\<close>: each connection of the list gets a last line with a \<open>write\<close> whose result is not looked at, and its
  socket is shut down for writing. The loop follows \<open>next\<close>; it need not end.
\<close>

definition hard_write :: "int \<Rightarrow> string \<Rightarrow> http_world \<Rightarrow> http_world" where
  "hard_write sock bytes w = (case (case write_limits w of [] \<Rightarrow> (int (length bytes), w) | l # ls \<Rightarrow> (l, w\<lparr>write_limits := ls\<rparr>)) of
     (limit, w) \<Rightarrow> if limit < 0 then w
       else w\<lparr>events := events w @ [Sock_write sock (take (nat limit) bytes)]\<rparr>)"

partial_function (option) monitoring_close_loop :: "nat option \<Rightarrow> server \<Rightarrow> server option" where
  "monitoring_close_loop close_head s = (case close_head of
       None \<Rightarrow> Some s
     | Some p \<Rightarrow> Option.bind (conns s p) (\<lambda>c. Option.bind (mon_nodes (world s) p) (\<lambda>m.
         monitoring_close_loop (mon_next m)
           (s\<lparr>world := hard_write (client_sock c) [CHR ''q'', CHR 0x0A] (world s)\<rparr>))))"

definition monitoring_close :: "server \<Rightarrow> server option" where
  "monitoring_close s = monitoring_close_loop (mon_head (world s)) s"

text \<open>\<open>connection_cleanup_http\<close> of the connection at \<open>p\<close>, which is then freed; its socket was not closed before.\<close>

definition connection_cleanup_http :: "nat \<Rightarrow> server \<Rightarrow> server option" where
  "connection_cleanup_http p s = close_connection_now p s"

text \<open>
  \<open>connection_cleanup\<close>: the set of connections is in the order of their addresses. The queue is freed; the
  sockets in it are left to the end of the process.
\<close>

fun cleanup_connections :: "nat list \<Rightarrow> server \<Rightarrow> server option" where
  "cleanup_connections [] s = Some s"
| "cleanup_connections (p # ps) s = do { s \<leftarrow> connection_cleanup_http p s; cleanup_connections ps s }"

definition connection_cleanup :: "server \<Rightarrow> server option" where
  "connection_cleanup s = do {
     s \<leftarrow> cleanup_connections (filter (\<lambda>p. conns s p \<noteq> None) [0..<conn_next s]) s;
     Some (s\<lparr>cq := []\<rparr>)
   }"

text \<open>\<open>db_close\<close>: an index flush that runs is waited for, then the index is written.\<close>

definition db_close :: "gc_env \<Rightarrow> bool \<Rightarrow> int list \<Rightarrow> db_state \<Rightarrow> index_files \<Rightarrow> (db_state \<times> index_files) option" where
  "db_close env can_open rets d fs = do {
     let d = snd (currently_flushing env d);
     fs \<leftarrow> db_index_flush can_open rets d fs;
     Some (d, fs)
   }"

section \<open>The process id file\<close>

text \<open>
  \<open>write_pid\<close>, with what the system calls return. The lock it asks for is \<open>flock(fd, F_WRLCK)\<close>: the number of that
  constant, which belongs to \<open>fcntl\<close>, is the one of \<open>LOCK_SH\<close>.
\<close>

definition F_WRLCK :: int where "F_WRLCK = 1"

record pid_results =
  res_open :: int
  res_flock :: int
  res_ftruncate :: int
  res_write :: int

datatype pid_call = Call_open string | Call_flock int int | Call_ftruncate int | Call_write int string

text \<open>\<open>snprintf(buf, 16, "%ld\\n", pid)\<close>.\<close>

definition pid_text :: "int \<Rightarrow> string" where
  "pid_text pid = take 15 (to_sdec pid @ [CHR 0x0A])"

definition write_pid :: "pid_results \<Rightarrow> string \<Rightarrow> int \<Rightarrow> (int \<times> pid_call list) or_exit" where
  "write_pid r pidFile pid = (let fd = res_open r; buf = pid_text pid in
     if fd = - 1 \<or> res_flock r = - 1 \<or> res_ftruncate r = - 1 \<or> res_write r \<noteq> int (length buf) then Inl Process_exit
     else Inr (fd, [Call_open pidFile, Call_flock fd F_WRLCK, Call_ftruncate fd, Call_write fd buf]))"

section \<open>Shutdown\<close>

text \<open>The part of \<open>main\<close> after the event loop.\<close>

definition server_shutdown :: "gc_env \<Rightarrow> bool \<Rightarrow> int list \<Rightarrow> server \<Rightarrow> index_files \<Rightarrow> (server \<times> index_files) option" where
  "server_shutdown env can_open rets s fs = do {
     s \<leftarrow> monitoring_close s;
     s \<leftarrow> connection_cleanup s;
     (d, fs) \<leftarrow> db_close env can_open rets (db (world s)) fs;
     Some (upd_db d s, fs)
   }"

end
