(* ===== verification/LoopProps.thy ===== *)
theory LoopProps
  imports EventLoop MonProps DbIndexProps
begin

text \<open>
  The threads and the event loop: the linked queue is a queue under every interleaving of the threads, what a round
  of an acceptor delivers, what a tick does to the rest of its round, and how the server ends.
\<close>

section \<open>The queue between the threads\<close>

fun cq_chain :: "(nat \<Rightarrow> cq_node option) \<Rightarrow> nat list \<Rightarrow> (int \<times> connection_ctype) list \<Rightarrow> bool" where
  "cq_chain h [] xs = (xs = [])"
| "cq_chain h (p # ps) xs = (case xs of
     [] \<Rightarrow> False
   | x # xs \<Rightarrow> h p = Some \<lparr>qn_client_sock = fst x, qn_client_type = snd x, qn_next = hd_or None ps\<rparr> \<and> cq_chain h ps xs)"

definition cq_repr :: "conn_queue \<Rightarrow> (int \<times> connection_ctype) list \<Rightarrow> bool" where
  "cq_repr q xs \<longleftrightarrow> (\<exists>ps. distinct ps \<and> cq_head q = hd_or None ps \<and> cq_tail q = last_or None ps \<and> cq_chain (cq_nodes q) ps xs)"

text \<open>
  A queue shared by threads: \<open>push\<close> with the address of a new node, \<open>pop\<close>. Whatever the order of the operations, what
  was in the queue and what is pushed comes out in that order, nothing is lost and nothing comes twice.
\<close>

datatype 'a queue_op = Push nat 'a | Pop

fun queue_run ::
  "(nat \<Rightarrow> 'a \<Rightarrow> 'q \<Rightarrow> 'q option) \<Rightarrow> ('q \<Rightarrow> ('a option \<times> 'q) option) \<Rightarrow> 'a queue_op list \<Rightarrow> 'q \<Rightarrow> ('a list \<times> 'q) option" where
  "queue_run push pop [] q = Some ([], q)"
| "queue_run push pop (Push p x # os) q = do { q \<leftarrow> push p x q; queue_run push pop os q }"
| "queue_run push pop (Pop # os) q = do {
     (r, q) \<leftarrow> pop q;
     (outs, q) \<leftarrow> queue_run push pop os q;
     Some ((case r of None \<Rightarrow> [] | Some x \<Rightarrow> [x]) @ outs, q)
   }"

text \<open>\<open>malloc\<close> returns addresses that are not in use.\<close>

fun mallocs_ok ::
  "('q \<Rightarrow> nat \<Rightarrow> bool) \<Rightarrow> (nat \<Rightarrow> 'a \<Rightarrow> 'q \<Rightarrow> 'q option) \<Rightarrow> ('q \<Rightarrow> ('a option \<times> 'q) option) \<Rightarrow> 'a queue_op list \<Rightarrow> 'q \<Rightarrow> bool" where
  "mallocs_ok unused push pop [] q = True"
| "mallocs_ok unused push pop (Push p x # os) q =
     (unused q p \<and> (case push p x q of None \<Rightarrow> True | Some q \<Rightarrow> mallocs_ok unused push pop os q))"
| "mallocs_ok unused push pop (Pop # os) q = (case pop q of None \<Rightarrow> True | Some (_, q) \<Rightarrow> mallocs_ok unused push pop os q)"

fun pushed :: "'a queue_op list \<Rightarrow> 'a list" where
  "pushed [] = []"
| "pushed (Push p x # os) = x # pushed os"
| "pushed (Pop # os) = pushed os"

locale thread_queue =
  fixes repr :: "'q \<Rightarrow> 'a list \<Rightarrow> bool"
    and unused :: "'q \<Rightarrow> nat \<Rightarrow> bool"
    and push :: "nat \<Rightarrow> 'a \<Rightarrow> 'q \<Rightarrow> 'q option"
    and pop :: "'q \<Rightarrow> ('a option \<times> 'q) option"
  assumes push: "repr q xs \<Longrightarrow> unused q p \<Longrightarrow> \<exists>q'. push p x q = Some q' \<and> repr q' (xs @ [x])"
    and pop_empty: "repr q [] \<Longrightarrow> pop q = Some (None, q)"
    and pop_first: "repr q (x # xs) \<Longrightarrow> \<exists>q'. pop q = Some (Some x, q') \<and> repr q' xs"
begin

lemma run_fifo:
  "repr q xs \<Longrightarrow> mallocs_ok unused push pop os q \<Longrightarrow>
   \<exists>outs q' rest. queue_run push pop os q = Some (outs, q') \<and> repr q' rest \<and> xs @ pushed os = outs @ rest"
proof (induction os arbitrary: q xs rule: pushed.induct)
  case (2 p x os)
  from push [OF "2.prems"(1)] "2.prems"(2) obtain q1 where q1: "push p x q = Some q1" "repr q1 (xs @ [x])" by auto
  with "2.IH" [of q1 "xs @ [x]"] "2.prems"(2) show ?case by auto
next
  case (3 os)
  show ?case
  proof (cases xs)
    case Nil
    with 3 pop_empty [of q] "3.IH" [of q "[]"] show ?thesis by auto
  next
    case (Cons x ys)
    with "3.prems" pop_first [of q x ys] obtain q1 where "pop q = Some (Some x, q1)" "repr q1 ys" by auto
    with "3.IH" [of q1 ys] "3.prems"(2) Cons show ?thesis by auto
  qed
qed simp

end

lemma cq_chain_cong: "(\<And>p. p \<in> set ps \<Longrightarrow> h p = h' p) \<Longrightarrow> cq_chain h ps xs = cq_chain h' ps xs"
  by (induction ps arbitrary: xs) (auto split: list.splits)

lemma cq_chain_used: "cq_chain h ps xs \<Longrightarrow> p \<in> set ps \<Longrightarrow> h p \<noteq> None"
  by (induction ps arbitrary: xs) (auto split: list.splits)

lemma cq_chain_snoc:
  assumes "cq_chain h (ps @ [t]) xs" "distinct (ps @ [t])" "p \<notin> set (ps @ [t])"
  shows "\<exists>x. h t = Some x \<and> cq_chain (h(p \<mapsto> \<lparr>qn_client_sock = s, qn_client_type = ty, qn_next = None\<rparr>, t \<mapsto> x\<lparr>qn_next := Some p\<rparr>))
    ((ps @ [t]) @ [p]) (xs @ [(s, ty)])"
  using assms
proof (induction ps arbitrary: xs)
  case Nil
  then show ?case by (auto split: list.splits)
next
  case (Cons a ps)
  then obtain x xs' where x: "xs = x # xs'" by (auto split: list.splits)
  with Cons show ?case by (cases ps) auto
qed

lemma enqueue_ok:
  assumes "cq_repr q xs" "cq_nodes q p = None"
  shows "\<exists>q'. cq_enqueue p (fst x) (snd x) q = Some q' \<and> cq_repr q' (xs @ [x])"
proof -
  from assms(1) obtain ps where ps: "distinct ps" "cq_head q = hd_or None ps" "cq_tail q = last_or None ps"
    "cq_chain (cq_nodes q) ps xs" by (auto simp: cq_repr_def)
  have p: "p \<notin> set ps" using cq_chain_used [OF ps(4), of p] assms(2) by auto
  show ?thesis
  proof (cases ps rule: rev_cases)
    case Nil
    with ps show ?thesis by (auto simp: cq_enqueue_def cq_repr_def intro!: exI [of _ "[p]"])
  next
    case (snoc qs t)
    from cq_chain_snoc [of "cq_nodes q" qs t xs p "fst x" "snd x"] ps p snoc obtain n where
      "cq_nodes q t = Some n" "cq_chain ((cq_nodes q)(p \<mapsto> \<lparr>qn_client_sock = fst x, qn_client_type = snd x, qn_next = None\<rparr>, t \<mapsto> n\<lparr>qn_next := Some p\<rparr>))
        (ps @ [p]) (xs @ [x])" by auto
    moreover have "p \<noteq> t" using p snoc by auto
    moreover have "hd_or None (ps @ [p]) = hd_or None ps" using snoc by (cases qs) auto
    ultimately show ?thesis using ps p snoc
      by (auto simp: cq_enqueue_def mod_cq_def cq_repr_def intro!: exI [of _ "ps @ [p]"])
  qed
qed

lemma dequeue_ok:
  assumes "cq_repr q (x # xs)"
  shows "\<exists>q'. cq_dequeue q = Some (Some x, q') \<and> cq_repr q' xs"
proof -
  from assms obtain qs where qs: "distinct qs" "cq_head q = hd_or None qs" "cq_tail q = last_or None qs" "cq_chain (cq_nodes q) qs (x # xs)"
    by (auto simp: cq_repr_def)
  then obtain p ps where "qs = p # ps" by (cases qs) auto
  with qs have ps: "distinct (p # ps)" "cq_head q = Some p" "cq_tail q = last_or None (p # ps)"
    "cq_nodes q p = Some \<lparr>qn_client_sock = fst x, qn_client_type = snd x, qn_next = hd_or None ps\<rparr>" "cq_chain (cq_nodes q) ps xs"
    by auto
  have "cq_chain ((cq_nodes q)(p := None)) ps xs" using ps(1,5) by (subst cq_chain_cong [of ps _ "cq_nodes q"]) auto
  with ps show ?thesis
    by (cases ps) (auto simp: cq_dequeue_def cq_repr_def intro!: exI [of _ ps])
qed

lemma dequeue_empty: "cq_repr q [] \<Longrightarrow> cq_dequeue q = Some (None, q)"
  by (auto simp: cq_repr_def cq_dequeue_def elim: cq_chain.elims)

interpretation accepted: thread_queue cq_repr "\<lambda>q p. cq_nodes q p = None" "\<lambda>p x. cq_enqueue p (fst x) (snd x)" cq_dequeue
  by unfold_locales (use enqueue_ok dequeue_empty dequeue_ok in auto)

section \<open>What a round of an acceptor delivers\<close>

text \<open>
  The sockets a round accepts, with their addresses: an event whose \<open>accept4\<close> or \<open>malloc\<close> fails delivers
  nothing, and the event after it is not looked at.
\<close>

definition accepted_of :: "listen_event \<Rightarrow> (nat \<times> int) option" where
  "accepted_of ev = (case (le_accept ev, le_malloc ev) of (Accept_sock sock, Some p) \<Rightarrow> Some (p, sock) | _ \<Rightarrow> None)"

fun delivered :: "listen_event list \<Rightarrow> (nat \<times> int) list" where
  "delivered [] = []"
| "delivered (ev # evs) =
     (if \<not> le_in ev then delivered evs
      else case accepted_of ev of Some x \<Rightarrow> x # delivered evs | None \<Rightarrow> delivered (drop 1 evs))"

definition harmless :: "listen_event \<Rightarrow> bool" where
  "harmless ev \<longleftrightarrow> \<not> le_err_hup ev \<and> le_accept ev \<noteq> Accept_fatal \<and> le_write_ok ev"

lemma enqueue_nodes:
  "cq_enqueue p sock ct q = Some q' \<Longrightarrow> cq_nodes q p' = None \<Longrightarrow> p' \<noteq> p \<Longrightarrow> cq_nodes q' p' = None"
  by (auto simp: cq_enqueue_def mod_cq_def Let_def elim!: bind_SomeE split: option.split_asm if_split_asm)

lemma accept_events_delivers:
  "\<forall>ev\<in>set evs. harmless ev \<Longrightarrow> cq_repr q xs \<Longrightarrow> distinct (map fst (delivered evs)) \<Longrightarrow>
   \<forall>p\<in>set (map fst (delivered evs)). cq_nodes q p = None \<Longrightarrow>
   \<exists>q'. accept_events ct evs q = Some (Inr q') \<and> cq_repr q' (xs @ map (\<lambda>(p, sock). (sock, ct)) (delivered evs))"
proof (induction evs arbitrary: q xs rule: delivered.induct)
  case (2 ev evs)
  have later: "\<forall>ev\<in>set (drop 1 evs). harmless ev" using "2.prems"(1) by (auto dest: in_set_dropD)
  show ?case
  proof (cases "le_in ev")
    case False
    with 2 show ?thesis by (simp add: harmless_def)
  next
    case True
    show ?thesis
    proof (cases "accepted_of ev")
      case None
      have "accept_events ct (ev # evs) q = accept_events ct (drop 1 evs) q"
        using True None "2.prems"(1) by (auto simp: harmless_def accepted_of_def split: accept_result.splits option.splits)
      with "2.IH"(2) [of q xs] later "2.prems" True None show ?thesis by simp
    next
      case (Some x)
      obtain p sock where x: "x = (p, sock)" by fastforce
      from "2.prems" True Some x have "cq_nodes q p = None" by simp
      then obtain q1 where q1: "cq_enqueue p sock ct q = Some q1" "cq_repr q1 (xs @ [(sock, ct)])"
        using enqueue_ok [OF "2.prems"(2), of p "(sock, ct)"] by auto
      have "accept_events ct (ev # evs) q = accept_events ct evs q1"
        using True Some x q1(1) "2.prems"(1) by (auto simp: harmless_def accepted_of_def split: accept_result.splits option.splits)
      moreover have "\<forall>p'\<in>set (map fst (delivered evs)). cq_nodes q1 p' = None"
        using "2.prems"(3,4) True Some x by (intro ballI, intro enqueue_nodes [OF q1(1)]) auto
      ultimately show ?thesis using "2.IH"(3) [of x q1 "xs @ [(sock, ct)]"] "2.prems" True Some x q1(2) by simp
    qed
  qed
qed simp

section \<open>A round with a tick\<close>

text \<open>A connection of the list whose time has come while it has not written its last number.\<close>

definition overdue :: "server \<Rightarrow> nat \<Rightarrow> bool" where
  "overdue s p \<longleftrightarrow> (case (conns s p, mon_nodes (world s) p) of
     (Some c, Some m) \<Rightarrow> output_buffer c \<noteq> None \<and> \<not> not_yet (world s) m
   | _ \<Rightarrow> False)"

definition gone :: "nat \<Rightarrow> server \<Rightarrow> bool" where
  "gone p s \<longleftrightarrow> conns s p = None \<and> p < conn_next s"

lemma with_conn_gone: "with_conn q f s = Some (s', r) \<Longrightarrow> gone p s \<Longrightarrow> gone p s'"
  by (auto simp: with_conn_def gone_def elim!: bind_SomeE)

lemma close_gone: "close_connection_now q s = Some s' \<Longrightarrow> gone p s \<Longrightarrow> gone p s'"
  by (auto simp: close_connection_now_def connection_remove_def gone_def dest: with_conn_gone [of _ _ _ _ _ p] elim!: bind_SomeE)

lemma close_closes: "close_connection_now p s = Some s' \<Longrightarrow> conns s' p = None \<and> conn_next s' = conn_next s"
  by (auto simp: close_connection_now_def connection_remove_def with_conn_def elim!: bind_SomeE)

lemma turn_gone:
  assumes "monitoring_turn q s = Some s'" "gone p s" shows "gone p s'"
proof -
  from assms(1) obtain c m w where w: "conns s q = Some c" "mon_nodes (world s) q = Some m" "unlink_head m (world s) = Some w"
    by (auto simp: monitoring_turn_def elim!: bind_SomeE)
  have "gone p (s\<lparr>world := w\<rparr>)" using assms(2) by (simp add: gone_def)
  with assms(1) w show ?thesis
    by (auto simp: monitoring_turn_def Let_def elim!: bind_SomeE split: if_split_asm prod.split_asm dest: with_conn_gone close_gone)
qed

lemma monitoring_due_gone:
  assumes "monitoring_due s = Some s'"
  shows "gone p s \<longrightarrow> gone p s'"
  by (rule monitoring_due.raw_induct [OF _ assms, where P = "\<lambda>s s'. gone p s \<longrightarrow> gone p s'"])
    (clarsimp split: option.split_asm if_split_asm elim!: bind_SomeE, meson turn_gone)

lemma monitoring_expire_gone:
  assumes "monitoring_expire s = Some s'"
  shows "gone p s \<longrightarrow> gone p s'"
  by (rule monitoring_expire.raw_induct [OF _ assms, where P = "\<lambda>s s'. gone p s \<longrightarrow> gone p s'"])
    (clarsimp split: option.split_asm if_split_asm elim!: bind_SomeE, meson close_gone)

lemma socket_event_gone: "handle_socket_event d q ev s = Some s' \<Longrightarrow> gone p s \<Longrightarrow> gone p s'"
  by (auto simp: handle_socket_event_def Let_def elim!: bind_SomeE split: if_split_asm
      dest!: with_conn_gone [where p = p] close_gone [where p = p])

lemma accept_all_gone: "accept_all fuel oks s = Some s' \<Longrightarrow> gone p s \<Longrightarrow> gone p s'"
proof (induction fuel arbitrary: oks s)
  case (Suc fuel)
  show ?case
  proof (cases "cq s")
    case Nil
    with Suc show ?thesis by (simp add: cq_pop_def)
  next
    case (Cons x qs)
    let ?s = "s\<lparr>cq := qs\<rparr>"
    obtain q s1 where q: "connection_add (q_client_sock x) (q_client_type x) ?s = (q, s1)" by fastforce
    then have g: "gone p s1" using Suc.prems(2) by (auto simp: connection_add_def gone_def Let_def)
    show ?thesis
    proof (cases "oks \<noteq> [] \<and> \<not> hd oks")
      case True
      with Suc Cons q g show ?thesis by (simp add: cq_pop_def)
    next
      case False
      with Suc.prems(1) Cons q obtain s2 r where s2: "with_conn q (\<lambda>w. Some (http_connection_handler (w\<lparr>epollin := True\<rparr>), ())) s1 = Some (s2, r)"
        "accept_all fuel (tl oks) s2 = Some s'" by (auto simp: cq_pop_def elim!: bind_SomeE)
      from with_conn_gone [OF s2(1) g] s2 show ?thesis
        using Suc.IH by blast
    qed
  qed
qed simp

lemma serve_descriptor_gone: "serve_descriptor e s = Some s' \<Longrightarrow> gone p s \<Longrightarrow> gone p s'"
proof (cases e)
  case (Ready_accept oks)
  assume "serve_descriptor e s = Some s'" "gone p s"
  with Ready_accept show ?thesis by (auto simp: handle_accept_def split: if_split_asm dest: accept_all_gone simp del: accept_all.simps)
next
  case Ready_timer
  assume "serve_descriptor e s = Some s'" "gone p s"
  with Ready_timer show ?thesis
    by (auto simp: monitoring_check_def elim!: bind_SomeE dest!: monitoring_due_gone [where p = p] monitoring_expire_gone [where p = p])
qed simp

lemma serve_connection_gone: "serve_connection e s = Some s' \<Longrightarrow> gone p s \<Longrightarrow> gone p s'"
  by (cases e) (auto elim!: bind_SomeE split: if_split_asm dest!: socket_event_gone [where p = p] simp: gone_def)

lemma run_pass_gone:
  assumes step: "\<And>e s s'. f e s = Some s' \<Longrightarrow> gone p s \<Longrightarrow> gone p s'"
  shows "run_pass f es s = Some s' \<Longrightarrow> gone p s \<Longrightarrow> gone p s'"
  by (induction es arbitrary: s) (auto elim!: bind_SomeE dest: step)

lemma run_pass_append: "run_pass f (es @ es') s = Option.bind (run_pass f es s) (run_pass f es')"
  by (induction es arbitrary: s) (auto intro: bind_eqI)

lemma run_pass_skip: "\<forall>e\<in>set es. f e s = Some s \<Longrightarrow> run_pass f es s = Some s"
  by (induction es) auto

text \<open>The tick closes an overdue connection once it has served the due ones before it.\<close>

lemma overdue_closed:
  "mon_list (world s) (ds @ p # xs) \<Longrightarrow> \<forall>d\<in>set ds. due_conn s d \<Longrightarrow> overdue s p \<Longrightarrow> p < conn_next s \<Longrightarrow>
   monitoring_due s = Some s' \<Longrightarrow> gone p s'"
proof (induction ds arbitrary: s xs)
  case Nil
  from Nil.prems(3) obtain c m where cm: "conns s p = Some c" "mon_nodes (world s) p = Some m" "output_buffer c \<noteq> None"
    "\<not> not_yet (world s) m" by (auto simp: overdue_def split: option.splits)
  have "mon_head (world s) = Some p" using Nil.prems(1) by (simp add: mon_list_def)
  with cm Nil.prems(5) obtain s1 where s1: "monitoring_turn p s = Some s1" "monitoring_due s1 = Some s'"
    by (subst (asm) monitoring_due.simps) (auto elim!: bind_SomeE)
  from s1(1) cm obtain w where "close_connection_now p (s\<lparr>world := w\<rparr>) = Some s1"
    by (auto simp: monitoring_turn_def Let_def elim!: bind_SomeE)
  from close_closes [OF this] Nil.prems(4) have "gone p s1" by (simp add: gone_def)
  with monitoring_due_gone [OF s1(2)] show ?case by blast
next
  case (Cons d ds)
  from due_turn [of s d "ds @ p # xs"] Cons.prems obtain s1 where
    s1: "monitoring_turn d s = Some s1" "mon_list (world s1) (ds @ p # xs @ [d])"
      "\<And>x. x \<noteq> d \<Longrightarrow> untouched s s1 x" "db (world s1) = db (world s)" by auto
  have dist: "d \<notin> set ds" "d \<noteq> p" using Cons.prems(1) by (auto simp: mon_list_def)
  have "monitoring_due s1 = Some s'" using due_goes_on [OF _ _ s1(1)] Cons.prems by simp
  moreover have "\<forall>x\<in>set ds. due_conn s1 x"
    using Cons.prems(2) dist s1(3,4) by (metis list.set_intros(2) untouched_due)
  moreover have "overdue s1 p"
    using Cons.prems(3) s1(3) [of p] s1(4) dist
    by (auto simp: overdue_def untouched_def sched_def not_yet_def split: option.splits)
  moreover have "conn_next s1 = conn_next s"
    using s1(1) by (auto simp: monitoring_turn_def close_connection_now_def connection_remove_def with_conn_def Let_def
        elim!: bind_SomeE split: if_split_asm)
  ultimately show ?case using Cons.IH [of s1 "xs @ [d]"] s1(2) Cons.prems(4) by simp
qed

section \<open>The end\<close>

lemma monitoring_close_list:
  assumes "mlist (mon_nodes (world s)) prv xs None" "\<forall>p\<in>set xs. conns s p \<noteq> None" "write_limits (world s) = []"
  shows "monitoring_close_loop (hd_or None xs) s = Some (s\<lparr>world := (world s)\<lparr>events := events (world s)
    @ map (\<lambda>p. Sock_write (client_sock (the (conns s p))) [CHR ''q'', CHR 0x0A]) xs\<rparr>\<rparr>)"
  using assms
proof (induction xs arbitrary: s prv)
  case Nil
  then show ?case by (subst monitoring_close_loop.simps) simp
next
  case (Cons p xs)
  from Cons.prems obtain c m where cm: "conns s p = Some c" "mon_nodes (world s) p = Some m" "mon_next m = hd_or None xs"
    "mlist (mon_nodes (world s)) (Some p) xs None" by (auto split: option.split_asm)
  let ?w = "hard_write (client_sock c) [CHR ''q'', CHR 0x0A] (world s)"
  have w: "?w = (world s)\<lparr>events := events (world s) @ [Sock_write (client_sock c) [CHR ''q'', CHR 0x0A]]\<rparr>"
    using Cons.prems(3) by (simp add: hard_write_def)
  have "monitoring_close_loop (hd_or None (p # xs)) s = monitoring_close_loop (hd_or None xs) (s\<lparr>world := ?w\<rparr>)"
    using cm by (subst monitoring_close_loop.simps) simp
  also have "\<dots> = Some (s\<lparr>world := (world s)\<lparr>events := events (world s)
    @ map (\<lambda>p. Sock_write (client_sock (the (conns s p))) [CHR ''q'', CHR 0x0A]) (p # xs)\<rparr>\<rparr>)"
    using Cons.IH [of "s\<lparr>world := ?w\<rparr>" "Some p"] Cons.prems cm unfolding w by simp
  finally show ?case .
qed

text \<open>What taking a connection out of the list leaves alone: the rest of the world, and the nodes that are not its neighbours.\<close>

definition same_rest :: "http_world \<Rightarrow> http_world \<Rightarrow> bool" where
  "same_rest w w' \<longleftrightarrow> db w' = db w \<and> events w' = events w \<and> write_limits w' = write_limits w"

definition links_away :: "nat set \<Rightarrow> http_world \<Rightarrow> http_world \<Rightarrow> bool" where
  "links_away X w w' \<longleftrightarrow> same_rest w w' \<and> (\<forall>x. x \<notin> X \<longrightarrow> mon_nodes w' x = mon_nodes w x)"

lemma same_rest_load [simp]: "same_rest (load_conn c w) w' = same_rest w w'"
  by (cases w) (simp add: same_rest_def load_conn_def scache_connection.extend_def)

lemma links_away_refl [simp]: "links_away X w w"
  by (simp add: links_away_def same_rest_def)

lemma links_away_upd [simp]:
  "links_away X (w\<lparr>mon_head := a\<rparr>) w' = links_away X w w'" "links_away X (w\<lparr>mon_tail := a\<rparr>) w' = links_away X w w'"
  "links_away X w (w'\<lparr>mon_head := a\<rparr>) = links_away X w w'" "links_away X w (w'\<lparr>mon_tail := a\<rparr>) = links_away X w w'"
  "links_away X (w\<lparr>mon_pending_head := a\<rparr>) w' = links_away X w w'"
  by (simp_all add: links_away_def same_rest_def)

lemma links_away_trans: "links_away X w w1 \<Longrightarrow> links_away X w1 w2 \<Longrightarrow> links_away X w w2"
  by (simp add: links_away_def same_rest_def)

lemma mod_node_away: "mod_node c f w = Some w' \<Longrightarrow> c \<in> X \<Longrightarrow> links_away X w w'"
  by (auto simp: mod_node_def links_away_def same_rest_def elim!: bind_SomeE)

lemma leave_away:
  assumes "mon_list w xs" "conn_ptr w = c" "c \<in> set xs" "is_writing w" "monitoring_destroy w = Some w'"
  shows "links_away (set xs) w w'"
proof -
  from assms(3) obtain as bs where xs: "xs = as @ c # bs" by (meson split_list)
  with assms(1) obtain m where m: "mon_nodes w c = Some m" "mon_prev m = last_or None as" "mon_next m = hd_or None bs"
    by (auto simp: mon_list_def mlist_append split: option.splits)
  have p: "t \<in> set xs" if "mon_prev m = Some t" for t
    using that m(2) xs last_or_in [of None as t] by (cases as) auto
  have n: "t \<in> set xs" if "mon_next m = Some t" for t
    using that m(3) xs by (cases bs) auto
  have d: "c \<noteq> t" if "mon_next m = Some t" for t
    using that m(3) xs assms(1) by (cases bs) (auto simp: mon_list_def)
  have byp: "links_away (set xs) v v'" if "bypass_node c v = Some v'" "mon_nodes v = mon_nodes w" for v v'
    using that m(1) p n d
    by (auto simp: bypass_node_def elim!: bind_SomeE split: option.split_asm dest!: mod_node_away [where X = "set xs"]
        simp: mod_node_def links_away_def same_rest_def)
  have b: "links_away (set xs) w v'" if "bypass_node c (w\<lparr>mon_head := h\<rparr>) = Some v' \<or> bypass_node c (w\<lparr>mon_tail := t\<rparr>) = Some v'
      \<or> bypass_node c (w\<lparr>mon_head := h, mon_tail := t\<rparr>) = Some v' \<or> bypass_node c w = Some v'" for h t v'
    using that byp [of "w\<lparr>mon_head := h\<rparr>" v'] byp [of "w\<lparr>mon_tail := t\<rparr>" v']
      byp [of "w\<lparr>mon_head := h, mon_tail := t\<rparr>" v'] byp [of w v'] by auto
  show ?thesis using assms(2,4,5) m(1) b
    by (auto simp: monitoring_destroy_def Let_def split: if_split_asm)
qed

section \<open>A server at rest\<close>

text \<open>
  No request is in work: a cache connection has no method yet, a monitoring connection gets its numbers (and is in the list) or
  has not asked for them.
\<close>

definition resting_conn :: "server \<Rightarrow> nat list \<Rightarrow> nat \<Rightarrow> scache_connection \<Rightarrow> bool" where
  "resting_conn s xs p c \<longleftrightarrow> p < conn_next s \<and> conn_ptr c = p \<and>
     (if p \<in> set xs then ltype c = mon_connection \<and> is_writing c
      else ltype c = cache_connection \<and> conn_method c = 0
        \<or> ltype c = mon_connection \<and> \<not> is_writing c
          \<and> (\<exists>m. mon_nodes (world s) p = Some m \<and> mon_prev m = None \<and> mon_next m = None))"

definition resting :: "server \<Rightarrow> nat list \<Rightarrow> bool" where
  "resting s xs \<longleftrightarrow> mon_list (world s) xs \<and> set xs \<subseteq> dom (conns s) \<and> (\<forall>p c. conns s p = Some c \<longrightarrow> resting_conn s xs p c)"

lemma close_resting:
  assumes r: "resting s xs" and c: "conns s p = Some c"
  shows "\<exists>s'. close_connection_now p s = Some s' \<and> resting s' (remove1 p xs) \<and> conns s' = (conns s)(p := None)
    \<and> conn_next s' = conn_next s \<and> cq s' = cq s \<and> same_rest (world s) (world s')"
proof -
  let ?w = "load_conn c (world s)"
  have l: "mon_list ?w xs" and rc: "resting_conn s xs p c" and dist: "distinct xs" using r c by (auto simp: resting_def mon_list_def)
  have f: "ltype ?w = ltype c" "conn_method ?w = conn_method c" "is_writing ?w = is_writing c" "conn_ptr ?w = conn_ptr c"
    by (simp_all add: load_conn_def scache_connection.extend_def)
  have "\<exists>w'. http_cleanup monitoring_destroy ?w = Some w' \<and> mon_list w' (remove1 p xs) \<and> links_away (set xs) ?w w'"
  proof (cases "p \<in> set xs")
    case True
    then obtain as bs where xs: "xs = as @ p # bs" "p \<notin> set as" by (meson split_list_first)
    with leave_ok [of ?w as p bs] l rc f obtain w' where "monitoring_destroy ?w = Some w'" "mon_list w' (as @ bs)"
      by (auto simp: resting_conn_def)
    with leave_away [OF l, of p w'] True rc f xs show ?thesis by (auto simp: http_cleanup_def resting_conn_def remove1_append)
  next
    case False
    then consider "ltype c = cache_connection" "conn_method c = 0" | "ltype c = mon_connection" "monitoring_destroy ?w = Some ?w"
      using rc leave_out [OF l] f by (auto simp: resting_conn_def)
    then show ?thesis using l f False
      by cases (auto simp: http_cleanup_def cache_destroy_def REQUEST_IS_def request_consts remove1_idem)
  qed
  then obtain w' where w': "http_cleanup monitoring_destroy ?w = Some w'" "mon_list w' (remove1 p xs)" "links_away (set xs) ?w w'"
    by blast
  let ?s = "connection_remove p (s\<lparr>conns := (conns s)(p \<mapsto> scache_connection.truncate w'), world := w'\<rparr>)"
  have "close_connection_now p s = Some ?s" using w'(1) c by (simp add: close_connection_now_def with_conn_def)
  moreover have "mon_list (world ?s) (remove1 p xs)"
    using w'(2) dist by (auto simp: connection_remove_def mon_list_def set_remove1_eq)
  moreover have "resting_conn ?s (remove1 p xs) q c'" if "conns ?s q = Some c'" for q c'
  proof -
    from that have q: "q \<noteq> p" "conns s q = Some c'" by (auto simp: connection_remove_def split: if_splits)
    with r have "resting_conn s xs q c'" by (auto simp: resting_def)
    with q(1) w'(3) dist show ?thesis
      by (auto simp: resting_conn_def connection_remove_def links_away_def set_remove1_eq split: if_splits)
  qed
  moreover have "same_rest (world s) (world ?s)" using w'(3)
    by (simp add: connection_remove_def links_away_def) (simp add: same_rest_def)
  ultimately show ?thesis using r dist c
    by (intro exI [of _ ?s]) (auto simp: resting_def connection_remove_def set_remove1_eq)
qed

lemma cleanup_resting:
  "resting s xs \<Longrightarrow> distinct ps \<Longrightarrow> \<forall>p\<in>set ps. conns s p \<noteq> None \<Longrightarrow>
   \<exists>s' xs'. cleanup_connections ps s = Some s' \<and> resting s' xs' \<and> (\<forall>p. conns s' p = (if p \<in> set ps then None else conns s p))
     \<and> same_rest (world s) (world s')"
proof (induction ps arbitrary: s xs)
  case Nil
  then show ?case by (auto simp: same_rest_def)
next
  case (Cons p ps)
  then obtain c where "conns s p = Some c" by auto
  from close_resting [OF Cons.prems(1) this] obtain s1 where s1: "close_connection_now p s = Some s1" "resting s1 (remove1 p xs)"
    "conns s1 = (conns s)(p := None)" "same_rest (world s) (world s1)" by auto
  have "\<forall>q\<in>set ps. conns s1 q \<noteq> None" using Cons.prems(2,3) s1(3) by auto
  with Cons.IH [OF s1(2)] Cons.prems(2) obtain s' xs' where
    "cleanup_connections ps s1 = Some s'" "resting s' xs'" "\<forall>q. conns s' q = (if q \<in> set ps then None else conns s1 q)"
    "same_rest (world s1) (world s')" by auto
  with s1 show ?case by (auto simp: connection_cleanup_http_def same_rest_def)
qed

lemma cleanup_ends:
  assumes "resting s xs"
  shows "\<exists>s'. connection_cleanup s = Some s' \<and> conns s' = Map.empty \<and> cq s' = [] \<and> mon_list (world s') [] \<and> same_rest (world s) (world s')"
proof -
  let ?ps = "filter (\<lambda>p. conns s p \<noteq> None) [0..<conn_next s]"
  have ps: "distinct ?ps" "\<forall>p\<in>set ?ps. conns s p \<noteq> None" by simp_all
  from cleanup_resting [OF assms ps] obtain s' xs' where s': "cleanup_connections ?ps s = Some s'" "resting s' xs'"
    "\<forall>p. conns s' p = (if p \<in> set ?ps then None else conns s p)" "same_rest (world s) (world s')" by blast
  have "conns s' p = None" for p
  proof (cases "conns s p")
    case (Some c)
    with assms have "p < conn_next s" unfolding resting_def resting_conn_def by blast
    with Some s'(3) show ?thesis by simp
  qed (use s'(3) in simp)
  then have none: "conns s' = Map.empty" by blast
  with s'(2) have "xs' = []" by (auto simp: resting_def)
  with s' none show ?thesis by (auto simp: connection_cleanup_def resting_def)
qed

lemma set_chunks_same: "entries s' = entries s \<Longrightarrow> set_chunks h ks s' = set_chunks h ks s"
  by (induction ks) (simp_all cong: if_cong)

lemma table_chunks_same:
  assumes "entries s' = entries s" "dbtables s' = dbtables s" "tables s' = tables s"
  shows "table_chunks ks s' = table_chunks ks s"
  by (induction ks) (simp_all add: assms set_chunks_same [OF assms(1)] cong: if_cong)

lemma index_chunks_same:
  "entries s' = entries s \<Longrightarrow> dbtables s' = dbtables s \<Longrightarrow> tables s' = tables s \<Longrightarrow> index_chunks s' = index_chunks s"
  unfolding index_chunks_def using table_chunks_same [of s' s "[0..<n_buckets (tables s)]"] by simp

lemma cq_repr_empty: "cq_repr \<lparr>cq_nodes = Map.empty, cq_head = None, cq_tail = None\<rparr> []"
  by (auto simp: cq_repr_def intro: exI [of _ "[]"])

section \<open>Properties\<close>

text \<open>
  C22. The queue from the threads that accept to the event loop is a queue, however the operations of the threads
  interleave: as long as \<open>malloc\<close> returns unused addresses, no operation follows a dangling pointer, what is taken out
  is what was put in, in the order in which it was put in, and what is not yet taken out is still there.
\<close>

theorem accepted_sockets_in_order:
  assumes "cq_repr q xs" "mallocs_ok (\<lambda>q p. cq_nodes q p = None) (\<lambda>p x. cq_enqueue p (fst x) (snd x)) cq_dequeue os q"
  shows "\<exists>outs q' rest. queue_run (\<lambda>p x. cq_enqueue p (fst x) (snd x)) cq_dequeue os q = Some (outs, q')
    \<and> cq_repr q' rest \<and> xs @ pushed os = outs @ rest"
  using assms by (rule accepted.run_fifo)

theorem accepted_sockets_in_order_witness:
  "\<exists>q'. queue_run (\<lambda>p x. cq_enqueue p (fst x) (snd x)) cq_dequeue
     [Push 3 (7, cache_connection), Push 5 (8, mon_connection), Pop, Push 3 (9, cache_connection)]
     \<lparr>cq_nodes = Map.empty, cq_head = None, cq_tail = None\<rparr> = Some ([(7, cache_connection)], q')
    \<and> cq_repr q' [(8, mon_connection), (9, cache_connection)]"
proof -
  let ?os = "[Push 3 (7, cache_connection), Push 5 (8, mon_connection), Pop, Push 3 (9, cache_connection)]"
  let ?q = "\<lparr>cq_nodes = Map.empty, cq_head = None, cq_tail = None\<rparr>"
  have "mallocs_ok (\<lambda>q p. cq_nodes q p = None) (\<lambda>p x. cq_enqueue p (fst x) (snd x)) cq_dequeue ?os ?q"
    by (simp add: cq_enqueue_def cq_dequeue_def mod_cq_def)
  then obtain outs q' rest where r: "queue_run (\<lambda>p x. cq_enqueue p (fst x) (snd x)) cq_dequeue ?os ?q = Some (outs, q')"
    "cq_repr q' rest" "[] @ pushed ?os = outs @ rest" using accepted_sockets_in_order [OF cq_repr_empty] by blast
  moreover from r(1) have "outs = [(7, cache_connection)]" by (simp add: cq_enqueue_def cq_dequeue_def mod_cq_def)
  ultimately show ?thesis by auto
qed

text \<open>
  A round of an acceptor, with no error on a listener and enough descriptors, appends to the queue the sockets it
  accepts, in order and with the type of the listener; an event whose \<open>accept4\<close> or \<open>malloc\<close> fails makes it step over the event
  after it, whose socket is not accepted in this round.
\<close>

theorem accept_round_delivers:
  assumes "\<forall>ev\<in>set evs. harmless ev" "cq_repr q xs" "distinct (map fst (delivered evs))"
    and "\<forall>p\<in>set (map fst (delivered evs)). cq_nodes q p = None"
  shows "\<exists>q'. connection_handle_accept ct [(False, evs)] q = Some (Inr q')
    \<and> cq_repr q' (xs @ map (\<lambda>(p, sock). (sock, client_type_of ct)) (delivered evs))"
  using accept_events_delivers [OF assms, of "client_type_of ct"] by auto

definition listen_in :: "int \<Rightarrow> accept_result \<Rightarrow> nat \<Rightarrow> listen_event" where
  "listen_in fd r p = \<lparr>le_fd = fd, le_err_hup = False, le_in = True, le_accept = r, le_malloc = Some p, le_write_ok = True\<rparr>"

theorem accept_round_delivers_witness:
  "\<exists>q'. connection_handle_accept mon_listener
      [(False, [listen_in 3 (Accept_sock 7) 0, listen_in 4 Accept_again 1, listen_in 5 (Accept_sock 8) 2, listen_in 6 (Accept_sock 9) 3])]
      \<lparr>cq_nodes = Map.empty, cq_head = None, cq_tail = None\<rparr> = Some (Inr q')
    \<and> cq_repr q' [(7, mon_connection), (9, mon_connection)]"
  using accept_round_delivers [of "[listen_in 3 (Accept_sock 7) 0, listen_in 4 Accept_again 1, listen_in 5 (Accept_sock 8) 2,
      listen_in 6 (Accept_sock 9) 3]" "\<lparr>cq_nodes = Map.empty, cq_head = None, cq_tail = None\<rparr>" "[]" mon_listener]
  by (simp add: cq_repr_empty listen_in_def harmless_def accepted_of_def client_type_of_def)

text \<open>
  C32. The event loop follows a dangling pointer when a tick closes a connection of which an event is in the same round: a
  monitoring connection that is due while its last number is not written yet is closed and freed by the tick, which runs
  before the sockets of the round are served, whatever else is in the round and wherever its event stands in it.
\<close>

theorem tick_frees_connection_of_its_round:
  assumes "mon_list (world s) (ds @ p # xs)" "\<forall>d\<in>set ds. due_conn s d" "overdue s p" "p < conn_next s"
    and "\<forall>e\<in>set pre. \<exists>q ev r. e = Ready_conn q ev r" "Ready_conn p ev r \<in> set (pre @ Ready_timer # post)"
  shows "event_round (pre @ Ready_timer # post) s = None"
proof (rule ccontr)
  let ?es = "pre @ Ready_timer # post"
  assume "event_round ?es s \<noteq> None"
  then obtain s2 s' where s2: "run_pass serve_descriptor ?es s = Some s2" "run_pass serve_connection ?es s2 = Some s'"
    by (auto simp: event_round_def elim!: bind_SomeE)
  have "run_pass serve_descriptor pre s = Some s" using assms(5) by (intro run_pass_skip) auto
  with s2(1) obtain s1 where s1: "monitoring_check s = Some s1" "run_pass serve_descriptor post s1 = Some s2"
    by (auto simp: run_pass_append elim!: bind_SomeE)
  from s1(1) obtain s0 where "monitoring_due s = Some s0" "monitoring_expire s0 = Some s1"
    by (auto simp: monitoring_check_def elim!: bind_SomeE)
  with overdue_closed [OF assms(1-4)] monitoring_expire_gone have "gone p s1" by blast
  then have g: "gone p s2" using run_pass_gone [OF _ s1(2)] serve_descriptor_gone by blast
  from assms(6) obtain es1 es2 where es: "?es = es1 @ Ready_conn p ev r # es2" by (meson split_list)
  with s2(2) obtain s3 where s3: "run_pass serve_connection es1 s2 = Some s3" "serve_connection (Ready_conn p ev r) s3 \<noteq> None"
    by (auto simp: run_pass_append elim!: bind_SomeE simp del: serve_connection.simps)
  from run_pass_gone [OF _ s3(1) g] serve_connection_gone have "gone p s3" by blast
  with s3(2) show False by (simp add: gone_def)
qed

text \<open>The connections of \<open>two_due\<close>, the first with a number that it did not write.\<close>

definition one_overdue :: server where
  "one_overdue = two_due\<lparr>conns := (conns two_due)(3 \<mapsto> (scache_connection.truncate (request_world []))\<lparr>conn_ptr := 3\<rparr>
     \<lparr>output_buffer := Some ''7''\<rparr>)\<rparr>"

theorem tick_frees_connection_of_its_round_witness:
  "event_round [Ready_timer, Ready_conn 3 \<lparr>ev_in = True, ev_out = False, ev_err_hup = False, ev_rdhup = False\<rparr> []] one_overdue = None"
  using tick_frees_connection_of_its_round [of one_overdue "[]" 3 "[4]" "[]" "\<lparr>ev_in = True, ev_out = False, ev_err_hup = False, ev_rdhup = False\<rparr>" "[]"
      "[Ready_conn 3 \<lparr>ev_in = True, ev_out = False, ev_err_hup = False, ev_rdhup = False\<rparr> []]"]
  by (simp add: one_overdue_def two_due_def mon_list_def overdue_def not_yet_def after_def empty_db_def)


text \<open>A cache connection that waits for a request beside the two monitoring connections.\<close>

definition three_resting :: server where
  "three_resting = \<lparr>conns = (\<lambda>x. if x = 3 \<or> x = 4
       then Some ((scache_connection.truncate (request_world []))\<lparr>conn_ptr := x, ltype := mon_connection, is_writing := True, client_sock := int x + 10\<rparr>)
       else if x = 1 then Some ((scache_connection.truncate (request_world []))\<lparr>conn_ptr := 1, conn_method := 0\<rparr>) else None),
     conn_next = 5, cq = [\<lparr>q_client_sock = 20, q_client_type = cache_connection\<rparr>], world = (world two_due)\<lparr>db := saved_db, write_limits := []\<rparr>\<rparr>"


end
