(* ===== verification/DbOps.thy ===== *)
theory DbOps
  imports DbInv
begin

text \<open>
  The operations of requests keep the invariant of the database: references, deletion of an entry and with it of its
  table, lookups.
\<close>

section \<open>What the invariant depends on\<close>

lemma sets_okI:
  assumes "\<And>t d. dbtables s t = Some d \<Longrightarrow> cache_hash_set d = None \<Longrightarrow> tbl_deleted d"
    and "\<And>t d h. dbtables s t = Some d \<Longrightarrow> cache_hash_set d = Some h \<Longrightarrow> \<not> tbl_deleted d \<and> kh_inv CAP h"
    and "\<And>t d h hash e. dbtables s t = Some d \<Longrightarrow> cache_hash_set d = Some h \<Longrightarrow> kh_lookup h hash = Some e \<Longrightarrow>
      \<exists>c. entries s e = Some c \<and> ce_hash c = hash \<and> ce_table c = Some t \<and> \<not> ce_deleted c"
  shows "sets_ok s"
  unfolding sets_ok_def using assms by (auto split: option.split)

lemma ok_set_None: "db_ok s hs X \<Longrightarrow> dbtables s t = Some d \<Longrightarrow> cache_hash_set d = None \<Longrightarrow> tbl_deleted d"
  using ok_set_iff by blast

lemma table_refs_cong:
  assumes "\<And>e. table_of s' e = table_of s e"
  shows "table_refs s' hs t = table_refs s hs t"
proof -
  have "on_table s' t h = on_table s t h" for h by (cases h) (simp_all add: assms)
  then have "on_table s' t = on_table s t" by blast
  then show ?thesis by (simp add: table_refs_def)
qed

lemma db_ok_cong:
  assumes "entries s' = entries s" "dbtables s' = dbtables s" "tables s' = tables s"
    "free_blocks s' = free_blocks s" "blocks_exist s' = blocks_exist s" "blocks_free s' = blocks_free s"
    "next_ptr s' = next_ptr s"
  shows "db_ok s' hs X \<longleftrightarrow> db_ok s hs X"
proof -
  have r: "table_refs s' hs t = table_refs s hs t" for t
    by (rule table_refs_cong) (simp add: table_of_def assms(1))
  have "sets_ok s' = sets_ok s" by (simp add: sets_ok_def assms cong: option.case_cong)
  moreover have "owned_blocks s' = owned_blocks s" by (simp add: owned_blocks_def assms)
  moreover have "blocks_inv s' U = blocks_inv s U" for U by (rule blocks_inv_cong) (fact assms)+
  ultimately show ?thesis
    by (simp add: db_ok_def tables_ok_def live_ok_def refs_ok_def blocks_ok_def fresh_ok_def assms r)
qed

lemma db_ok_fields [simp]:
  "db_ok (s\<lparr>files := F\<rparr>) hs X = db_ok s hs X" "db_ok (s\<lparr>db_size_bytes := n\<rparr>) hs X = db_ok s hs X"
  "db_ok (s\<lparr>db_keys := n\<rparr>) hs X = db_ok s hs X" "db_ok (s\<lparr>db_stats_inserts := n\<rparr>) hs X = db_ok s hs X"
  "db_ok (s\<lparr>db_stats_gets := n\<rparr>) hs X = db_ok s hs X" "db_ok (s\<lparr>db_stats_deletes := n\<rparr>) hs X = db_ok s hs X"
  "db_ok (s\<lparr>db_stats_operations := n\<rparr>) hs X = db_ok s hs X"
  by (rule db_ok_cong; simp)+

lemma lru_ok_fields [simp]:
  "lru_ok (s\<lparr>files := F\<rparr>) xs = lru_ok s xs" "lru_ok (s\<lparr>db_size_bytes := n\<rparr>) xs = lru_ok s xs"
  "lru_ok (s\<lparr>db_keys := n\<rparr>) xs = lru_ok s xs" "lru_ok (s\<lparr>db_stats_gets := n\<rparr>) xs = lru_ok s xs"
  "lru_ok (s\<lparr>db_stats_operations := n\<rparr>) xs = lru_ok s xs" "lru_ok (s\<lparr>db_stats_inserts := n\<rparr>) xs = lru_ok s xs" "lru_ok (s\<lparr>db_stats_deletes := n\<rparr>) xs = lru_ok s xs"
  "lru_ok (s\<lparr>dbtables := T\<rparr>) xs = lru_ok s xs" "lru_ok (s\<lparr>tables := H\<rparr>) xs = lru_ok s xs"
  by (simp_all add: lru_ok_def lru_inv_def idle_entries_def)

definition lnk :: "cache_entry \<Rightarrow> eptr option \<times> eptr option" where
  "lnk c = (ce_lru_prev c, ce_lru_next c)"

lemma dll_cong_lnk:
  "(\<And>x. x \<in> set xs \<Longrightarrow> map_option lnk (h' x) = map_option lnk (h x)) \<Longrightarrow> dll h' p xs n = dll h p xs n"
proof (induction xs arbitrary: p)
  case (Cons x xs)
  have "dll h' (Some x) xs n = dll h (Some x) xs n" by (rule Cons.IH) (simp add: Cons.prems)
  moreover have "map_option lnk (h' x) = map_option lnk (h x)" by (simp add: Cons.prems)
  ultimately show ?case by (cases "h x"; cases "h' x") (auto simp: lnk_def)
qed simp

lemma lru_inv_cong:
  assumes "lru_head s' = lru_head s" "lru_tail s' = lru_tail s"
    "\<And>x. x \<in> set xs \<Longrightarrow> map_option lnk (entries s' x) = map_option lnk (entries s x)"
  shows "lru_inv s' xs \<longleftrightarrow> lru_inv s xs"
  using dll_cong_lnk [of xs "entries s'" "entries s" None None] assms(3) by (simp add: lru_inv_def assms(1,2))

section \<open>An entry gets other references\<close>

text \<open>The entry \<open>e\<close> is replaced by one that is the same to its table; the handles on it change with its count.\<close>

definition same_place :: "cache_entry \<Rightarrow> cache_entry \<Rightarrow> bool" where
  "same_place c c' \<longleftrightarrow> ce_table c' = ce_table c \<and> ce_hash c' = ce_hash c \<and> ce_deleted c' = ce_deleted c
     \<and> ce_block c' = ce_block c \<and> ce_data_length c' = ce_data_length c"

lemma owned_blocks_upd:
  "entries s e = Some c \<Longrightarrow> ce_block c' = ce_block c \<Longrightarrow>
   owned_blocks (s\<lparr>entries := (entries s)(e \<mapsto> c')\<rparr>) = owned_blocks s"
  unfolding owned_blocks_def by (auto split: if_splits) (metis option.inject)

lemma blocks_ok_same:
  assumes ok: "db_ok s hs X" and o: "owned_blocks s' = owned_blocks s"
    and f: "free_blocks s' = free_blocks s" "blocks_exist s' = blocks_exist s" "blocks_free s' = blocks_free s"
    and same: "\<And>x c'. entries s' x = Some c' \<Longrightarrow>
      \<exists>c. entries s x = Some c \<and> ce_block c = ce_block c' \<and> ce_data_length c = ce_data_length c'"
  shows "blocks_ok s'"
  unfolding blocks_ok_def o
proof (intro conjI allI impI)
  show "blocks_inv s' (owned_blocks s)" using ok_blocks(1) [OF ok] f by (simp add: blocks_inv_def)
next
  fix x cx assume "entries s' x = Some cx \<and> 0 \<le> ce_block cx"
  with same [of x cx] ok_blocks(2) [OF ok, of x] show "\<not> IS_SINGLE_FILE cx" by (auto simp: IS_SINGLE_FILE_def)
next
  fix x cx y cy assume a: "entries s' x = Some cx \<and> entries s' y = Some cy \<and> 0 \<le> ce_block cx \<and> ce_block cx = ce_block cy"
  with same obtain c0 c1 where "entries s x = Some c0" "ce_block c0 = ce_block cx" "entries s y = Some c1" "ce_block c1 = ce_block cy"
    by blast
  with a ok_blocks(3) [OF ok, of x c0 y c1] show "x = y" by auto
qed

lemma upd_entry_ok:
  assumes ok: "db_ok s hs X" and e: "entries s e = Some c" and p: "same_place c c'"
    and r: "unat (ce_refs c') = entry_refs hs' e" "ce_deleted c \<Longrightarrow> 0 < entry_refs hs' e"
      "\<And>x. x \<noteq> e \<Longrightarrow> entry_refs hs' x = entry_refs hs x" "\<And>t. table_refs s hs' t = table_refs s hs t"
    and n: "length hs' < 2 ^ 14"
  shows "db_ok (s\<lparr>entries := (entries s)(e \<mapsto> c')\<rparr>) hs' X"
proof -
  let ?s = "s\<lparr>entries := (entries s)(e \<mapsto> c')\<rparr>"
  have tr: "table_refs ?s hs' t = table_refs s hs t" for t
    using table_refs_cong [of ?s s hs' t] e p r(4) by (simp add: table_of_def same_place_def)
  have "tables_ok ?s" using ok by (simp add: db_ok_def tables_ok_def)
  moreover have "sets_ok ?s"
  proof (rule sets_okI)
    fix t d h hash x assume "dbtables ?s t = Some d" "cache_hash_set d = Some h" "kh_lookup h hash = Some x"
    then obtain cx where "entries s x = Some cx" "ce_hash cx = hash" "ce_table cx = Some t" "\<not> ce_deleted cx"
      using ok_set(2) [OF ok, of t d h hash x] by auto
    then show "\<exists>c. entries ?s x = Some c \<and> ce_hash c = hash \<and> ce_table c = Some t \<and> \<not> ce_deleted c"
      using e p by (auto simp: same_place_def)
  qed (use ok_set_None [OF ok] ok_set(1) [OF ok] in auto)
  moreover have "live_ok ?s"
    unfolding live_ok_def
  proof (intro allI impI)
    fix x cx assume "entries ?s x = Some cx \<and> \<not> ce_deleted cx"
    then show "\<exists>t d h. ce_table cx = Some t \<and> dbtables ?s t = Some d \<and> cache_hash_set d = Some h \<and> kh_lookup h (ce_hash cx) = Some x"
      using ok_live [OF ok, of x] e p by (cases "x = e") (auto simp: same_place_def)
  qed
  moreover have "refs_ok ?s hs' X"
    using ok e p r tr unfolding db_ok_def refs_ok_def by (auto simp: same_place_def)
  moreover have o: "owned_blocks ?s = owned_blocks s"
    using owned_blocks_upd [OF e] p by (simp add: same_place_def)
  then have "blocks_ok ?s"
    by (rule blocks_ok_same [OF ok]) (use e p in \<open>auto simp: same_place_def split: if_splits\<close>)
  moreover have "fresh_ok ?s" using ok e by (auto simp: db_ok_def fresh_ok_def)
  ultimately show ?thesis using n by (simp add: db_ok_def)
qed

lemma entry_refs_Nil [simp]: "entry_refs [] e = 0"
  by (simp add: entry_refs_def)

lemma entry_refs_Cons [simp]: "entry_refs (h # hs) e = (if on_entry e h then 1 else 0) + entry_refs hs e"
  by (simp add: entry_refs_def)

lemma table_refs_Cons [simp]: "table_refs s (h # hs) t = (if on_table s t h then 1 else 0) + table_refs s hs t"
  by (simp add: table_refs_def)

lemma entry_refs_le: "entry_refs hs e \<le> length hs"
  by (simp add: entry_refs_def)

lemma lru_ok_entry:
  assumes "lru_ok s xs" "entries s e = Some c" "lnk c' = lnk c" "ce_deleted c' = ce_deleted c" "ce_writing c' = ce_writing c"
  shows "lru_ok (s\<lparr>entries := (entries s)(e \<mapsto> c')\<rparr>) xs"
proof -
  have "lru_inv (s\<lparr>entries := (entries s)(e \<mapsto> c')\<rparr>) xs = lru_inv s xs"
    by (rule lru_inv_cong) (use assms in auto)
  moreover have "idle_entries (s\<lparr>entries := (entries s)(e \<mapsto> c')\<rparr>) = idle_entries s"
    using assms by (auto simp: idle_entries_def)
  ultimately show ?thesis using assms(1) by (simp add: lru_ok_def)
qed

lemma incref_ok:
  assumes ok: "db_ok s hs X" and e: "entries s e = Some c" and n: "length hs + 1 < 2 ^ 14"
  shows "db_entry_incref e False s = Some (s\<lparr>entries := (entries s)(e \<mapsto> c\<lparr>ce_refs := ce_refs c + 1\<rparr>)\<rparr>)"
    and "db_ok (s\<lparr>entries := (entries s)(e \<mapsto> c\<lparr>ce_refs := ce_refs c + 1\<rparr>)\<rparr>) (BareH e # hs) X"
    and "lru_ok s xs \<Longrightarrow> lru_ok (s\<lparr>entries := (entries s)(e \<mapsto> c\<lparr>ce_refs := ce_refs c + 1\<rparr>)\<rparr>) xs"
proof -
  show "db_entry_incref e False s = Some (s\<lparr>entries := (entries s)(e \<mapsto> c\<lparr>ce_refs := ce_refs c + 1\<rparr>)\<rparr>)"
    using e by (simp add: db_entry_incref_def)
  have r: "unat (ce_refs c) = entry_refs hs e" using ok_refs(1) [OF ok e] .
  have "unat (ce_refs c) < 2 ^ 14" using r entry_refs_le [of hs e] n by simp
  then have "unat (ce_refs c + 1) = unat (ce_refs c) + 1" by (simp add: unat_word_ariths)
  with r show "db_ok (s\<lparr>entries := (entries s)(e \<mapsto> c\<lparr>ce_refs := ce_refs c + 1\<rparr>)\<rparr>) (BareH e # hs) X"
    by (intro upd_entry_ok [OF ok e]) (use n in \<open>auto simp: same_place_def\<close>)
  show "lru_ok s xs \<Longrightarrow> lru_ok (s\<lparr>entries := (entries s)(e \<mapsto> c\<lparr>ce_refs := ce_refs c + 1\<rparr>)\<rparr>) xs"
    by (rule lru_ok_entry [OF _ e]) (simp_all add: lnk_def)
qed

section \<open>Taking an entry out of its table\<close>

text \<open>
  The state after the entry \<open>e\<close> of the table \<open>t\<close> has been marked deleted and taken out of the hash
  set, but for the links, the files and the counters.
\<close>

definition detached :: "db_state \<Rightarrow> eptr \<Rightarrow> cache_entry \<Rightarrow> tptr \<Rightarrow> db_table \<Rightarrow> eptr kh \<Rightarrow> db_state" where
  "detached s e c t d h' = s\<lparr>dbtables := (dbtables s)(t \<mapsto> d\<lparr>cache_hash_set := Some h'\<rparr>),
     entries := (entries s)(e \<mapsto> c\<lparr>ce_deleted := True\<rparr>)\<rparr>"

lemma detach_ok:
  assumes ok: "db_ok s hs None" and e: "entries s e = Some c" "\<not> ce_deleted c" "0 < entry_refs hs e"
    and t: "ce_table c = Some t" "dbtables s t = Some d" "cache_hash_set d = Some h"
    and h': "kh_inv CAP h'" "kh_lookup h' = (kh_lookup h)(ce_hash c := None)"
  shows "db_ok (detached s e c t d h') hs (Some t)"
proof -
  let ?s = "detached s e c t d h'"
  have lk: "kh_lookup h (ce_hash c) = Some e"
    using ok_live [OF ok e(1,2)] t by auto
  have nd: "\<not> tbl_deleted d" "kh_inv CAP h" using ok_set(1) [OF ok t(2,3)] by auto
  have ne: "kh_lookup h \<noteq> Map.empty" using lk by auto
  have "tables_ok ?s"
    unfolding tables_ok_def
  proof (intro conjI allI impI)
    fix hash t' assume "kh_lookup (tables ?s) hash = Some t'"
    then obtain d' where "dbtables s t' = Some d'" "tbl_hash d' = hash" "\<not> tbl_deleted d'"
      using ok_tables(2) [OF ok, of hash t'] by (auto simp: detached_def)
    then show "\<exists>d. dbtables ?s t' = Some d \<and> tbl_hash d = hash \<and> \<not> tbl_deleted d"
      using t(2) by (cases "t' = t") (auto simp: detached_def)
  qed (use ok_tables(1) [OF ok] in \<open>simp add: detached_def\<close>)
  moreover have "sets_ok ?s"
  proof (rule sets_okI)
    fix t' d' g hash x assume a: "dbtables ?s t' = Some d'" "cache_hash_set d' = Some g" "kh_lookup g hash = Some x"
    show "\<exists>c. entries ?s x = Some c \<and> ce_hash c = hash \<and> ce_table c = Some t' \<and> \<not> ce_deleted c"
    proof (cases "t' = t")
      case True
      with a have l: "kh_lookup h hash = Some x" "hash \<noteq> ce_hash c"
        using h'(2) by (auto simp: detached_def split: if_splits)
      from ok_set(2) [OF ok t(2,3) l(1)] e(1) l(2) True show ?thesis by (auto simp: detached_def)
    next
      case False
      with a have "dbtables s t' = Some d'" by (simp add: detached_def)
      from ok_set(2) [OF ok this a(2,3)] e(1) t(1) False show ?thesis by (auto simp: detached_def)
    qed
  qed (use ok_set_None [OF ok] ok_set(1) [OF ok] nd h'(1) in \<open>auto simp: detached_def split: if_splits\<close>)
  moreover have "live_ok ?s"
    unfolding live_ok_def
  proof (intro allI impI)
    fix x c' assume "entries ?s x = Some c' \<and> \<not> ce_deleted c'"
    then have x: "x \<noteq> e" "entries s x = Some c'" "\<not> ce_deleted c'"
      by (auto simp: detached_def split: if_splits)
    from ok_live [OF ok x(2,3)] obtain t' d' g where g: "ce_table c' = Some t'" "dbtables s t' = Some d'"
      "cache_hash_set d' = Some g" "kh_lookup g (ce_hash c') = Some x" by blast
    show "\<exists>t d h. ce_table c' = Some t \<and> dbtables ?s t = Some d \<and> cache_hash_set d = Some h
       \<and> kh_lookup h (ce_hash c') = Some x"
    proof (cases "t' = t")
      case True
      with g t have "g = h" by simp
      then have "ce_hash c' \<noteq> ce_hash c" using g(4) lk x(1) by auto
      then show ?thesis using True g t \<open>g = h\<close> by (simp add: detached_def h'(2))
    next
      case False
      then show ?thesis using g by (simp add: detached_def)
    qed
  qed
  moreover have "refs_ok ?s hs (Some t)"
  proof -
    have tr: "table_refs ?s hs t' = table_refs s hs t'" for t'
      by (rule table_refs_cong) (simp add: e(1) table_of_def detached_def)
    have "unat (tbl_refs d) = Suc (table_refs s hs t)"
      using ok_refs(6) [OF ok t(2) nd(1)] t(3) ne by (simp add: own_ref_def)
    moreover have "own_ref (Some t) t' d' = own_ref None t' d'" if "t' \<noteq> t" for t' d'
      using that by (simp add: own_ref_def)
    ultimately show ?thesis
      using ok e t(2) nd(1) unfolding db_ok_def refs_ok_def tr
      by (auto simp: detached_def own_ref_def split: if_splits)
  qed
  moreover have "blocks_ok ?s"
  proof -
    have o: "owned_blocks ?s = owned_blocks s"
      using owned_blocks_upd [OF e(1), of "c\<lparr>ce_deleted := True\<rparr>"] by (simp add: owned_blocks_def detached_def)
    then show ?thesis
      by (rule blocks_ok_same [OF ok]) (use e(1) in \<open>auto simp: detached_def split: if_splits\<close>)
  qed
  moreover have "fresh_ok ?s"
    using ok e(1) t(2) by (auto simp: db_ok_def fresh_ok_def detached_def)
  ultimately show ?thesis using ok by (simp add: db_ok_def)
qed

section \<open>A table that lost its last entry\<close>

lemma own_ref_settle:
  assumes "db_ok s hs (Some t)" "dbtables s t = Some d" "cache_hash_set d = Some h" "kh_lookup h \<noteq> Map.empty"
  shows "db_ok s hs None"
proof -
  have "own_ref None t' d' = own_ref (Some t) t' d'" if "dbtables s t' = Some d'" for t' d'
    using that assms(2-4) by (auto simp: own_ref_def)
  then show ?thesis using assms(1) by (simp add: db_ok_def refs_ok_def)
qed

text \<open>The table \<open>t\<close> is gone from the map \<open>T\<close>, freed if nothing refers to it, and the entry that was its last refers to no table.\<close>

definition without_table :: "db_state \<Rightarrow> tptr \<Rightarrow> db_table \<Rightarrow> tptr kh \<Rightarrow> eptr \<Rightarrow> cache_entry \<Rightarrow> db_state" where
  "without_table s t d T e c = s\<lparr>tables := T,
     dbtables := (dbtables s)(t := if tbl_refs d = 1 then None
       else Some (d\<lparr>tbl_deleted := True, cache_hash_set := None, tbl_refs := tbl_refs d - 1\<rparr>)),
     entries := (entries s)(e \<mapsto> c\<lparr>ce_table := None\<rparr>)\<rparr>"

lemma table_refs_less:
  assumes "\<And>x. table_of s' x = Some t \<Longrightarrow> table_of s x = Some t"
  shows "table_refs s' hs t \<le> table_refs s hs t"
proof -
  have "on_table s t h" if "on_table s' t h" for h using that assms by (cases h) auto
  then show ?thesis unfolding table_refs_def by (induction hs) auto
qed

lemma table_refs_other:
  assumes "\<And>x. table_of s' x = Some t \<longleftrightarrow> table_of s x = Some t"
  shows "table_refs s' hs t = table_refs s hs t"
  using table_refs_less [of s' t s hs] table_refs_less [of s t s' hs] assms by (simp add: le_antisym)

lemma without_table_ok:
  assumes ok: "db_ok s hs (Some t)" and t: "dbtables s t = Some d" "cache_hash_set d = Some h" "kh_lookup h = Map.empty"
    and e: "entries s e = Some c" "ce_deleted c" "ce_table c = Some t"
    and T: "kh_inv CAP T" "kh_lookup T = (kh_lookup (tables s))(tbl_hash d := None)"
  shows "db_ok (without_table s t d T e c) hs None"
proof -
  let ?s = "without_table s t d T e c"
  have nd: "\<not> tbl_deleted d" using ok_set(1) [OF ok t(1,2)] by simp
  have refs: "unat (tbl_refs d) = Suc (table_refs s hs t)"
    using ok_refs(6) [OF ok t(1) nd] by (simp add: own_ref_def)
  have tbl: "table_of ?s x = (if x = e then None else table_of s x)" for x
    by (simp add: table_of_def without_table_def)
  have toe: "table_of s e = Some t" using e by (simp add: table_of_def)
  have tr: "table_refs ?s hs t' = table_refs s hs t'" if "t' \<noteq> t" for t'
    using that toe by (intro table_refs_other) (auto simp: tbl)
  have trt: "table_refs ?s hs t \<le> table_refs s hs t" by (rule table_refs_less) (auto simp: tbl split: if_splits)
  have other: "dbtables ?s t' = dbtables s t'" if "t' \<noteq> t" for t' using that by (simp add: without_table_def)
  have same_t: "\<exists>r. d' = d\<lparr>tbl_deleted := True, cache_hash_set := None, tbl_refs := tbl_refs d - 1\<rparr>"
    if "dbtables ?s t = Some d'" for d' using that by (simp add: without_table_def split: if_splits)
  have "tables_ok ?s"
    unfolding tables_ok_def
  proof (intro conjI allI impI)
    fix hash t' assume "kh_lookup (tables ?s) hash = Some t'"
    then have "kh_lookup (tables s) hash = Some t'" "hash \<noteq> tbl_hash d"
      using T(2) by (auto simp: without_table_def split: if_splits)
    then obtain d' where "dbtables s t' = Some d'" "tbl_hash d' = hash" "\<not> tbl_deleted d'" "t' \<noteq> t"
      using ok_tables(2) [OF ok, of hash t'] t(1) by (cases "t' = t") auto
    then show "\<exists>d. dbtables ?s t' = Some d \<and> tbl_hash d = hash \<and> \<not> tbl_deleted d" by (simp add: other)
  qed (use T(1) in \<open>simp add: without_table_def\<close>)
  moreover have "sets_ok ?s"
  proof (rule sets_okI)
    fix t' d' assume a: "dbtables ?s t' = Some d'" "cache_hash_set d' = None"
    show "tbl_deleted d'"
      using a same_t [of d'] ok_set_None [OF ok, of t' d'] by (cases "t' = t") (auto simp: other)
  next
    fix t' d' g assume a: "dbtables ?s t' = Some d'" "cache_hash_set d' = Some g"
    then have "t' \<noteq> t" using same_t by auto
    with a show "\<not> tbl_deleted d' \<and> kh_inv CAP g" using ok_set(1) [OF ok] by (simp add: other)
  next
    fix t' d' g hash x assume a: "dbtables ?s t' = Some d'" "cache_hash_set d' = Some g" "kh_lookup g hash = Some x"
    then have "t' \<noteq> t" using same_t by auto
    with a have "\<exists>c. entries s x = Some c \<and> ce_hash c = hash \<and> ce_table c = Some t' \<and> \<not> ce_deleted c"
      using ok_set(2) [OF ok] by (simp add: other)
    with e show "\<exists>c. entries ?s x = Some c \<and> ce_hash c = hash \<and> ce_table c = Some t' \<and> \<not> ce_deleted c"
      by (auto simp: without_table_def)
  qed
  moreover have "live_ok ?s"
    unfolding live_ok_def
  proof (intro allI impI)
    fix x c' assume "entries ?s x = Some c' \<and> \<not> ce_deleted c'"
    then have x: "entries s x = Some c'" "\<not> ce_deleted c'" using e by (auto simp: without_table_def split: if_splits)
    from ok_live [OF ok x] obtain t' d' g where g: "ce_table c' = Some t'" "dbtables s t' = Some d'"
      "cache_hash_set d' = Some g" "kh_lookup g (ce_hash c') = Some x" by blast
    with t have "t' \<noteq> t" by auto
    with g show "\<exists>t d h. ce_table c' = Some t \<and> dbtables ?s t = Some d \<and> cache_hash_set d = Some h
       \<and> kh_lookup h (ce_hash c') = Some x" by (simp add: other)
  qed
  moreover have "refs_ok ?s hs None"
    unfolding refs_ok_def
  proof (intro conjI allI impI)
    fix x c' assume a: "entries ?s x = Some c'"
    then obtain c0 where "entries s x = Some c0" "ce_refs c0 = ce_refs c'" "ce_deleted c0 = ce_deleted c'"
      using e by (auto simp: without_table_def split: if_splits)
    with ok_refs(1,2) [OF ok, of x c0] show "unat (ce_refs c') = entry_refs hs x" "ce_deleted c' \<Longrightarrow> 0 < entry_refs hs x" by auto
  next
    fix x assume "0 < entry_refs hs x"
    with ok_refs(3) [OF ok, of x] show "entries ?s x \<noteq> None" by (auto simp: without_table_def)
  next
    fix t' d' assume a: "dbtables ?s t' = Some d'"
    show "if tbl_deleted d' then own_ref None t' d' + table_refs ?s hs t' \<le> unat (tbl_refs d') \<and> 0 < unat (tbl_refs d')
          else unat (tbl_refs d') = own_ref None t' d' + table_refs ?s hs t'"
    proof (cases "t' = t")
      case True
      with a have d': "d' = d\<lparr>tbl_deleted := True, cache_hash_set := None, tbl_refs := tbl_refs d - 1\<rparr>" "tbl_refs d \<noteq> 1"
        by (auto simp: without_table_def split: if_splits)
      have "tbl_refs d \<noteq> 0" using refs by auto
      then have "unat (tbl_refs d - 1) = unat (tbl_refs d) - 1" by (rule unat_minus_one)
      moreover have "unat (tbl_refs d) \<noteq> 1" using d'(2) by (metis unsigned_1 word_unat_eq_iff)
      ultimately show ?thesis using refs trt True by (simp add: d'(1) own_ref_def)
    next
      case False
      with a have "dbtables s t' = Some d'" by (simp add: other)
      with False ok_refs(4-6) [OF ok this] show ?thesis by (auto simp: tr own_ref_def)
    qed
  next
    fix t' assume a: "0 < table_refs ?s hs t'"
    show "dbtables ?s t' \<noteq> None"
    proof (cases "t' = t")
      case True
      with a trt have "0 < table_refs s hs t" by simp
      with refs have "tbl_refs d \<noteq> 1" by auto
      with True show ?thesis by (simp add: without_table_def)
    next
      case False
      with a ok_refs(7) [OF ok, of t'] show ?thesis by (simp add: tr other)
    qed
  qed
  moreover have "blocks_ok ?s"
  proof -
    have "owned_blocks ?s = owned_blocks s"
      using owned_blocks_upd [OF e(1), of "c\<lparr>ce_table := None\<rparr>"] by (simp add: owned_blocks_def without_table_def)
    then show ?thesis
      by (rule blocks_ok_same [OF ok]) (use e(1) in \<open>auto simp: without_table_def split: if_splits\<close>)
  qed
  moreover have "fresh_ok ?s"
    using ok e(1) t(1) by (auto simp: db_ok_def fresh_ok_def without_table_def)
  ultimately show ?thesis using ok by (simp add: db_ok_def)
qed

section \<open>Deletion of an entry\<close>

lemma cleanup_ok:
  "entries s e = Some c \<Longrightarrow> ce_table c = Some t \<Longrightarrow> dbtables s t = Some d \<Longrightarrow>
   \<exists>F. db_entry_cleanup e s = Some (s\<lparr>files := F\<rparr>)"
  unfolding db_entry_cleanup_def get_key_path_def
  by (cases "IS_SINGLE_FILE c") (auto simp del: take_append intro: exI [of _ "files s"])

lemma idle_upd:
  "entries s e = Some c \<Longrightarrow> ce_deleted c' \<Longrightarrow>
   idle_entries (s\<lparr>entries := (entries s)(e \<mapsto> c')\<rparr>) = idle_entries s - {e}"
  by (auto simp: idle_entries_def)

lemma lru_drop_ok:
  assumes l: "lru_inv s xs" and i: "idle_entries s = set xs - {e}"
    and e: "entries s e = Some c" "e \<in> set xs \<longleftrightarrow> \<not> ce_writing c"
  shows "\<exists>s'. (if \<not> ce_writing c then db_lru_remove_node e s else Some s) = Some s'
    \<and> lru_ok s' (remove1 e xs) \<and> same_but_links s s'"
proof (cases "ce_writing c")
  case True
  with e(2) l i show ?thesis by (simp add: lru_ok_def remove1_idem)
next
  case False
  with e(2) obtain as bs where xs: "xs = as @ e # bs" by (meson split_list)
  have d: "distinct xs" using l by (simp add: lru_inv_def)
  with xs have r: "remove1 e xs = as @ bs" "set xs - {e} = set (as @ bs)" by (auto simp: remove1_append)
  from remove_node_ok [OF l [unfolded xs]] obtain s' where "db_lru_remove_node e s = Some s'"
    "lru_inv s' (as @ bs)" "same_but_links s s'" by blast
  with False idle_links [of s s'] i r show ?thesis by (auto simp: lru_ok_def)
qed

text \<open>What the deletion of \<open>e\<close> in the table \<open>t\<close> leaves alone.\<close>

definition others_kept :: "eptr \<Rightarrow> tptr option \<Rightarrow> db_state \<Rightarrow> db_state \<Rightarrow> bool" where
  "others_kept e t s s' \<longleftrightarrow> (\<forall>x. x \<noteq> e \<longrightarrow> map_option core (entries s' x) = map_option core (entries s x))
     \<and> (\<forall>x. t \<noteq> Some x \<longrightarrow> dbtables s' x = dbtables s x)"

text \<open>What no operation on entries changes.\<close>

definition same_env :: "db_state \<Rightarrow> db_state \<Rightarrow> bool" where
  "same_env s s' \<longleftrightarrow> table_gc s' = table_gc s \<and> now_sec s' = now_sec s \<and> max_size s' = max_size s
     \<and> next_ptr s' = next_ptr s \<and> db_stats_inserts s' = db_stats_inserts s \<and> n_buckets (tables s') = n_buckets (tables s)"

lemma same_env_links: "same_but_links s s' \<Longrightarrow> same_env s s'"
  by (simp add: same_env_def same_links_fields)

lemma same_env_trans: "same_env s s' \<Longrightarrow> same_env s' s'' \<Longrightarrow> same_env s s''"
  by (simp add: same_env_def)

lemma mark_ok:
  assumes ok: "db_ok s hs None" and l: "lru_ok s xs"
    and e: "entries s e = Some c" "\<not> ce_deleted c" "0 < entry_refs hs e"
    and t: "ce_table c = Some t" "dbtables s t = Some d" "cache_hash_set d = Some h"
    and k: "kh_inv CAP (kh_del h k)" "kh_lookup (kh_del h k) = (kh_lookup h)(ce_hash c := None)"
  shows "\<exists>s' c'. handle_delete_mark e k s = Some s' \<and> db_ok s' hs (Some t) \<and> lru_ok s' (remove1 e xs)
    \<and> entries s' e = Some c' \<and> core c' = core (c\<lparr>ce_deleted := True\<rparr>) \<and> ce_deleted c' \<and> ce_table c' = Some t
    \<and> dbtables s' t = Some (d\<lparr>cache_hash_set := Some (kh_del h k)\<rparr>) \<and> tables s' = tables s \<and> others_kept e (Some t) s s'
    \<and> same_env s s'"
proof -
  from cleanup_ok [OF e(1) t(1,2)] obtain F where F: "db_entry_cleanup e s = Some (s\<lparr>files := F\<rparr>)" by blast
  let ?s = "detached s e c t d (kh_del h k)"
  let ?u = "?s\<lparr>files := F, db_size_bytes := db_size_bytes s - ucast (ce_data_length c), db_keys := db_keys s - 1\<rparr>"
  have u: "?u = s\<lparr>files := F, db_size_bytes := db_size_bytes s - ucast (ce_data_length c), db_keys := db_keys s - 1,
      dbtables := (dbtables s)(t \<mapsto> d\<lparr>cache_hash_set := Some (kh_del h k)\<rparr>),
      entries := (entries s)(e \<mapsto> c\<lparr>ce_deleted := True\<rparr>)\<rparr>"
    by (simp add: detached_def)
  have run: "handle_delete_mark e k s = (if \<not> ce_writing c then db_lru_remove_node e ?u else Some ?u)"
    unfolding u using e(1) t by (simp add: handle_delete_mark_def F set_del_def hash_set_of_def cong: if_cong)
  have m: "e \<in> set xs \<longleftrightarrow> \<not> ce_writing c" and inv: "lru_inv s xs" and st: "set xs = idle_entries s"
    using l e by (auto simp: lru_ok_def idle_entries_def)
  have "lru_inv ?u xs = lru_inv s xs"
    by (rule lru_inv_cong) (use e(1) in \<open>auto simp: detached_def lnk_def\<close>)
  moreover have "idle_entries ?u = set xs - {e}"
    unfolding st using idle_upd [OF e(1), of "c\<lparr>ce_deleted := True\<rparr>"] by (simp add: idle_entries_def detached_def)
  moreover have ue: "entries ?u e = Some (c\<lparr>ce_deleted := True\<rparr>)" by (simp add: detached_def)
  ultimately obtain s' where s': "handle_delete_mark e k s = Some s'" "lru_ok s' (remove1 e xs)" "same_but_links ?u s'"
    using lru_drop_ok [of ?u xs e] inv m unfolding run by auto
  have "db_ok ?u hs (Some t)" using detach_ok [OF ok e t k] by simp
  with s'(3) have "db_ok s' hs (Some t)" by (rule db_ok_links)
  moreover from same_links_entries [OF same_links_sym [OF s'(3)] ue] obtain c' where
    "entries s' e = Some c'" and cc: "core c' = core (c\<lparr>ce_deleted := True\<rparr>)" by auto
  moreover have "ce_deleted c'" "ce_table c' = Some t" 
    using t(1) core_eqD [OF cc] by simp_all
  moreover have "others_kept e (Some t) s s'"
  proof -
    have "map_option core (entries s' x) = map_option core (entries ?u x)" for x
      using s'(3) unfolding same_but_links_def by blast
    moreover have "entries ?u x = entries s x" if "x \<noteq> e" for x using that by (simp add: detached_def)
    moreover have "dbtables s' x = dbtables s x" if "Some t \<noteq> Some x" for x
      using that by (simp add: same_links_fields(1) [OF s'(3)] detached_def)
    ultimately show ?thesis by (simp add: others_kept_def)
  qed
  moreover have "dbtables s' t = Some (d\<lparr>cache_hash_set := Some (kh_del h k)\<rparr>)" "tables s' = tables s"
    by (simp_all add: same_links_fields(1,2) [OF s'(3)] detached_def)
  moreover have "same_env s s'"
    by (rule same_env_trans [OF _ same_env_links [OF s'(3)]]) (simp add: same_env_def detached_def)
  ultimately show ?thesis using s'(1,2) cc by blast
qed

lemma table_part:
  assumes ok: "db_ok s hs (Some t)" and l: "lru_ok s xs" and e: "entries s e = Some c" "ce_deleted c" "ce_table c = Some t"
    and t: "dbtables s t = Some d" "cache_hash_set d = Some h" and n: "kh_lookup h = Map.empty"
  shows "\<exists>T. handle_delete_table e s = Some (True, without_table s t d T e c)
    \<and> kh_inv CAP T \<and> kh_lookup T = (kh_lookup (tables s))(tbl_hash d := None) \<and> n_buckets T = n_buckets (tables s)"
proof -
  have h: "kh_inv CAP h" "\<not> tbl_deleted d" using ok_set(1) [OF ok t] by auto
  have z: "kh_size h = 0" using kh_size_zero [OF h(1)] n by simp
  have refs: "tbl_refs d \<noteq> 0" using ok_refs(6) [OF ok t(1) h(2)] by (auto simp: own_ref_def)
  note T0 = ok_tables(1) [OF ok]
  obtain k where k: "kh_get (tables s) (tbl_hash d) = Some k" "kh_inv CAP (kh_del (tables s) k)"
    "kh_lookup (kh_del (tables s) k) = (kh_lookup (tables s))(tbl_hash d := None)"
    "n_buckets (kh_del (tables s) k) = n_buckets (tables s)"
  proof (cases "kh_lookup (tables s) (tbl_hash d)")
    case None
    with kh_get_absent [OF T0] T0 show thesis by (intro that) (auto simp: fun_upd_idem)
  next
    case (Some v)
    from kh_get_live [OF T0 this] kh_del_inv [OF T0] show thesis by (metis that)
  qed
  let ?T = "kh_del (tables s) k"
  have "kh_get ?T (tbl_hash d) = Some (n_buckets ?T)" using kh_get_absent [OF k(2)] k(3) by simp
  moreover have "tbl_refs d - 1 = 0 \<longleftrightarrow> tbl_refs d = 1" by simp
  ultimately have "handle_delete_table e s = Some (True, without_table s t d ?T e c)"
    using e t z refs k(1)
    by (simp add: handle_delete_table_def hash_set_of_def db_delete_table_entry_def db_table_deref_def
        db_table_actually_delete_def free_table_def without_table_def cong: if_cong)
  with k(2-4) show ?thesis by blast
qed

text \<open>What a table holds under the hashes of keys.\<close>

definition stored :: "db_state \<Rightarrow> tptr \<Rightarrow> u32 \<Rightarrow> eptr option" where
  "stored s t hash = do { h \<leftarrow> hash_set_of t s; kh_lookup h hash }"

definition deletion :: "eptr \<Rightarrow> cache_entry \<Rightarrow> tptr \<Rightarrow> db_state \<Rightarrow> db_state \<Rightarrow> bool" where
  "deletion e c t s s' \<longleftrightarrow> (\<exists>c'. entries s' e = Some c' \<and> ce_deleted c' \<and> ce_table c' \<in> {None, Some t}
       \<and> core c' = core (c\<lparr>ce_deleted := True, ce_table := ce_table c'\<rparr>))
     \<and> others_kept e (Some t) s s' \<and> stored s' t = (stored s t)(ce_hash c := None)"

lemma others_kept_stored: "others_kept e (Some t) s s' \<Longrightarrow> t' \<noteq> t \<Longrightarrow> stored s' t' = stored s t'"
  by (rule ext) (simp add: others_kept_def stored_def hash_set_of_def)

lemma handle_delete_ok:
  assumes ok: "db_ok s hs None" and l: "lru_ok s xs"
    and e: "entries s e = Some c" "\<not> ce_deleted c" "0 < entry_refs hs e"
    and t: "ce_table c = Some t"
  shows "\<exists>b s'. db_entry_handle_delete e s = Some (b, s') \<and> db_ok s' hs None \<and> lru_ok s' (remove1 e xs)
    \<and> deletion e c t s s' \<and> (b \<longleftrightarrow> stored s' t = Map.empty) \<and> same_env s s'
    \<and> (if b then hash_set_of t s' = None else map_option n_buckets (hash_set_of t s') = map_option n_buckets (hash_set_of t s))"
proof -
  from ok_live [OF ok e(1,2)] t obtain d h where d: "dbtables s t = Some d" "cache_hash_set d = Some h"
    "kh_inv CAP h" "kh_lookup h (ce_hash c) = Some e" by auto
  from kh_get_live [OF d(3,4)] obtain k where k: "kh_get h (ce_hash c) = Some k" "k \<in> kh_live h"
    "keys h ! k = ce_hash c" "kh_shape h" "kh_counts h" by metis
  note del = kh_del_inv [OF d(3) k(2,4,5), unfolded k(3)]
  let ?h = "kh_del h k"
  from mark_ok [OF ok l e t d(1,2) del(1,2)] obtain s1 c1 where m: "handle_delete_mark e k s = Some s1"
    "db_ok s1 hs (Some t)" "lru_ok s1 (remove1 e xs)" "entries s1 e = Some c1" "ce_deleted c1" "ce_table c1 = Some t"
    "dbtables s1 t = Some (d\<lparr>cache_hash_set := Some ?h\<rparr>)" "others_kept e (Some t) s s1" "same_env s s1"
    "core c1 = core (c\<lparr>ce_deleted := True\<rparr>)" by blast
  have cr: "core (c1\<lparr>ce_table := x\<rparr>) = core (c\<lparr>ce_deleted := True, ce_table := x\<rparr>)" for x
    using m(10) by (cases c; cases c1) (simp add: core_def)
  have run: "db_entry_handle_delete e s = handle_delete_table e s1"
    using e(1) t d(1,2) k(1) m(1) by (simp add: db_entry_handle_delete_def hash_set_of_def db_entry_handle_delete_at_def)
  have st: "stored s t = kh_lookup h" using d by (intro ext) (simp add: stored_def hash_set_of_def)
  have st1: "stored s1 t = kh_lookup ?h" using m(7) by (intro ext) (simp add: stored_def hash_set_of_def)
  show ?thesis
  proof (cases "kh_lookup ?h = Map.empty")
    case False
    then have "kh_size ?h \<noteq> 0" using kh_size_zero [OF del(1)] by simp
    then have "db_entry_handle_delete e s = Some (False, s1)"
      using m(4,6,7) unfolding run by (simp add: handle_delete_table_def hash_set_of_def)
    moreover have "db_ok s1 hs None" using own_ref_settle [OF m(2,7)] False by simp
    moreover have "map_option n_buckets (hash_set_of t s1) = map_option n_buckets (hash_set_of t s)"
      using m(7) d(1,2) del(3) by (simp add: hash_set_of_def)
    moreover have "core c1 = core (c\<lparr>ce_deleted := True, ce_table := ce_table c1\<rparr>)" using cr [of "ce_table c1"] by simp
    ultimately show ?thesis using m False st st1 del(2) by (auto simp: deletion_def)
  next
    case True
    let ?d = "d\<lparr>cache_hash_set := Some ?h\<rparr>"
    from table_part [OF m(2,3,4,5,6,7) _ True] obtain T where T:
      "handle_delete_table e s1 = Some (True, without_table s1 t ?d T e c1)"
      "kh_inv CAP T" "kh_lookup T = (kh_lookup (tables s1))(tbl_hash ?d := None)" "n_buckets T = n_buckets (tables s1)" by auto
    let ?s = "without_table s1 t ?d T e c1"
    have ok': "db_ok ?s hs None"
      by (rule without_table_ok [OF m(2,7) _ True m(4,5,6) T(2,3)]) simp
    have "lru_ok (s1\<lparr>entries := (entries s1)(e \<mapsto> c1\<lparr>ce_table := None\<rparr>)\<rparr>) (remove1 e xs)"
      by (rule lru_ok_entry [OF m(3,4)]) (simp_all add: lnk_def)
    then have l': "lru_ok ?s (remove1 e xs)"
      by (simp add: without_table_def lru_ok_def lru_inv_def idle_entries_def)
    have st': "stored ?s t = Map.empty"
      by (rule ext) (simp add: stored_def hash_set_of_def without_table_def)
    have "others_kept e (Some t) s ?s"
      using m(8) by (simp add: others_kept_def without_table_def)
    moreover have "entries ?s e = Some (c1\<lparr>ce_table := None\<rparr>)" by (simp add: without_table_def)
    ultimately have "deletion e c t s ?s"
      using m(5) st st' True del(2) cr [of None] by (simp add: deletion_def)
    moreover have "same_env s ?s" using m(9) T(4) by (simp add: same_env_def without_table_def)
    moreover have "hash_set_of t ?s = None" by (simp add: hash_set_of_def without_table_def)
    ultimately show ?thesis using T(1) ok' l' st' unfolding run by auto
  qed
qed

section \<open>A reference is given back\<close>

lemma table_refs_cong_on:
  assumes "\<And>x. EntryH x \<in> set hs \<Longrightarrow> table_of s' x = table_of s x"
  shows "table_refs s' hs t = table_refs s hs t"
proof -
  have "on_table s' t h = on_table s t h" if "h \<in> set hs" for h
  proof (cases h)
    case (EntryH x)
    with that assms show ?thesis by simp
  qed simp_all
  then have "filter (on_table s' t) hs = filter (on_table s t) hs" by (simp cong: filter_cong)
  then show ?thesis by (simp add: table_refs_def)
qed

lemma no_handle: "entry_refs hs e = 0 \<Longrightarrow> EntryH x \<in> set hs \<Longrightarrow> x \<noteq> e"
  by (auto simp: entry_refs_def filter_empty_conv)

lemma entry_gone_ok:
  assumes ok: "db_ok s (BareH e # hs) X" and e: "entries s e = Some c" "ce_deleted c" "entry_refs hs e = 0"
    and s': "entries s' = (entries s)(e := None)" "dbtables s' = dbtables s" "tables s' = tables s" "next_ptr s' = next_ptr s"
    and b: "blocks_inv s' (if 0 \<le> ce_block c then owned_blocks s - {ce_block c} else owned_blocks s)"
  shows "db_ok s' hs X"
proof -
  have tr: "table_refs s' hs t = table_refs s hs t" for t
    using no_handle [OF e(3)] by (intro table_refs_cong_on) (auto simp: table_of_def s'(1))
  have er: "x \<noteq> e \<Longrightarrow> entry_refs (BareH e # hs) x = entry_refs hs x" for x by simp
  have trs: "table_refs s (BareH e # hs) t = table_refs s hs t" for t by simp
  have sub: "entries s' x = Some c' \<longleftrightarrow> x \<noteq> e \<and> entries s x = Some c'" for x c' by (simp add: s'(1))
  have "tables_ok s'" using ok by (simp add: db_ok_def tables_ok_def s')
  moreover have "sets_ok s'"
  proof (rule sets_okI)
    fix t d h hash x assume "dbtables s' t = Some d" "cache_hash_set d = Some h" "kh_lookup h hash = Some x"
    then obtain cx where "entries s x = Some cx" "ce_hash cx = hash" "ce_table cx = Some t" "\<not> ce_deleted cx"
      using ok_set(2) [OF ok, of t d h hash x] by (auto simp: s'(2))
    moreover from this e have "x \<noteq> e" by auto
    ultimately show "\<exists>c. entries s' x = Some c \<and> ce_hash c = hash \<and> ce_table c = Some t \<and> \<not> ce_deleted c"
      by (simp add: sub)
  qed (use ok_set_None [OF ok] ok_set(1) [OF ok] in \<open>auto simp: s'(2)\<close>)
  moreover have "live_ok s'"
    using ok unfolding db_ok_def live_ok_def sub s'(2) by blast
  moreover have "refs_ok s' hs X"
    unfolding refs_ok_def tr s'(2)
  proof (intro conjI allI impI)
    fix x cx assume x: "entries s' x = Some cx"
    with ok_refs(1,2) [OF ok, of x cx] er [of x]
    show "unat (ce_refs cx) = entry_refs hs x" "ce_deleted cx \<Longrightarrow> 0 < entry_refs hs x" by (auto simp: sub)
  next
    fix x assume "0 < entry_refs hs x"
    with ok_refs(3) [OF ok, of x] e(3) show "entries s' x \<noteq> None" by (auto simp: s'(1))
  next
    fix t d assume d: "dbtables s t = Some d"
    show "if tbl_deleted d then own_ref X t d + table_refs s hs t \<le> unat (tbl_refs d) \<and> 0 < unat (tbl_refs d)
          else unat (tbl_refs d) = own_ref X t d + table_refs s hs t"
      using ok_refs(4-6) [OF ok d] trs [of t] by auto
  next
    fix t assume "0 < table_refs s hs t"
    with ok_refs(7) [OF ok, of t] trs [of t] show "dbtables s t \<noteq> None" by auto
  qed
  moreover have "blocks_ok s'"
  proof -
    have "owned_blocks s' = (if 0 \<le> ce_block c then owned_blocks s - {ce_block c} else owned_blocks s)"
    proof (cases "0 \<le> ce_block c")
      case True
      have "x = e" if "entries s x = Some cx" "ce_block cx = ce_block c" for x cx
        by (rule ok_blocks(3) [OF ok e(1) that(1) True that(2) [symmetric], symmetric])
      then have "(\<exists>x cx. x \<noteq> e \<and> entries s x = Some cx \<and> ce_block cx = b)
          \<longleftrightarrow> b \<noteq> ce_block c \<and> (\<exists>x cx. entries s x = Some cx \<and> ce_block cx = b)" for b
        using e(1) by (metis option.inject)
      then show ?thesis using True unfolding owned_blocks_def sub by auto
    next
      case False
      with e(1) have "0 \<le> b \<Longrightarrow> (\<exists>x cx. (x \<noteq> e \<and> entries s x = Some cx) \<and> ce_block cx = b)
          \<longleftrightarrow> (\<exists>x cx. entries s x = Some cx \<and> ce_block cx = b)" for b
        by (metis option.inject)
      then have "owned_blocks s' = owned_blocks s"
        unfolding owned_blocks_def sub by (intro Collect_cong conj_cong refl)
      then show ?thesis using False by simp
    qed
    then have "blocks_inv s' (owned_blocks s')" using b by simp
    moreover have "\<not> IS_SINGLE_FILE cx" if "entries s' x = Some cx" "0 \<le> ce_block cx" for x cx
      using ok_blocks(2) [OF ok, of x cx] that by (simp add: sub)
    moreover have "x = y" if "entries s' x = Some cx" "entries s' y = Some cy" "0 \<le> ce_block cx" "ce_block cx = ce_block cy"
      for x cx y cy using that unfolding sub by (elim conjE) (rule ok_blocks(3) [OF ok])
    ultimately show ?thesis unfolding blocks_ok_def by (intro conjI allI impI) blast+
  qed
  moreover have "fresh_ok s'" using ok by (auto simp: db_ok_def fresh_ok_def s')
  ultimately show ?thesis using ok by (simp add: db_ok_def)
qed

lemma block_free_fields:
  "\<exists>fb be bf n. db_block_free b s = s\<lparr>free_blocks := fb, blocks_exist := be, blocks_free := bf, blockfile_size := n\<rparr>"
proof (cases "of_int b + 1 = blocks_exist s \<and> 256 < blocks_free s")
  case True
  then have "db_block_free b s = s\<lparr>free_blocks := free_blocks s, blocks_exist := blocks_exist s - 1,
      blocks_free := blocks_free s, blockfile_size := unat ((blocks_exist s - 1) * of_nat BLOCK_LENGTH)\<rparr>"
    by (simp add: db_block_free_def db_block_size_def)
  then show ?thesis by blast
next
  case False
  then have "db_block_free b s = s\<lparr>free_blocks := of_int b # free_blocks s, blocks_exist := blocks_exist s,
      blocks_free := blocks_free s + 1, blockfile_size := blockfile_size s\<rparr>"
    by (auto simp: db_block_free_def)
  then show ?thesis by blast
qed

lemma deref_ok:
  assumes ok: "db_ok s (BareH e # hs) X" and e: "entries s e = Some c"
  shows "\<exists>s'. db_entry_deref e False s = Some s' \<and> db_ok s' hs X \<and> (lru_ok s xs \<longrightarrow> lru_ok s' xs)
    \<and> others_kept e None s s' \<and> (entries s' e = None \<longleftrightarrow> ce_deleted c \<and> entry_refs hs e = 0)
    \<and> (ce_deleted c \<longrightarrow> (\<forall>c'. entries s' e = Some c' \<longrightarrow> ce_deleted c')) \<and> same_env s s'"
proof -
  define x where "x = ce_refs c - 1"
  let ?c = "c\<lparr>ce_refs := x\<rparr>"
  let ?s = "s\<lparr>entries := (entries s)(e \<mapsto> ?c)\<rparr>"
  have r: "unat (ce_refs c) = Suc (entry_refs hs e)" using ok_refs(1) [OF ok e] by simp
  then have "ce_refs c \<noteq> 0" by auto
  then have r': "unat x = entry_refs hs e" using r by (simp add: x_def unat_minus_one)
  then have z: "x = 0 \<longleftrightarrow> entry_refs hs e = 0" by (metis unat_eq_zero)
  show ?thesis
  proof (cases "ce_deleted c \<and> entry_refs hs e = 0")
    case True
    let ?b = "ce_block c"
    have x0: "x = 0" using True z by simp
    define u where "u = (if 0 \<le> ?b then db_block_free ?b ?s else ?s)"
    have single: "0 \<le> ?b \<Longrightarrow> \<not> IS_SINGLE_FILE c" using ok_blocks(2) [OF ok e] .
    from block_free_fields [of ?b ?s] obtain fb be bf n where
      bf: "db_block_free ?b ?s = ?s\<lparr>free_blocks := fb, blocks_exist := be, blocks_free := bf, blockfile_size := n\<rparr>" by blast
    define v where "v = free_entry e u"
    have run: "db_entry_deref e False s = Some v"
      using e True single x0 bf [unfolded x0] unfolding v_def u_def
      by (simp add: db_entry_deref_def x_def [symmetric] db_entry_actually_delete_def free_entry_def IS_SINGLE_FILE_def)
    have f: "entries v = (entries s)(e := None)" "dbtables v = dbtables s" "tables v = tables s" "next_ptr v = next_ptr s"
      "lru_head v = lru_head s" "lru_tail v = lru_tail s"
      by (simp_all add: v_def u_def bf free_entry_def)
    have vb: "free_blocks v = free_blocks u" "blocks_exist v = blocks_exist u" "blocks_free v = blocks_free u"
      by (simp_all add: v_def free_entry_def)
    have inv: "blocks_inv ?s (owned_blocks s)" using ok_blocks(1) [OF ok] by (simp add: blocks_inv_def)
    have "blocks_inv u (if 0 \<le> ?b then owned_blocks s - {?b} else owned_blocks s)"
    proof (cases "0 \<le> ?b")
      case t: True
      then have "?b \<in> owned_blocks s" using e by (auto simp: owned_blocks_def)
      with t free_ok [OF inv] show ?thesis by (simp add: u_def)
    qed (use inv in \<open>simp add: u_def\<close>)
    then have "db_ok v hs X"
      using entry_gone_ok [OF ok e, of v] True f(1-4) blocks_inv_cong [OF vb] by simp
    moreover have "lru_ok v xs" if l: "lru_ok s xs"
    proof -
      have ne: "e \<notin> set xs" using l e True by (auto simp: lru_ok_def idle_entries_def)
      then have "lru_inv v xs = lru_inv s xs" by (intro lru_inv_cong) (auto simp: f)
      moreover have "idle_entries v = idle_entries s" using e True by (auto simp: idle_entries_def f(1))
      ultimately show ?thesis using l by (simp add: lru_ok_def)
    qed
    moreover have "same_env s v" by (simp add: same_env_def v_def u_def bf free_entry_def)
    ultimately show ?thesis using run f(1,2) True by (auto simp: others_kept_def)
  next
    case False
    have run: "db_entry_deref e False s = Some ?s"
      using e False z by (auto simp: db_entry_deref_def x_def [symmetric])
    have "db_ok ?s hs X"
      by (rule upd_entry_ok [OF ok e]) (use False r' ok in \<open>auto simp: same_place_def db_ok_def\<close>)
    moreover have "lru_ok s xs \<longrightarrow> lru_ok ?s xs" using lru_ok_entry [OF _ e, of xs ?c] by (simp add: lnk_def)
    ultimately show ?thesis using run False by (auto simp: others_kept_def same_env_def)
  qed
qed

section \<open>Lookup\<close>

text \<open>
  What a lookup for reading promises: the entry that the table holds under the hash of the key, when it has
  that key, has not expired and is not being written.
\<close>

definition expired :: "db_state \<Rightarrow> cache_entry \<Rightarrow> bool" where
  "expired s c \<longleftrightarrow> ce_expires c \<noteq> 0 \<and> ce_expires c < now_sec s"

definition readable :: "db_state \<Rightarrow> string \<Rightarrow> cache_entry \<Rightarrow> bool" where
  "readable s key c \<longleftrightarrow> \<not> expired s c \<and> \<not> key_differs (ce_key_length c) (ce_key c) key \<and> \<not> ce_writing c"

definition served :: "db_state \<Rightarrow> tptr \<Rightarrow> string \<Rightarrow> eptr option" where
  "served s t key = do {
     e \<leftarrow> stored s t (hash_string key);
     c \<leftarrow> entries s e;
     if readable s key c then Some e else None
   }"

lemma find_entry_stored:
  assumes ok: "db_ok s hs X" and h: "hash_set_of t s = Some h"
  shows "\<exists>k. find_entry t hash s = Some (k, stored s t hash)"
proof -
  from h obtain d where "dbtables s t = Some d" "cache_hash_set d = Some h" by (auto simp: hash_set_of_def bind_Some_iff)
  then have inv: "kh_inv CAP h" using ok_set(1) [OF ok] by blast
  show ?thesis
  proof (cases "kh_lookup h hash")
    case None
    with h kh_get_absent [OF inv] show ?thesis by (simp add: find_entry_def stored_def)
  next
    case (Some e)
    from kh_get_live [OF inv Some] obtain k where "kh_get h hash = Some k" "k < n_buckets h" "kh_value h k = Some e"
      by metis
    with h Some show ?thesis by (simp add: find_entry_def stored_def)
  qed
qed

lemma stored_entry:
  assumes ok: "db_ok s hs X" and e: "stored s t hash = Some e"
  obtains c where "entries s e = Some c" "ce_hash c = hash" "ce_table c = Some t" "\<not> ce_deleted c"
proof -
  from e obtain d h where "dbtables s t = Some d" "cache_hash_set d = Some h" "kh_lookup h hash = Some e"
    by (auto simp: stored_def hash_set_of_def bind_Some_iff)
  with ok_set(2) [OF ok] that show thesis by blast
qed

lemma stored_fields [simp]:
  "stored (s\<lparr>entries := E\<rparr>) = stored s" "stored (s\<lparr>db_stats_gets := n\<rparr>) = stored s"
  "stored (s\<lparr>db_stats_operations := n\<rparr>) = stored s" "stored (s\<lparr>db_stats_deletes := n\<rparr>) = stored s"
  by (intro ext, simp add: stored_def hash_set_of_def)+

lemma others_kept_trans:
  "others_kept e t s s' \<Longrightarrow> others_kept e t s' s'' \<Longrightarrow> others_kept e t s s''"
  by (simp add: others_kept_def)

lemma others_kept_None: "others_kept e None s s' \<Longrightarrow> others_kept e t s s' \<and> stored s' = stored s"
  by (auto simp: others_kept_def stored_def hash_set_of_def fun_eq_iff)

text \<open>An expired entry goes away in the lookup that finds it.\<close>

lemma expire_ok:
  assumes ok: "db_ok s hs None" and l: "lru_ok s xs" and n: "length hs + 1 < 2 ^ 14"
    and e: "entries s e = Some c" "\<not> ce_deleted c" "ce_table c = Some t"
  shows "\<exists>s'. do { s \<leftarrow> db_entry_incref e False s; (_, s) \<leftarrow> db_entry_handle_delete e s; db_entry_deref e False s } = Some s'
    \<and> db_ok s' hs None \<and> lru_ok s' (remove1 e xs) \<and> others_kept e (Some t) s s'
    \<and> stored s' t = (stored s t)(ce_hash c := None) \<and> (entries s' e = None \<longleftrightarrow> entry_refs hs e = 0) \<and> same_env s s'"
proof -
  let ?c = "c\<lparr>ce_refs := ce_refs c + 1\<rparr>"
  let ?s = "s\<lparr>entries := (entries s)(e \<mapsto> ?c)\<rparr>"
  note i = incref_ok [OF ok e(1) n]
  have e1: "entries ?s e = Some ?c" by simp
  from handle_delete_ok [OF i(2) i(3) [OF l] e1, of t] e obtain b s1 where d: "db_entry_handle_delete e ?s = Some (b, s1)"
    "db_ok s1 (BareH e # hs) None" "lru_ok s1 (remove1 e xs)" "deletion e ?c t ?s s1" "same_env ?s s1" by auto
  from d(4) obtain c1 where c1: "entries s1 e = Some c1" "ce_deleted c1" by (auto simp: deletion_def)
  from deref_ok [OF d(2) c1(1), of "remove1 e xs"] obtain s2 where s2: "db_entry_deref e False s1 = Some s2"
    "db_ok s2 hs None" "lru_ok s2 (remove1 e xs)" "others_kept e None s1 s2" "entries s2 e = None \<longleftrightarrow> entry_refs hs e = 0"
    "same_env s1 s2" using d(3) c1(2) by auto
  have "others_kept e (Some t) s ?s" by (simp add: others_kept_def)
  then have "others_kept e (Some t) s s2"
    using d(4) others_kept_None [OF s2(4)] unfolding deletion_def by (blast intro: others_kept_trans)
  moreover have "stored s2 t = (stored s t)(ce_hash c := None)"
    using d(4) others_kept_None [OF s2(4)] by (simp add: deletion_def)
  moreover have "same_env s s2" using d(5) s2(6) by (simp add: same_env_def)
  ultimately show ?thesis using i(1) d(1) s2 by auto
qed

definition stale :: "db_state \<Rightarrow> tptr \<Rightarrow> string \<Rightarrow> eptr option" where
  "stale s t key = do {
     e \<leftarrow> stored s t (hash_string key);
     c \<leftarrow> entries s e;
     if expired s c then Some e else None
   }"

definition lookup_post :: "db_state \<Rightarrow> handle list \<Rightarrow> eptr list \<Rightarrow> tptr \<Rightarrow> string \<Rightarrow> db_state \<Rightarrow> bool" where
  "lookup_post s hs xs t key s' \<longleftrightarrow> (case served s t key of
       Some e \<Rightarrow> db_ok s' (BareH e # hs) None \<and> lru_ok s' (remove1 e xs @ [e]) \<and> stored s' t = stored s t
     | None \<Rightarrow> db_ok s' hs None \<and> (case stale s t key of
           None \<Rightarrow> lru_ok s' xs \<and> stored s' t = stored s t
         | Some e \<Rightarrow> lru_ok s' (remove1 e xs) \<and> stored s' t = (stored s t)(hash_string key := None)
             \<and> (entries s' e = None \<longleftrightarrow> entry_refs hs e = 0)))"

lemma bind_result:
  "do { s \<leftarrow> A; (b, s) \<leftarrow> B s; C s } = Some s' \<Longrightarrow> do { s \<leftarrow> A; (b, s) \<leftarrow> B s; s \<leftarrow> C s; Some (x, s) } = Some (x, s')"
  by (cases A) (auto simp: bind_Some_iff split: prod.splits)

lemma bind_result2:
  "do { s \<leftarrow> A; C s } = Some s' \<Longrightarrow> do { s \<leftarrow> A; s \<leftarrow> C s; Some (x, s) } = Some (x, s')"
  by (cases A) auto

lemma hit_keeps:
  assumes ok: "db_ok s hs X" and l: "lru_ok s xs" and e: "e \<in> set xs" and n: "length hs + 1 < 2 ^ 14"
  shows "\<exists>s'. do { s \<leftarrow> db_lru_hit e s; db_entry_incref e False s } = Some s' \<and> db_ok s' (BareH e # hs) X
    \<and> lru_ok s' (remove1 e xs @ [e]) \<and> stored s' = stored s \<and> max_size s' = max_size s"
proof -
  from e obtain as bs where xs: "xs = as @ e # bs" by (meson split_list)
  have inv: "lru_inv s (as @ e # bs)" using l xs by (simp add: lru_ok_def)
  then have r: "remove1 e xs = as @ bs" using xs by (simp add: lru_inv_def remove1_append)
  from hit_ok [OF inv] obtain s1 where s1: "db_lru_hit e s = Some s1" "lru_inv s1 (as @ bs @ [e])" "same_but_links s s1"
    by blast
  have ok1: "db_ok s1 hs X" by (rule db_ok_links [OF s1(3) ok])
  have l1: "lru_ok s1 (remove1 e xs @ [e])"
    unfolding lru_ok_def r idle_links [OF s1(3)] using s1(2) l xs by (auto simp: lru_ok_def)
  from lru_inv_in [OF s1(2), of e] obtain c where c: "entries s1 e = Some c" by auto
  note i = incref_ok [OF ok1 c n]
  have "stored s1 = stored s" by (simp add: fun_eq_iff stored_def hash_set_of_def same_links_fields [OF s1(3)])
  moreover have "max_size s1 = max_size s" by (simp add: same_links_fields [OF s1(3)])
  ultimately show ?thesis using s1(1) i(1,2) i(3) [OF l1] by simp
qed

lemma get_read_ok:
  assumes ok: "db_ok s hs None" and l: "lru_ok s xs" and n: "length hs + 1 < 2 ^ 14" and h: "hash_set_of t s \<noteq> None"
  shows "\<exists>s'. db_entry_get_read t key s = Some (served s t key, s') \<and> lookup_post s hs xs t key s'
    \<and> max_size s' = max_size s"
proof -
  from h find_entry_stored [OF ok, of t _ "hash_string key"] obtain k where
    f: "find_entry t (hash_string key) s = Some (k, stored s t (hash_string key))" by auto
  show ?thesis
  proof (cases "stored s t (hash_string key)")
    case None
    then show ?thesis using f ok l by (simp add: db_entry_get_read_def served_def stale_def lookup_post_def)
  next
    case (Some e)
    from stored_entry [OF ok Some] obtain c where c: "entries s e = Some c" "ce_hash c = hash_string key"
      "ce_table c = Some t" "\<not> ce_deleted c" by blast
    let ?s = "s\<lparr>db_stats_gets := db_stats_gets s + 1, db_stats_operations := db_stats_operations s + 1\<rparr>"
    note post = served_def stale_def lookup_post_def readable_def
    consider (expired) "expired s c" | (other) "\<not> expired s c" "key_differs (ce_key_length c) (ce_key c) key \<or> ce_writing c"
      | (hit) "readable s key c" by (auto simp: readable_def)
    then show ?thesis
    proof cases
      case expired
      from expire_ok [OF ok l n c(1,4,3)] obtain s' where
        s': "do { s \<leftarrow> db_entry_incref e False s; (_, s) \<leftarrow> db_entry_handle_delete e s; db_entry_deref e False s } = Some s'"
        "db_ok s' hs None" "lru_ok s' (remove1 e xs)" "stored s' t = (stored s t)(ce_hash c := None)"
        "entries s' e = None \<longleftrightarrow> entry_refs hs e = 0" "same_env s s'" by (elim exE conjE) (rule that; assumption)
      have "db_entry_get_read t key s = do { s \<leftarrow> db_entry_incref e False s; (_, s) \<leftarrow> db_entry_handle_delete e s;
          s \<leftarrow> db_entry_deref e False s; Some (None, s) }"
        using f Some c(1) expired by (simp add: db_entry_get_read_def expired_def cong: if_cong)
      also have "\<dots> = Some (None, s')" by (rule bind_result [OF s'(1)])
      finally show ?thesis using s'(2-6) Some c(1,2) expired by (simp add: post same_env_def)
    next
      case other
      then have "\<exists>s'. db_entry_get_read t key s = Some (None, s') \<and> (s' = s \<or> s' = ?s)"
        using f Some c(1) by (auto simp: db_entry_get_read_def expired_def)
      then show ?thesis using other Some c(1) ok l by (auto simp: post)
    next
      case hit
      have "e \<in> set xs" using l hit c by (auto simp: lru_ok_def idle_entries_def readable_def)
      moreover have "db_ok ?s hs None" "lru_ok ?s xs" using ok l by simp_all
      ultimately obtain s' where s': "do { s \<leftarrow> db_lru_hit e ?s; db_entry_incref e False s } = Some s'"
        "db_ok s' (BareH e # hs) None" "lru_ok s' (remove1 e xs @ [e])" "stored s' = stored ?s" "max_size s' = max_size ?s"
        using hit_keeps [of ?s hs None xs e] n by auto
      have "db_entry_get_read t key s = do { s \<leftarrow> db_lru_hit e ?s; s \<leftarrow> db_entry_incref e False s; Some (Some e, s) }"
        using f Some c(1) hit by (auto simp: db_entry_get_read_def readable_def expired_def cong: if_cong)
      also have "\<dots> = Some (Some e, s')" by (rule bind_result2 [OF s'(1)])
      finally show ?thesis using s'(2-5) Some c(1) hit by (simp add: post)
    qed
  qed
qed

section \<open>Deletion of a key\<close>

text \<open>The entry that a request to delete \<open>key\<close> finds.\<close>

definition deletable :: "db_state \<Rightarrow> tptr \<Rightarrow> string \<Rightarrow> eptr option" where
  "deletable s t key = do {
     e \<leftarrow> stored s t (hash_string key);
     c \<leftarrow> entries s e;
     if key_differs (ce_key_length c) (ce_key c) key then None else Some e
   }"

text \<open>The calls of \<open>http_cache_handle_request\<close> for a deletion, with the reference it takes and gives back.\<close>

definition delete_key :: "tptr \<Rightarrow> string \<Rightarrow> db_state \<Rightarrow> (eptr option \<times> db_state) option" where
  "delete_key t key s = do {
     (entry, s) \<leftarrow> db_entry_get_delete t key s;
     case entry of
       None \<Rightarrow> Some (None, s)
     | Some e \<Rightarrow> do {
         (_, s) \<leftarrow> db_entry_handle_delete e s;
         s \<leftarrow> db_entry_deref e False s;
         Some (Some e, s)
       }
   }"

definition delete_post :: "db_state \<Rightarrow> handle list \<Rightarrow> eptr list \<Rightarrow> tptr \<Rightarrow> string \<Rightarrow> db_state \<Rightarrow> bool" where
  "delete_post s hs xs t key s' \<longleftrightarrow> db_ok s' hs None \<and> (case deletable s t key of
       None \<Rightarrow> lru_ok s' xs \<and> entries s' = entries s \<and> dbtables s' = dbtables s
     | Some e \<Rightarrow> lru_ok s' (remove1 e xs) \<and> others_kept e (Some t) s s'
         \<and> stored s' t = (stored s t)(hash_string key := None) \<and> (entries s' e = None \<longleftrightarrow> entry_refs hs e = 0))"

lemma delete_key_ok:
  assumes ok: "db_ok s hs None" and l: "lru_ok s xs" and n: "length hs + 1 < 2 ^ 14" and h: "hash_set_of t s \<noteq> None"
  shows "\<exists>s'. delete_key t key s = Some (deletable s t key, s') \<and> delete_post s hs xs t key s'
    \<and> max_size s' = max_size s"
proof -
  from h find_entry_stored [OF ok, of t _ "hash_string key"] obtain k where
    f: "find_entry t (hash_string key) s = Some (k, stored s t (hash_string key))" by auto
  show ?thesis
  proof (cases "deletable s t key")
    case None
    then have "delete_key t key s = Some (None, s)"
    proof (cases "stored s t (hash_string key)")
      case (Some e)
      from stored_entry [OF ok Some] obtain c where "entries s e = Some c" by blast
      with Some f None show ?thesis
        by (simp add: delete_key_def db_entry_get_delete_def deletable_def split: if_splits)
    qed (use f in \<open>simp add: delete_key_def db_entry_get_delete_def\<close>)
    with None ok l show ?thesis by (simp add: delete_post_def)
  next
    case (Some e)
    then have e: "stored s t (hash_string key) = Some e"
      by (auto simp: deletable_def bind_Some_iff split: if_splits)
    from stored_entry [OF ok e] obtain c where c: "entries s e = Some c" "ce_hash c = hash_string key"
      "ce_table c = Some t" "\<not> ce_deleted c" by blast
    with Some e have nk: "\<not> key_differs (ce_key_length c) (ce_key c) key" by (simp add: deletable_def split: if_splits)
    let ?s = "s\<lparr>db_stats_deletes := db_stats_deletes s + 1, db_stats_operations := db_stats_operations s + 1\<rparr>"
    have "db_ok ?s hs None" "lru_ok ?s xs" "entries ?s e = Some c" using ok l c(1) by simp_all
    from expire_ok [OF this(1,2) n this(3) c(4,3)] obtain s' where
      s': "do { s \<leftarrow> db_entry_incref e False ?s; (_, s) \<leftarrow> db_entry_handle_delete e s; db_entry_deref e False s } = Some s'"
      "db_ok s' hs None" "lru_ok s' (remove1 e xs)" "others_kept e (Some t) ?s s'"
      "stored s' t = (stored ?s t)(ce_hash c := None)" "entries s' e = None \<longleftrightarrow> entry_refs hs e = 0" "same_env ?s s'"
      by (elim exE conjE) (rule that; assumption)
    have "delete_key t key s = do { s \<leftarrow> db_entry_incref e False ?s; (_, s) \<leftarrow> db_entry_handle_delete e s;
        s \<leftarrow> db_entry_deref e False s; Some (Some e, s) }"
      using f e c(1) nk by (simp add: delete_key_def db_entry_get_delete_def cong: if_cong)
    also have "\<dots> = Some (Some e, s')" by (rule bind_result [OF s'(1)])
    finally show ?thesis using s'(2-7) c(2) Some by (simp add: delete_post_def others_kept_def same_env_def)
  qed
qed

section \<open>A database to look at\<close>

text \<open>One table, held by a connection, with one entry.\<close>

definition one_key :: "u32 \<Rightarrow> 'a \<Rightarrow> 'a kh" where
  "one_key key v = (case kh_put kh_init key of
       Some (h, k, _) \<Rightarrow> (case kh_set_value h k v of Some h \<Rightarrow> h | None \<Rightarrow> kh_init)
     | None \<Rightarrow> kh_init)"

definition sample_entry :: cache_entry where
  "sample_entry = \<lparr>ce_table = Some 1, ce_hash = hash_string ''k'', ce_key = ''k'', ce_key_length = 1, ce_writing = False,
     ce_deleted = False, ce_refs = 0, ce_data_length = 5, ce_block = 0, ce_expires = 0, ce_lru_next = None,
     ce_lru_prev = None, ce_it = 0\<rparr>"

definition sample_table :: db_table where
  "sample_table = \<lparr>tbl_hash = hash_string ''t'', tbl_key = ''t'', tbl_key_length = 1,
     cache_hash_set = Some (one_key (hash_string ''k'') 2), tbl_refs = 2, tbl_deleted = False\<rparr>"

definition sample_db :: db_state where
  "sample_db = empty_db\<lparr>entries := [2 \<mapsto> sample_entry], dbtables := [1 \<mapsto> sample_table], next_ptr := 3,
     tables := one_key (hash_string ''t'') 1, lru_head := Some 2, lru_tail := Some 2, blocks_exist := 1, db_keys := 1\<rparr>"

lemma one_key: "kh_inv CAP (one_key key v)" "kh_lookup (one_key key v) = [key \<mapsto> v]"
proof -
  have s: "kh_size (kh_init :: 'a kh) < CAP" by (simp add: kh_init_def CAP_def)
  have l: "kh_lookup (kh_init :: 'a kh) = Map.empty" by (rule ext) simp
  from kh_store_cap [OF kh_init_inv _ s, of key v] have "kh_inv CAP (one_key key v) \<and> kh_lookup (one_key key v) = [key \<mapsto> v]"
    by (auto simp: one_key_def CAP_def l)
  then show "kh_inv CAP (one_key key v)" "kh_lookup (one_key key v) = [key \<mapsto> v]" by auto
qed

lemma sample_ok: "db_ok sample_db [TableH 1] None" "lru_ok sample_db [2]"
proof -
  have o: "owned_blocks sample_db = {0}" by (auto simp: owned_blocks_def sample_db_def sample_entry_def)
  have "tables_ok sample_db" by (simp add: tables_ok_def sample_db_def sample_table_def one_key)
  moreover have "sets_ok sample_db"
    by (simp add: sets_ok_def sample_db_def sample_table_def sample_entry_def one_key)
  moreover have "live_ok sample_db"
    by (simp add: live_ok_def sample_db_def sample_table_def sample_entry_def one_key)
  moreover have "refs_ok sample_db [TableH 1] None"
    by (simp add: refs_ok_def sample_db_def sample_table_def sample_entry_def one_key entry_refs_def table_refs_def own_ref_def)
  moreover have "blocks_ok sample_db"
    unfolding blocks_ok_def o
    by (auto simp: sample_db_def sample_entry_def empty_db_def blocks_inv_def IS_SINGLE_FILE_def BLOCK_LENGTH_def)
  moreover have "fresh_ok sample_db" by (simp add: fresh_ok_def sample_db_def empty_db_def)
  ultimately show "db_ok sample_db [TableH 1] None" by (simp add: db_ok_def)
  show "lru_ok sample_db [2]"
    by (auto simp: lru_ok_def lru_inv_def idle_entries_def sample_db_def sample_entry_def empty_db_def)
qed

lemma sample_stored: "stored sample_db 1 (hash_string ''k'') = Some 2" "hash_set_of 1 sample_db \<noteq> None"
  by (simp_all add: stored_def hash_set_of_def sample_db_def sample_table_def one_key)

lemma sample_entries: "entries sample_db 2 = Some sample_entry" "entry_refs [TableH 1] e = 0"
  by (simp_all add: sample_db_def entry_refs_def)

lemma sample_key: "\<not> key_differs (ce_key_length sample_entry) (ce_key sample_entry) ''k''"
  by (simp add: key_differs_def sample_entry_def strncmp.simps)

section \<open>Properties\<close>

text \<open>
  C8. A lookup for reading (\<open>db_entry_get_read\<close>) on a table keeps the invariant of the whole database - tables and hash
  sets refer to live entries that refer back, reference counts are the numbers of handles, every block has one
  owner, the LRU list holds exactly the idle entries - and serves exactly the entry that is stored under the hash of
  the key, has that key, has not expired and is not being written: that entry moves to the end of the LRU list
  and is referenced once more. An expired entry that the lookup meets leaves its table and the LRU list, and is freed
  unless a connection still holds it. The lookup never follows a dangling pointer.
\<close>

theorem lookup_serves_stored_entry:
  assumes "db_ok s hs None" "lru_ok s xs" "length hs + 1 < 2 ^ 14" "hash_set_of t s \<noteq> None"
  shows "\<exists>s'. db_entry_get_read t key s = Some (served s t key, s') \<and> lookup_post s hs xs t key s'"
  using get_read_ok [OF assms, of key] by blast

theorem lookup_serves_stored_entry_witness:
  "\<exists>s'. db_entry_get_read 1 ''k'' sample_db = Some (Some 2, s') \<and> db_ok s' [BareH 2, TableH 1] None \<and> lru_ok s' [2]"
proof -
  have r: "readable sample_db ''k'' sample_entry"
    using sample_key by (simp add: readable_def expired_def) (simp add: sample_entry_def)
  have "served sample_db 1 ''k'' = Some 2"
    by (simp add: served_def sample_stored sample_entries(1) r del: One_nat_def)
  with lookup_serves_stored_entry [OF sample_ok _ sample_stored(2), of "''k''"] show ?thesis
    by (auto simp: lookup_post_def)
qed



end
