(* ===== verification/DbWrite.thy ===== *)
theory DbWrite
  imports DbOps
begin

text \<open>
  Writing: the entry of a key that is written again gives way (\<open>db_entry_handle_softdelete\<close>) and a new one takes its
  place (\<open>db_entry_get_write\<close>). References that count for the table of an entry, too.
\<close>

section \<open>An entry gives way\<close>

text \<open>The blocks that stay in use when an entry goes, and the state without it.\<close>

definition other_blocks :: "cache_entry \<Rightarrow> int set \<Rightarrow> int set" where
  "other_blocks c U = (if 0 \<le> ce_block c then U - {ce_block c} else U)"

definition freed :: "db_state \<Rightarrow> eptr \<Rightarrow> u32 list \<Rightarrow> u32 \<Rightarrow> u32 \<Rightarrow> nat \<Rightarrow> db_state" where
  "freed s e fb be bf n = s\<lparr>entries := (entries s)(e := None), free_blocks := fb, blocks_exist := be,
     blocks_free := bf, blockfile_size := n\<rparr>"

lemma lru_ok_gone:
  assumes l: "lru_ok s xs" and e: "entries s e = Some c" "ce_deleted c"
    and s': "entries s' = (entries s)(e := None)" "lru_head s' = lru_head s" "lru_tail s' = lru_tail s"
  shows "lru_ok s' xs"
proof -
  have ne: "e \<notin> set xs" using l e by (auto simp: lru_ok_def idle_entries_def)
  then have "lru_inv s' xs = lru_inv s xs" by (intro lru_inv_cong) (auto simp: s')
  moreover have "idle_entries s' = idle_entries s" using e by (auto simp: idle_entries_def s'(1))
  ultimately show ?thesis using l by (simp add: lru_ok_def)
qed

lemma gone_links:
  assumes l: "same_but_links s s1" and w: "entries w = (entries s)(e := None)" "entries w' = (entries s1)(e := None)"
    and f: "w'\<lparr>entries := entries w, lru_head := lru_head w, lru_tail := lru_tail w\<rparr> = w"
  shows "same_but_links w w'"
  using l f by (auto simp: same_but_links_def w)

text \<open>
  An entry that nobody holds leaves its table and is freed: as if it were held during the deletion and given back after
  it.
\<close>

lemma remove_ok:
  assumes ok: "db_ok s hs None" and n: "length hs + 1 < 2 ^ 14"
    and e: "entries s e = Some c" "\<not> ce_deleted c" "entry_refs hs e = 0"
    and t: "ce_table c = Some t" "dbtables s t = Some d" "cache_hash_set d = Some h"
    and h': "kh_inv CAP h'" "kh_lookup h' = (kh_lookup h)(ce_hash c := None)"
    and w: "entries w = (entries s)(e := None)" "dbtables w = (dbtables s)(t \<mapsto> d\<lparr>cache_hash_set := Some h'\<rparr>)"
      "tables w = tables s" "next_ptr w = next_ptr s"
    and b: "blocks_inv w (other_blocks c (owned_blocks s))"
  shows "db_ok w hs (Some t)"
proof -
  let ?c = "c\<lparr>ce_refs := ce_refs c + 1\<rparr>"
  let ?s = "s\<lparr>entries := (entries s)(e \<mapsto> ?c)\<rparr>"
  have i: "db_ok ?s (BareH e # hs) None" by (rule incref_ok(2) [OF ok e(1) n])
  have e1: "entries ?s e = Some ?c" "\<not> ce_deleted ?c" "0 < entry_refs (BareH e # hs) e" using e by simp_all
  define u where "u = detached ?s e ?c t d h'"
  have "db_ok u (BareH e # hs) (Some t)"
    unfolding u_def by (rule detach_ok [OF i e1]) (use t h' in simp_all)
  moreover have o: "owned_blocks u = owned_blocks s"
    using owned_blocks_upd [OF e(1), of "?c\<lparr>ce_deleted := True\<rparr>"] by (simp add: owned_blocks_def detached_def u_def)
  moreover have "entries u e = Some (?c\<lparr>ce_deleted := True\<rparr>)" by (simp add: u_def detached_def)
  moreover have "entries w = (entries u)(e := None)" "dbtables w = dbtables u" "tables w = tables u" "next_ptr w = next_ptr u"
    by (simp_all add: u_def detached_def w)
  moreover have "blocks_inv w (if 0 \<le> ce_block (?c\<lparr>ce_deleted := True\<rparr>)
      then owned_blocks u - {ce_block (?c\<lparr>ce_deleted := True\<rparr>)} else owned_blocks u)" using b unfolding other_blocks_def o by (cases "0 \<le> ce_block c") simp_all
  moreover have "ce_deleted (?c\<lparr>ce_deleted := True\<rparr>)" by simp
  ultimately show ?thesis using e(3) by (intro entry_gone_ok [of u e hs "Some t" "?c\<lparr>ce_deleted := True\<rparr>" w])
qed

lemma actually_delete_ok:
  assumes e: "entries s e = Some c" "0 \<le> ce_block c \<Longrightarrow> \<not> IS_SINGLE_FILE c" "0 \<le> ce_block c \<Longrightarrow> ce_block c \<in> U"
    and inv: "blocks_inv s U"
  shows "\<exists>fb be bf n. db_entry_actually_delete e s = Some (freed s e fb be bf n)
    \<and> blocks_inv (freed s e fb be bf n) (other_blocks c U)"
proof (cases "0 \<le> ce_block c")
  case True
  from block_free_fields [of "ce_block c" s] obtain fb be bf n where
    bf: "db_block_free (ce_block c) s = s\<lparr>free_blocks := fb, blocks_exist := be, blocks_free := bf, blockfile_size := n\<rparr>" by blast
  have "db_entry_actually_delete e s = Some (freed s e fb be bf n)"
    using e True by (simp add: db_entry_actually_delete_def bf free_entry_def freed_def)
  moreover have "blocks_inv (db_block_free (ce_block c) s) (U - {ce_block c})"
    by (rule free_ok [OF inv e(3) [OF True]])
  then have "blocks_inv (freed s e fb be bf n) (other_blocks c U)"
    using True by (simp add: bf blocks_inv_def freed_def other_blocks_def)
  ultimately show ?thesis by blast
next
  case False
  let ?v = "freed s e (free_blocks s) (blocks_exist s) (blocks_free s) (blockfile_size s)"
  have "db_entry_actually_delete e s = Some ?v"
    using e False by (simp add: db_entry_actually_delete_def free_entry_def freed_def)
  moreover have "blocks_inv ?v (other_blocks c U)" using inv False by (simp add: blocks_inv_def freed_def other_blocks_def)
  ultimately show ?thesis by blast
qed

lemma open_path:
  "entries s e = Some c \<Longrightarrow> ce_table c = Some t \<Longrightarrow> dbtables s t = Some d \<Longrightarrow>
   \<exists>F. (if IS_SINGLE_FILE c then db_entry_delete e s else Some s) = Some (s\<lparr>files := F\<rparr>)"
  unfolding db_entry_delete_def get_key_path_def
  by (cases "IS_SINGLE_FILE c") (auto simp del: take_append intro: exI [of _ "files s"])

lemma softdelete_ok:
  assumes ok: "db_ok s hs None" and l: "lru_ok s xs" and n: "length hs + 1 < 2 ^ 14"
    and e: "entries s e = Some c" "\<not> ce_deleted c"
    and t: "ce_table c = Some t" "dbtables s t = Some d" "cache_hash_set d = Some h"
    and k: "kh_inv CAP (kh_del h k)" "kh_lookup (kh_del h k) = (kh_lookup h)(ce_hash c := None)"
  shows "\<exists>s'. db_entry_handle_softdelete e k s = Some s' \<and> db_ok s' hs (Some t) \<and> lru_ok s' (remove1 e xs)
    \<and> dbtables s' t = Some (d\<lparr>cache_hash_set := Some (kh_del h k)\<rparr>) \<and> tables s' = tables s
    \<and> others_kept e (Some t) s s' \<and> same_env s s'
    \<and> (case entries s' e of None \<Rightarrow> entry_refs hs e = 0 | Some c' \<Rightarrow> ce_deleted c' \<and> 0 < entry_refs hs e)"
proof -
  from open_path [OF e(1) t(1,2)] obtain F where
    F: "(if IS_SINGLE_FILE c then db_entry_delete e s else Some s) = Some (s\<lparr>files := F\<rparr>)" by blast
  let ?s = "detached s e c t d (kh_del h k)"
  let ?u = "?s\<lparr>files := F, db_size_bytes := db_size_bytes s - ucast (ce_data_length c)\<rparr>"
  have u: "?u = s\<lparr>files := F, entries := (entries s)(e \<mapsto> c\<lparr>ce_deleted := True\<rparr>),
      dbtables := (dbtables s)(t \<mapsto> d\<lparr>cache_hash_set := Some (kh_del h k)\<rparr>),
      db_size_bytes := db_size_bytes s - ucast (ce_data_length c)\<rparr>"
    by (simp add: detached_def)
  have run: "db_entry_handle_softdelete e k s = do {
      s \<leftarrow> (if \<not> ce_writing c then db_lru_remove_node e ?u else Some ?u);
      c \<leftarrow> entries s e;
      if ce_refs c = 0 then db_entry_actually_delete e s else Some s }"
    unfolding u using e t F by (simp add: db_entry_handle_softdelete_def set_del_def hash_set_of_def cong: if_cong)
  have m: "e \<in> set xs \<longleftrightarrow> \<not> ce_writing c" and inv: "lru_inv s xs" and st: "set xs = idle_entries s"
    using l e by (auto simp: lru_ok_def idle_entries_def)
  have "lru_inv ?u xs = lru_inv s xs"
    by (rule lru_inv_cong) (use e(1) in \<open>auto simp: detached_def lnk_def\<close>)
  moreover have "idle_entries ?u = set xs - {e}"
    unfolding st using idle_upd [OF e(1), of "c\<lparr>ce_deleted := True\<rparr>"] by (simp add: idle_entries_def detached_def)
  moreover have ue: "entries ?u e = Some (c\<lparr>ce_deleted := True\<rparr>)" by (simp add: detached_def)
  ultimately obtain s1 where s1: "(if \<not> ce_writing c then db_lru_remove_node e ?u else Some ?u) = Some s1"
    "lru_ok s1 (remove1 e xs)" "same_but_links ?u s1"
    using lru_drop_ok [of ?u xs e] inv m by auto
  from same_links_entries [OF same_links_sym [OF s1(3)] ue] obtain c1 where
    c1: "entries s1 e = Some c1" "core c1 = core (c\<lparr>ce_deleted := True\<rparr>)" by auto
  have cc: "ce_deleted c1" "ce_refs c1 = ce_refs c" "ce_block c1 = ce_block c" "ce_data_length c1 = ce_data_length c"
    using core_eqD [OF c1(2)] by simp_all
  have r: "unat (ce_refs c) = entry_refs hs e" using ok_refs(1) [OF ok e(1)] .
  note f1 = same_links_fields [OF s1(3)]
  have kept: "others_kept e (Some t) s s1"
  proof -
    have "map_option core (entries s1 x) = map_option core (entries ?u x)" for x
      using s1(3) unfolding same_but_links_def by blast
    moreover have "entries ?u x = entries s x" if "x \<noteq> e" for x using that by (simp add: detached_def)
    moreover have "dbtables s1 x = dbtables s x" if "Some t \<noteq> Some x" for x
      using that by (simp add: f1(1) detached_def)
    ultimately show ?thesis by (simp add: others_kept_def)
  qed
  show ?thesis
  proof (cases "ce_refs c = 0")
    case False
    with r have pos: "0 < entry_refs hs e" by (metis gr0I unat_eq_zero)
    have "db_ok ?u hs (Some t)" using detach_ok [OF ok e pos t k] by simp
    with s1(3) have "db_ok s1 hs (Some t)" by (rule db_ok_links)
    moreover have "db_entry_handle_softdelete e k s = Some s1" using False c1(1) cc(2) unfolding run s1(1) by simp
    moreover have "dbtables s1 t = Some (d\<lparr>cache_hash_set := Some (kh_del h k)\<rparr>)" "tables s1 = tables s"
      by (simp_all add: f1 detached_def)
    moreover have "same_env s s1" by (simp add: same_env_def f1 detached_def)
    ultimately show ?thesis using s1(2) kept c1(1) cc(1) pos by auto
  next
    case True
    with r have zero: "entry_refs hs e = 0" by simp
    let ?b = "ce_block c"
    have single: "0 \<le> ?b \<Longrightarrow> \<not> IS_SINGLE_FILE c1" using ok_blocks(2) [OF ok e(1)] cc(4) by (simp add: IS_SINGLE_FILE_def)
    have own: "0 \<le> ?b \<Longrightarrow> ?b \<in> owned_blocks s" using e(1) by (auto simp: owned_blocks_def)
    have "blocks_inv s1 (owned_blocks s)"
      using ok_blocks(1) [OF ok] by (simp add: blocks_inv_def f1 detached_def)
    from actually_delete_ok [OF c1(1) single _ this] own cc(3) obtain fb be bf m where
      v: "db_entry_actually_delete e s1 = Some (freed s1 e fb be bf m)"
        "blocks_inv (freed s1 e fb be bf m) (other_blocks c1 (owned_blocks s))" by auto
    let ?v = "freed s1 e fb be bf m"
    let ?w = "freed ?u e fb be bf m"
    have o: "other_blocks c1 U = other_blocks c U" for U by (simp add: other_blocks_def cc(3))
    have "blocks_inv ?w U = blocks_inv ?v U" for U by (simp add: blocks_inv_def freed_def)
    then have "db_ok ?w hs (Some t)"
      using v(2) by (intro remove_ok [OF ok n e zero t k]) (simp_all add: detached_def freed_def o)
    moreover have "same_but_links ?w ?v"
    proof (rule gone_links [OF s1(3)])
      have *: "s1\<lparr>entries := entries ?u, lru_head := lru_head ?u, lru_tail := lru_tail ?u\<rparr> = ?u"
        using s1(3) by (simp only: same_but_links_def)
      have "?v\<lparr>entries := entries ?w, lru_head := lru_head ?w, lru_tail := lru_tail ?w\<rparr>
        = (s1\<lparr>entries := entries ?u, lru_head := lru_head ?u, lru_tail := lru_tail ?u\<rparr>)
            \<lparr>entries := (entries s)(e := None), free_blocks := fb, blocks_exist := be, blocks_free := bf, blockfile_size := m\<rparr>"
        by (simp add: freed_def detached_def)
      then show "?v\<lparr>entries := entries ?w, lru_head := lru_head ?w, lru_tail := lru_tail ?w\<rparr> = ?w"
        unfolding * by (simp add: freed_def detached_def)
    qed (simp_all add: freed_def)
    ultimately have "db_ok ?v hs (Some t)" by (rule db_ok_links [rotated])
    moreover have "lru_ok ?v (remove1 e xs)"
      by (rule lru_ok_gone [OF s1(2) c1(1) cc(1)]) (simp_all add: freed_def)
    moreover have "db_entry_handle_softdelete e k s = Some ?v" using True c1(1) cc(2) v(1) unfolding run s1(1) by simp
    moreover have "dbtables ?v t = Some (d\<lparr>cache_hash_set := Some (kh_del h k)\<rparr>)" "tables ?v = tables s"
      by (simp_all add: f1 detached_def freed_def)
    moreover have "same_env s ?v" by (simp add: same_env_def f1 detached_def freed_def)
    moreover have "others_kept e (Some t) s ?v" using kept by (simp add: others_kept_def freed_def)
    moreover have "entries ?v e = None" by (simp add: freed_def)
    ultimately show ?thesis using zero by auto
  qed
qed

section \<open>A new entry\<close>

lemma own_ref_unsettle:
  assumes "db_ok s hs None" "dbtables s t = Some d" "cache_hash_set d = Some h" "kh_lookup h \<noteq> Map.empty"
  shows "db_ok s hs (Some t)"
proof -
  have "own_ref (Some t) t' d' = own_ref None t' d'" if "dbtables s t' = Some d'" for t' d'
    using that assms(2-4) by (auto simp: own_ref_def)
  then show ?thesis using assms(1) by (simp add: db_ok_def refs_ok_def)
qed

lemma set_store_ok:
  assumes h: "dbtables s t = Some d" "cache_hash_set d = Some h" "kh_inv CAP h" "kh_size h < CAP"
  shows "\<exists>h'. set_store t hash e s = Some (s\<lparr>dbtables := (dbtables s)(t \<mapsto> d\<lparr>cache_hash_set := Some h'\<rparr>)\<rparr>)
    \<and> kh_inv CAP h' \<and> kh_lookup h' = (kh_lookup h)(hash \<mapsto> e)"
proof -
  have "CAP \<le> 2 ^ 28" by (simp add: CAP_def)
  from kh_store_cap [OF h(3) this h(4), of hash e] obtain h1 k r h2 where
    "kh_put h hash = Some (h1, k, r)" "kh_set_value h1 k e = Some h2" "kh_inv CAP h2" "kh_lookup h2 = (kh_lookup h)(hash \<mapsto> e)"
    by blast
  then show ?thesis using h(1,2) by (auto simp: set_store_def hash_set_of_def)
qed

text \<open>The state with a new entry \<open>c\<close> in the table \<open>t\<close>, whose hash set is now \<open>h'\<close> and whose references are \<open>r\<close>.\<close>

definition with_entry :: "db_state \<Rightarrow> tptr \<Rightarrow> db_table \<Rightarrow> 15 word \<Rightarrow> eptr kh \<Rightarrow> cache_entry \<Rightarrow> db_state" where
  "with_entry s t d r h' c = s\<lparr>next_ptr := next_ptr s + 1, entries := (entries s)(next_ptr s \<mapsto> c),
     dbtables := (dbtables s)(t \<mapsto> d\<lparr>tbl_refs := r, cache_hash_set := Some h'\<rparr>)\<rparr>"

lemma with_entry_ok:
  assumes ok: "db_ok s hs X" and n: "length hs + 1 < 2 ^ 14"
    and t: "dbtables s t = Some d" "cache_hash_set d = Some h"
    and X: "X = Some t \<or> X = None \<and> kh_lookup h = Map.empty"
    and r: "r = (if X = None then tbl_refs d + 1 else tbl_refs d)"
    and c: "ce_table c = Some t" "\<not> ce_deleted c" "ce_refs c = 1" "ce_block c = - 2"
    and a: "kh_lookup h (ce_hash c) = None"
    and h': "kh_inv CAP h'" "kh_lookup h' = (kh_lookup h)(ce_hash c \<mapsto> next_ptr s)"
  shows "db_ok (with_entry s t d r h' c) (BareH (next_ptr s) # hs) None"
proof -
  let ?e = "next_ptr s" and ?s = "with_entry s t d r h' c"
  have fresh: "entries s ?e = None" using ok by (simp add: db_ok_def fresh_ok_def)
  have nh: "entry_refs hs ?e = 0" using ok_refs(3) [OF ok, of ?e] fresh by auto
  have nd: "\<not> tbl_deleted d" "kh_inv CAP h" using ok_set(1) [OF ok t] by auto
  have es: "entries ?s x = (if x = ?e then Some c else entries s x)" for x by (simp add: with_entry_def)
  have ts: "dbtables ?s x = (if x = t then Some (d\<lparr>tbl_refs := r, cache_hash_set := Some h'\<rparr>) else dbtables s x)" for x
    by (simp add: with_entry_def)
  have tr: "table_refs ?s hs t' = table_refs s hs t'" for t'
    using no_handle [OF nh] by (intro table_refs_cong_on) (simp add: table_of_def es)
  have "tables_ok ?s"
    unfolding tables_ok_def
  proof (intro conjI allI impI)
    fix hash t' assume "kh_lookup (tables ?s) hash = Some t'"
    then obtain d' where "dbtables s t' = Some d'" "tbl_hash d' = hash" "\<not> tbl_deleted d'"
      using ok_tables(2) [OF ok, of hash t'] by (auto simp: with_entry_def)
    then show "\<exists>d. dbtables ?s t' = Some d \<and> tbl_hash d = hash \<and> \<not> tbl_deleted d" using t(1) by (auto simp: ts)
  qed (use ok_tables(1) [OF ok] in \<open>simp add: with_entry_def\<close>)
  moreover have "sets_ok ?s"
  proof (rule sets_okI)
    fix t' d' g hash x assume q: "dbtables ?s t' = Some d'" "cache_hash_set d' = Some g" "kh_lookup g hash = Some x"
    show "\<exists>c. entries ?s x = Some c \<and> ce_hash c = hash \<and> ce_table c = Some t' \<and> \<not> ce_deleted c"
    proof (cases "t' = t \<and> hash = ce_hash c")
      case True
      with q h'(2) c t show ?thesis by (auto simp: ts es)
    next
      case False
      with q h'(2) t obtain d0 g0 where "dbtables s t' = Some d0" "cache_hash_set d0 = Some g0" "kh_lookup g0 hash = Some x"
        by (cases "t' = t") (auto simp: ts)
      from ok_set(2) [OF ok this] fresh show ?thesis by (cases "x = ?e") (auto simp: es)
    qed
  qed (use ok_set_None [OF ok] ok_set(1) [OF ok] nd h'(1) in \<open>auto simp: ts split: if_splits\<close>)
  moreover have "live_ok ?s"
    unfolding live_ok_def
  proof (intro allI impI)
    fix x cx assume q: "entries ?s x = Some cx \<and> \<not> ce_deleted cx"
    show "\<exists>t d h. ce_table cx = Some t \<and> dbtables ?s t = Some d \<and> cache_hash_set d = Some h \<and> kh_lookup h (ce_hash cx) = Some x"
    proof (cases "x = ?e")
      case True
      with q have "cx = c" by (simp add: es)
      with True c h'(2) show ?thesis by (simp add: ts)
    next
      case False
      with q have "entries s x = Some cx" "\<not> ce_deleted cx" by (auto simp: es)
      from ok_live [OF ok this] obtain t' d' g where g: "ce_table cx = Some t'" "dbtables s t' = Some d'"
        "cache_hash_set d' = Some g" "kh_lookup g (ce_hash cx) = Some x" by blast
      show ?thesis
      proof (cases "t' = t")
        case True
        with g t have "g = h" by simp
        with g(4) a have "kh_lookup h' (ce_hash cx) = Some x" by (auto simp: h'(2))
        with g(1) True show ?thesis by (simp add: ts)
      qed (use g in \<open>simp add: ts\<close>)
    qed
  qed
  moreover have "refs_ok ?s (BareH ?e # hs) None"
  proof -
    have own: "own_ref X t d = (if X = None then 0 else 1)" using X t by (auto simp: own_ref_def)
    have u: "unat (tbl_refs d) = own_ref X t d + table_refs s hs t" using ok_refs(6) [OF ok t(1) nd(1)] .
    have "table_refs s hs t \<le> length hs" by (simp add: table_refs_def)
    then have "unat r = Suc (table_refs s hs t)"
      using u own n by (auto simp: r unat_word_ariths split: if_splits)
    moreover have "own_ref None t' d' = own_ref X t' d'" if "t' \<noteq> t" for t' d' using that X by (auto simp: own_ref_def)
    moreover have "own_ref None t (d\<lparr>tbl_refs := r, cache_hash_set := Some h'\<rparr>) = 1" by (simp add: own_ref_def h'(2))
    ultimately show ?thesis
      using ok_refs [OF ok] nh nd(1) c(2,3) fresh t(1) unfolding refs_ok_def
      by (auto simp: es ts tr)
  qed
  moreover have "blocks_ok ?s"
  proof -
    have old: "entries s x = Some cx" if "entries ?s x = Some cx" "0 \<le> ce_block cx" for x cx
      using that c(4) by (auto simp: es split: if_splits)
    have sub: "entries ?s x = Some cx" if "entries s x = Some cx" for x cx
      using that fresh by (cases "x = ?e") (simp_all add: es)
    have o: "owned_blocks ?s = owned_blocks s" unfolding owned_blocks_def using sub old by blast
    have "blocks_inv ?s (owned_blocks s)" using ok_blocks(1) [OF ok] by (simp add: blocks_inv_def with_entry_def)
    moreover have "\<not> IS_SINGLE_FILE cx" if "entries ?s x = Some cx" "0 \<le> ce_block cx" for x cx
      by (rule ok_blocks(2) [OF ok old [OF that] that(2)])
    moreover have "x = y" if b: "entries ?s x = Some cx" "entries ?s y = Some cy" "0 \<le> ce_block cx" "ce_block cx = ce_block cy" for x cx y cy
    proof -
      have "0 \<le> ce_block cy" using b(3,4) by simp
      with old b show ?thesis by (intro ok_blocks(3) [OF ok _ _ b(3,4)])
    qed
    ultimately show ?thesis unfolding blocks_ok_def o by (intro conjI allI impI) blast+
  qed
  moreover have "fresh_ok ?s"
    using ok t(1) unfolding db_ok_def fresh_ok_def es ts by (auto simp: with_entry_def)
  ultimately show ?thesis using n by (simp add: db_ok_def)
qed

lemma write_new_ok:
  assumes ok: "db_ok s hs X" and l: "lru_ok s xs" and n: "length hs + 1 < 2 ^ 14"
    and t: "dbtables s t = Some d" "cache_hash_set d = Some h" "kh_size h < CAP"
    and X: "X = Some t \<or> X = None \<and> kh_lookup h = Map.empty" and a: "kh_lookup h (hash_string key) = None"
  shows "\<exists>s' c. db_entry_write_new t key (X = None) s = Some (next_ptr s, s') \<and> db_ok s' (BareH (next_ptr s) # hs) None
    \<and> lru_ok s' xs \<and> others_kept (next_ptr s) (Some t) s s' \<and> stored s' t = (kh_lookup h)(hash_string key \<mapsto> next_ptr s)
    \<and> entries s' (next_ptr s) = Some c \<and> ce_key c = key \<and> ce_key_length c = bits14 (length key) \<and> ce_writing c
    \<and> \<not> ce_deleted c \<and> ce_table c = Some t \<and> ce_expires c = 0 \<and> ce_block c = - 2 \<and> next_ptr s' = next_ptr s + 1 \<and> max_size s' = max_size s \<and> now_sec s' = now_sec s
    \<and> tables s' = tables s \<and> db_stats_inserts s' = db_stats_inserts s"
proof -
  have fresh: "entries s (next_ptr s) = None" using ok by (simp add: db_ok_def fresh_ok_def)
  have inv: "kh_inv CAP h" using ok_set(1) [OF ok t(1,2)] by simp
  define c where "c = \<lparr>ce_table = Some t, ce_hash = hash_string key, ce_key = key, ce_key_length = bits14 (length key),
     ce_writing = True, ce_deleted = False, ce_refs = 1, ce_data_length = 0, ce_block = - 2, ce_expires = 0,
     ce_lru_next = None, ce_lru_prev = None, ce_it = nextit s\<rparr>"
  define r where "r = (if X = None then tbl_refs d + 1 else tbl_refs d)"
  have CAP: "CAP \<le> 2 ^ 28" by (simp add: CAP_def)
  from kh_store_cap [OF inv CAP t(3), of "hash_string key" "next_ptr s"] obtain h1 k q h' where
    h': "kh_put h (hash_string key) = Some (h1, k, q)" "kh_set_value h1 k (next_ptr s) = Some h'" "kh_inv CAP h'"
      "kh_lookup h' = (kh_lookup h)(hash_string key \<mapsto> next_ptr s)" by blast
  let ?s = "(with_entry s t d r h' c)\<lparr>nextit := nextit s + 1\<rparr>"
  have run: "db_entry_write_new t key (X = None) s = Some (next_ptr s, ?s)"
  proof -
    note defs = db_entry_write_new_def db_entry_new_def db_table_incref_def set_store_def hash_set_of_def
      db_entry_incref_def with_entry_def c_def r_def Let_def
    consider "X = None" | "X = Some t" using X by blast
    then show ?thesis by cases (use t(1,2) h'(1,2) in \<open>simp_all add: defs\<close>)
  qed
  have "db_ok (with_entry s t d r h' c) (BareH (next_ptr s) # hs) None"
    by (rule with_entry_ok [OF ok n t(1,2) X r_def]) (use a h'(3,4) in \<open>simp_all add: c_def\<close>)
  then have "db_ok ?s (BareH (next_ptr s) # hs) None" using db_ok_cong [of ?s] by simp
  moreover have "lru_ok ?s xs"
  proof -
    have "next_ptr s \<notin> set xs" using l fresh by (auto simp: lru_ok_def idle_entries_def)
    then have "lru_inv ?s xs = lru_inv s xs" by (intro lru_inv_cong) (auto simp: with_entry_def)
    moreover have "idle_entries ?s = idle_entries s"
      using fresh by (auto simp: idle_entries_def with_entry_def c_def)
    ultimately show ?thesis using l by (simp add: lru_ok_def)
  qed
  moreover have "others_kept (next_ptr s) (Some t) s ?s" by (simp add: others_kept_def with_entry_def)
  moreover have "stored ?s t = (kh_lookup h)(hash_string key \<mapsto> next_ptr s)"
    by (rule ext) (simp add: stored_def hash_set_of_def with_entry_def h'(4))
  moreover have "entries ?s (next_ptr s) = Some c" by (simp add: with_entry_def)
  ultimately show ?thesis using run by (auto simp: c_def with_entry_def)
qed

text \<open>What a request to write \<open>key\<close> gets: nothing while another connection writes it.\<close>

definition being_written :: "db_state \<Rightarrow> tptr \<Rightarrow> string \<Rightarrow> bool" where
  "being_written s t key \<longleftrightarrow> (\<exists>e c. stored s t (hash_string key) = Some e \<and> entries s e = Some c \<and> ce_writing c)"

definition write_post :: "db_state \<Rightarrow> handle list \<Rightarrow> eptr list \<Rightarrow> tptr \<Rightarrow> string \<Rightarrow> db_state \<Rightarrow> bool" where
  "write_post s hs xs t key s' \<longleftrightarrow> (let e = next_ptr s in
     db_ok s' (BareH e # hs) None
     \<and> stored s' t = (stored s t)(hash_string key \<mapsto> e)
     \<and> (\<exists>c. entries s' e = Some c \<and> ce_key c = key \<and> ce_key_length c = bits14 (length key) \<and> ce_writing c
          \<and> \<not> ce_deleted c \<and> ce_table c = Some t \<and> ce_expires c = 0 \<and> ce_block c = - 2)
     \<and> next_ptr s' = next_ptr s + 1
     \<and> (\<forall>x. x \<noteq> e \<and> stored s t (hash_string key) \<noteq> Some x \<longrightarrow> map_option core (entries s' x) = map_option core (entries s x))
     \<and> (\<forall>t'. t' \<noteq> t \<longrightarrow> dbtables s' t' = dbtables s t')
     \<and> (case stored s t (hash_string key) of None \<Rightarrow> lru_ok s' xs
        | Some x \<Rightarrow> lru_ok s' (remove1 x xs) \<and> (case entries s' x of None \<Rightarrow> entry_refs hs x = 0 | Some c \<Rightarrow> ce_deleted c)))"

text \<open>\<open>db_entry_get_write\<close> without the garbage collection that follows every fiftieth insertion.\<close>

definition get_write_entry :: "tptr \<Rightarrow> string \<Rightarrow> db_state \<Rightarrow> (eptr option \<times> db_state) option" where
  "get_write_entry t key s = do {
     (k, entry) \<leftarrow> find_entry t (hash_string key) s;
     let s = s\<lparr>db_stats_inserts := db_stats_inserts s + 1, db_stats_operations := db_stats_operations s + 1\<rparr>;
     h \<leftarrow> hash_set_of t s;
     let is_first_in_table = (kh_size h = 0);
     writing \<leftarrow> (case entry of None \<Rightarrow> Some False | Some e \<Rightarrow> do { c \<leftarrow> entries s e; Some (ce_writing c) });
     if writing then Some (None, s)
     else do {
       s \<leftarrow> (case entry of
           Some e \<Rightarrow> db_entry_handle_softdelete e k s
         | None \<Rightarrow> Some (s\<lparr>db_keys := db_keys s + 1\<rparr>));
       (e, s) \<leftarrow> db_entry_write_new t key is_first_in_table s;
       Some (Some e, s)
     }
   }"

lemma get_write_split:
  "db_entry_get_write env t key s = do {
     (r, s) \<leftarrow> get_write_entry t key s;
     if r \<noteq> None \<and> db_stats_inserts s mod of_nat DB_LRU_EVERY = 0 then do { s \<leftarrow> db_lru_gc env s; Some (r, s) } else Some (r, s) }"
  unfolding db_entry_get_write_def get_write_entry_def Let_def
  by (auto split: Option.bind_splits option.splits prod.splits)

lemma find_entry_live:
  assumes ok: "db_ok s hs X" and t: "dbtables s t = Some d" "cache_hash_set d = Some h" and e: "stored s t hash = Some e"
  shows "\<exists>k. find_entry t hash s = Some (k, Some e) \<and> kh_inv CAP (kh_del h k) \<and> kh_lookup (kh_del h k) = (kh_lookup h)(hash := None)
    \<and> kh_size h \<noteq> 0 \<and> kh_size (kh_del h k) \<le> kh_size h"
proof -
  have inv: "kh_inv CAP h" using ok_set(1) [OF ok t] by blast
  have l: "kh_lookup h hash = Some e" using e t by (simp add: stored_def hash_set_of_def)
  from kh_get_live [OF inv l] obtain k where k: "kh_get h hash = Some k" "k < n_buckets h" "k \<in> kh_live h"
    "keys h ! k = hash" "kh_value h k = Some e" "kh_shape h" "kh_counts h" by metis
  have "find_entry t hash s = Some (k, Some e)" using t k by (simp add: find_entry_def hash_set_of_def)
  moreover have "kh_size h \<noteq> 0" using kh_size_zero [OF inv] l by auto
  moreover have "kh_size (kh_del h k) \<le> kh_size h" by (simp add: kh_del_def)
  ultimately show ?thesis using kh_del_inv(1,2) [OF inv k(3,6,7)] k(4) by blast
qed

lemma get_write_entry_ok:
  assumes ok: "db_ok s hs None" and l: "lru_ok s xs" and n: "length hs + 1 < 2 ^ 14"
    and h: "hash_set_of t s = Some h" "kh_size h < CAP"
  shows "\<exists>s'. get_write_entry t key s = Some (if being_written s t key then None else Some (next_ptr s), s')
    \<and> (if being_written s t key then db_ok s' hs None \<and> lru_ok s' xs \<and> entries s' = entries s \<and> dbtables s' = dbtables s
       else write_post s hs xs t key s') \<and> max_size s' = max_size s \<and> now_sec s' = now_sec s"
proof -
  from h(1) obtain d where d: "dbtables s t = Some d" "cache_hash_set d = Some h"
    by (auto simp: hash_set_of_def bind_Some_iff)
  have inv: "kh_inv CAP h" using ok_set(1) [OF ok d] by blast
  have st: "stored s t = kh_lookup h" using h(1) by (intro ext) (simp add: stored_def)
  let ?i = "\<lambda>s. s\<lparr>db_stats_inserts := db_stats_inserts s + 1, db_stats_operations := db_stats_operations s + 1\<rparr>"
  show ?thesis
  proof (cases "stored s t (hash_string key)")
    case None
    with find_entry_stored [OF ok h(1), of "hash_string key"] obtain k where
      k: "find_entry t (hash_string key) s = Some (k, None)" by auto
    let ?s = "(?i s)\<lparr>db_keys := db_keys s + 1\<rparr>"
    define X where "X = (if kh_lookup h = Map.empty then None else Some t)"
    have X: "X = Some t \<or> X = None \<and> kh_lookup h = Map.empty" "kh_size h = 0 \<longleftrightarrow> X = None"
      using kh_size_zero [OF inv] by (auto simp: X_def)
    have okX: "db_ok ?s hs X" "lru_ok ?s xs"
      using own_ref_unsettle [OF ok d] ok l by (simp_all add: X_def)
    have nb: "\<not> being_written s t key" using None by (simp add: being_written_def)
    from write_new_ok [OF okX n, of t d h key] X d h(2) None obtain s' c where
      w: "db_entry_write_new t key (X = None) ?s = Some (next_ptr s, s')" "db_ok s' (BareH (next_ptr s) # hs) None"
      "lru_ok s' xs" "others_kept (next_ptr s) (Some t) ?s s'" "stored s' t = (kh_lookup h)(hash_string key \<mapsto> next_ptr s)"
      "entries s' (next_ptr s) = Some c" "ce_key c = key" "ce_key_length c = bits14 (length key)" "ce_writing c"
      "\<not> ce_deleted c" "ce_table c = Some t" "ce_expires c = 0" "max_size s' = max_size s" "now_sec s' = now_sec s"
      "ce_block c = - 2" "next_ptr s' = next_ptr s + 1"
      by (auto simp: st)
    have "get_write_entry t key s = Some (Some (next_ptr s), s')"
      using k d X(2) w(1) by (simp add: get_write_entry_def hash_set_of_def)
    then show ?thesis using nb w None by (auto simp: write_post_def Let_def others_kept_def st)
  next
    case (Some e)
    from stored_entry [OF ok Some] obtain c where c: "entries s e = Some c" "ce_hash c = hash_string key"
      "ce_table c = Some t" "\<not> ce_deleted c" by blast
    from find_entry_live [OF ok d Some] obtain k where
      k: "find_entry t (hash_string key) s = Some (k, Some e)" "kh_inv CAP (kh_del h k)"
      "kh_lookup (kh_del h k) = (kh_lookup h)(ce_hash c := None)" "kh_size h \<noteq> 0" "kh_size (kh_del h k) \<le> kh_size h"
      unfolding c(2) by blast
    show ?thesis
    proof (cases "ce_writing c")
      case True
      then have "being_written s t key" using Some c(1) by (simp add: being_written_def)
      moreover have "get_write_entry t key s = Some (None, ?i s)"
        using k(1) d c(1) True by (simp add: get_write_entry_def hash_set_of_def)
      ultimately show ?thesis using ok l by simp
    next
      case False
      then have nb: "\<not> being_written s t key" using Some c(1) by (simp add: being_written_def)
      have ok1: "db_ok (?i s) hs None" "lru_ok (?i s) xs" using ok l by simp_all
      have e1: "entries (?i s) e = Some c" "dbtables (?i s) t = Some d" using c(1) d by simp_all
      from softdelete_ok [OF ok1 n e1(1) c(4,3) e1(2) d(2) k(2,3)] obtain s2 where
        s2: "db_entry_handle_softdelete e k (?i s) = Some s2" "db_ok s2 hs (Some t)" "lru_ok s2 (remove1 e xs)"
        "dbtables s2 t = Some (d\<lparr>cache_hash_set := Some (kh_del h k)\<rparr>)" "others_kept e (Some t) (?i s) s2"
        "same_env (?i s) s2"
        "case entries s2 e of None \<Rightarrow> entry_refs hs e = 0 | Some c' \<Rightarrow> ce_deleted c' \<and> 0 < entry_refs hs e"
        by (elim exE conjE) (rule that; assumption)
      have a: "kh_lookup (kh_del h k) (hash_string key) = None" by (simp add: k(3) c(2))
      have sz: "kh_size (kh_del h k) < CAP" using k(5) h(2) by simp
      from write_new_ok [OF s2(2,3) n s2(4) _ sz _ a] obtain s' c' where
        w: "db_entry_write_new t key False s2 = Some (next_ptr s2, s')" "db_ok s' (BareH (next_ptr s2) # hs) None"
        "lru_ok s' (remove1 e xs)" "others_kept (next_ptr s2) (Some t) s2 s'"
        "stored s' t = (kh_lookup (kh_del h k))(hash_string key \<mapsto> next_ptr s2)"
        "entries s' (next_ptr s2) = Some c'" "ce_key c' = key" "ce_key_length c' = bits14 (length key)" "ce_writing c'"
        "\<not> ce_deleted c'" "ce_table c' = Some t" "ce_expires c' = 0" "max_size s' = max_size s2" "now_sec s' = now_sec s2"
        "ce_block c' = - 2" "next_ptr s' = next_ptr s2 + 1"
        by auto
      have np: "next_ptr s2 = next_ptr s" using s2(6) by (simp add: same_env_def)
      have "get_write_entry t key s = Some (Some (next_ptr s), s')"
        using k(1,4) d c(1) False s2(1) w(1) np by (simp add: get_write_entry_def hash_set_of_def)
      moreover have "write_post s hs xs t key s'"
      proof -
        have old: "e \<noteq> next_ptr s" using c(1) ok by (auto simp: db_ok_def fresh_ok_def)
        have k2: "map_option core (entries s' x) = map_option core (entries s x)" if "x \<noteq> next_ptr s" "x \<noteq> e" for x
          using that w(4) s2(5) np by (simp add: others_kept_def)
        have t2: "dbtables s' t' = dbtables s t'" if "t' \<noteq> t" for t' using that w(4) s2(5) by (simp add: others_kept_def)
        have "map_option core (entries s' e) = map_option core (entries s2 e)" using old w(4) np by (simp add: others_kept_def)
        then have "case entries s' e of None \<Rightarrow> entry_refs hs e = 0 | Some c \<Rightarrow> ce_deleted c"
          using s2(7) by (cases "entries s' e"; cases "entries s2 e") (auto dest: core_eqD)
        moreover have "stored s' t = (stored s t)(hash_string key \<mapsto> next_ptr s)" by (simp add: w(5) st k(3) c(2) np)
        ultimately show ?thesis using w(2,3,6-12,15,16) k2 t2 Some unfolding np by (auto simp: write_post_def Let_def)
      qed
      moreover have "max_size s' = max_size s" "now_sec s' = now_sec s" using w(13,14) s2(6) by (simp_all add: same_env_def)
      ultimately show ?thesis using nb by simp
    qed
  qed
qed

end
