(* ===== verification/DbEvict.thy ===== *)
theory DbEvict
  imports DbWrite
begin

text \<open>
  References that count for the table of an entry, and what rests on them: the expiry of entries and the eviction of
  the least recently used ones.
\<close>

section \<open>References to tables\<close>

lemma own_ref_refs [simp]: "own_ref X t (d\<lparr>tbl_refs := r\<rparr>) = own_ref X t d"
  by (simp add: own_ref_def)

text \<open>A table of which only the number of references changes, with the handles.\<close>

lemma upd_table_ok:
  assumes ok: "db_ok s hs X" and t: "dbtables s t = Some d"
    and h: "\<And>e. entry_refs hs' e = entry_refs hs e" "\<And>t'. t' \<noteq> t \<Longrightarrow> table_refs s hs' t' = table_refs s hs t'"
    and r: "if tbl_deleted d then own_ref X t d + table_refs s hs' t \<le> unat r \<and> 0 < unat r
      else unat r = own_ref X t d + table_refs s hs' t"
    and n: "length hs' < 2 ^ 14"
  shows "db_ok (s\<lparr>dbtables := (dbtables s)(t \<mapsto> d\<lparr>tbl_refs := r\<rparr>)\<rparr>) hs' X"
proof -
  let ?s = "s\<lparr>dbtables := (dbtables s)(t \<mapsto> d\<lparr>tbl_refs := r\<rparr>)\<rparr>"
  have tr: "table_refs ?s hs' x = table_refs s hs' x" for x by (rule table_refs_cong) (simp add: table_of_def)
  have ts: "dbtables ?s x = (if x = t then Some (d\<lparr>tbl_refs := r\<rparr>) else dbtables s x)" for x by simp
  have orig: "\<exists>d0. dbtables s x = Some d0 \<and> cache_hash_set d' = cache_hash_set d0 \<and> tbl_deleted d' = tbl_deleted d0"
    if "dbtables ?s x = Some d'" for x d' using that t by (auto simp: ts split: if_splits)
  have "tables_ok ?s"
    unfolding tables_ok_def
  proof (intro conjI allI impI)
    fix hash x assume "kh_lookup (tables ?s) hash = Some x"
    then obtain d' where "dbtables s x = Some d'" "tbl_hash d' = hash" "\<not> tbl_deleted d'"
      using ok_tables(2) [OF ok, of hash x] by auto
    then show "\<exists>d. dbtables ?s x = Some d \<and> tbl_hash d = hash \<and> \<not> tbl_deleted d" using t by (cases "x = t") auto
  qed (use ok_tables(1) [OF ok] in simp)
  moreover have "sets_ok ?s"
  proof (rule sets_okI)
    fix x d' assume a: "dbtables ?s x = Some d'" "cache_hash_set d' = None"
    with orig [OF a(1)] ok_set_None [OF ok] show "tbl_deleted d'" by metis
  next
    fix x d' g assume a: "dbtables ?s x = Some d'" "cache_hash_set d' = Some g"
    with orig [OF a(1)] ok_set(1) [OF ok] show "\<not> tbl_deleted d' \<and> kh_inv CAP g" by metis
  next
    fix x d' g hash y assume a: "dbtables ?s x = Some d'" "cache_hash_set d' = Some g" "kh_lookup g hash = Some y"
    from orig [OF a(1)] obtain d0 where "dbtables s x = Some d0" "cache_hash_set d0 = Some g" using a(2) by metis
    from ok_set(2) [OF ok this a(3)]
    show "\<exists>c. entries ?s y = Some c \<and> ce_hash c = hash \<and> ce_table c = Some x \<and> \<not> ce_deleted c" by simp
  qed
  moreover have "live_ok ?s"
    unfolding live_ok_def
  proof (intro allI impI)
    fix x cx assume "entries ?s x = Some cx \<and> \<not> ce_deleted cx"
    then have "entries s x = Some cx" "\<not> ce_deleted cx" by simp_all
    from ok_live [OF ok this] obtain t' d' g where "ce_table cx = Some t'" "dbtables s t' = Some d'"
      "cache_hash_set d' = Some g" "kh_lookup g (ce_hash cx) = Some x" by blast
    then show "\<exists>t d h. ce_table cx = Some t \<and> dbtables ?s t = Some d \<and> cache_hash_set d = Some h \<and> kh_lookup h (ce_hash cx) = Some x"
      using t by (cases "t' = t") auto
  qed
  moreover have "refs_ok ?s hs' X"
    unfolding refs_ok_def tr h(1)
  proof (intro conjI allI impI)
    fix x d' assume a: "dbtables ?s x = Some d'"
    show "if tbl_deleted d' then own_ref X x d' + table_refs s hs' x \<le> unat (tbl_refs d') \<and> 0 < unat (tbl_refs d')
       else unat (tbl_refs d') = own_ref X x d' + table_refs s hs' x"
    proof (cases "x = t")
      case True
      with a r show ?thesis by auto
    next
      case False
      with a have "dbtables s x = Some d'" by simp
      from ok_refs(4-6) [OF ok this] h(2) [OF False] show ?thesis by auto
    qed
  next
    fix x assume "0 < table_refs s hs' x"
    then show "dbtables ?s x \<noteq> None" using ok_refs(7) [OF ok, of x] h(2) [of x] by (cases "x = t") auto
  qed (use ok_refs(1-3) [OF ok] in auto)
  moreover have "blocks_ok ?s"
    by (rule blocks_ok_same [OF ok]) (simp_all add: owned_blocks_def)
  moreover have "fresh_ok ?s" using ok t by (auto simp: db_ok_def fresh_ok_def)
  ultimately show ?thesis using n by (simp add: db_ok_def)
qed

lemma incref_tab_ok:
  assumes ok: "db_ok s hs None" and l: "lru_ok s xs" and n: "length hs + 1 < 2 ^ 14"
    and e: "entries s e = Some c" "\<not> ce_deleted c" "ce_table c = Some t"
  shows "\<exists>s'. db_entry_incref e True s = Some s' \<and> db_ok s' (EntryH e # hs) None \<and> lru_ok s' xs
    \<and> entries s' = (entries s)(e \<mapsto> c\<lparr>ce_refs := ce_refs c + 1\<rparr>) \<and> (\<forall>x. hash_set_of x s' = hash_set_of x s)
    \<and> (\<forall>x. x \<noteq> t \<longrightarrow> dbtables s' x = dbtables s x) \<and> tables s' = tables s \<and> same_env s s'"
proof -
  let ?c = "c\<lparr>ce_refs := ce_refs c + 1\<rparr>"
  let ?s = "s\<lparr>entries := (entries s)(e \<mapsto> ?c)\<rparr>"
  note i = incref_ok [OF ok e(1) n]
  from ok_live [OF ok e(1,2)] e(3) obtain d h where d: "dbtables s t = Some d" "cache_hash_set d = Some h" "\<not> tbl_deleted d"
    by auto
  let ?v = "?s\<lparr>dbtables := (dbtables ?s)(t \<mapsto> d\<lparr>tbl_refs := tbl_refs d + 1\<rparr>)\<rparr>"
  have run: "db_entry_incref e True s = Some ?v"
    using e d by (simp add: db_entry_incref_def db_table_incref_def)
  have "table_refs ?s hs t \<le> length hs" by (simp add: table_refs_def)
  moreover have dt: "dbtables ?s t = Some d" using d(1) by simp
  from ok_refs(6) [OF i(2) this d(3)] have u: "unat (tbl_refs d) = own_ref None t d + table_refs ?s hs t" by simp
  moreover have "own_ref None t d \<le> 1" by (simp add: own_ref_def split: option.split)
  ultimately have r: "unat (tbl_refs d + 1) = own_ref None t d + table_refs ?s (EntryH e # hs) t"
    using n e(3) by (simp add: unat_word_ariths table_of_def)
  have "db_ok ?v (EntryH e # hs) None"
    by (rule upd_table_ok [OF i(2) dt]) (use r d(3) e(3) n in \<open>auto simp: table_of_def\<close>)
  moreover have "lru_ok ?v xs" using i(3) [OF l] by simp
  ultimately show ?thesis using run d by (auto simp: hash_set_of_def same_env_def)
qed

text \<open>A deleted table that nothing refers to any more goes; the map of tables may lose an entry with it.\<close>

lemma table_gone_ok:
  assumes ok: "db_ok s hs None" and t: "dbtables s t = Some d" "tbl_deleted d" "table_refs s hs' t = 0"
    and h: "\<And>e. entry_refs hs' e = entry_refs hs e" "\<And>t'. t' \<noteq> t \<Longrightarrow> table_refs s hs' t' = table_refs s hs t'"
    and n: "length hs' < 2 ^ 14"
    and s': "entries s' = entries s" "dbtables s' = (dbtables s)(t := None)" "next_ptr s' = next_ptr s"
      "free_blocks s' = free_blocks s" "blocks_exist s' = blocks_exist s" "blocks_free s' = blocks_free s"
    and T: "kh_inv CAP (tables s')" "\<And>hash x. kh_lookup (tables s') hash = Some x \<Longrightarrow> kh_lookup (tables s) hash = Some x"
  shows "db_ok s' hs' None"
proof -
  have tr: "table_refs s' hs' x = table_refs s hs' x" for x by (rule table_refs_cong) (simp add: table_of_def s'(1))
  have none: "cache_hash_set d = None" using ok_set_iff [OF ok t(1)] t(2) by simp
  have "tables_ok s'"
    unfolding tables_ok_def
  proof (intro conjI allI impI)
    fix hash x assume "kh_lookup (tables s') hash = Some x"
    from ok_tables(2) [OF ok T(2) [OF this]] obtain d' where "dbtables s x = Some d'" "tbl_hash d' = hash" "\<not> tbl_deleted d'"
      by blast
    moreover from this t(1,2) have "x \<noteq> t" by auto
    ultimately show "\<exists>d. dbtables s' x = Some d \<and> tbl_hash d = hash \<and> \<not> tbl_deleted d" by (simp add: s'(2))
  qed (fact T(1))
  moreover have "sets_ok s'"
    by (rule sets_okI) (use ok_set_None [OF ok] ok_set [OF ok] in \<open>auto simp: s'(1,2) split: if_splits\<close>)
  moreover have "live_ok s'"
    unfolding live_ok_def s'(1)
  proof (intro allI impI, elim conjE)
    fix x cx assume "entries s x = Some cx" "\<not> ce_deleted cx"
    from ok_live [OF ok this] obtain t' d' g where g: "ce_table cx = Some t'" "dbtables s t' = Some d'"
      "cache_hash_set d' = Some g" "kh_lookup g (ce_hash cx) = Some x" by blast
    moreover from this none t(1) have "t' \<noteq> t" by auto
    ultimately show "\<exists>t d h. ce_table cx = Some t \<and> dbtables s' t = Some d \<and> cache_hash_set d = Some h \<and> kh_lookup h (ce_hash cx) = Some x"
      by (simp add: s'(2))
  qed
  moreover have "refs_ok s' hs' None"
    unfolding refs_ok_def tr h(1) s'(1)
  proof (intro conjI allI impI)
    fix x d' assume "dbtables s' x = Some d'"
    then have x: "x \<noteq> t" "dbtables s x = Some d'" by (auto simp: s'(2) split: if_splits)
    from ok_refs(4-6) [OF ok x(2)] h(2) [OF x(1)]
    show "if tbl_deleted d' then own_ref None x d' + table_refs s hs' x \<le> unat (tbl_refs d') \<and> 0 < unat (tbl_refs d')
       else unat (tbl_refs d') = own_ref None x d' + table_refs s hs' x" by auto
  next
    fix x assume "0 < table_refs s hs' x"
    with t(3) have "x \<noteq> t" by auto
    with \<open>0 < table_refs s hs' x\<close> ok_refs(7) [OF ok, of x] h(2) [of x] show "dbtables s' x \<noteq> None" by (auto simp: s'(2))
  qed (use ok_refs(1-3) [OF ok] in auto)
  moreover have "blocks_ok s'"
    by (rule blocks_ok_same [OF ok]) (simp_all add: owned_blocks_def s')
  moreover have "fresh_ok s'" using ok by (auto simp: db_ok_def fresh_ok_def s')
  ultimately show ?thesis using n by (simp add: db_ok_def)
qed

definition same_sets :: "tptr \<Rightarrow> db_state \<Rightarrow> db_state \<Rightarrow> bool" where
  "same_sets t s s' \<longleftrightarrow> (\<forall>x. hash_set_of x s' = hash_set_of x s) \<and> (\<forall>x. x \<noteq> t \<longrightarrow> dbtables s' x = dbtables s x) \<and> same_env s s'"

lemma table_deref_ok:
  assumes ok: "db_ok s hs None" and t: "dbtables s t = Some d"
    and h: "\<And>e. entry_refs hs' e = entry_refs hs e" "\<And>t'. t' \<noteq> t \<Longrightarrow> table_refs s hs' t' = table_refs s hs t'"
      "Suc (table_refs s hs' t) = table_refs s hs t"
    and n: "length hs' < 2 ^ 14"
  shows "\<exists>s'. db_table_deref t False s = Some s' \<and> db_ok s' hs' None \<and> entries s' = entries s
    \<and> (lru_ok s xs \<longrightarrow> lru_ok s' xs) \<and> same_sets t s s'"
proof -
  let ?v = "s\<lparr>dbtables := (dbtables s)(t \<mapsto> d\<lparr>tbl_refs := tbl_refs d - 1\<rparr>)\<rparr>"
  have r1: "if tbl_deleted d then own_ref None t d + table_refs s hs t \<le> unat (tbl_refs d)
      else unat (tbl_refs d) = own_ref None t d + table_refs s hs t"
    using ok_refs(4,6) [OF ok t] by auto
  have "tbl_refs d \<noteq> 0" using r1 h(3) by (auto split: if_splits)
  then have r: "unat (tbl_refs d - 1) = unat (tbl_refs d) - 1" by (rule unat_minus_one)
  show ?thesis
  proof (cases "tbl_refs d - 1 = 0 \<and> tbl_deleted d")
    case False
    then have run: "db_table_deref t False s = Some ?v" using t by (auto simp: db_table_deref_def)
    have nz: "tbl_deleted d \<Longrightarrow> 0 < unat (tbl_refs d - 1)" using False by (metis gr0I unat_eq_zero)
    have "db_ok ?v hs' None"
    proof (rule upd_table_ok [OF ok t h(1,2) _ n])
      show "if tbl_deleted d then own_ref None t d + table_refs s hs' t \<le> unat (tbl_refs d - 1) \<and> 0 < unat (tbl_refs d - 1)
        else unat (tbl_refs d - 1) = own_ref None t d + table_refs s hs' t"
        using r1 h(3) nz r by (cases "tbl_deleted d") auto
    qed
    then show ?thesis using run t by (auto simp: same_sets_def same_env_def hash_set_of_def)
  next
    case True
    have z: "table_refs s hs' t = 0" using True r1 h(3) r by (auto split: if_splits)
    note T0 = ok_tables(1) [OF ok]
    obtain k where k: "kh_get (tables s) (tbl_hash d) = Some k"
      "kh_inv CAP (if k \<noteq> n_buckets (tables s) then kh_del (tables s) k else tables s)"
      "\<And>hash x. kh_lookup (if k \<noteq> n_buckets (tables s) then kh_del (tables s) k else tables s) hash = Some x \<Longrightarrow> kh_lookup (tables s) hash = Some x"
      "n_buckets (if k \<noteq> n_buckets (tables s) then kh_del (tables s) k else tables s) = n_buckets (tables s)"
    proof (cases "kh_lookup (tables s) (tbl_hash d)")
      case None
      with kh_get_absent [OF T0] T0 show thesis by (intro that) auto
    next
      case (Some v)
      from kh_get_live [OF T0 this] obtain k where k: "kh_get (tables s) (tbl_hash d) = Some k" "k < n_buckets (tables s)"
        "k \<in> kh_live (tables s)" "kh_shape (tables s)" "kh_counts (tables s)" by metis
      with kh_del_inv [OF T0 k(3-5)] show thesis by (intro that) (auto split: if_splits)
    qed
    let ?T = "if k \<noteq> n_buckets (tables s) then kh_del (tables s) k else tables s"
    let ?w = "s\<lparr>tables := ?T, dbtables := (dbtables s)(t := None)\<rparr>"
    have run: "db_table_deref t False s = Some ?w"
      using t True k(1) by (simp add: db_table_deref_def db_table_actually_delete_def free_table_def)
    have none: "cache_hash_set d = None" using ok_set_iff [OF ok t] True by simp
    have "db_ok ?w hs' None"
      by (rule table_gone_ok [OF ok t _ z h(1,2) n]) (use True k(2,3) in simp_all)
    moreover have "lru_ok ?w xs = lru_ok s xs" by (simp add: lru_ok_def lru_inv_def idle_entries_def)
    moreover have "same_sets t s ?w" using t none k(4) by (auto simp: same_sets_def same_env_def hash_set_of_def)
    ultimately show ?thesis using run by auto
  qed
qed

lemma table_deref_entries:
  "db_table_deref t b (s\<lparr>entries := E\<rparr>) = map_option (\<lambda>s. s\<lparr>entries := E\<rparr>) (db_table_deref t b s)"
  by (cases "dbtables s t")
     (auto simp: db_table_deref_def mod_table_def db_table_actually_delete_def free_table_def Let_def split: Option.bind_splits)

lemma deref_tab_split:
  assumes "entries s e = Some c" "ce_table c = Some t" "db_table_deref t False s = Some s1" "entries s1 = entries s"
  shows "db_entry_deref e True s = db_entry_deref e False s1"
  using assms by (simp add: db_entry_deref_def table_deref_entries)

lemma deref_tab_none:
  "entries s e = Some c \<Longrightarrow> ce_table c = None \<Longrightarrow> db_entry_deref e True s = db_entry_deref e False s"
  by (simp add: db_entry_deref_def)

lemma bare_handle:
  assumes ok: "db_ok s (EntryH e # hs) X" and t: "table_of s e = None"
  shows "db_ok s (BareH e # hs) X"
proof -
  have e: "entry_refs (EntryH e # hs) = entry_refs (BareH e # hs)" by (rule ext) simp
  have t: "table_refs s (EntryH e # hs) = table_refs s (BareH e # hs)" by (rule ext) (simp add: t)
  have "refs_ok s (EntryH e # hs) X = refs_ok s (BareH e # hs) X" unfolding refs_ok_def e t ..
  with ok show ?thesis by (simp add: db_ok_def)
qed

lemma deref_tab_ok:
  assumes ok: "db_ok s (EntryH e # hs) None" and e: "entries s e = Some c"
  shows "\<exists>s'. db_entry_deref e True s = Some s' \<and> db_ok s' hs None \<and> (lru_ok s xs \<longrightarrow> lru_ok s' xs)
    \<and> others_kept e (ce_table c) s s' \<and> (entries s' e = None \<longleftrightarrow> ce_deleted c \<and> entry_refs hs e = 0)
    \<and> (ce_deleted c \<longrightarrow> (\<forall>c'. entries s' e = Some c' \<longrightarrow> ce_deleted c')) \<and> (\<forall>x. hash_set_of x s' = hash_set_of x s) \<and> same_env s s'"
proof (cases "ce_table c")
  case None
  then have "table_of s e = None" using e by (simp add: table_of_def)
  from deref_ok [OF bare_handle [OF ok this] e, of xs] show ?thesis
    unfolding deref_tab_none [OF e None] None by (auto simp: others_kept_def hash_set_of_def)
next
  case (Some t)
  have te: "table_of s e = Some t" using e Some by (simp add: table_of_def)
  then have "0 < table_refs s (EntryH e # hs) t" by simp
  with ok_refs(7) [OF ok] obtain d where d: "dbtables s t = Some d" by blast
  from table_deref_ok [OF ok d, of "BareH e # hs" xs] te ok obtain s1 where s1: "db_table_deref t False s = Some s1"
    "db_ok s1 (BareH e # hs) None" "entries s1 = entries s" "lru_ok s xs \<longrightarrow> lru_ok s1 xs" "same_sets t s s1"
    by (auto simp: db_ok_def)
  have e1: "entries s1 e = Some c" using e s1(3) by simp
  from deref_ok [OF s1(2) e1, of xs] obtain s2 where s2: "db_entry_deref e False s1 = Some s2" "db_ok s2 hs None"
    "lru_ok s1 xs \<longrightarrow> lru_ok s2 xs" "others_kept e None s1 s2" "entries s2 e = None \<longleftrightarrow> ce_deleted c \<and> entry_refs hs e = 0"
    "ce_deleted c \<longrightarrow> (\<forall>c'. entries s2 e = Some c' \<longrightarrow> ce_deleted c')" "same_env s1 s2"
    by (elim exE conjE) (rule that; assumption)
  have "others_kept e (Some t) s s2"
    using s2(4) s1(3,5) by (auto simp: others_kept_def same_sets_def)
  moreover have "\<forall>x. hash_set_of x s2 = hash_set_of x s" using s1(5) s2(4) by (simp add: same_sets_def others_kept_def hash_set_of_def)
  moreover have "same_env s s2" using s1(5) s2(7) same_env_trans unfolding same_sets_def by blast
  ultimately show ?thesis using s1(4) s2 Some deref_tab_split [OF e Some s1(1,3)] by auto
qed

section \<open>An entry is dropped\<close>

text \<open>The common step of expiry and eviction: the entry \<open>e\<close> is deleted, with a reference of its own when nobody holds it.\<close>

definition drop_entry :: "eptr \<Rightarrow> cache_entry \<Rightarrow> db_state \<Rightarrow> (bool \<times> db_state) option" where
  "drop_entry e c s = (if ce_refs c = 0 then do {
       s \<leftarrow> db_entry_incref e True s;
       (b, s) \<leftarrow> db_entry_handle_delete e s;
       s \<leftarrow> db_entry_deref e True s;
       Some (b, s)
     } else db_entry_handle_delete e s)"

definition gone :: "handle list \<Rightarrow> eptr \<Rightarrow> db_state \<Rightarrow> bool" where
  "gone hs x s \<longleftrightarrow> (entries s x = None \<longleftrightarrow> entry_refs hs x = 0) \<and> (\<forall>c. entries s x = Some c \<longrightarrow> ce_deleted c)"

lemma gone_cong:
  "gone hs x s \<Longrightarrow> map_option core (entries s' x) = map_option core (entries s x) \<Longrightarrow> gone hs x s'"
  unfolding gone_def by (cases "entries s' x"; cases "entries s x") (auto dest: core_eqD)

definition dropped :: "eptr \<Rightarrow> cache_entry \<Rightarrow> tptr \<Rightarrow> handle list \<Rightarrow> db_state \<Rightarrow> db_state \<Rightarrow> bool" where
  "dropped e c t hs s s' \<longleftrightarrow> others_kept e (Some t) s s' \<and> stored s' t = (stored s t)(ce_hash c := None)
     \<and> gone hs e s' \<and> same_env s s'"

lemma stored_cong: "\<forall>x. hash_set_of x s' = hash_set_of x s \<Longrightarrow> stored s' = stored s"
  by (simp add: stored_def fun_eq_iff)

lemma drop_entry_ok:
  assumes ok: "db_ok s hs None" and l: "lru_ok s xs" and n: "length hs + 1 < 2 ^ 14"
    and e: "entries s e = Some c" "\<not> ce_deleted c" "ce_table c = Some t"
  shows "\<exists>b s'. drop_entry e c s = Some (b, s') \<and> db_ok s' hs None \<and> lru_ok s' (remove1 e xs) \<and> dropped e c t hs s s'
    \<and> (b \<longleftrightarrow> stored s' t = Map.empty)
    \<and> (if b then hash_set_of t s' = None else map_option n_buckets (hash_set_of t s') = map_option n_buckets (hash_set_of t s))"
proof (cases "ce_refs c = 0")
  case False
  with ok_refs(1) [OF ok e(1)] have pos: "0 < entry_refs hs e" by (metis gr0I unat_eq_zero)
  from handle_delete_ok [OF ok l e(1,2) pos e(3)] obtain b s' where s': "db_entry_handle_delete e s = Some (b, s')"
    "db_ok s' hs None" "lru_ok s' (remove1 e xs)" "deletion e c t s s'" "b \<longleftrightarrow> stored s' t = Map.empty" "same_env s s'"
    "if b then hash_set_of t s' = None else map_option n_buckets (hash_set_of t s') = map_option n_buckets (hash_set_of t s)"
    by (elim exE conjE) (rule that; assumption)
  have "drop_entry e c s = Some (b, s')" using False s'(1) by (simp add: drop_entry_def)
  moreover have "dropped e c t hs s s'" using s'(4,6) pos by (auto simp: dropped_def deletion_def gone_def)
  ultimately show ?thesis using s'(2,3,5,7) by blast
next
  case True
  then have z: "entry_refs hs e = 0" using ok_refs(1) [OF ok e(1)] by simp
  let ?c = "c\<lparr>ce_refs := ce_refs c + 1\<rparr>"
  from incref_tab_ok [OF ok l n e] obtain s1 where s1: "db_entry_incref e True s = Some s1" "db_ok s1 (EntryH e # hs) None"
    "lru_ok s1 xs" "entries s1 = (entries s)(e \<mapsto> ?c)" "\<forall>x. hash_set_of x s1 = hash_set_of x s"
    "\<forall>x. x \<noteq> t \<longrightarrow> dbtables s1 x = dbtables s x" "same_env s s1" by blast
  have e1: "entries s1 e = Some ?c" "\<not> ce_deleted ?c" "ce_table ?c = Some t" "0 < entry_refs (EntryH e # hs) e"
    using s1(4) e by simp_all
  from handle_delete_ok [OF s1(2,3) e1(1,2,4,3)] obtain b s2 where s2: "db_entry_handle_delete e s1 = Some (b, s2)"
    "db_ok s2 (EntryH e # hs) None" "lru_ok s2 (remove1 e xs)" "deletion e ?c t s1 s2" "b \<longleftrightarrow> stored s2 t = Map.empty"
    "same_env s1 s2"
    "if b then hash_set_of t s2 = None else map_option n_buckets (hash_set_of t s2) = map_option n_buckets (hash_set_of t s1)"
    by (elim exE conjE) (rule that; assumption)
  from s2(4) obtain c2 where c2: "entries s2 e = Some c2" "ce_deleted c2"
    and tc: "ce_table c2 = None \<or> ce_table c2 = Some t" by (auto simp: deletion_def)
  from deref_tab_ok [OF s2(2) c2(1), of "remove1 e xs"] c2(2) s2(3) z obtain s3 where s3: "db_entry_deref e True s2 = Some s3"
    "db_ok s3 hs None" "lru_ok s3 (remove1 e xs)" "others_kept e (ce_table c2) s2 s3" "entries s3 e = None"
    "\<forall>x. hash_set_of x s3 = hash_set_of x s2" "same_env s2 s3" by auto
  have run: "drop_entry e c s = Some (b, s3)" using True s1(1) s2(1) s3(1) by (simp add: drop_entry_def)
  have "others_kept e (Some t) s s1" using s1(4,6) by (simp add: others_kept_def)
  moreover have "others_kept e (Some t) s1 s2" using s2(4) by (simp add: deletion_def)
  moreover have "others_kept e (Some t) s2 s3" using s3(4) tc by (auto simp: others_kept_def)
  ultimately have "others_kept e (Some t) s s3" by (blast intro: others_kept_trans)
  moreover have st: "stored s3 t = (stored s t)(ce_hash c := None)"
    using s2(4) stored_cong [OF s3(6)] stored_cong [OF s1(5)] by (simp add: deletion_def)
  moreover have "same_env s s3" using s1(7) s2(6) s3(7) by (blast intro: same_env_trans)
  ultimately have "dropped e c t hs s s3" using s3(5) z by (simp add: dropped_def gone_def)
  then show ?thesis using run s3(2,3,6) s2(5,7) s1(5) stored_cong [OF s3(6)] by auto
qed

section \<open>Eviction\<close>

text \<open>How many entries of these lengths go, from the front, until \<open>b\<close> bytes are gone.\<close>

fun evict_count :: "int \<Rightarrow> int list \<Rightarrow> nat" where
  "evict_count b [] = 0"
| "evict_count b (n # ns) = (if 0 < b then Suc (evict_count (b - n) ns) else 0)"

definition data_len :: "db_state \<Rightarrow> eptr \<Rightarrow> int" where
  "data_len s e = (case entries s e of None \<Rightarrow> 0 | Some c \<Rightarrow> uint (ce_data_length c))"

lemma cleanup_step:
  assumes "lru_head s = Some e" "entries s e = Some c" "\<not> ce_writing c" "\<not> ce_deleted c" "0 < b"
  shows "db_lru_cleanup_percent b s = do {
    (_, s) \<leftarrow> drop_entry e c s; db_lru_cleanup_percent (sint (of_int b - ce_data_length c)) s }"
proof -
  have *: "Option.bind (Option.bind A B) C = Option.bind A (\<lambda>x. Option.bind (B x) C)" for A :: "'x option" and B :: "'x \<Rightarrow> 'y option" and C :: "'y \<Rightarrow> 'z option"
    by (cases A) simp_all
  show ?thesis
    using assms by (subst db_lru_cleanup_percent.simps) (simp add: drop_entry_def * case_prod_unfold)
qed

lemma cleanup_stop: "lru_head s = None \<or> b \<le> 0 \<Longrightarrow> db_lru_cleanup_percent b s = Some (b, s)"
  by (subst db_lru_cleanup_percent.simps) (auto split: option.split)

lemma counter_exact:
  assumes "0 < b" "b < 2 ^ 31" "uint n < 2 ^ 31"
  shows "sint (of_int b - n :: u32) = b - uint n"
proof -
  have "of_int b - n = (of_int (b - uint n) :: u32)" by simp
  moreover have "signed_take_bit 31 (b - uint n) = b - uint n"
    by (rule signed_take_bit_int_eq_self) (use assms uint_ge_0 [of n] in linarith)+
  ultimately show ?thesis by (simp add: signed_of_int del: of_int_diff)
qed

text \<open>The first \<open>k\<close> entries of the LRU list \<open>xs\<close> went, and nothing else.\<close>

definition evicted :: "handle list \<Rightarrow> eptr set \<Rightarrow> db_state \<Rightarrow> db_state \<Rightarrow> bool" where
  "evicted hs E s s' \<longleftrightarrow> (\<forall>x \<in> E. gone hs x s')
     \<and> (\<forall>x. x \<notin> E \<longrightarrow> map_option core (entries s' x) = map_option core (entries s x)) \<and> same_env s s'"

lemma evicted_step:
  assumes "dropped e c t hs s s1" "evicted hs E s1 s2" "e \<notin> E"
  shows "evicted hs (insert e E) s s2"
proof -
  have "gone hs e s2"
    by (rule gone_cong [of hs e s1]) (use assms in \<open>auto simp: evicted_def dropped_def\<close>)
  then show ?thesis using assms by (auto simp: evicted_def dropped_def others_kept_def intro: same_env_trans)
qed

definition exact_lengths :: "db_state \<Rightarrow> eptr list \<Rightarrow> bool" where
  "exact_lengths s xs \<longleftrightarrow> (\<forall>x \<in> set xs. data_len s x < 2 ^ 31)"

lemma evict_ok:
  assumes "db_ok s hs None" "lru_ok s xs" "length hs + 1 < 2 ^ 14"
  shows "\<exists>n k s'. db_lru_cleanup_percent b s = Some (n, s')
    \<and> db_ok s' hs None \<and> lru_ok s' (drop k xs) \<and> evicted hs (set (take k xs)) s s'
    \<and> (b < 2 ^ 31 \<and> exact_lengths s xs \<longrightarrow> k = evict_count b (map (data_len s) xs) \<and> n = b - sum_list (take k (map (data_len s) xs)))"
  using assms
proof (induction xs arbitrary: s b)
  case Nil
  then have "lru_head s = None" by (simp add: lru_ok_def lru_inv_def)
  then show ?case using Nil cleanup_stop [of s b] by (auto simp: evicted_def same_env_def)
next
  case (Cons e xs)
  show ?case
  proof (cases "0 < b")
    case False
    then show ?thesis using Cons.prems cleanup_stop [of s b]
      by (intro exI [of _ b] exI [of _ 0] exI [of _ s]) (simp add: evicted_def same_env_def)
  next
    case True
    have hd: "lru_head s = Some e" using Cons.prems(2) by (simp add: lru_ok_def lru_inv_def)
    have "e \<in> idle_entries s" using Cons.prems(2) by (auto simp: lru_ok_def)
    then obtain c where c: "entries s e = Some c" "\<not> ce_deleted c" "\<not> ce_writing c" by (auto simp: idle_entries_def)
    from ok_live [OF Cons.prems(1) c(1,2)] obtain t where t: "ce_table c = Some t" by blast
    from drop_entry_ok [OF Cons.prems c(1,2) t] obtain q s1 where s1: "drop_entry e c s = Some (q, s1)"
      "db_ok s1 hs None" "lru_ok s1 xs" "dropped e c t hs s s1" by auto
    have ne: "e \<notin> set xs" using Cons.prems(2) by (simp add: lru_ok_def lru_inv_def)
    have dl: "data_len s1 x = data_len s x" if "x \<in> set xs" for x
    proof -
      have "map_option core (entries s1 x) = map_option core (entries s x)"
        using that ne s1(4) by (auto simp: dropped_def others_kept_def)
      then show ?thesis by (cases "entries s1 x"; cases "entries s x") (auto simp: data_len_def dest: core_eqD)
    qed
    then have m: "map (data_len s1) xs = map (data_len s) xs" and ex: "exact_lengths s1 xs = exact_lengths s xs"
      by (simp_all add: exact_lengths_def)
    have len: "data_len s e = uint (ce_data_length c)" by (simp add: data_len_def c(1))
    let ?b = "sint (of_int b - ce_data_length c :: u32)"
    from Cons.IH [OF s1(2,3) Cons.prems(3), of ?b] obtain n k s2 where
      s2: "db_lru_cleanup_percent ?b s1 = Some (n, s2)" "db_ok s2 hs None" "lru_ok s2 (drop k xs)" "evicted hs (set (take k xs)) s1 s2"
      "?b < 2 ^ 31 \<and> exact_lengths s xs \<longrightarrow> k = evict_count ?b (map (data_len s) xs) \<and> n = ?b - sum_list (take k (map (data_len s) xs))"
      unfolding m ex by blast
    have "db_lru_cleanup_percent b s = Some (n, s2)" using cleanup_step [OF hd c(1,3,2) True] s1(1) s2(1) by simp
    moreover have "evicted hs (set (take (Suc k) (e # xs))) s s2"
      using evicted_step [OF s1(4) s2(4)] ne by (auto dest: in_set_takeD)
    moreover have "b < 2 ^ 31 \<and> exact_lengths s (e # xs) \<longrightarrow>
      Suc k = evict_count b (map (data_len s) (e # xs)) \<and> n = b - sum_list (take (Suc k) (map (data_len s) (e # xs)))"
    proof (intro impI, elim conjE)
      assume that: "b < 2 ^ 31" "exact_lengths s (e # xs)"
      have "?b = b - data_len s e"
        using counter_exact [OF True that(1), of "ce_data_length c"] that(2) by (simp add: len exact_lengths_def)
      moreover have "0 \<le> data_len s e" by (simp add: len)
      ultimately show "Suc k = evict_count b (map (data_len s) (e # xs)) \<and> n = b - sum_list (take (Suc k) (map (data_len s) (e # xs)))"
        using s2(5) that True by (simp add: exact_lengths_def)
    qed
    moreover have "lru_ok s2 (drop (Suc k) (e # xs))" using s2(3) by simp
    ultimately show ?thesis using s2(2) by blast
  qed
qed

section \<open>Expiry\<close>

text \<open>Only expired entries go.\<close>

definition fresh_kept :: "db_state \<Rightarrow> db_state \<Rightarrow> bool" where
  "fresh_kept s s' \<longleftrightarrow> (\<forall>x c. entries s x = Some c \<and> \<not> expired s c \<longrightarrow> map_option core (entries s' x) = Some (core c)) \<and> same_env s s'"

lemma expired_core: "core c = core c' \<Longrightarrow> same_env s s' \<Longrightarrow> expired s' c' = expired s c"
  using core_eqD [of c c'] by (simp add: expired_def same_env_def)

lemma fresh_kept_trans: "fresh_kept s s1 \<Longrightarrow> fresh_kept s1 s2 \<Longrightarrow> fresh_kept s s2"
  unfolding fresh_kept_def
proof (intro conjI allI impI; elim conjE)
  fix x c assume a: "\<forall>x c. entries s x = Some c \<and> \<not> expired s c \<longrightarrow> map_option core (entries s1 x) = Some (core c)" "same_env s s1"
    "\<forall>x c. entries s1 x = Some c \<and> \<not> expired s1 c \<longrightarrow> map_option core (entries s2 x) = Some (core c)"
    "entries s x = Some c" "\<not> expired s c"
  then obtain c1 where c1: "entries s1 x = Some c1" "core c1 = core c" by fastforce
  have "\<not> expired s1 c1" using expired_core [OF c1(2) [symmetric] a(2)] a(5) by simp
  with a(3) c1(1) have "map_option core (entries s2 x) = Some (core c1)" by blast
  then show "map_option core (entries s2 x) = Some (core c)" by (simp add: c1(2))
qed (auto intro: same_env_trans)

lemma fresh_kept_refl [simp]: "fresh_kept s s"
  by (simp add: fresh_kept_def same_env_def)

lemma dropped_fresh: "dropped e c t hs s s' \<Longrightarrow> entries s e = Some c \<Longrightarrow> expired s c \<Longrightarrow> fresh_kept s s'"
  unfolding fresh_kept_def
proof (intro conjI allI impI; (elim conjE)?)
  fix x c' assume a: "dropped e c t hs s s'" "entries s e = Some c" "expired s c" "entries s x = Some c'" "\<not> expired s c'"
  then have "x \<noteq> e" by auto
  then have "map_option core (entries s' x) = map_option core (entries s x)" using a(1) by (simp add: dropped_def others_kept_def)
  with a(4) show "map_option core (entries s' x) = Some (core c')" by simp
qed (simp add: dropped_def)

definition swept :: "handle list \<Rightarrow> db_state \<Rightarrow> db_state \<Rightarrow> bool" where
  "swept hs s s' \<longleftrightarrow> db_ok s' hs None \<and> (\<exists>ys. lru_ok s' ys) \<and> fresh_kept s s'"

lemma expire_buckets_step:
  assumes "hash_set_of t s = Some h" "kh_exist h ke" "kh_value h ke = Some l" "entries s l = Some c" "\<not> ce_deleted c"
  shows "db_expire_buckets t (ke # kes) ret s = (if expired s c then do {
      (b, s) \<leftarrow> drop_entry l c s;
      if (ce_refs c = 0 \<and> kh_size h = 1) \<or> b then Some (ret + 1, s) else db_expire_buckets t kes (ret + 1) s }
    else db_expire_buckets t kes (ret + 1) s)"
  using assms by (simp add: expired_def drop_entry_def split: Option.bind_splits)

lemma expire_buckets_ok:
  assumes "db_ok s hs None" "lru_ok s xs" "length hs + 1 < 2 ^ 14" "hash_set_of t s = Some h" "\<forall>k \<in> set kes. k < n_buckets h"
  shows "\<exists>n s'. db_expire_buckets t kes ret s = Some (n, s') \<and> swept hs s s'"
  using assms
proof (induction kes arbitrary: s xs h ret)
  case Nil
  then show ?case by (auto simp: swept_def)
next
  case (Cons ke kes)
  from Cons.prems(4) obtain d where d: "dbtables s t = Some d" "cache_hash_set d = Some h"
    by (auto simp: hash_set_of_def bind_Some_iff)
  show ?case
  proof (cases "kh_exist h ke")
    case False
    then show ?thesis using Cons.prems Cons.IH [OF Cons.prems(1-4)] by simp
  next
    case True
    have inv: "kh_inv CAP h" using ok_set(1) [OF Cons.prems(1) d] by simp
    from kh_exist_lookup [OF inv _ True] Cons.prems(5) obtain l where l: "kh_value h ke = Some l"
      "kh_lookup h (keys h ! ke) = Some l" by auto
    from ok_set(2) [OF Cons.prems(1) d l(2)] obtain c where c: "entries s l = Some c" "ce_table c = Some t" "\<not> ce_deleted c" by blast
    note step = expire_buckets_step [OF Cons.prems(4) True l(1) c(1,3)]
    show ?thesis
    proof (cases "expired s c")
      case False
      then show ?thesis using Cons.prems Cons.IH [OF Cons.prems(1-4)] by (simp add: step del: db_expire_buckets.simps)
    next
      case ex: True
      from drop_entry_ok [OF Cons.prems(1-3) c(1,3,2)] obtain b s1 where s1: "drop_entry l c s = Some (b, s1)"
        "db_ok s1 hs None" "lru_ok s1 (remove1 l xs)" "dropped l c t hs s s1"
        "if b then hash_set_of t s1 = None else map_option n_buckets (hash_set_of t s1) = map_option n_buckets (hash_set_of t s)"
        by (elim exE conjE) (rule that; assumption)
      note f = dropped_fresh [OF s1(4) c(1) ex]
      show ?thesis
      proof (cases "(ce_refs c = 0 \<and> kh_size h = 1) \<or> b")
        case True
        then show ?thesis using s1(1-3) f ex by (auto simp: step swept_def simp del: db_expire_buckets.simps)
      next
        case False
        with s1(5) Cons.prems(4) obtain h1 where h1: "hash_set_of t s1 = Some h1" "n_buckets h1 = n_buckets h" by auto
        from Cons.IH [OF s1(2,3) Cons.prems(3) h1(1)] Cons.prems(5) h1(2) obtain n s2 where
          s2: "db_expire_buckets t kes (ret + 1) s1 = Some (n, s2)" "swept hs s1 s2" by fastforce
        then have "swept hs s s2" using f fresh_kept_trans by (auto simp: swept_def)
        then show ?thesis using s1(1) s2(1) False ex by (auto simp: step simp del: db_expire_buckets.simps)
      qed
    qed
  qed
qed

text \<open>The cursor over the tables moves on.\<close>

definition gc_kept :: "db_state \<Rightarrow> db_state \<Rightarrow> bool" where
  "gc_kept s s' \<longleftrightarrow> fresh_kept (s\<lparr>table_gc := 0\<rparr>) (s'\<lparr>table_gc := 0\<rparr>)"

definition collected :: "handle list \<Rightarrow> db_state \<Rightarrow> db_state \<Rightarrow> bool" where
  "collected hs s s' \<longleftrightarrow> db_ok s' hs None \<and> (\<exists>ys. lru_ok s' ys) \<and> gc_kept s s'"

lemma gc_kept_trans: "gc_kept s s1 \<Longrightarrow> gc_kept s1 s2 \<Longrightarrow> gc_kept s s2"
  unfolding gc_kept_def by (rule fresh_kept_trans)

lemma gc_kept_fresh: "fresh_kept s s' \<Longrightarrow> gc_kept s s'"
  by (auto simp: gc_kept_def fresh_kept_def expired_def same_env_def)

lemma gc_kept_refl [simp]: "gc_kept s (s\<lparr>table_gc := g\<rparr>)" "gc_kept s s"
  by (simp_all add: gc_kept_def)

lemma collected_trans: "gc_kept s s1 \<Longrightarrow> collected hs s1 s2 \<Longrightarrow> collected hs s s2"
  by (auto simp: collected_def intro: gc_kept_trans)

lemma ok_table_gc [simp]:
  "db_ok (s\<lparr>table_gc := g\<rparr>) hs X = db_ok s hs X" "lru_ok (s\<lparr>table_gc := g\<rparr>) xs = lru_ok s xs"
  by (rule db_ok_cong; simp) (simp add: lru_ok_def lru_inv_def idle_entries_def)

lemma expire_table_ok:
  assumes ok: "db_ok s hs None" and l: "lru_ok s xs" and n: "length hs + 1 < 2 ^ 14"
    and g: "table_gc s < n_buckets (tables s)" "kh_exist (tables s) (table_gc s)"
  shows "\<exists>t m s'. kh_value (tables s) (table_gc s) = Some t \<and> db_expire_cursor_table t s = Some (m, s') \<and> swept hs s s'"
proof -
  from kh_exist_lookup [OF ok_tables(1) [OF ok] g] obtain t where
    t: "kh_value (tables s) (table_gc s) = Some t" "kh_lookup (tables s) (keys (tables s) ! table_gc s) = Some t" by auto
  from ok_tables(2) [OF ok t(2)] obtain d where d: "dbtables s t = Some d" "\<not> tbl_deleted d" by blast
  with ok_set_None [OF ok d(1)] obtain h where h: "cache_hash_set d = Some h" by (cases "cache_hash_set d") auto
  then have hs: "hash_set_of t s = Some h" using d by (simp add: hash_set_of_def)
  from expire_buckets_ok [OF ok l n hs, of "[0..<n_buckets h]" 0] t(1) show ?thesis
    by (auto simp: db_expire_cursor_table_def hs)
qed

definition to_go :: "nat \<Rightarrow> nat \<Rightarrow> nat \<Rightarrow> nat" where
  "to_go N start p = (if p < start then start - p else start + N - p)"

lemma expire_loop_ok:
  assumes "db_ok s hs None" "lru_ok s xs" "length hs + 1 < 2 ^ 14" "N = n_buckets (tables s)"
    "table_gc s < N" "start < N" "to_go N start (table_gc s) \<le> fuel"
  shows "\<exists>s'. db_expire_loop fuel start d s = Some s' \<and> collected hs s s'"
  using assms
proof (induction fuel arbitrary: s xs d)
  case 0
  then show ?case by (auto simp: to_go_def split: if_splits)
next
  case (Suc fuel)
  let ?body = "if kh_exist (tables s) (table_gc s) then do {
       t \<leftarrow> kh_value (tables s) (table_gc s);
       (n, s) \<leftarrow> db_expire_cursor_table t s;
       Some (d + n, s)
     } else Some (d, s)"
  have "\<exists>d1 s1. ?body = Some (d1, s1) \<and> swept hs s s1"
  proof (cases "kh_exist (tables s) (table_gc s)")
    case True
    with expire_table_ok [OF Suc.prems(1-3)] Suc.prems(4,5) obtain t m s' where
      "kh_value (tables s) (table_gc s) = Some t" "db_expire_cursor_table t s = Some (m, s')" "swept hs s s'" by blast
    then show ?thesis using True by auto
  qed (use Suc.prems in \<open>auto simp: swept_def\<close>)
  then obtain d1 s1 where b: "?body = Some (d1, s1)" "swept hs s s1" by blast
  define s2 where "s2 = (let s = s1\<lparr>table_gc := table_gc s1 + 1\<rparr> in if n_buckets (tables s) \<le> table_gc s then s\<lparr>table_gc := 0\<rparr> else s)"
  have run: "db_expire_loop (Suc fuel) start d s = (if table_gc s2 \<noteq> start \<and> d1 < 4096 then db_expire_loop fuel start d1 s2 else Some s2)"
    unfolding db_expire_loop.simps b(1) s2_def by (simp add: Let_def)
  from b(2) obtain ys where ys: "db_ok s1 hs None" "lru_ok s1 ys" "fresh_kept s s1" by (auto simp: swept_def)
  then have env: "table_gc s1 = table_gc s" "n_buckets (tables s1) = N" using Suc.prems(4) by (auto simp: fresh_kept_def same_env_def)
  have ok2: "db_ok s2 hs None" "lru_ok s2 ys" using ys by (simp_all add: s2_def Let_def)
  have "gc_kept s1 s2" by (auto simp: s2_def Let_def)
  with gc_kept_fresh [OF ys(3)] have k: "gc_kept s s2" by (rule gc_kept_trans)
  have N2: "N = n_buckets (tables s2)" using env by (simp add: s2_def Let_def)
  have p: "table_gc s2 = (if table_gc s + 1 < N then table_gc s + 1 else 0)" using env by (auto simp: s2_def Let_def)
  show ?case
  proof (cases "table_gc s2 \<noteq> start \<and> d1 < 4096")
    case False
    then show ?thesis using ok2 k unfolding run by (auto simp: collected_def)
  next
    case True
    have lt: "table_gc s2 < N" using p Suc.prems(5) by auto
    have "to_go N start (table_gc s2) \<le> fuel"
      using True p Suc.prems(5-7) by (auto simp: to_go_def split: if_splits)
    from Suc.IH [OF ok2 Suc.prems(3) N2 lt Suc.prems(6) this, of d1] obtain s3 where
      "db_expire_loop fuel start d1 s2 = Some s3" "collected hs s2 s3" by blast
    then show ?thesis using True collected_trans [OF k] unfolding run by auto
  qed
qed

lemma expire_cursor_ok:
  assumes ok: "db_ok s hs None" and l: "lru_ok s xs" and n: "length hs + 1 < 2 ^ 14"
  shows "\<exists>f s'. db_expire_cursor s = Some (f, s') \<and> collected hs s s'"
proof -
  define s1 where "s1 = (if n_buckets (tables s) \<le> table_gc s then s\<lparr>table_gc := 0\<rparr> else s)"
  have s1: "db_ok s1 hs None" "lru_ok s1 xs" "gc_kept s s1" "tables s1 = tables s" using ok l by (simp_all add: s1_def)
  have run: "db_expire_cursor s = (if table_gc s1 = n_buckets (tables s1) then Some (True, s1)
      else do { s \<leftarrow> db_expire_loop (n_buckets (tables s1)) (table_gc s1) 0 s1; Some (table_gc s = table_gc s1, s) })"
    by (simp add: db_expire_cursor_def s1_def Let_def)
  show ?thesis
  proof (cases "table_gc s1 = n_buckets (tables s1)")
    case True
    then show ?thesis unfolding run using s1 by (auto simp: collected_def)
  next
    case False
    then have lt: "table_gc s1 < n_buckets (tables s1)" by (auto simp: s1_def split: if_splits)
    from expire_loop_ok [OF s1(1,2) n refl lt lt, of "n_buckets (tables s1)" 0] obtain s2 where
      "db_expire_loop (n_buckets (tables s1)) (table_gc s1) 0 s1 = Some s2" "collected hs s1 s2" by (auto simp: to_go_def)
    then show ?thesis unfolding run using False collected_trans [OF s1(3)] by auto
  qed
qed

section \<open>Garbage collection\<close>

lemma gc_flush_ok:
  "db_ok (db_gc_flush env s) hs X = db_ok s hs X" "lru_ok (db_gc_flush env s) xs = lru_ok s xs" "gc_kept s (db_gc_flush env s)"
proof -
  have f: "\<exists>cf lf fp. db_gc_flush env s = s\<lparr>current_flush := cf, last_flush_ms := lf, flush_pending := fp\<rparr>"
    by (cases s) (auto simp: db_gc_flush_def currently_flushing_def Let_def)
  then obtain cf lf fp where f: "db_gc_flush env s = s\<lparr>current_flush := cf, last_flush_ms := lf, flush_pending := fp\<rparr>" by blast
  show "db_ok (db_gc_flush env s) hs X = db_ok s hs X" unfolding f by (rule db_ok_cong) simp_all
  show "lru_ok (db_gc_flush env s) xs = lru_ok s xs" unfolding f by (simp add: lru_ok_def lru_inv_def idle_entries_def)
  show "gc_kept s (db_gc_flush env s)" unfolding f by (simp add: gc_kept_def fresh_kept_def same_env_def)
qed

lemma gc_cycles_ok:
  assumes "db_ok s hs None" "lru_ok s xs" "length hs + 1 < 2 ^ 14" "db_gc_cycles n s = Some s'"
  shows "collected hs s s'"
  using assms
proof (induction n arbitrary: s xs)
  case 0
  then show ?case by (auto simp: collected_def)
next
  case (Suc n)
  from expire_cursor_ok [OF Suc.prems(1-3)] obtain f s1 where s1: "db_expire_cursor s = Some (f, s1)" "collected hs s s1" by blast
  then obtain ys where ys: "db_ok s1 hs None" "lru_ok s1 ys" "gc_kept s s1" by (auto simp: collected_def)
  show ?case
  proof (cases f)
    case True
    with Suc.prems(4) s1 show ?thesis by (auto simp: bind_Some_iff)
  next
    case False
    with Suc.prems(4) s1(1) have "db_gc_cycles n s1 = Some s'" by (auto simp: bind_Some_iff)
    from collected_trans [OF ys(3) Suc.IH [OF ys(1,2) Suc.prems(3) this]] show ?thesis .
  qed
qed

text \<open>Without a size limit the garbage collection removes expired entries only; with one it keeps the invariant, when it returns.\<close>

lemma lru_gc_ok:
  assumes ok: "db_ok s hs None" and l: "lru_ok s xs" and n: "length hs + 1 < 2 ^ 14" and m: "max_size s = 0 \<or> db_size_bytes s \<le> max_size s"
  shows "\<exists>s'. db_lru_gc env s = Some s' \<and> collected hs s s'"
proof -
  from expire_cursor_ok [OF ok l n] obtain f s1 where s1: "db_expire_cursor s = Some (f, s1)" "collected hs s s1" by blast
  have "\<not> (0 < max_size s \<and> max_size s < db_size_bytes s)" using m by (auto simp: word_gt_0)
  then have "db_lru_gc env s = Some (db_gc_flush env s1)" using s1(1) by (auto simp: db_lru_gc_def)
  moreover have "collected hs s (db_gc_flush env s1)"
    using s1(2) gc_flush_ok [where env = env and s = s1] by (auto simp: collected_def intro: gc_kept_trans)
  ultimately show ?thesis by blast
qed

lemma lru_gc_keeps:
  assumes ok: "db_ok s hs None" and l: "lru_ok s xs" and n: "length hs + 1 < 2 ^ 14" and r: "db_lru_gc env s = Some s'"
  shows "db_ok s' hs None \<and> (\<exists>ys. lru_ok s' ys)"
proof (cases "0 < max_size s \<and> max_size s < db_size_bytes s")
  case False
  then have "max_size s = 0 \<or> db_size_bytes s \<le> max_size s" by (auto simp: word_gt_0)
  from lru_gc_ok [OF ok l n this, of env] r show ?thesis by (auto simp: collected_def)
next
  case True
  with r obtain s1 b s2 where s1: "db_gc_cycles 5 s = Some s1" "lru_target s1 = Some b"
    "(if b > 0 then do { (_, s) \<leftarrow> db_lru_cleanup_percent b s1; Some s } else Some s1) = Some s2" "s' = db_gc_flush env s2"
    by (auto simp: db_lru_gc_def bind_Some_iff cong: if_cong)
  from gc_cycles_ok [OF ok l n s1(1)] obtain ys where ys: "db_ok s1 hs None" "lru_ok s1 ys" by (auto simp: collected_def)
  from evict_ok [OF ys n, of b] obtain m k s3 where "db_lru_cleanup_percent b s1 = Some (m, s3)" "db_ok s3 hs None"
    "lru_ok s3 (drop k ys)" by blast
  with s1(3) ys have "db_ok s2 hs None \<and> (\<exists>ys. lru_ok s2 ys)" by (auto split: if_splits)
  then show ?thesis unfolding s1(4) by (simp add: gc_flush_ok)
qed

section \<open>Properties\<close>

text \<open>
  C10. Eviction (\<open>db_lru_cleanup_percent\<close>) ends and takes the least recently used entries: it removes the shortest
  prefix of the LRU list whose lengths add up to the bytes wanted, or the whole list, whatever connections hold references; an
  entry that nobody holds is freed with its block, one that is held is marked deleted and leaves its table; every
  other entry stays, and so does the invariant of the database. The lengths are below 2 GiB: the counter is a signed
  32-bit difference.
\<close>

theorem eviction_takes_least_recently_used:
  assumes "db_ok s hs None" "lru_ok s xs" "length hs + 1 < 2 ^ 14" "b < 2 ^ 31" "exact_lengths s xs"
  shows "\<exists>s'. let k = evict_count b (map (data_len s) xs) in
    db_lru_cleanup_percent b s = Some (b - sum_list (take k (map (data_len s) xs)), s')
    \<and> db_ok s' hs None \<and> lru_ok s' (drop k xs) \<and> evicted hs (set (take k xs)) s s'"
proof -
  from evict_ok [OF assms(1-3), of b] obtain n k s' where "db_lru_cleanup_percent b s = Some (n, s')" "db_ok s' hs None"
    "lru_ok s' (drop k xs)" "evicted hs (set (take k xs)) s s'"
    "b < 2 ^ 31 \<and> exact_lengths s xs \<longrightarrow> k = evict_count b (map (data_len s) xs) \<and> n = b - sum_list (take k (map (data_len s) xs))"
    by blast
  with assms(4,5) show ?thesis unfolding Let_def by blast
qed

theorem eviction_takes_least_recently_used_witness:
  "\<exists>s'. db_lru_cleanup_percent 3 sample_db = Some (- 2, s') \<and> db_ok s' [TableH 1] None \<and> lru_ok s' [] \<and> entries s' 2 = None"
proof -
  have d: "data_len sample_db 2 = 5" by (simp add: data_len_def sample_entries(1)) (simp add: sample_entry_def)
  then have x: "exact_lengths sample_db [2]" by (simp add: exact_lengths_def)
  from eviction_takes_least_recently_used [OF sample_ok _ _ x, of 3] show ?thesis
    by (auto simp: Let_def d evicted_def sample_entries(2) gone_def)
qed

end
