(* ===== verification/DbAlloc.thy ===== *)
theory DbAlloc
  imports DbEvict
begin

text \<open>
  The space for the value of an entry that is being written (\<open>db_target_write_allocate\<close>): a block, a file of its
  own, and the change from one to the other when a second length is announced.
\<close>

section \<open>An entry gets another place for its value\<close>

definition view :: "cache_entry \<Rightarrow> tptr option \<times> u32 \<times> bool \<times> u16" where
  "view c = (ce_table c, ce_hash c, ce_deleted c, ce_refs c)"

lemma view_ok:
  assumes ok: "db_ok s hs X" and v: "\<And>x. map_option view (entries s' x) = map_option view (entries s x)"
    and f: "dbtables s' = dbtables s" "tables s' = tables s" "next_ptr s' = next_ptr s" and b: "blocks_ok s'"
  shows "db_ok s' hs X"
proof -
  have fwd: "\<exists>c. entries s' x = Some c \<and> view c = view c0" if "entries s x = Some c0" for x c0
    using v [of x] that by (cases "entries s' x") auto
  have bwd: "\<exists>c. entries s x = Some c \<and> view c = view c0" if "entries s' x = Some c0" for x c0
    using v [of x] that by (cases "entries s x") auto
  have none: "entries s' x = None \<longleftrightarrow> entries s x = None" for x
    using v [of x] by (cases "entries s x"; cases "entries s' x") auto
  have "table_of s' x = table_of s x" for x
    using v [of x] by (cases "entries s x"; cases "entries s' x") (auto simp: table_of_def view_def)
  then have tr: "table_refs s' hs t = table_refs s hs t" for t by (rule table_refs_cong)
  have "tables_ok s'" using ok by (simp add: db_ok_def tables_ok_def f)
  moreover have "sets_ok s'"
  proof (rule sets_okI)
    fix t d h hash x assume "dbtables s' t = Some d" "cache_hash_set d = Some h" "kh_lookup h hash = Some x"
    with ok_set(2) [OF ok] obtain c0 where "entries s x = Some c0" "ce_hash c0 = hash" "ce_table c0 = Some t" "\<not> ce_deleted c0"
      unfolding f by blast
    with fwd [of x c0] show "\<exists>c. entries s' x = Some c \<and> ce_hash c = hash \<and> ce_table c = Some t \<and> \<not> ce_deleted c"
      by (auto simp: view_def)
  qed (use ok_set_None [OF ok] ok_set(1) [OF ok] in \<open>auto simp: f\<close>)
  moreover have "live_ok s'"
    unfolding live_ok_def f
  proof (intro allI impI, elim conjE)
    fix x cx assume "entries s' x = Some cx" "\<not> ce_deleted cx"
    with bwd obtain c0 where c0: "entries s x = Some c0" "view c0 = view cx" by blast
    with \<open>\<not> ce_deleted cx\<close> have "\<not> ce_deleted c0" by (simp add: view_def)
    from ok_live [OF ok c0(1) this] c0(2)
    show "\<exists>t d h. ce_table cx = Some t \<and> dbtables s t = Some d \<and> cache_hash_set d = Some h \<and> kh_lookup h (ce_hash cx) = Some x"
      by (auto simp: view_def)
  qed
  moreover have "refs_ok s' hs X"
    unfolding refs_ok_def tr f none
  proof (intro conjI allI impI)
    fix x cx assume "entries s' x = Some cx"
    with bwd obtain c0 where c0: "entries s x = Some c0" "view c0 = view cx" by blast
    with ok_refs(1,2) [OF ok c0(1)]
    show "unat (ce_refs cx) = entry_refs hs x" "ce_deleted cx \<Longrightarrow> 0 < entry_refs hs x" by (auto simp: view_def)
  qed (use ok_refs(3-7) [OF ok] in auto)
  moreover have "fresh_ok s'" using ok by (simp add: db_ok_def fresh_ok_def f none)
  ultimately show ?thesis using ok b by (simp add: db_ok_def)
qed

text \<open>The entry \<open>e\<close> now owns what \<open>c'\<close> says, the block of \<open>c\<close> is given back.\<close>

lemma moved_blocks_ok:
  assumes ok: "db_ok s hs X" and e: "entries s e = Some c"
    and s': "entries s' = (entries s)(e \<mapsto> c')"
    and b: "0 \<le> ce_block c' \<Longrightarrow> \<not> IS_SINGLE_FILE c'" "0 \<le> ce_block c' \<Longrightarrow> ce_block c' \<notin> other_blocks c (owned_blocks s)"
      "blocks_inv s' (if 0 \<le> ce_block c' then insert (ce_block c') (other_blocks c (owned_blocks s)) else other_blocks c (owned_blocks s))"
  shows "blocks_ok s'"
proof -
  have es: "entries s' x = (if x = e then Some c' else entries s x)" for x by (simp add: s')
  have other: "other_blocks c (owned_blocks s) = {b. 0 \<le> b \<and> (\<exists>x cx. x \<noteq> e \<and> entries s x = Some cx \<and> ce_block cx = b)}"
  proof -
    have u: "x = e" if "entries s x = Some cx" "0 \<le> ce_block c" "ce_block cx = ce_block c" for x cx
      by (rule ok_blocks(3) [OF ok e that(1,2) that(3) [symmetric], symmetric])
    show ?thesis
    proof (intro set_eqI iffI)
      fix b assume "b \<in> other_blocks c (owned_blocks s)"
      then have "0 \<le> b" "0 \<le> ce_block c \<Longrightarrow> b \<noteq> ce_block c" "\<exists>x cx. entries s x = Some cx \<and> ce_block cx = b"
        by (auto simp: other_blocks_def owned_blocks_def split: if_splits)
      then show "b \<in> {b. 0 \<le> b \<and> (\<exists>x cx. x \<noteq> e \<and> entries s x = Some cx \<and> ce_block cx = b)}"
        using e by (smt (verit) mem_Collect_eq option.inject)
    next
      fix b assume "b \<in> {b. 0 \<le> b \<and> (\<exists>x cx. x \<noteq> e \<and> entries s x = Some cx \<and> ce_block cx = b)}"
      then obtain x cx where x: "0 \<le> b" "x \<noteq> e" "entries s x = Some cx" "ce_block cx = b" by blast
      then have "b \<in> owned_blocks s" by (auto simp: owned_blocks_def)
      moreover have "0 \<le> ce_block c \<Longrightarrow> b \<noteq> ce_block c" using u [OF x(3)] x(2,4) by blast
      ultimately show "b \<in> other_blocks c (owned_blocks s)" by (auto simp: other_blocks_def)
    qed
  qed
  have o: "owned_blocks s' = (if 0 \<le> ce_block c' then insert (ce_block c') (other_blocks c (owned_blocks s)) else other_blocks c (owned_blocks s))"
    unfolding other unfolding owned_blocks_def es by (auto split: if_splits)
  show ?thesis
    unfolding blocks_ok_def
  proof (intro conjI allI impI; (elim conjE)?)
    show "blocks_inv s' (owned_blocks s')" using b(3) by (simp add: o)
  next
    fix x cx assume "entries s' x = Some cx" "0 \<le> ce_block cx"
    then show "\<not> IS_SINGLE_FILE cx" using b(1) ok_blocks(2) [OF ok, of x cx] by (auto simp: es split: if_splits)
  next
    fix x cx y cy assume a: "entries s' x = Some cx" "entries s' y = Some cy" "0 \<le> ce_block cx" "ce_block cx = ce_block cy"
    have no: "False" if "z \<noteq> e" "entries s z = Some cz" "0 \<le> ce_block c'" "ce_block cz = ce_block c'" for z cz
      using that b(2) unfolding other by auto
    show "x = y"
    proof (cases "x = e"; cases "y = e")
      assume "x \<noteq> e" "y \<noteq> e"
      with a(1,2) have "entries s x = Some cx" "entries s y = Some cy" by (simp_all add: es)
      then show ?thesis by (rule ok_blocks(3) [OF ok _ _ a(3,4)])
    next
      assume xy: "x = e" "y \<noteq> e"
      with a(1,2) have "cx = c'" "entries s y = Some cy" by (simp_all add: es)
      with a(3,4) have False by (intro no [of y cy, OF xy(2)]) metis+
      then show ?thesis ..
    next
      assume xy: "x \<noteq> e" "y = e"
      with a(1,2) have "cy = c'" "entries s x = Some cx" by (simp_all add: es)
      with a(3,4) have False by (intro no [of x cx, OF xy(1)]) metis+
      then show ?thesis ..
    qed simp
  qed
qed

section \<open>Allocation\<close>

text \<open>The entry after the first part of \<open>db_target_write_allocate\<close>: its block, or -2 when it gets a file.\<close>

definition new_place :: "db_state \<Rightarrow> eptr \<Rightarrow> cache_entry \<Rightarrow> u32 \<Rightarrow> db_state \<Rightarrow> int \<Rightarrow> bool" where
  "new_place s e c n s' b \<longleftrightarrow> entries s' = (entries s)(e \<mapsto> c\<lparr>ce_block := b\<rparr>)
     \<and> dbtables s' = dbtables s \<and> tables s' = tables s \<and> next_ptr s' = next_ptr s \<and> lru_head s' = lru_head s
     \<and> lru_tail s' = lru_tail s \<and> max_size s' = max_size s
     \<and> (0 \<le> b \<longrightarrow> n \<le> of_nat BLOCK_LENGTH \<and> b \<notin> other_blocks c (owned_blocks s))
     \<and> blocks_inv s' (if 0 \<le> b then insert b (other_blocks c (owned_blocks s)) else other_blocks c (owned_blocks s))"

lemma allocate_new_shape:
  "\<exists>b fb be bf n. db_block_allocate_new s = (b, s\<lparr>free_blocks := fb, blocks_exist := be, blocks_free := bf, blockfile_size := n\<rparr>)"
proof (cases "free_blocks s")
  case Nil
  show ?thesis
  proof (cases "2147483647 \<le> blocks_exist s")
    case True
    then have "db_block_allocate_new s = (- 1, s\<lparr>free_blocks := free_blocks s, blocks_exist := blocks_exist s,
        blocks_free := blocks_free s, blockfile_size := blockfile_size s\<rparr>)" using Nil by (simp add: db_block_allocate_new_def)
    then show ?thesis by blast
  next
    case False
    then have "db_block_allocate_new s = (sint (blocks_exist s), s\<lparr>free_blocks := free_blocks s, blocks_exist := blocks_exist s + 1,
        blocks_free := blocks_free s, blockfile_size := unat ((blocks_exist s + 1) * of_nat BLOCK_LENGTH)\<rparr>)"
      using Nil by (simp add: db_block_allocate_new_def db_block_size_def)
    then show ?thesis by blast
  qed
next
  case (Cons b bs)
  then have "db_block_allocate_new s = (sint b, s\<lparr>free_blocks := bs, blocks_exist := blocks_exist s,
      blocks_free := blocks_free s - 1, blockfile_size := blockfile_size s\<rparr>)" by (simp add: db_block_allocate_new_def)
  then show ?thesis by blast
qed

lemma place_without_block:
  assumes "blocks_inv s U" "U = other_blocks c (owned_blocks s)" "entries s e = Some c" "b < 0"
  shows "new_place s e c n (s\<lparr>entries := (entries s)(e \<mapsto> c\<lparr>ce_block := b\<rparr>)\<rparr>) b"
  using assms by (simp add: new_place_def blocks_inv_def)

lemma new_block_place:
  assumes inv: "blocks_inv s (owned_blocks s)" and e: "entries s e = Some c" "ce_block c < 0" and n: "n \<le> of_nat BLOCK_LENGTH"
  shows "\<exists>b s'. (case db_block_allocate_new s of (b, s) \<Rightarrow> mod_entry e (\<lambda>c. c\<lparr>ce_block := b\<rparr>) s) = Some s' \<and> new_place s e c n s' b"
proof -
  from allocate_new_shape [of s] obtain b fb be bf m where
    a: "db_block_allocate_new s = (b, s\<lparr>free_blocks := fb, blocks_exist := be, blocks_free := bf, blockfile_size := m\<rparr>)" by blast
  let ?v = "s\<lparr>free_blocks := fb, blocks_exist := be, blocks_free := bf, blockfile_size := m\<rparr>"
  have o: "other_blocks c (owned_blocks s) = owned_blocks s" using e(2) by (simp add: other_blocks_def)
  from allocate_ok [OF inv] have "b = - 1 \<and> ?v = s \<or> 0 \<le> b \<and> b \<notin> owned_blocks s \<and> blocks_inv ?v (insert b (owned_blocks s))"
    by (auto simp: a)
  then have "new_place s e c n (?v\<lparr>entries := (entries ?v)(e \<mapsto> c\<lparr>ce_block := b\<rparr>)\<rparr>) b"
  proof (elim disjE conjE)
    assume b: "b = - 1" and v: "?v = s"
    show ?thesis unfolding v by (rule place_without_block [OF inv o [symmetric] e(1)]) (simp add: b)
  next
    assume "0 \<le> b" "b \<notin> owned_blocks s" "blocks_inv ?v (insert b (owned_blocks s))"
    then show ?thesis using n by (simp add: new_place_def o blocks_inv_def)
  qed
  then show ?thesis using e(1) by (auto simp: a)
qed

lemma same_place_block:
  assumes ok: "db_ok s hs X" and e: "entries s e = Some c" and n: "0 \<le> ce_block c \<Longrightarrow> n \<le> of_nat BLOCK_LENGTH"
  shows "new_place s e c n s (ce_block c)"
proof -
  have "ce_block c \<in> owned_blocks s" if "0 \<le> ce_block c" using that e by (auto simp: owned_blocks_def)
  then show ?thesis using ok_blocks(1) [OF ok] e n by (auto simp: new_place_def other_blocks_def insert_absorb)
qed

lemma allocate_block_ok:
  assumes ok: "db_ok s hs X" and e: "entries s e = Some c" and t: "ce_table c = Some t" "dbtables s t = Some d"
  shows "\<exists>b s'. write_allocate_block e n s = Some s' \<and> new_place s e c n s' b"
proof -
  note inv = ok_blocks(1) [OF ok]
  have big: "n \<le> of_nat BLOCK_LENGTH \<longleftrightarrow> \<not> of_nat BLOCK_LENGTH < n" by auto
  consider (none_block) "ce_block c = - 2" "n \<le> of_nat BLOCK_LENGTH" | (none_file) "ce_block c = - 2" "of_nat BLOCK_LENGTH < n"
    | (to_file) "ce_block c \<noteq> - 2" "of_nat BLOCK_LENGTH < n" | (file_block) "ce_block c \<noteq> - 2" "n \<le> of_nat BLOCK_LENGTH" "IS_SINGLE_FILE c"
    | (block) "ce_block c \<noteq> - 2" "n \<le> of_nat BLOCK_LENGTH" "\<not> IS_SINGLE_FILE c"
    unfolding big by blast
  then show ?thesis
  proof cases
    case none_block
    then show ?thesis using new_block_place [OF inv e _ none_block(2)] e by (simp add: write_allocate_block_def)
  next
    case none_file
    then have "write_allocate_block e n s = Some s" using e by (auto simp: write_allocate_block_def)
    moreover have "new_place s e c n s (ce_block c)" by (rule same_place_block [OF ok e]) (simp add: none_file(1))
    ultimately show ?thesis by blast
  next
    case to_file
    show ?thesis
    proof (cases "0 \<le> ce_block c")
      case True
      then have ns: "\<not> IS_SINGLE_FILE c" using ok_blocks(2) [OF ok e] by simp
      have "ce_block c \<in> owned_blocks s" using True e by (auto simp: owned_blocks_def)
      from free_ok [OF inv this] have f: "blocks_inv (db_block_free (ce_block c) s) (other_blocks c (owned_blocks s))"
        using True by (simp add: other_blocks_def)
      from block_free_fields [of "ce_block c" s] obtain fb be bf m where
        bf: "db_block_free (ce_block c) s = s\<lparr>free_blocks := fb, blocks_exist := be, blocks_free := bf, blockfile_size := m\<rparr>" by blast
      let ?v = "(db_block_free (ce_block c) s)\<lparr>entries := (entries s)(e \<mapsto> c\<lparr>ce_block := - 1\<rparr>)\<rparr>"
      have "write_allocate_block e n s = Some ?v" using e to_file True ns by (simp add: write_allocate_block_def bf)
      moreover have "new_place s e c n ?v (- 1)" using f by (simp add: new_place_def bf blocks_inv_def)
      ultimately show ?thesis by blast
    next
      case False
      then have "write_allocate_block e n s = Some (s\<lparr>entries := (entries s)(e \<mapsto> c\<lparr>ce_block := - 1\<rparr>)\<rparr>)"
        using e to_file by (simp add: write_allocate_block_def)
      moreover have "new_place s e c n (s\<lparr>entries := (entries s)(e \<mapsto> c\<lparr>ce_block := - 1\<rparr>)\<rparr>) (- 1)"
        by (rule place_without_block [OF inv _ e]) (use False in \<open>simp_all add: other_blocks_def\<close>)
      ultimately show ?thesis by blast
    qed
  next
    case file_block
    then have neg: "ce_block c < 0" using ok_blocks(2) [OF ok e] by force
    from t obtain path where p: "get_key_path c s = Some path" by (simp add: get_key_path_def)
    let ?s = "s\<lparr>files := files s - {path}\<rparr>"
    have o: "owned_blocks ?s = owned_blocks s" by (simp add: owned_blocks_def)
    have "blocks_inv ?s (owned_blocks ?s)" using inv by (simp add: o blocks_inv_def)
    from new_block_place [OF this _ neg file_block(2), of e] e obtain b s' where
      "(case db_block_allocate_new ?s of (b, s) \<Rightarrow> mod_entry e (\<lambda>c. c\<lparr>ce_block := b\<rparr>) s) = Some s'" "new_place ?s e c n s' b" by auto
    moreover from this(2) have "new_place s e c n s' b" by (cases "0 \<le> b") (simp_all add: new_place_def o)
    ultimately show ?thesis using e file_block p by (auto simp: write_allocate_block_def)
  next
    case block
    then have "write_allocate_block e n s = Some s" using e by (auto simp: write_allocate_block_def)
    moreover have "new_place s e c n s (ce_block c)" by (rule same_place_block [OF ok e]) (rule block(2))
    ultimately show ?thesis by blast
  qed
qed

text \<open>The file of the entry: only its number of the iteration and the directory change.\<close>

lemma entry_path:
  "ce_table c = Some t \<Longrightarrow> dbtables s t = Some d \<Longrightarrow> \<exists>path. get_key_path c s = Some path"
  by (simp add: get_key_path_def)

lemma open_create_ok:
  assumes "entries s e = Some c" "ce_table c = Some t" "dbtables s t = Some d"
  shows "\<exists>fd F i. db_entry_open_create k e newfd s = Some (fd, s\<lparr>files := F, entries := (entries s)(e \<mapsto> c\<lparr>ce_it := i\<rparr>)\<rparr>)"
  using assms
proof (induction k arbitrary: s c)
  case 0
  then have "s = s\<lparr>files := files s, entries := (entries s)(e \<mapsto> c\<lparr>ce_it := ce_it c\<rparr>)\<rparr>" by (simp add: fun_upd_idem)
  then show ?case by (metis db_entry_open_create.simps(1))
next
  case (Suc k)
  from entry_path [OF Suc.prems(2,3)] obtain path where p: "get_key_path c s = Some path" by blast
  have o: "db_entry_open e True newfd s = Some (if path \<in> files s then (- 1, s) else (newfd, s\<lparr>files := insert path (files s)\<rparr>))"
    using Suc.prems(1) p by (simp add: db_entry_open_def)
  have next_try: "\<exists>fd F i. do { s \<leftarrow> mod_entry e (\<lambda>c. c\<lparr>ce_it := ce_it c + 1\<rparr>) (s\<lparr>files := G\<rparr>); db_entry_open_create k e newfd s }
      = Some (fd, s\<lparr>files := F, entries := (entries s)(e \<mapsto> c\<lparr>ce_it := i\<rparr>)\<rparr>)" for G
  proof -
    let ?c = "c\<lparr>ce_it := ce_it c + 1\<rparr>"
    let ?s = "s\<lparr>files := G, entries := (entries s)(e \<mapsto> ?c)\<rparr>"
    have "mod_entry e (\<lambda>c. c\<lparr>ce_it := ce_it c + 1\<rparr>) (s\<lparr>files := G\<rparr>) = Some ?s" using Suc.prems(1) by simp
    moreover have "entries ?s e = Some ?c" "ce_table ?c = Some t" "dbtables ?s t = Some d" using Suc.prems(2,3) by simp_all
    from Suc.IH [OF this] obtain fd F i where
      "db_entry_open_create k e newfd ?s = Some (fd, ?s\<lparr>files := F, entries := (entries ?s)(e \<mapsto> ?c\<lparr>ce_it := i\<rparr>)\<rparr>)" by blast
    moreover have "?s\<lparr>files := F, entries := (entries ?s)(e \<mapsto> ?c\<lparr>ce_it := i\<rparr>)\<rparr> =
      s\<lparr>files := F, entries := (entries s)(e \<mapsto> c\<lparr>ce_it := i\<rparr>)\<rparr>" for F i by simp
    ultimately have "do { s \<leftarrow> mod_entry e (\<lambda>c. c\<lparr>ce_it := ce_it c + 1\<rparr>) (s\<lparr>files := G\<rparr>); db_entry_open_create k e newfd s }
      = Some (fd, s\<lparr>files := F, entries := (entries s)(e \<mapsto> c\<lparr>ce_it := i\<rparr>)\<rparr>)" by simp
    then show ?thesis by blast
  qed
  show ?case
  proof (cases "path \<in> files s")
    case True
    then have "db_entry_open_create (Suc k) e newfd s =
        do { s \<leftarrow> mod_entry e (\<lambda>c. c\<lparr>ce_it := ce_it c + 1\<rparr>) (s\<lparr>files := files s\<rparr>); db_entry_open_create k e newfd s }"
      by (simp add: o)
    then show ?thesis using next_try [of "files s"] by metis
  next
    case False
    show ?thesis
    proof (cases "0 \<le> newfd")
      case True
      have "s\<lparr>files := insert path (files s)\<rparr> =
        s\<lparr>files := insert path (files s), entries := (entries s)(e \<mapsto> c\<lparr>ce_it := ce_it c\<rparr>)\<rparr>"
        using Suc.prems(1) by (simp add: fun_upd_idem)
      moreover have "db_entry_open_create (Suc k) e newfd s = Some (newfd, s\<lparr>files := insert path (files s)\<rparr>)"
        using True False by (simp add: o)
      ultimately show ?thesis by metis
    next
      case neg: False
      then have "db_entry_open_create (Suc k) e newfd s = do {
          s \<leftarrow> mod_entry e (\<lambda>c. c\<lparr>ce_it := ce_it c + 1\<rparr>) (s\<lparr>files := insert path (files s)\<rparr>); db_entry_open_create k e newfd s }"
        using False by (simp add: o)
      then show ?thesis using next_try [of "insert path (files s)"] by metis
    qed
  qed
qed

lemma target_open_ok:
  assumes "tgt_entry tgt = Some e" "entries s e = Some c" "ce_table c = Some t" "dbtables s t = Some d"
  shows "\<exists>tgt' F i. db_target_open fd tgt True newfd s = Some (tgt', s\<lparr>files := F, entries := (entries s)(e \<mapsto> c\<lparr>ce_it := i\<rparr>)\<rparr>)
    \<and> tgt_entry tgt' = Some e \<and> tgt_end_position tgt' = tgt_position tgt' + uint (ce_data_length c)
    \<and> tgt_position tgt' = (if IS_SINGLE_FILE c then 0 else ce_block c * int BLOCK_LENGTH)"
proof (cases "IS_SINGLE_FILE c")
  case True
  from open_create_ok [OF assms(2-4)] obtain f F i where
    o: "db_entry_open_create 65500 e newfd s = Some (f, s\<lparr>files := F, entries := (entries s)(e \<mapsto> c\<lparr>ce_it := i\<rparr>)\<rparr>)" by blast
  have "db_target_open fd tgt True newfd s = Some (tgt\<lparr>tgt_position := 0, tgt_fd := f, tgt_end_position := uint (ce_data_length c)\<rparr>,
      s\<lparr>files := F, entries := (entries s)(e \<mapsto> c\<lparr>ce_it := i\<rparr>)\<rparr>)"
    unfolding db_target_open_def using assms(1,2) True by (simp add: o del: db_entry_open_create.simps)
  then show ?thesis using assms(1) True by auto
next
  case False
  have "s = s\<lparr>files := files s, entries := (entries s)(e \<mapsto> c\<lparr>ce_it := ce_it c\<rparr>)\<rparr>" using assms(2) by (simp add: fun_upd_idem)
  moreover have "db_target_open fd tgt True newfd s = Some (tgt\<lparr>tgt_fd := fd, tgt_position := ce_block c * int BLOCK_LENGTH,
      tgt_end_position := ce_block c * int BLOCK_LENGTH + uint (ce_data_length c)\<rparr>, s)"
    using assms(1,2) False by (simp add: db_target_open_def)
  ultimately show ?thesis using assms(1) False
    by (intro exI [of _ "tgt\<lparr>tgt_fd := fd, tgt_position := ce_block c * int BLOCK_LENGTH,
      tgt_end_position := ce_block c * int BLOCK_LENGTH + uint (ce_data_length c)\<rparr>"] exI [of _ "files s"] exI [of _ "ce_it c"]) auto
qed

definition allocated :: "u32 \<Rightarrow> cache_target \<Rightarrow> cache_entry \<Rightarrow> cache_entry \<Rightarrow> bool" where
  "allocated n tgt c c' \<longleftrightarrow> ce_data_length c' = n \<and> (if ce_block c' < 0 then True else n \<le> of_nat BLOCK_LENGTH)
     \<and> ce_key c' = ce_key c \<and> ce_key_length c' = ce_key_length c \<and> ce_hash c' = ce_hash c \<and> ce_expires c' = ce_expires c
     \<and> ce_table c' = ce_table c \<and> ce_deleted c' = ce_deleted c \<and> ce_writing c'
     \<and> tgt_end_position tgt = tgt_position tgt + uint n
     \<and> tgt_position tgt = (if of_nat BLOCK_LENGTH < n then 0 else ce_block c' * int BLOCK_LENGTH)"

lemma write_allocate_ok:
  assumes ok: "db_ok s hs X" and l: "lru_ok s xs" and e: "entries s e = Some c" "ce_writing c" and tg: "tgt_entry tgt = Some e"
    and t: "ce_table c = Some t" "dbtables s t = Some d"
  shows "\<exists>tgt' s' c'. db_target_write_allocate fd tgt n newfd s = Some (tgt', s') \<and> db_ok s' hs X \<and> lru_ok s' xs
    \<and> entries s' = (entries s)(e \<mapsto> c') \<and> dbtables s' = dbtables s \<and> allocated n tgt' c c' \<and> tgt_entry tgt' = Some e
    \<and> max_size s' = max_size s"
proof -
  from allocate_block_ok [OF ok e(1) t, of n] obtain b s1 where
    s1: "write_allocate_block e n s = Some s1" "new_place s e c n s1 b" by blast
  define b' where "b' = (if b = - 2 then - 1 else b)"
  define z where "z = (if b = - 2 then db_size_bytes s1 + ucast n else db_size_bytes s1 + ucast (n - ce_data_length c))"
  let ?c = "c\<lparr>ce_block := b', ce_data_length := n\<rparr>"
  define s2 where "s2 = s1\<lparr>db_size_bytes := z, entries := (entries s)(e \<mapsto> ?c)\<rparr>"
  have f1: "entries s1 = (entries s)(e \<mapsto> c\<lparr>ce_block := b\<rparr>)" "dbtables s1 = dbtables s" using s1(2) by (simp_all add: new_place_def)
  have run: "db_target_write_allocate fd tgt n newfd s = db_target_open fd tgt True newfd s2"
    using tg s1(1) f1 by (cases "b = - 2") (simp_all add: db_target_write_allocate_def s2_def b'_def z_def)
  have e2: "entries s2 e = Some ?c" "ce_table ?c = Some t" "dbtables s2 t = Some d" using t f1(2) by (simp_all add: s2_def)
  from target_open_ok [OF tg e2] obtain tgt' F i where
    o: "db_target_open fd tgt True newfd s2 = Some (tgt', s2\<lparr>files := F, entries := (entries s2)(e \<mapsto> ?c\<lparr>ce_it := i\<rparr>)\<rparr>)"
      "tgt_entry tgt' = Some e" "tgt_end_position tgt' = tgt_position tgt' + uint (ce_data_length ?c)"
      "tgt_position tgt' = (if IS_SINGLE_FILE ?c then 0 else ce_block ?c * int BLOCK_LENGTH)" by blast
  define c' where "c' = ?c\<lparr>ce_it := i\<rparr>"
  define s3 where "s3 = s2\<lparr>files := F, entries := (entries s2)(e \<mapsto> c')\<rparr>"
  have f3: "entries s3 = (entries s)(e \<mapsto> c')" "dbtables s3 = dbtables s" "tables s3 = tables s" "next_ptr s3 = next_ptr s"
    "lru_head s3 = lru_head s" "lru_tail s3 = lru_tail s" "max_size s3 = max_size s"
    using s1(2) by (simp_all add: s3_def s2_def new_place_def)
  have bb: "0 \<le> b' \<longleftrightarrow> 0 \<le> b" "0 \<le> b \<Longrightarrow> b' = b" by (auto simp: b'_def)
  have cb: "ce_block c' = b'" "ce_data_length c' = n" by (simp_all add: c'_def)
  have "blocks_ok s3"
  proof (rule moved_blocks_ok [OF ok e(1) f3(1)])
    show "0 \<le> ce_block c' \<Longrightarrow> \<not> IS_SINGLE_FILE c'" "0 \<le> ce_block c' \<Longrightarrow> ce_block c' \<notin> other_blocks c (owned_blocks s)"
      using s1(2) bb by (auto simp: cb new_place_def IS_SINGLE_FILE_def)
    have "blocks_inv s3 U = blocks_inv s1 U" for U by (simp add: s3_def s2_def blocks_inv_def)
    then show "blocks_inv s3 (if 0 \<le> ce_block c' then insert (ce_block c') (other_blocks c (owned_blocks s)) else other_blocks c (owned_blocks s))"
      using s1(2) bb by (cases "0 \<le> b") (simp_all add: cb new_place_def)
  qed
  moreover have "map_option view (entries s3 x) = map_option view (entries s x)" for x
    using e(1) by (simp add: f3(1) view_def c'_def)
  ultimately have "db_ok s3 hs X" by (intro view_ok [OF ok]) (simp_all add: f3)
  moreover have "lru_ok s3 xs"
  proof -
    have "lru_inv s3 xs = lru_inv s xs" by (rule lru_inv_cong) (use e(1) in \<open>auto simp: f3 lnk_def c'_def\<close>)
    moreover have "idle_entries s3 = idle_entries s" using e by (auto simp: idle_entries_def f3 c'_def)
    ultimately show ?thesis using l by (simp add: lru_ok_def)
  qed
  moreover have "allocated n tgt' c c'"
    using o(3,4) e(2) s1(2) bb by (auto simp: allocated_def c'_def IS_SINGLE_FILE_def new_place_def)
  moreover have "db_target_write_allocate fd tgt n newfd s = Some (tgt', s3)" using run o(1) by (simp add: s3_def c'_def)
  ultimately show ?thesis using o(2) f3(1,2,7) by blast
qed

section \<open>Properties\<close>


text \<open>One table with one entry that a connection is writing.\<close>

definition pending_entry :: cache_entry where
  "pending_entry = sample_entry\<lparr>ce_writing := True, ce_refs := 1, ce_data_length := 0, ce_block := - 2\<rparr>"

definition pending_db :: db_state where
  "pending_db = empty_db\<lparr>entries := [2 \<mapsto> pending_entry], dbtables := [1 \<mapsto> sample_table], next_ptr := 3,
     tables := one_key (hash_string ''t'') 1, db_keys := 1\<rparr>"

lemma pending_fields:
  "ce_table pending_entry = Some 1" "ce_hash pending_entry = hash_string ''k''" "\<not> ce_deleted pending_entry" "ce_writing pending_entry"
  "ce_block pending_entry = - 2" "ce_refs pending_entry = 1" "ce_data_length pending_entry = 0"
  by (simp_all add: pending_entry_def sample_entry_def)

lemma pending_ok: "db_ok pending_db [EntryH 2] None" "lru_ok pending_db []"
proof -
  have o: "owned_blocks pending_db = {}" by (auto simp: owned_blocks_def pending_db_def pending_fields)
  have "tables_ok pending_db" by (simp add: tables_ok_def pending_db_def sample_table_def one_key)
  moreover have "sets_ok pending_db"
    by (simp add: sets_ok_def pending_db_def sample_table_def pending_fields one_key)
  moreover have "live_ok pending_db"
    by (simp add: live_ok_def pending_db_def sample_table_def pending_fields one_key)
  moreover have "refs_ok pending_db [EntryH 2] None"
    by (simp add: refs_ok_def pending_db_def sample_table_def pending_fields one_key entry_refs_def table_refs_def own_ref_def table_of_def)
  moreover have "blocks_ok pending_db"
    unfolding blocks_ok_def o by (auto simp: pending_db_def pending_fields empty_db_def blocks_inv_def)
  moreover have "fresh_ok pending_db" by (simp add: fresh_ok_def pending_db_def empty_db_def)
  ultimately show "db_ok pending_db [EntryH 2] None" by (simp add: db_ok_def)
  show "lru_ok pending_db []"
    by (auto simp: lru_ok_def lru_inv_def idle_entries_def pending_db_def pending_fields empty_db_def)
qed

definition pending_target :: cache_target where
  "pending_target = \<lparr>tgt_entry = Some 2, tgt_position = 0, tgt_end_position = 0, tgt_fd = - 1\<rparr>"

lemma pending_look:
  "entries pending_db 2 = Some pending_entry" "tgt_entry pending_target = Some 2" "dbtables pending_db 1 = Some sample_table"
  by (simp_all add: pending_db_def pending_target_def)


lemma table_gone_entry:
  "db_entry_handle_delete e s = Some (True, s') \<Longrightarrow> \<exists>c. entries s' e = Some c \<and> ce_table c = None"
  by (auto simp: db_entry_handle_delete_def db_entry_handle_delete_at_def handle_delete_table_def mod_entry_def
      split: if_split_asm elim!: bind_SomeE)

lemma open_create_none:
  "0 < k \<Longrightarrow> entries s e = Some c \<Longrightarrow> ce_table c = None \<Longrightarrow> db_entry_open_create k e newfd s = None"
  by (cases k) (simp_all add: db_entry_open_def get_key_path_def)

text \<open>
  The allocation follows a null pointer when the entry was the last of its table and another request deleted it after
  the write began and the length needs a file: the deletion clears the table of the entry, which the name of the file
  is made of.
\<close>

theorem allocation_after_deletion_is_undefined:
  assumes ok: "db_ok s hs None" "lru_ok s xs" and e: "entries s e = Some c" "\<not> ce_deleted c" "0 < entry_refs hs e"
    and w: "ce_block c = - 2" "tgt_entry tgt = Some e" "ce_table c = Some t"
    and last1: "dom (stored s t) = {ce_hash c}" and big: "of_nat BLOCK_LENGTH < n"
  shows "\<exists>s'. db_entry_handle_delete e s = Some (True, s') \<and> db_ok s' hs None
    \<and> db_target_write_allocate fd tgt n newfd s' = None"
proof -
  from handle_delete_ok [OF ok e w(3)] obtain b s1 where s1: "db_entry_handle_delete e s = Some (b, s1)" "db_ok s1 hs None"
    "deletion e c t s s1" "b \<longleftrightarrow> stored s1 t = Map.empty" by blast
  have "stored s1 t = Map.empty" using s1(3) last1 by (auto simp: deletion_def dom_def fun_eq_iff)
  with s1(4) have b by simp
  with s1(1) have gone: "db_entry_handle_delete e s = Some (True, s1)" by simp
  from table_gone_entry [OF gone] obtain c1 where c1: "entries s1 e = Some c1" "ce_table c1 = None" by blast
  with s1(3) have "core c1 = core (c\<lparr>ce_deleted := True, ce_table := None\<rparr>)" by (auto simp: deletion_def)
  from core_eqD [OF this] w(1) have bl: "ce_block c1 = - 2" by simp
  have "write_allocate_block e n s1 = Some s1" using c1 bl big by (auto simp: write_allocate_block_def)
  then have "db_target_write_allocate fd tgt n newfd s1 = None"
    using w(2) c1 bl big
    by (simp add: db_target_write_allocate_def db_target_open_def IS_SINGLE_FILE_def open_create_none del: db_entry_open_create.simps)
  with gone s1(2) show ?thesis by blast
qed

theorem allocation_after_deletion_is_undefined_witness:
  "\<exists>s. db_entry_handle_delete 2 pending_db = Some (True, s) \<and> db_target_write_allocate 3 pending_target 5000 7 s = None"
proof -
  have st: "dom (stored pending_db 1) = {ce_hash pending_entry}"
    by (auto simp: stored_def hash_set_of_def pending_db_def sample_table_def one_key pending_fields(2) dom_def split: if_splits)
  have b: "of_nat BLOCK_LENGTH < (5000 :: u32)" by (simp add: BLOCK_LENGTH_def)
  from allocation_after_deletion_is_undefined [OF pending_ok pending_look(1) pending_fields(3) _ pending_fields(5) pending_look(2) pending_fields(1) st b]
  show ?thesis by (auto simp: entry_refs_def)
qed

end
