(* ===== verification/DbRuns.thy ===== *)
theory DbRuns
  imports DbAlloc
begin

text \<open>
  The calls of the database engine that requests make, as the steps of a machine whose state is the database and the
  handles that connections hold: every sequence of them keeps the invariant and meets no undefined behaviour.
\<close>

section \<open>Writing with garbage collection\<close>

lemma get_write_ok:
  assumes ok: "db_ok s hs None" and l: "lru_ok s xs" and n: "length hs + 2 < 2 ^ 14"
    and h: "hash_set_of t s = Some h" "kh_size h < CAP" and m: "max_size s = 0"
  shows "\<exists>s' ys. db_entry_get_write env t key s = Some (if being_written s t key then None else Some (next_ptr s), s')
    \<and> lru_ok s' ys \<and> max_size s' = 0
    \<and> (if being_written s t key then db_ok s' hs None
       else db_ok s' (BareH (next_ptr s) # hs) None \<and> stored s' t (hash_string key) = Some (next_ptr s)
         \<and> (\<exists>c. entries s' (next_ptr s) = Some c \<and> ce_key c = key \<and> ce_key_length c = bits14 (length key)
              \<and> ce_writing c \<and> \<not> ce_deleted c \<and> ce_table c = Some t \<and> ce_expires c = 0 \<and> ce_block c = - 2)
         \<and> next_ptr s' = next_ptr s + 1
         \<and> (\<forall>x c. entries s x = Some c \<and> \<not> expired s c \<and> stored s t (hash_string key) \<noteq> Some x \<longrightarrow>
              map_option core (entries s' x) = Some (core c)))"
proof -
  have n1: "length hs + 1 < 2 ^ 14" using n by simp
  from get_write_entry_ok [OF ok l n1 h, of key] obtain s1 where
    s1: "get_write_entry t key s = Some (if being_written s t key then None else Some (next_ptr s), s1)"
    "if being_written s t key then db_ok s1 hs None \<and> lru_ok s1 xs \<and> entries s1 = entries s \<and> dbtables s1 = dbtables s
       else write_post s hs xs t key s1" "max_size s1 = max_size s" "now_sec s1 = now_sec s" by blast
  show ?thesis
  proof (cases "being_written s t key")
    case True
    then show ?thesis using s1 m by (auto simp: get_write_split)
  next
    case False
    let ?e = "next_ptr s"
    from s1(2) False have p: "write_post s hs xs t key s1" by simp
    then obtain c where c: "entries s1 ?e = Some c" "ce_key c = key" "ce_key_length c = bits14 (length key)" "ce_writing c"
      "\<not> ce_deleted c" "ce_table c = Some t" "ce_expires c = 0" "ce_block c = - 2" by (auto simp: write_post_def Let_def)
    have ok1: "db_ok s1 (BareH ?e # hs) None" and st: "stored s1 t (hash_string key) = Some ?e" and np: "next_ptr s1 = ?e + 1"
      using p by (simp_all add: write_post_def Let_def)
    obtain ys where ys: "lru_ok s1 ys" using p by (auto simp: write_post_def Let_def split: option.splits)
    have n2: "length (BareH ?e # hs) + 1 < 2 ^ 14" using n by simp
    have "\<exists>s2. db_entry_get_write env t key s = Some (Some ?e, s2) \<and> collected (BareH ?e # hs) s1 s2"
    proof (cases "db_stats_inserts s1 mod of_nat DB_LRU_EVERY = 0")
      case True
      from lru_gc_ok [OF ok1 ys n2, of env] m s1(3) obtain s2 where "db_lru_gc env s1 = Some s2" "collected (BareH ?e # hs) s1 s2"
        by auto
      then show ?thesis using s1(1) False True by (simp add: get_write_split)
    next
      case F: False
      then show ?thesis using s1(1) False ok1 ys by (auto simp: get_write_split collected_def)
    qed
    then obtain s2 zs where s2: "db_entry_get_write env t key s = Some (Some ?e, s2)" "db_ok s2 (BareH ?e # hs) None" "lru_ok s2 zs"
      "gc_kept s1 s2" by (auto simp: collected_def)
    have keep: "map_option core (entries s2 x) = Some (core cx)" if "entries s1 x = Some cx" "\<not> expired s1 cx" for x cx
      using s2(4) that by (auto simp: gc_kept_def fresh_kept_def expired_def)
    have env: "max_size s2 = max_size s1" "next_ptr s2 = ?e + 1" using s2(4) np by (simp_all add: gc_kept_def fresh_kept_def same_env_def)
    from keep [OF c(1)] c(7) obtain c2 where c2: "entries s2 ?e = Some c2" "core c2 = core c" by (auto simp: expired_def)
    note cc = core_eqD [OF c2(2)]
    from stored_entry [OF ok1 st] c(1) have h: "ce_hash c = hash_string key" by auto
    have "\<not> ce_deleted c2" using c(5) cc by simp
    from ok_live [OF s2(2) c2(1) this] c(6) cc h have st2: "stored s2 t (hash_string key) = Some ?e"
      by (auto simp: stored_def hash_set_of_def)
    have old: "map_option core (entries s2 x) = Some (core cx)"
      if "entries s x = Some cx" "\<not> expired s cx" "stored s t (hash_string key) \<noteq> Some x" for x cx
    proof -
      have "x \<noteq> ?e" using that(1) ok by (auto simp: db_ok_def fresh_ok_def)
      with p that(3) have "map_option core (entries s1 x) = map_option core (entries s x)" by (simp add: write_post_def Let_def)
      with that(1) obtain c1 where c1: "entries s1 x = Some c1" "core c1 = core cx" by auto
      have "\<not> expired s1 c1" using that(2) core_eqD [OF c1(2)] s1(4) by (simp add: expired_def)
      from keep [OF c1(1) this] show ?thesis by (simp add: c1(2))
    qed
    have "ce_key c2 = key" "ce_key_length c2 = bits14 (length key)" "ce_writing c2" "ce_table c2 = Some t" "ce_expires c2 = 0" "ce_block c2 = - 2"
      using c cc by simp_all
    then show ?thesis using s2(1-3) env m s1(3) c2(1) \<open>\<not> ce_deleted c2\<close> st2 old False
      by (intro exI [of _ s2] exI [of _ zs]) simp
  qed
qed

section \<open>Tables\<close>

lemma free_hash:
  assumes "kh_inv CAP h"
  shows "\<exists>x. kh_lookup h x = None"
proof (rule ccontr)
  assume "\<not> ?thesis"
  then have "dom (kh_lookup h) = UNIV" by auto
  moreover have "kh_keys h = dom (kh_lookup h)" using assms by (simp add: kh_inv_def kh_full_def)
  ultimately have k: "kh_keys h = (UNIV :: u32 set)" by simp
  have "card (kh_keys h) \<le> card (kh_live h)" by (simp add: kh_keys_def card_image_le)
  moreover have "card (kh_live h) \<le> CAP"
  proof (cases "h = kh_init")
    case False
    then show ?thesis using assms by (simp add: kh_inv_def kh_wf_def kh_counts_def)
  qed (simp add: kh_live_def kh_init_def)
  ultimately have "card (UNIV :: u32 set) \<le> 2 ^ 28" by (simp add: k CAP_def)
  then show False by (simp add: card_word)
qed

lemma probe_step:
  assumes ok: "db_ok s hs X" and t: "kh_lookup (tables s) hash = Some t"
  shows "\<exists>d. dbtables s t = Some d \<and> \<not> tbl_deleted d \<and> db_table_probe name hash s =
    (if key_differs (unat (tbl_key_length d)) (tbl_key d) name then db_table_probe name (hash + 1) s else Some (Inr t))"
proof -
  from kh_get_live [OF ok_tables(1) [OF ok] t] obtain k where k: "kh_get (tables s) hash = Some k" "k < n_buckets (tables s)"
    "kh_value (tables s) k = Some t" by metis
  from ok_tables(2) [OF ok t] obtain d where "dbtables s t = Some d" "\<not> tbl_deleted d" by blast
  then show ?thesis using k by (subst db_table_probe.simps) auto
qed

lemma probe_free:
  "db_ok s hs X \<Longrightarrow> kh_lookup (tables s) hash = None \<Longrightarrow> db_table_probe name hash s = Some (Inl hash)"
  using kh_get_absent [OF ok_tables(1)] by (subst db_table_probe.simps) simp

text \<open>What the probe finds: a free hash, or a live table of that name.\<close>

definition probed :: "db_state \<Rightarrow> string \<Rightarrow> u32 + tptr \<Rightarrow> bool" where
  "probed s name r \<longleftrightarrow> (case r of Inl hash \<Rightarrow> kh_lookup (tables s) hash = None
     | Inr t \<Rightarrow> \<exists>d. dbtables s t = Some d \<and> \<not> tbl_deleted d \<and> \<not> key_differs (unat (tbl_key_length d)) (tbl_key d) name)"

lemma probe_ok:
  assumes ok: "db_ok s hs X"
  shows "\<exists>r. db_table_probe name hash s = Some r \<and> probed s name r"
proof -
  from free_hash [OF ok_tables(1) [OF ok]] obtain x where "kh_lookup (tables s) x = None" by blast
  moreover have "x = hash + of_nat (unat (x - hash))" by simp
  ultimately obtain i where "kh_lookup (tables s) (hash + of_nat i) = None" by metis
  then show ?thesis
  proof (induction i arbitrary: hash)
    case 0
    then show ?case using probe_free [OF ok] by (simp add: probed_def)
  next
    case (Suc i)
    show ?case
    proof (cases "kh_lookup (tables s) hash")
      case None
      then show ?thesis using probe_free [OF ok] by (simp add: probed_def)
    next
      case (Some t)
      from probe_step [OF ok Some, of name] obtain d where d: "dbtables s t = Some d" "\<not> tbl_deleted d"
        "db_table_probe name hash s =
          (if key_differs (unat (tbl_key_length d)) (tbl_key d) name then db_table_probe name (hash + 1) s else Some (Inr t))"
        by blast
      have "kh_lookup (tables s) (hash + 1 + of_nat i) = None" using Suc.prems by (simp add: add.assoc)
      from Suc.IH [OF this] d show ?thesis
        by (cases "key_differs (unat (tbl_key_length d)) (tbl_key d) name") (auto simp: probed_def)
    qed
  qed
qed

lemma table_incref_ok:
  assumes ok: "db_ok s hs None" and t: "dbtables s t = Some d" "\<not> tbl_deleted d" and n: "length hs + 1 < 2 ^ 14"
  shows "\<exists>s'. db_table_incref t s = Some s' \<and> db_ok s' (TableH t # hs) None \<and> lru_ok s' xs = lru_ok s xs
    \<and> entries s' = entries s \<and> (\<forall>x. hash_set_of x s' = hash_set_of x s) \<and> max_size s' = max_size s"
proof -
  let ?s = "s\<lparr>dbtables := (dbtables s)(t \<mapsto> d\<lparr>tbl_refs := tbl_refs d + 1\<rparr>)\<rparr>"
  have u: "unat (tbl_refs d) = own_ref None t d + table_refs s hs t" using ok_refs(6) [OF ok t] .
  have "own_ref None t d \<le> 1" by (simp add: own_ref_def split: option.split)
  moreover have "table_refs s hs t \<le> length hs" by (simp add: table_refs_def)
  ultimately have "unat (tbl_refs d + 1) = own_ref None t d + table_refs s (TableH t # hs) t"
    using u n by (simp add: unat_word_ariths)
  then have "db_ok ?s (TableH t # hs) None"
    by (intro upd_table_ok [OF ok t(1)]) (use t(2) n in auto)
  moreover have "lru_ok ?s xs = lru_ok s xs" by simp
  moreover have "\<forall>x. hash_set_of x ?s = hash_set_of x s" using t by (simp add: hash_set_of_def)
  ultimately show ?thesis using t by (simp add: db_table_incref_def)
qed

lemma table_close_ok:
  assumes ok: "db_ok s (TableH t # hs) None"
  shows "\<exists>s'. db_table_close t s = Some s' \<and> db_ok s' hs None \<and> (lru_ok s xs \<longrightarrow> lru_ok s' xs) \<and> entries s' = entries s \<and> max_size s' = max_size s"
proof -
  have "0 < table_refs s (TableH t # hs) t" by simp
  with ok_refs(7) [OF ok] obtain d where d: "dbtables s t = Some d" by blast
  have "length hs < 2 ^ 14" using ok by (simp add: db_ok_def)
  from table_deref_ok [OF ok d _ _ _ this, of xs] show ?thesis
    by (auto simp: db_table_close_def same_sets_def same_env_def)
qed

lemma new_table_ok:
  assumes ok: "db_ok s hs None" and n: "length hs + 1 < 2 ^ 14"
    and d: "tbl_hash d = hash" "cache_hash_set d = Some kh_init" "tbl_refs d = 1" "\<not> tbl_deleted d"
    and T: "kh_inv CAP T" "kh_lookup T = (kh_lookup (tables s))(hash \<mapsto> next_ptr s)"
  shows "db_ok (s\<lparr>next_ptr := Suc (next_ptr s), dbtables := (dbtables s)(next_ptr s \<mapsto> d), tables := T\<rparr>) (TableH (next_ptr s) # hs) None"
    (is "db_ok ?s (TableH ?t # hs) None")
proof -
  have fresh: "dbtables s ?t = None" using ok by (simp add: db_ok_def fresh_ok_def)
  have nr: "table_refs s hs ?t = 0" using ok_refs(7) [OF ok, of ?t] fresh by auto
  have ts: "dbtables ?s x = (if x = ?t then Some d else dbtables s x)" for x by simp
  have tr: "table_refs ?s hs x = table_refs s hs x" for x by (rule table_refs_cong) (simp add: table_of_def)
  have e: "kh_lookup (kh_init :: eptr kh) = Map.empty" by (rule ext) simp
  have "tables_ok ?s"
    unfolding tables_ok_def
  proof (intro conjI allI impI)
    fix x t' assume "kh_lookup (tables ?s) x = Some t'"
    then have "x = hash \<and> t' = ?t \<or> kh_lookup (tables s) x = Some t'" using T(2) by (auto split: if_splits)
    then show "\<exists>d. dbtables ?s t' = Some d \<and> tbl_hash d = x \<and> \<not> tbl_deleted d"
    proof
      assume "kh_lookup (tables s) x = Some t'"
      from ok_tables(2) [OF ok this] fresh show ?thesis by (cases "t' = ?t") (auto simp: ts)
    qed (use d in simp)
  qed (use T(1) in simp)
  moreover have "sets_ok ?s"
  proof (rule sets_okI)
    fix x d' g y c assume a: "dbtables ?s x = Some d'" "cache_hash_set d' = Some g" "kh_lookup g y = Some c"
    then have "dbtables s x = Some d'" using d(2) e by (auto simp: ts split: if_splits)
    from ok_set(2) [OF ok this a(2,3)]
    show "\<exists>ca. entries ?s c = Some ca \<and> ce_hash ca = y \<and> ce_table ca = Some x \<and> \<not> ce_deleted ca" by simp
  qed (use ok_set_None [OF ok] ok_set(1) [OF ok] d kh_init_inv in \<open>auto simp: ts split: if_splits\<close>)
  moreover have "live_ok ?s"
    unfolding live_ok_def
  proof (intro allI impI)
    fix x cx assume "entries ?s x = Some cx \<and> \<not> ce_deleted cx"
    then have "entries s x = Some cx" "\<not> ce_deleted cx" by simp_all
    from ok_live [OF ok this] obtain t' d' g where g: "ce_table cx = Some t'" "dbtables s t' = Some d'"
      "cache_hash_set d' = Some g" "kh_lookup g (ce_hash cx) = Some x" by blast
    with fresh have "t' \<noteq> ?t" by auto
    with g show "\<exists>t d h. ce_table cx = Some t \<and> dbtables ?s t = Some d \<and> cache_hash_set d = Some h \<and> kh_lookup h (ce_hash cx) = Some x"
      by (simp add: ts)
  qed
  moreover have "refs_ok ?s (TableH ?t # hs) None"
  proof -
    have own: "own_ref None ?t d = 0" using d(2) e by (simp add: own_ref_def)
    have "dbtables ?s x \<noteq> None" if "0 < table_refs ?s (TableH ?t # hs) x" for x
      using that ok_refs(7) [OF ok, of x] by (cases "x = ?t") (auto simp: ts tr)
    then show ?thesis
      using ok_refs(1-6) [OF ok] d(3,4) nr own unfolding refs_ok_def by (auto simp: ts tr)
  qed
  moreover have "blocks_ok ?s" by (rule blocks_ok_same [OF ok]) (simp_all add: owned_blocks_def)
  moreover have "fresh_ok ?s" using ok by (auto simp: db_ok_def fresh_ok_def)
  ultimately show ?thesis using n by (simp add: db_ok_def)
qed

lemma table_read_ok:
  assumes ok: "db_ok s hs None" and n: "length hs + 1 < 2 ^ 14"
  shows "\<exists>r s'. db_table_get_read name s = Some (r, s') \<and> (lru_ok s xs \<longrightarrow> lru_ok s' xs) \<and> max_size s' = max_size s
    \<and> (case r of None \<Rightarrow> s' = s | Some t \<Rightarrow> db_ok s' (TableH t # hs) None)"
proof -
  from probe_ok [OF ok, of name "hash_string name"] obtain r where
    r: "db_table_probe name (hash_string name) s = Some r" "probed s name r" by blast
  show ?thesis
  proof (cases r)
    case (Inl x)
    then show ?thesis using r ok by (auto simp: db_table_get_read_def)
  next
    case (Inr t)
    with r(2) obtain d where d: "dbtables s t = Some d" "\<not> tbl_deleted d" by (auto simp: probed_def)
    from table_incref_ok [OF ok d n, of xs] obtain s1 where "db_table_incref t s = Some s1"
      "db_ok s1 (TableH t # hs) None" "lru_ok s1 xs = lru_ok s xs" "max_size s1 = max_size s" by blast
    then show ?thesis using r(1) Inr by (auto simp: db_table_get_read_def)
  qed
qed

lemma table_write_ok:
  assumes ok: "db_ok s hs None" and n: "length hs + 1 < 2 ^ 14" and c: "kh_size (tables s) < CAP"
  shows "\<exists>t s'. db_table_get_write name s = Some (t, s') \<and> (lru_ok s xs \<longrightarrow> lru_ok s' xs) \<and> max_size s' = max_size s
    \<and> db_ok s' (TableH t # hs) None"
proof -
  from probe_ok [OF ok, of name "hash_string name"] obtain r where
    r: "db_table_probe name (hash_string name) s = Some r" "probed s name r" by blast
  show ?thesis
  proof (cases r)
    case (Inl x)
    have CAP: "CAP \<le> 2 ^ 28" by (simp add: CAP_def)
    from kh_store_cap [OF ok_tables(1) [OF ok] CAP c, of x "next_ptr s"] obtain h1 k q T where
      T: "kh_put (tables s) x = Some (h1, k, q)" "kh_set_value h1 k (next_ptr s) = Some T" "kh_inv CAP T"
        "kh_lookup T = (kh_lookup (tables s))(x \<mapsto> next_ptr s)" by blast
    let ?d = "\<lparr>tbl_hash = x, tbl_key = name, tbl_key_length = of_nat (length name),
            cache_hash_set = Some kh_init, tbl_refs = 1, tbl_deleted = False\<rparr>"
    let ?s = "s\<lparr>next_ptr := Suc (next_ptr s), dbtables := (dbtables s)(next_ptr s \<mapsto> ?d), tables := T\<rparr>"
    have "db_table_get_write name s = Some (next_ptr s, ?s)"
      using r(1) Inl T(1,2) by (simp add: db_table_get_write_def Let_def)
    moreover have "db_ok ?s (TableH (next_ptr s) # hs) None"
      by (rule new_table_ok [OF ok n _ _ _ _ T(3,4)]) simp_all
    moreover have "lru_ok ?s xs = lru_ok s xs" by (simp add: lru_ok_def lru_inv_def idle_entries_def)
    ultimately show ?thesis by auto
  next
    case (Inr t)
    with r(2) obtain d where d: "dbtables s t = Some d" "\<not> tbl_deleted d" by (auto simp: probed_def)
    from table_incref_ok [OF ok d n, of xs] obtain s1 where "db_table_incref t s = Some s1"
      "db_ok s1 (TableH t # hs) None" "lru_ok s1 xs = lru_ok s xs" "max_size s1 = max_size s" by blast
    then show ?thesis using r(1) Inr by (auto simp: db_table_get_write_def)
  qed
qed

section \<open>The end of a write\<close>

lemma unwrite_ok:
  assumes ok: "db_ok s hs X" and e: "entries s e = Some c"
  shows "db_ok (s\<lparr>entries := (entries s)(e \<mapsto> c\<lparr>ce_writing := w\<rparr>)\<rparr>) hs X"
  by (rule upd_entry_ok [OF ok e]) (use ok_refs(1,2) [OF ok e] ok in \<open>auto simp: same_place_def db_ok_def\<close>)

lemma complete_ok:
  assumes ok: "db_ok s hs None" and l: "lru_ok s xs" and e: "entries s e = Some c" "ce_writing c"
  shows "\<exists>s'. db_complete_writing e s = Some s' \<and> db_ok s' hs None \<and> lru_ok s' (if ce_deleted c then xs else xs @ [e])
    \<and> max_size s' = max_size s \<and> now_sec s' = now_sec s \<and> dbtables s' = dbtables s
    \<and> (\<forall>x. map_option core (entries s' x) = map_option core (((entries s)(e \<mapsto> c\<lparr>ce_writing := False\<rparr>)) x))"
proof -
  let ?c = "c\<lparr>ce_writing := False\<rparr>"
  let ?s = "s\<lparr>entries := (entries s)(e \<mapsto> ?c)\<rparr>"
  have ok1: "db_ok ?s hs None" by (rule unwrite_ok [OF ok e(1)])
  have ne: "e \<notin> set xs" using l e by (auto simp: lru_ok_def idle_entries_def)
  have "lru_inv ?s xs = lru_inv s xs" by (rule lru_inv_cong) (use ne in auto)
  then have inv: "lru_inv ?s xs" using l by (simp add: lru_ok_def)
  have idle: "idle_entries ?s = (if ce_deleted c then set xs else insert e (set xs))"
    using l e by (auto simp: lru_ok_def idle_entries_def)
  show ?thesis
  proof (cases "ce_deleted c")
    case True
    then have "db_complete_writing e s = Some ?s" using e by (simp add: db_complete_writing_def)
    then show ?thesis using ok1 inv idle True by (simp add: lru_ok_def)
  next
    case False
    from insert_ok [OF inv, of e ?c] ne obtain s1 where s1: "db_lru_insert e ?s = Some s1" "lru_inv s1 (xs @ [e])"
      "same_but_links ?s s1" by auto
    have "db_complete_writing e s = Some s1" using e False s1(1) by (simp add: db_complete_writing_def)
    moreover have "lru_ok s1 (xs @ [e])" using s1(2) idle False idle_links [OF s1(3)] by (simp add: lru_ok_def)
    moreover have "max_size s1 = max_size s" "now_sec s1 = now_sec s" "dbtables s1 = dbtables s"
      by (simp_all add: same_links_fields [OF s1(3)])
    moreover have "map_option core (entries s1 x) = map_option core (((entries s)(e \<mapsto> ?c)) x)" for x
    proof -
      have "map_option core (entries s1 x) = map_option core (entries ?s x)" using s1(3) unfolding same_but_links_def by blast
      then show ?thesis by simp
    qed
    ultimately show ?thesis using db_ok_links [OF s1(3) ok1] False by simp
  qed
qed

text \<open>The first part of \<open>cache_destroy\<close>: a write that did not come to its end.\<close>

definition abandon_write :: "eptr \<Rightarrow> db_state \<Rightarrow> db_state option" where
  "abandon_write e s = do {
     c \<leftarrow> entries s e;
     s \<leftarrow> (if \<not> ce_deleted c then do { (_, s) \<leftarrow> db_entry_handle_delete e s; Some s } else Some s);
     mod_entry e (\<lambda>c. c\<lparr>ce_writing := False\<rparr>) s
   }"

lemma abandon_ok:
  assumes ok: "db_ok s hs None" and l: "lru_ok s xs" and e: "entries s e = Some c" "ce_writing c" "0 < entry_refs hs e"
  shows "\<exists>s'. abandon_write e s = Some s' \<and> db_ok s' hs None \<and> lru_ok s' xs \<and> max_size s' = max_size s"
proof -
  have ne: "e \<notin> set xs" using l e by (auto simp: lru_ok_def idle_entries_def)
  have fin: "db_ok (s1\<lparr>entries := (entries s1)(e \<mapsto> c1\<lparr>ce_writing := False\<rparr>)\<rparr>) hs None
      \<and> lru_ok (s1\<lparr>entries := (entries s1)(e \<mapsto> c1\<lparr>ce_writing := False\<rparr>)\<rparr>) xs"
    if s1: "db_ok s1 hs None" "lru_ok s1 xs" "entries s1 e = Some c1" "ce_deleted c1" for s1 c1
  proof -
    have "lru_inv (s1\<lparr>entries := (entries s1)(e \<mapsto> c1\<lparr>ce_writing := False\<rparr>)\<rparr>) xs = lru_inv s1 xs"
      by (rule lru_inv_cong) (use ne in auto)
    moreover have "idle_entries (s1\<lparr>entries := (entries s1)(e \<mapsto> c1\<lparr>ce_writing := False\<rparr>)\<rparr>) = idle_entries s1"
      using s1(3,4) by (auto simp: idle_entries_def)
    ultimately show ?thesis using unwrite_ok [OF s1(1,3)] s1(2) by (simp add: lru_ok_def)
  qed
  show ?thesis
  proof (cases "ce_deleted c")
    case True
    with fin [OF ok l e(1)] e(1) show ?thesis by (simp add: abandon_write_def)
  next
    case False
    from ok_live [OF ok e(1) False] obtain t where t: "ce_table c = Some t" by blast
    from handle_delete_ok [OF ok l e(1) False e(3) t] obtain b s1 where s1: "db_entry_handle_delete e s = Some (b, s1)"
      "db_ok s1 hs None" "lru_ok s1 (remove1 e xs)" "deletion e c t s s1" "same_env s s1"
      by (elim exE conjE) (rule that; assumption)
    from s1(4) obtain c1 where c1: "entries s1 e = Some c1" "ce_deleted c1" by (auto simp: deletion_def)
    have "lru_ok s1 xs" using s1(3) ne by (simp add: remove1_idem)
    from fin [OF s1(2) this c1] s1(1,5) c1 e(1) False show ?thesis
      by (auto simp: abandon_write_def same_env_def)
  qed
qed

section \<open>Handles\<close>

lemma filter_front: "h \<in> set hs \<Longrightarrow> length (filter P hs) = (if P h then 1 else 0) + length (filter P (remove1 h hs))"
  by (induction hs) auto

lemma ok_front:
  assumes h: "h \<in> set hs"
  shows "db_ok s hs X \<longleftrightarrow> db_ok s (h # remove1 h hs) X"
proof -
  have e: "entry_refs hs = entry_refs (h # remove1 h hs)"
    by (rule ext) (simp add: filter_front [OF h] entry_refs_def)
  have t: "table_refs s hs = table_refs s (h # remove1 h hs)"
    by (rule ext) (simp add: filter_front [OF h] table_refs_def)
  have n: "length (h # remove1 h hs) = length hs" using h by (simp add: length_remove1) (metis Suc_pred length_pos_if_in_set)
  show ?thesis unfolding db_ok_def refs_ok_def e t n ..
qed

text \<open>A reference to an entry and one to its table together.\<close>

lemma ok_join:
  assumes ok: "db_ok s (BareH e # hs) X" and h: "TableH t \<in> set hs" and t: "table_of s e = Some t"
  shows "db_ok s (EntryH e # remove1 (TableH t) hs) X"
proof -
  have e: "entry_refs (EntryH e # remove1 (TableH t) hs) = entry_refs (BareH e # hs)"
    by (rule ext) (simp add: filter_front [OF h] entry_refs_def)
  have r: "table_refs s (EntryH e # remove1 (TableH t) hs) = table_refs s (BareH e # hs)"
    by (rule ext) (simp add: filter_front [OF h] table_refs_def t)
  have "length (EntryH e # remove1 (TableH t) hs) \<le> length (BareH e # hs)" by (simp add: length_remove1)
  moreover have "refs_ok s (EntryH e # remove1 (TableH t) hs) X = refs_ok s (BareH e # hs) X" unfolding refs_ok_def e r ..
  ultimately show ?thesis using ok by (simp add: db_ok_def)
qed

section \<open>The machine\<close>

text \<open>
  The calls that requests make: a table is opened for reading or writing and closed, entries of an open table are read,
  written or deleted, a target gets space, a write ends or is given up, an entry is released with its table; and what
  happens by itself: garbage collection and the passing of time.
\<close>

datatype call = Open_read string | Open_write string | Close tptr
  | Read tptr string | Write tptr string gc_env | Delete tptr string
  | Allocate eptr u32 int int | Finish eptr | Abandon eptr | Release eptr
  | Collect gc_env | Clock int

type_synonym engine = "db_state \<times> handle list"

text \<open>A connection that got an entry has a reference to it and the one to its table that it already had.\<close>

definition got_entry :: "tptr \<Rightarrow> handle list \<Rightarrow> eptr option \<Rightarrow> handle list" where
  "got_entry t hs r = (case r of None \<Rightarrow> hs | Some e \<Rightarrow> EntryH e # remove1 (TableH t) hs)"

fun do_call :: "call \<Rightarrow> engine \<Rightarrow> engine option" where
  "do_call (Open_read name) (s, hs) = do {
     (r, s) \<leftarrow> db_table_get_read name s;
     Some (s, case r of None \<Rightarrow> hs | Some t \<Rightarrow> TableH t # hs) }"
| "do_call (Open_write name) (s, hs) = do { (t, s) \<leftarrow> db_table_get_write name s; Some (s, TableH t # hs) }"
| "do_call (Close t) (s, hs) = do { s \<leftarrow> db_table_close t s; Some (s, remove1 (TableH t) hs) }"
| "do_call (Read t key) (s, hs) = do { (r, s) \<leftarrow> db_entry_get_read t key s; Some (s, got_entry t hs r) }"
| "do_call (Write t key env) (s, hs) = do { (r, s) \<leftarrow> db_entry_get_write env t key s; Some (s, got_entry t hs r) }"
| "do_call (Delete t key) (s, hs) = do { (_, s) \<leftarrow> delete_key t key s; Some (s, hs) }"
| "do_call (Allocate e n fd newfd) (s, hs) = do {
     (_, s) \<leftarrow> db_target_write_allocate fd \<lparr>tgt_entry = Some e, tgt_position = 0, tgt_end_position = 0, tgt_fd = - 1\<rparr> n newfd s;
     Some (s, hs) }"
| "do_call (Finish e) (s, hs) = do { s \<leftarrow> db_complete_writing e s; Some (s, hs) }"
| "do_call (Abandon e) (s, hs) = do { s \<leftarrow> abandon_write e s; Some (s, hs) }"
| "do_call (Release e) (s, hs) = do { s \<leftarrow> db_entry_deref e True s; Some (s, remove1 (EntryH e) hs) }"
| "do_call (Collect env) (s, hs) = do { s \<leftarrow> db_lru_gc env s; Some (s, hs) }"
| "do_call (Clock now) (s, hs) = Some (s\<lparr>now_sec := now\<rparr>, hs)"

text \<open>
  When a call may be made: the connection has the reference the call uses, the table it looks in was not deleted
  meanwhile, an entry it writes is being written, the table of an entry that gets space still exists, and there is room
  for another key.
\<close>

definition table_open :: "tptr \<Rightarrow> engine \<Rightarrow> bool" where
  "table_open t \<sigma> \<longleftrightarrow> TableH t \<in> set (snd \<sigma>) \<and> hash_set_of t (fst \<sigma>) \<noteq> None"

definition writes :: "eptr \<Rightarrow> engine \<Rightarrow> bool" where
  "writes e \<sigma> \<longleftrightarrow> EntryH e \<in> set (snd \<sigma>) \<and> (\<exists>c. entries (fst \<sigma>) e = Some c \<and> ce_writing c)"

fun may_call :: "call \<Rightarrow> engine \<Rightarrow> bool" where
  "may_call (Open_write name) \<sigma> = (kh_size (tables (fst \<sigma>)) < CAP)"
| "may_call (Close t) \<sigma> = (TableH t \<in> set (snd \<sigma>))"
| "may_call (Read t key) \<sigma> = table_open t \<sigma>"
| "may_call (Write t key env) \<sigma> = (table_open t \<sigma> \<and> (\<forall>h. hash_set_of t (fst \<sigma>) = Some h \<longrightarrow> kh_size h < CAP))"
| "may_call (Delete t key) \<sigma> = table_open t \<sigma>"
| "may_call (Allocate e n fd newfd) \<sigma> = (writes e \<sigma> \<and> table_of (fst \<sigma>) e \<noteq> None)"
| "may_call (Finish e) \<sigma> = writes e \<sigma>"
| "may_call (Abandon e) \<sigma> = writes e \<sigma>"
| "may_call (Release e) \<sigma> = (EntryH e \<in> set (snd \<sigma>))"
| "may_call c \<sigma> = True"

text \<open>The invariant of the machine; there is no size limit, so that the bytes in use do not matter.\<close>

definition engine_ok :: "engine \<Rightarrow> bool" where
  "engine_ok \<sigma> \<longleftrightarrow> db_ok (fst \<sigma>) (snd \<sigma>) None \<and> (\<exists>xs. lru_ok (fst \<sigma>) xs) \<and> max_size (fst \<sigma>) = 0"

text \<open>At most 16000 references at a time.\<close>

definition room :: "engine \<Rightarrow> bool" where
  "room \<sigma> \<longleftrightarrow> length (snd \<sigma>) \<le> 16000"

inductive engine_runs :: "engine \<Rightarrow> engine \<Rightarrow> bool" where
  start: "engine_runs \<sigma> \<sigma>"
| call: "engine_runs \<sigma> \<sigma>1 \<Longrightarrow> room \<sigma>1 \<Longrightarrow> may_call c \<sigma>1 \<Longrightarrow> do_call c \<sigma>1 = Some \<sigma>2 \<Longrightarrow> engine_runs \<sigma> \<sigma>2"

lemma engine_okE:
  assumes "engine_ok (s, hs)"
  obtains xs where "db_ok s hs None" "lru_ok s xs" "max_size s = 0"
  using assms by (auto simp: engine_ok_def)

lemma clock_ok [simp]: "db_ok (s\<lparr>now_sec := n\<rparr>) hs X = db_ok s hs X" "lru_ok (s\<lparr>now_sec := n\<rparr>) xs = lru_ok s xs"
  by (rule db_ok_cong; simp) (simp add: lru_ok_def lru_inv_def idle_entries_def)

lemma stored_table_of:
  assumes "db_ok s hs X" "stored s t hash = Some e"
  shows "table_of s e = Some t"
  by (rule stored_entry [OF assms]) (simp add: table_of_def)

section \<open>Every call keeps the invariant\<close>

definition goes_on :: "call \<Rightarrow> engine \<Rightarrow> bool" where
  "goes_on c \<sigma> \<longleftrightarrow> (\<exists>\<sigma>'. do_call c \<sigma> = Some \<sigma>' \<and> engine_ok \<sigma>')"

lemma goes_onI: "do_call c \<sigma> = Some (s, hs) \<Longrightarrow> db_ok s hs None \<Longrightarrow> lru_ok s xs \<Longrightarrow> max_size s = 0 \<Longrightarrow> goes_on c \<sigma>"
  by (auto simp: goes_on_def engine_ok_def)

text \<open>A state of the machine with the list of its idle entries.\<close>

definition ready :: "db_state \<Rightarrow> handle list \<Rightarrow> eptr list \<Rightarrow> bool" where
  "ready s hs xs \<longleftrightarrow> db_ok s hs None \<and> lru_ok s xs \<and> max_size s = 0 \<and> length hs \<le> 16000"

lemma readyD:
  assumes "ready s hs xs"
  shows "db_ok s hs None" "lru_ok s xs" "max_size s = 0" "length hs + 1 < 2 ^ 14" "length hs + 2 < 2 ^ 14"
  using assms by (simp_all add: ready_def)

lemma open_read_call: "ready s hs xs \<Longrightarrow> goes_on (Open_read name) (s, hs)"
proof -
  assume "ready s hs xs"
  note r = readyD [OF this]
  from table_read_ok [OF r(1,4), of name xs] obtain q s' where q: "db_table_get_read name s = Some (q, s')"
    "lru_ok s xs \<longrightarrow> lru_ok s' xs" "max_size s' = max_size s"
    "case q of None \<Rightarrow> s' = s | Some t \<Rightarrow> db_ok s' (TableH t # hs) None" by blast
  have "db_ok s' (case q of None \<Rightarrow> hs | Some t \<Rightarrow> TableH t # hs) None" using q(4) r(1) by (cases q) auto
  then show ?thesis using q(1-3) r(2,3) by (intro goes_onI [where xs = xs]) auto
qed

lemma open_write_call: "ready s hs xs \<Longrightarrow> kh_size (tables s) < CAP \<Longrightarrow> goes_on (Open_write name) (s, hs)"
proof -
  assume "ready s hs xs" and c: "kh_size (tables s) < CAP"
  note r = readyD [OF this(1)]
  from table_write_ok [OF r(1,4) c, of name xs] r(2,3) show ?thesis
    by (auto intro!: goes_onI [where xs = xs])
qed

lemma close_call: "ready s hs xs \<Longrightarrow> TableH t \<in> set hs \<Longrightarrow> goes_on (Close t) (s, hs)"
proof -
  assume "ready s hs xs" and t: "TableH t \<in> set hs"
  note r = readyD [OF this(1)]
  have "db_ok s (TableH t # remove1 (TableH t) hs) None" using r(1) ok_front [OF t] by blast
  from table_close_ok [OF this, of xs] r(2,3) show ?thesis by (auto intro!: goes_onI [where xs = xs])
qed

lemma read_call:
  assumes "ready s hs xs" and t: "TableH t \<in> set hs" "hash_set_of t s \<noteq> None"
  shows "goes_on (Read t key) (s, hs)"
proof -
  note r = readyD [OF assms(1)]
  from get_read_ok [OF r(1,2,4) t(2), of key] obtain s' where
    s': "db_entry_get_read t key s = Some (served s t key, s')" "lookup_post s hs xs t key s'" "max_size s' = max_size s" by blast
  have "db_ok s' (got_entry t hs (served s t key)) None \<and> (\<exists>ys. lru_ok s' ys)"
  proof (cases "served s t key")
    case None
    with s'(2) show ?thesis by (auto simp: lookup_post_def got_entry_def split: option.splits)
  next
    case (Some e)
    with s'(2) have p: "db_ok s' (BareH e # hs) None" "lru_ok s' (remove1 e xs @ [e])" "stored s' t = stored s t"
      by (simp_all add: lookup_post_def)
    have "stored s' t (hash_string key) = Some e"
      using Some by (auto simp: p(3) served_def bind_Some_iff split: if_splits)
    from ok_join [OF p(1) t(1) stored_table_of [OF p(1) this]] p(2) Some show ?thesis by (auto simp: got_entry_def)
  qed
  then show ?thesis using s'(1,3) r(3) by (auto intro!: goes_onI)
qed

lemma write_call:
  assumes "ready s hs xs" and t: "TableH t \<in> set hs" "hash_set_of t s = Some h" "kh_size h < CAP"
  shows "goes_on (Write t key env) (s, hs)"
proof -
  note r = readyD [OF assms(1)]
  from get_write_ok [OF r(1,2,5) t(2,3) r(3), of env key] obtain s' ys where
    s': "db_entry_get_write env t key s = Some (if being_written s t key then None else Some (next_ptr s), s')" "lru_ok s' ys"
    "max_size s' = 0" "if being_written s t key then db_ok s' hs None
      else db_ok s' (BareH (next_ptr s) # hs) None \<and> stored s' t (hash_string key) = Some (next_ptr s)"
    by (auto split: if_splits)
  have "db_ok s' (got_entry t hs (if being_written s t key then None else Some (next_ptr s))) None"
    using s'(4) ok_join [OF _ t(1)] stored_table_of by (auto simp: got_entry_def)
  then show ?thesis using s'(1-3) by (auto intro!: goes_onI)
qed

lemma delete_call: "ready s hs xs \<Longrightarrow> hash_set_of t s \<noteq> None \<Longrightarrow> goes_on (Delete t key) (s, hs)"
proof -
  assume "ready s hs xs" and t: "hash_set_of t s \<noteq> None"
  note r = readyD [OF this(1)]
  from delete_key_ok [OF r(1,2,4) t, of key] r(3) show ?thesis
    by (auto simp: delete_post_def split: option.splits intro!: goes_onI)
qed

lemma allocate_call:
  assumes "ready s hs xs" and e: "entries s e = Some c" "ce_writing c" "EntryH e \<in> set hs" "ce_table c = Some t"
  shows "goes_on (Allocate e k fd newfd) (s, hs)"
proof -
  note r = readyD [OF assms(1)]
  have "table_of s e = Some t" using e by (simp add: table_of_def)
  then have "0 < table_refs s (EntryH e # remove1 (EntryH e) hs) t" by simp
  moreover have "db_ok s (EntryH e # remove1 (EntryH e) hs) None" using r(1) ok_front [OF e(3)] by blast
  ultimately obtain d where d: "dbtables s t = Some d" using ok_refs(7) by blast
  let ?tgt = "\<lparr>tgt_entry = Some e, tgt_position = 0, tgt_end_position = 0, tgt_fd = - 1\<rparr>"
  have "tgt_entry ?tgt = Some e" by simp
  from write_allocate_ok [OF r(1,2) e(1,2) this e(4) d, of fd k newfd] obtain tgt' s' where
    "db_target_write_allocate fd ?tgt k newfd s = Some (tgt', s')" "db_ok s' hs None" "lru_ok s' xs" "max_size s' = max_size s"
    by blast
  then show ?thesis using r(3) by (intro goes_onI [where s = s' and hs = hs and xs = xs]) simp_all
qed

lemma finish_call:
  "ready s hs xs \<Longrightarrow> entries s e = Some c \<Longrightarrow> ce_writing c \<Longrightarrow> goes_on (Finish e) (s, hs)"
proof -
  assume "ready s hs xs" and e: "entries s e = Some c" "ce_writing c"
  note r = readyD [OF this(1)]
  from complete_ok [OF r(1,2) e] r(3) show ?thesis by (auto intro!: goes_onI)
qed

lemma abandon_call:
  assumes "ready s hs xs" and e: "entries s e = Some c" "ce_writing c" "EntryH e \<in> set hs"
  shows "goes_on (Abandon e) (s, hs)"
proof -
  note r = readyD [OF assms(1)]
  have "0 < entry_refs hs e" using filter_front [OF e(3), of "on_entry e"] by (simp add: entry_refs_def)
  from abandon_ok [OF r(1,2) e(1,2) this] r(3) show ?thesis by (auto intro!: goes_onI)
qed

lemma release_call: "ready s hs xs \<Longrightarrow> EntryH e \<in> set hs \<Longrightarrow> goes_on (Release e) (s, hs)"
proof -
  assume "ready s hs xs" and h: "EntryH e \<in> set hs"
  note r = readyD [OF this(1)]
  have ok1: "db_ok s (EntryH e # remove1 (EntryH e) hs) None" using r(1) ok_front [OF h] by blast
  then obtain c where "entries s e = Some c" using ok_refs(3) [OF ok1, of e] by auto
  from deref_tab_ok [OF ok1 this, of xs] r(2,3) show ?thesis by (auto simp: same_env_def intro!: goes_onI)
qed

lemma collect_call: "ready s hs xs \<Longrightarrow> goes_on (Collect env) (s, hs)"
proof -
  assume "ready s hs xs"
  note r = readyD [OF this]
  from lru_gc_ok [OF r(1,2,4), of env] r(3) show ?thesis
    by (auto simp: collected_def gc_kept_def fresh_kept_def same_env_def intro!: goes_onI)
qed

lemma clock_call: "ready s hs xs \<Longrightarrow> goes_on (Clock now) (s, hs)"
  using readyD [of s hs xs] by (intro goes_onI [where s = "s\<lparr>now_sec := now\<rparr>" and hs = hs and xs = xs]) simp_all

lemmas calls_go_on = open_read_call open_write_call close_call read_call write_call delete_call allocate_call
  finish_call abandon_call release_call collect_call clock_call

lemma call_goes_on: "ready s hs xs \<Longrightarrow> may_call c (s, hs) \<Longrightarrow> goes_on c (s, hs)"
  by (cases c) (auto simp: table_open_def writes_def table_of_def bind_Some_iff intro: calls_go_on)

lemma engine_step: "engine_ok \<sigma> \<Longrightarrow> room \<sigma> \<Longrightarrow> may_call c \<sigma> \<Longrightarrow> goes_on c \<sigma>"
  by (cases \<sigma>) (auto simp: engine_ok_def room_def ready_def intro: call_goes_on)

section \<open>Properties\<close>

text \<open>
  C5. The calls of the database engine that requests make - tables opened and closed; entries read, written, given space, finished,
  given up, deleted and released; garbage collection; time passing - keep the invariant of the database in every order,
  and each is defined in every state that such calls lead to: no dangling or null pointer, no access outside an array, no
  endless loop. A call may be made when the connection has the reference it uses, and not on a table that another
  request deleted meanwhile. There is no size limit, at most 16000 references exist at a time and \<open>2 ^ 28\<close> tables and keys
  in a table. The deletion of a whole table is left out: it uses a freed entry.
\<close>

theorem engine_never_undefined:
  assumes "engine_ok \<sigma>" "engine_runs \<sigma> \<sigma>'"
  shows "engine_ok \<sigma>' \<and> (room \<sigma>' \<and> may_call c \<sigma>' \<longrightarrow> (\<exists>\<sigma>''. do_call c \<sigma>' = Some \<sigma>'' \<and> engine_ok \<sigma>''))"
proof -
  from assms(2,1) have "engine_ok \<sigma>'"
  proof (induction rule: engine_runs.induct)
    case (call \<sigma> \<sigma>1 c \<sigma>2)
    then show ?case using engine_step [of \<sigma>1 c] by (auto simp: goes_on_def)
  qed
  then show ?thesis using engine_step [of \<sigma>' c] by (auto simp: goes_on_def)
qed

lemma empty_engine_ok: "engine_ok (empty_db, [])"
proof -
  have "tables_ok empty_db" using kh_init_inv [of CAP] by (simp add: tables_ok_def empty_db_def)
  then have "db_ok empty_db [] None"
    by (simp add: db_ok_def sets_ok_def live_ok_def refs_ok_def blocks_ok_def fresh_ok_def owned_blocks_def blocks_inv_def
        entry_refs_def table_refs_def empty_db_def)
  moreover have "lru_ok empty_db []" by (simp add: lru_ok_def lru_inv_def idle_entries_def empty_db_def)
  ultimately show ?thesis by (auto simp: engine_ok_def empty_db_def)
qed

theorem engine_never_undefined_witness:
  "\<exists>\<sigma>1 \<sigma>2. do_call (Open_write ''t'') (empty_db, []) = Some \<sigma>1 \<and> do_call (Open_read ''t'') \<sigma>1 = Some \<sigma>2 \<and> engine_ok \<sigma>2"
proof -
  have r: "room (empty_db, [])" "may_call (Open_write ''t'') (empty_db, [])"
    by (simp_all add: room_def empty_db_def kh_init_def CAP_def)
  from engine_never_undefined [OF empty_engine_ok engine_runs.start, of "Open_write ''t''"] r obtain \<sigma>1 where
    s1: "do_call (Open_write ''t'') (empty_db, []) = Some \<sigma>1" by blast
  then have run: "engine_runs (empty_db, []) \<sigma>1" using r by (blast intro: engine_runs.intros)
  have "room \<sigma>1" using s1 by (auto simp: room_def bind_Some_iff)
  with engine_never_undefined [OF empty_engine_ok run, of "Open_read ''t''"] s1 show ?thesis by auto
qed

lemma strncmp_same: "strncmp k k n = 0"
  by (induction n arbitrary: k) (auto simp: strncmp.simps Let_def)

lemma key_same: "length key < 2 ^ 14 \<Longrightarrow> \<not> key_differs (bits14 (length key)) key key"
  by (simp add: key_differs_def bits14_def strncmp_same)


text \<open>A database with one empty table, which a connection has open.\<close>

definition bare_table :: db_table where
  "bare_table = \<lparr>tbl_hash = hash_string ''t'', tbl_key = ''t'', tbl_key_length = 1, cache_hash_set = Some kh_init,
     tbl_refs = 1, tbl_deleted = False\<rparr>"

definition bare_db :: db_state where
  "bare_db = empty_db\<lparr>next_ptr := Suc 0, dbtables := [0 \<mapsto> bare_table], tables := one_key (hash_string ''t'') 0\<rparr>"

lemma bare_ok: "db_ok bare_db [TableH 0] None" "lru_ok bare_db []"
proof -
  have e: "db_ok empty_db [] None" using empty_engine_ok by (simp add: engine_ok_def)
  have z: "next_ptr empty_db = 0" "dbtables empty_db = Map.empty" "kh_lookup (tables empty_db) = Map.empty"
    by (auto simp: empty_db_def)
  have "db_ok (empty_db\<lparr>next_ptr := Suc (next_ptr empty_db), dbtables := (dbtables empty_db)(next_ptr empty_db \<mapsto> bare_table),
      tables := one_key (hash_string ''t'') 0\<rparr>) (TableH (next_ptr empty_db) # []) None"
    by (rule new_table_ok [OF e]) (simp_all add: bare_table_def one_key z)
  then show "db_ok bare_db [TableH 0] None" by (simp add: z bare_db_def)
  show "lru_ok bare_db []" by (simp add: lru_ok_def lru_inv_def idle_entries_def bare_db_def empty_db_def)
qed


end
