(* ===== verification/DbBytes.thy ===== *)
theory DbBytes
  imports DbRuns
begin

text \<open>
  The count of the bytes in use, \<open>db_size_bytes\<close> (src/core/db.cpp), which decides when a cache with a size limit evicts. It is
  compared with the sum of the lengths of the entries that are not deleted: every operation changes both by the same amount, but for
  \<open>db_target_write_allocate\<close> on an entry that was deleted meanwhile or that gets a smaller length than it had.
\<close>

section \<open>The sum of the lengths\<close>

definition counted :: "cache_entry option \<Rightarrow> u64" where
  "counted x = (case x of None \<Rightarrow> 0 | Some c \<Rightarrow> if ce_deleted c then 0 else ucast (ce_data_length c))"

definition live_bytes :: "db_state \<Rightarrow> u64" where
  "live_bytes s = (\<Sum>e<next_ptr s. counted (entries s e))"

text \<open>What is counted too much, modulo \<open>2 ^ 64\<close>; new entries get fresh addresses.\<close>

definition drift :: "db_state \<Rightarrow> u64" where
  "drift s = db_size_bytes s - live_bytes s"

definition addressed :: "db_state \<Rightarrow> bool" where
  "addressed s \<longleftrightarrow> (\<forall>e\<ge>next_ptr s. entries s e = None)"

definition steady :: "db_state \<Rightarrow> db_state \<Rightarrow> bool" where
  "steady s s' \<longleftrightarrow> (addressed s \<longrightarrow> addressed s' \<and> drift s' = drift s)"

lemma steady_refl [simp]: "steady s s"
  by (simp add: steady_def)

lemma steady_trans [trans]: "steady s s1 \<Longrightarrow> steady s1 s2 \<Longrightarrow> steady s s2"
  by (simp add: steady_def)

lemma live_bytes_upd:
  assumes "e < next_ptr s"
  shows "live_bytes (s\<lparr>entries := (entries s)(e := x)\<rparr>) = live_bytes s - counted (entries s e) + counted x"
proof -
  have f: "finite {..<next_ptr s}" "e \<in> {..<next_ptr s}" using assms by simp_all
  have "live_bytes (s\<lparr>entries := (entries s)(e := x)\<rparr>) = counted x + (\<Sum>a\<in>{..<next_ptr s} - {e}. counted (entries s a))"
    unfolding live_bytes_def by (simp add: sum.remove [OF f])
  moreover have "live_bytes s = counted (entries s e) + (\<Sum>a\<in>{..<next_ptr s} - {e}. counted (entries s a))"
    unfolding live_bytes_def by (simp add: sum.remove [OF f])
  ultimately show ?thesis by simp
qed

text \<open>A change of one entry moves the drift by the difference of what is counted for it.\<close>

lemma drift_upd:
  assumes "addressed s" "entries s e = Some c"
  shows "addressed (s\<lparr>entries := (entries s)(e := x)\<rparr>)"
    "drift (s\<lparr>entries := (entries s)(e := x)\<rparr>) = drift s + counted (Some c) - counted x"
proof -
  have e: "e < next_ptr s" using assms by (auto simp: addressed_def not_le [symmetric])
  then show "addressed (s\<lparr>entries := (entries s)(e := x)\<rparr>)" using assms(1) by (auto simp: addressed_def)
  show "drift (s\<lparr>entries := (entries s)(e := x)\<rparr>) = drift s + counted (Some c) - counted x"
    using live_bytes_upd [OF e, of x] assms(2) by (simp add: drift_def)
qed

lemma same_core_counted: "map_option core x = map_option core y \<Longrightarrow> counted x = counted y"
  by (cases x; cases y) (auto simp: counted_def dest: core_eqD)

text \<open>States with the same entries, but for fields that are not counted.\<close>

lemma steady_same:
  assumes "\<And>e. counted (entries s' e) = counted (entries s e)" "\<And>e. entries s' e = None \<longleftrightarrow> entries s e = None"
    "next_ptr s' = next_ptr s" "db_size_bytes s' = db_size_bytes s"
  shows "steady s s'"
  using assms by (simp add: steady_def addressed_def drift_def live_bytes_def)

lemma steady_entries: "entries s' = entries s \<Longrightarrow> next_ptr s' = next_ptr s \<Longrightarrow> db_size_bytes s' = db_size_bytes s \<Longrightarrow> steady s s'"
  by (rule steady_same) simp_all

lemma steady_links: "same_but_links s s' \<Longrightarrow> steady s s'"
proof (rule steady_same)
  assume l: "same_but_links s s'"
  then have "map_option core (entries s' e) = map_option core (entries s e)" for e by (simp add: same_but_links_def)
  then show "counted (entries s' e) = counted (entries s e)" for e by (rule same_core_counted)
qed (simp_all add: same_links_fields same_links_None)

lemma steady_mod:
  assumes "mod_entry e f s = Some s'" "\<And>c. ce_deleted (f c) = ce_deleted c" "\<And>c. ce_data_length (f c) = ce_data_length c"
  shows "steady s s'"
  using assms by (auto simp: mod_entry_def counted_def elim!: bind_SomeE intro!: steady_same split: if_split_asm)

lemma steady_mod_table: "mod_table t f s = Some s' \<Longrightarrow> steady s s'"
  by (auto simp: mod_table_def elim!: bind_SomeE intro!: steady_entries)

section \<open>The operations\<close>

text \<open>Everything but lengths and deletions leaves the count alone.\<close>

lemma db_block_free_same:
  "entries (db_block_free b s) = entries s \<and> next_ptr (db_block_free b s) = next_ptr s \<and> db_size_bytes (db_block_free b s) = db_size_bytes s"
  by (simp add: db_block_free_def db_block_size_def)

lemma db_block_allocate_same:
  "db_block_allocate_new s = (b, s') \<Longrightarrow> entries s' = entries s \<and> next_ptr s' = next_ptr s \<and> db_size_bytes s' = db_size_bytes s"
  by (auto simp: db_block_allocate_new_def db_block_size_def split: list.splits if_splits)

text \<open>The fields of an entry that may change freely.\<close>

definition uncounted :: "(cache_entry \<Rightarrow> cache_entry) \<Rightarrow> bool" where
  "uncounted f \<longleftrightarrow> (\<forall>c. ce_deleted (f c) = ce_deleted c \<and> ce_data_length (f c) = ce_data_length c)"

lemma uncounted_fields [simp]:
  "uncounted (\<lambda>c. c\<lparr>ce_lru_next := n\<rparr>)" "uncounted (\<lambda>c. c\<lparr>ce_lru_prev := n\<rparr>)" "uncounted (\<lambda>c. c\<lparr>ce_lru_next := n, ce_lru_prev := m\<rparr>)"
  "uncounted (\<lambda>c. c\<lparr>ce_refs := ce_refs c + r\<rparr>)" "uncounted (\<lambda>c. c\<lparr>ce_refs := ce_refs c - r\<rparr>)" "uncounted (\<lambda>c. c\<lparr>ce_writing := w\<rparr>)"
  "uncounted (\<lambda>c. c\<lparr>ce_block := b\<rparr>)" "uncounted (\<lambda>c. c\<lparr>ce_table := t\<rparr>)" "uncounted (\<lambda>c. c\<lparr>ce_it := ce_it c + 1\<rparr>)"
  by (simp_all add: uncounted_def)

lemma steady_modI: "mod_entry e f s = Some s' \<Longrightarrow> uncounted f \<Longrightarrow> steady s s'"
  by (erule steady_mod) (simp_all add: uncounted_def)

text \<open>A rule for each way an operation goes on, to be used from the end of the operation to its beginning.\<close>

lemma steady_bind: "Option.bind m f = Some s' \<Longrightarrow> (\<And>s1. m = Some s1 \<Longrightarrow> steady s s1) \<Longrightarrow> (\<And>s1. m = Some s1 \<Longrightarrow> f s1 = Some s' \<Longrightarrow> steady s1 s') \<Longrightarrow> steady s s'"
  by (cases m) (auto intro: steady_trans)

lemma steady_read: "Option.bind m f = Some s' \<Longrightarrow> (\<And>x. m = Some x \<Longrightarrow> f x = Some s' \<Longrightarrow> steady s s') \<Longrightarrow> steady s s'"
  by (cases m) auto

lemma steady_remove:
  assumes "db_lru_remove_node e s = Some s'" shows "steady s s'"
proof (rule steady_same)
  show "counted (entries s' x) = counted (entries s x)" "entries s' x = None \<longleftrightarrow> entries s x = None" for x
    using assms by (auto simp: db_lru_remove_node_def mod_entry_def counted_def elim!: bind_SomeE split: option.split_asm if_split_asm)
  show "next_ptr s' = next_ptr s" "db_size_bytes s' = db_size_bytes s"
    using assms by (auto simp: db_lru_remove_node_def mod_entry_def elim!: bind_SomeE split: option.split_asm)
qed

lemma steady_insert:
  assumes "db_lru_insert e s = Some s'" shows "steady s s'"
proof (rule steady_same)
  show "counted (entries s' x) = counted (entries s x)" "entries s' x = None \<longleftrightarrow> entries s x = None" for x
    using assms by (auto simp: db_lru_insert_def mod_entry_def counted_def Let_def elim!: bind_SomeE split: option.split_asm if_split_asm)
  show "next_ptr s' = next_ptr s" "db_size_bytes s' = db_size_bytes s"
    using assms by (auto simp: db_lru_insert_def mod_entry_def Let_def elim!: bind_SomeE split: option.split_asm)
qed

lemma steady_hit: "db_lru_hit e s = Some s' \<Longrightarrow> steady s s'"
  unfolding db_lru_hit_def by (erule steady_bind) (auto intro: steady_remove steady_insert)

lemma steady_table_delete: "db_table_actually_delete t s = Some s' \<Longrightarrow> steady s s'"
  by (auto simp: db_table_actually_delete_def free_table_def Let_def elim!: bind_SomeE intro!: steady_entries)

lemma steady_table_deref: "db_table_deref t b s = Some s' \<Longrightarrow> steady s s'"
  unfolding db_table_deref_def
  by (erule steady_bind) (auto intro: steady_mod_table elim!: steady_read split: if_split_asm intro: steady_table_delete)

lemma steady_table_incref: "db_table_incref t s = Some s' \<Longrightarrow> steady s s'"
  unfolding db_table_incref_def by (rule steady_mod_table)

lemma steady_incref: "db_entry_incref e b s = Some s' \<Longrightarrow> steady s s'"
  unfolding db_entry_incref_def
  by (erule steady_bind) (auto intro: steady_modI elim!: steady_read split: if_split_asm intro: steady_table_incref)

text \<open>An entry that is freed was deleted before, so that it is not counted.\<close>

lemma steady_actually_delete:
  assumes "db_entry_actually_delete e s = Some s'" "entries s e = Some c" "ce_deleted c"
  shows "steady s s'"
proof -
  obtain s1 c1 where s1: "s' = free_entry e s1" "steady s s1" "entries s1 e = Some c1" "ce_deleted c1"
    using assms
    by (auto simp: db_entry_actually_delete_def mod_entry_def db_block_free_same counted_def elim!: bind_SomeE split: if_split_asm
        intro!: steady_same that)
  from s1(3,4) have "steady s1 s'" unfolding s1(1) free_entry_def steady_def
    using drift_upd [of s1 e c1 None] by (simp add: counted_def)
  with s1(2) show ?thesis by (rule steady_trans)
qed

lemma steady_deref:
  assumes "db_entry_deref e b s = Some s'" shows "steady s s'"
proof -
  from assms obtain s1 c s2 c2 where s1: "mod_entry e (\<lambda>c. c\<lparr>ce_refs := ce_refs c - 1\<rparr>) s = Some s1" "entries s1 e = Some c"
    and s2: "(if b then case ce_table c of Some t \<Rightarrow> db_table_deref t False s1 | None \<Rightarrow> Some s1 else Some s1) = Some s2"
    and s': "entries s2 e = Some c2" "(if ce_refs c2 = 0 \<and> ce_deleted c2 then db_entry_actually_delete e s2 else Some s2) = Some s'"
    unfolding db_entry_deref_def by (elim bind_SomeE) (rule that, assumption+)
  have "steady s s1" using s1(1) by (rule steady_modI) simp
  moreover have "steady s1 s2" using s2 by (auto split: if_split_asm option.split_asm intro: steady_table_deref)
  moreover have "steady s2 s'" using s' by (auto split: if_split_asm intro: steady_actually_delete)
  ultimately show ?thesis using steady_trans by blast
qed

lemma steady_cleanup: "db_entry_cleanup e s = Some s' \<Longrightarrow> steady s s' \<and> entries s' = entries s"
  by (auto simp: db_entry_cleanup_def elim!: bind_SomeE split: if_split_asm intro!: steady_entries)

lemma steady_delete_file: "db_entry_delete e s = Some s' \<Longrightarrow> steady s s' \<and> entries s' = entries s"
  by (auto simp: db_entry_delete_def elim!: bind_SomeE intro!: steady_entries)

lemma steady_set_del: "set_del e k s = Some s' \<Longrightarrow> steady s s' \<and> entries s' = entries s"
  by (auto simp: set_del_def mod_table_def elim!: bind_SomeE intro!: steady_entries)

lemma remove_keeps_deleted:
  "db_lru_remove_node e s = Some s' \<Longrightarrow> entries s x = Some c \<Longrightarrow> \<exists>c'. entries s' x = Some c' \<and> ce_deleted c' = ce_deleted c"
  by (auto simp: db_lru_remove_node_def mod_entry_def elim!: bind_SomeE split: option.split_asm if_split_asm)

text \<open>An entry is marked deleted and its length subtracted.\<close>

lemma steady_marked:
  assumes "entries s e = Some c" "\<not> ce_deleted c"
  shows "steady s (s\<lparr>entries := (entries s)(e \<mapsto> c\<lparr>ce_deleted := True\<rparr>), db_size_bytes := db_size_bytes s - ucast (ce_data_length c)\<rparr>)"
proof -
  let ?s = "s\<lparr>entries := (entries s)(e \<mapsto> c\<lparr>ce_deleted := True\<rparr>)\<rparr>"
  have "drift (?s\<lparr>db_size_bytes := db_size_bytes s - ucast (ce_data_length c)\<rparr>) = drift ?s - ucast (ce_data_length c)"
    by (simp add: drift_def live_bytes_def)
  moreover have "drift ?s = drift s + ucast (ce_data_length c)" if "addressed s"
    using drift_upd(2) [OF that assms(1), of "Some (c\<lparr>ce_deleted := True\<rparr>)"] assms(2) by (simp add: counted_def)
  moreover have "addressed ?s" if "addressed s" using drift_upd(1) [OF that assms(1)] by simp
  ultimately show ?thesis by (simp add: steady_def addressed_def)
qed

lemma steady_softdelete: "db_entry_handle_softdelete e k s = Some s' \<Longrightarrow> steady s s'"
proof -
  assume "db_entry_handle_softdelete e k s = Some s'"
  then obtain c where c: "entries s e = Some c" and run: "(if ce_deleted c then Some s else do {
       s \<leftarrow> (if IS_SINGLE_FILE c then db_entry_delete e s else Some s);
       s \<leftarrow> mod_entry e (\<lambda>c. c\<lparr>ce_deleted := True\<rparr>) s;
       s \<leftarrow> set_del e k s;
       let s = s\<lparr>db_size_bytes := db_size_bytes s - ucast (ce_data_length c)\<rparr>;
       s \<leftarrow> (if \<not> ce_writing c then db_lru_remove_node e s else Some s);
       c \<leftarrow> entries s e;
       if ce_refs c = 0 then db_entry_actually_delete e s else Some s }) = Some s'"
    unfolding db_entry_handle_softdelete_def by (elim bind_SomeE) simp
  show ?thesis
  proof (cases "ce_deleted c")
    case True
    then show ?thesis using run by simp
  next
    case False
    then obtain s1 s2 s3 s4 c4 where s1: "(if IS_SINGLE_FILE c then db_entry_delete e s else Some s) = Some s1"
      and s2: "mod_entry e (\<lambda>c. c\<lparr>ce_deleted := True\<rparr>) s1 = Some s2" and s3: "set_del e k s2 = Some s3"
      and s4: "(if \<not> ce_writing c then db_lru_remove_node e (s3\<lparr>db_size_bytes := db_size_bytes s3 - ucast (ce_data_length c)\<rparr>)
        else Some (s3\<lparr>db_size_bytes := db_size_bytes s3 - ucast (ce_data_length c)\<rparr>)) = Some s4"
      and s5: "entries s4 e = Some c4" "(if ce_refs c4 = 0 then db_entry_actually_delete e s4 else Some s4) = Some s'"
      using run unfolding Let_def by (simp, elim bind_SomeE) (rule that, assumption+)
    have a: "steady s s1" "entries s1 = entries s" using s1 steady_delete_file [of e s s1] by (auto split: if_split_asm)
    let ?m = "s3\<lparr>db_size_bytes := db_size_bytes s3 - ucast (ce_data_length c)\<rparr>"
    have e2: "s2 = s1\<lparr>entries := (entries s1)(e \<mapsto> c\<lparr>ce_deleted := True\<rparr>)\<rparr>" using s2 a(2) c by (simp add: mod_entry_def)
    have e3: "entries s3 = entries s2" "next_ptr s3 = next_ptr s2" "db_size_bytes s3 = db_size_bytes s2"
      using s3 by (auto simp: set_del_def mod_table_def elim!: bind_SomeE)
    have "steady s1 ?m"
      by (rule steady_trans [OF steady_marked [of s1 e c] steady_entries]) (use a(2) c False e2 e3 in auto)
    with a(1) have b: "steady s ?m" by (rule steady_trans)
    have "entries ?m e = Some (c\<lparr>ce_deleted := True\<rparr>)" using e2 e3 by simp
    with s4 s5(1) have d: "ce_deleted c4" using remove_keeps_deleted [of e ?m s4 e] by (auto split: if_split_asm)
    have "steady ?m s4" using s4 steady_remove [of e ?m s4] by (auto split: if_split_asm)
    moreover have "steady s4 s'" using s5 d steady_actually_delete by (auto split: if_split_asm)
    ultimately show ?thesis using b steady_trans by blast
  qed
qed

lemma steady_delete_mark:
  assumes "handle_delete_mark e k s = Some s'" "entries s e = Some c" "\<not> ce_deleted c"
  shows "steady s s'"
proof -
  from assms(1) obtain s1 c1 s3 s4 where s1: "db_entry_cleanup e s = Some s1" "entries s1 e = Some c1"
    and s3: "set_del e k (s1\<lparr>db_size_bytes := db_size_bytes s1 - ucast (ce_data_length c1), db_keys := db_keys s1 - 1\<rparr>) = Some s3"
    and s4: "mod_entry e (\<lambda>c. c\<lparr>ce_deleted := True\<rparr>) s3 = Some s4" "(if \<not> ce_writing c1 then db_lru_remove_node e s4 else Some s4) = Some s'"
    unfolding handle_delete_mark_def Let_def by (elim bind_SomeE) (rule that, assumption+)
  have a: "steady s s1" "entries s1 = entries s" "c1 = c" using steady_cleanup [OF s1(1)] s1(2) assms(2) by auto
  have e3: "entries s3 = entries s1" "next_ptr s3 = next_ptr s1" "db_size_bytes s3 = db_size_bytes s1 - ucast (ce_data_length c)"
    using s3 a(3) by (auto simp: set_del_def mod_table_def elim!: bind_SomeE)
  have e4: "s4 = s3\<lparr>entries := (entries s3)(e \<mapsto> c\<lparr>ce_deleted := True\<rparr>)\<rparr>" using s4(1) e3 a(2) assms(2) by (simp add: mod_entry_def)
  have "steady s1 s4"
    by (rule steady_trans [OF steady_marked [of s1 e c] steady_entries]) (use a assms e3 e4 in auto)
  moreover have "steady s4 s'" using s4(2) steady_remove by (auto split: if_split_asm)
  ultimately show ?thesis using a(1) steady_trans by blast
qed

lemma steady_delete_table_entry:
  assumes "db_delete_table_entry t k b s = Some s'" shows "steady s s'"
proof -
  from assms obtain s1 d where s1: "mod_table t (\<lambda>d. d\<lparr>cache_hash_set := None\<rparr>) s = Some s1" "dbtables s1 t = Some d"
    "db_table_deref t b (if tbl_refs d \<noteq> 0 then s1\<lparr>tables := kh_del (tables s1) k\<rparr> else s1) = Some s'"
    unfolding db_delete_table_entry_def Let_def by (elim bind_SomeE) (rule that, assumption+)
  have "steady s1 (if tbl_refs d \<noteq> 0 then s1\<lparr>tables := kh_del (tables s1) k\<rparr> else s1)" by (rule steady_entries) simp_all
  from steady_trans [OF steady_mod_table [OF s1(1)] steady_trans [OF this steady_table_deref [OF s1(3)]]] show ?thesis .
qed

lemma steady_delete_table:
  assumes "handle_delete_table e s = Some (b, s')" shows "steady s s'"
proof (cases b)
  case False
  then show ?thesis using assms by (auto simp: handle_delete_table_def Let_def elim!: bind_SomeE split: if_split_asm)
next
  case True
  with assms obtain t k s1 s2 where s1: "mod_table t (\<lambda>d. d\<lparr>tbl_deleted := True\<rparr>) s = Some s1"
    "db_delete_table_entry t k True s1 = Some s2" "mod_entry e (\<lambda>c. c\<lparr>ce_table := None\<rparr>) s2 = Some s'"
    by (auto simp: handle_delete_table_def Let_def elim!: bind_SomeE split: if_split_asm)
  have "steady s2 s'" using s1(3) by (rule steady_modI) simp
  from steady_trans [OF steady_mod_table [OF s1(1)] steady_trans [OF steady_delete_table_entry [OF s1(2)] this]] show ?thesis .
qed

lemma steady_handle_delete:
  assumes "db_entry_handle_delete e s = Some (b, s')" "entries s e = Some c" "\<not> ce_deleted c"
  shows "steady s s'"
proof -
  from assms(1) obtain k s1 where "handle_delete_mark e k s = Some s1" "handle_delete_table e s1 = Some (b, s')"
    unfolding db_entry_handle_delete_def db_entry_handle_delete_at_def by (elim bind_SomeE) (rule that, assumption+)
  from steady_trans [OF steady_delete_mark [OF this(1) assms(2,3)] steady_delete_table [OF this(2)]] show ?thesis .
qed

lemma incref_keeps_deleted:
  "db_entry_incref e b s = Some s' \<Longrightarrow> entries s e = Some c \<Longrightarrow> \<exists>c'. entries s' e = Some c' \<and> ce_deleted c' = ce_deleted c"
  by (auto simp: db_entry_incref_def db_table_incref_def mod_entry_def mod_table_def elim!: bind_SomeE split: if_split_asm)

text \<open>The deletion of an entry that nobody holds, with a reference for the time being.\<close>

lemma steady_hold_delete:
  assumes "db_entry_incref e b s = Some s1" "db_entry_handle_delete e s1 = Some (g, s2)" "db_entry_deref e b s2 = Some s3"
    "entries s e = Some c" "\<not> ce_deleted c"
  shows "steady s s3"
proof -
  from incref_keeps_deleted [OF assms(1,4)] assms(5) obtain c1 where "entries s1 e = Some c1" "\<not> ce_deleted c1" by auto
  from steady_trans [OF steady_incref [OF assms(1)] steady_trans [OF steady_handle_delete [OF assms(2) this] steady_deref [OF assms(3)]]]
  show ?thesis .
qed

section \<open>Expiry and eviction\<close>

lemma steady_expire_buckets: "db_expire_buckets t kes ret s = Some (n, s') \<Longrightarrow> steady s s'"
proof (induction kes arbitrary: ret s)
  case (Cons ke kes)
  from Cons.prems obtain h where h: "hash_set_of t s = Some h" by (auto elim!: bind_SomeE)
  show ?case
  proof (cases "kh_exist h ke")
    case False
    then show ?thesis using Cons.prems Cons.IH h by auto
  next
    case True
    with Cons.prems h obtain l c where l: "kh_value h ke = Some l" "entries s l = Some c" by (auto elim!: bind_SomeE)
    show ?thesis
    proof (cases "\<not> ce_deleted c \<and> expired s c")
      case False
      then show ?thesis using Cons.prems Cons.IH h True l by (auto simp: expired_def)
    next
      case ex: True
      from Cons.prems [unfolded expire_buckets_step [OF h True l conjunct1 [OF ex]]] ex obtain b s1 where
        s1: "drop_entry l c s = Some (b, s1)" "(if (ce_refs c = 0 \<and> kh_size h = 1) \<or> b then Some (ret + 1, s1)
          else db_expire_buckets t kes (ret + 1) s1) = Some (n, s')"
        by (auto elim!: bind_SomeE)
      have "steady s s1" using s1(1) ex
        by (auto simp: drop_entry_def elim!: bind_SomeE split: if_split_asm
            intro: steady_hold_delete [OF _ _ _ l(2)] steady_handle_delete [OF _ l(2)])
      moreover have "steady s1 s'" using s1(2) Cons.IH by (auto split: if_split_asm)
      ultimately show ?thesis by (rule steady_trans)
    qed
  qed
qed simp

lemma steady_expire_loop: "db_expire_loop fuel start d s = Some s' \<Longrightarrow> steady s s'"
proof (induction fuel arbitrary: d s)
  case (Suc fuel)
  define nx where "nx = (\<lambda>s :: db_state. let s = s\<lparr>table_gc := table_gc s + 1\<rparr> in if n_buckets (tables s) \<le> table_gc s then s\<lparr>table_gc := 0\<rparr> else s)"
  let ?body = "if kh_exist (tables s) (table_gc s) then do {
         t \<leftarrow> kh_value (tables s) (table_gc s);
         (n, s) \<leftarrow> db_expire_cursor_table t s;
         Some (d + n, s)
       } else Some (d, s)"
  have "db_expire_loop (Suc fuel) start d s = Option.bind ?body
      (\<lambda>(d, s). if table_gc (nx s) \<noteq> start \<and> d < 4096 then db_expire_loop fuel start d (nx s) else Some (nx s))"
    unfolding db_expire_loop.simps nx_def by (simp only: Let_def)
  with Suc.prems obtain d1 s1 where s1: "?body = Some (d1, s1)"
    and r: "(if table_gc (nx s1) \<noteq> start \<and> d1 < 4096 then db_expire_loop fuel start d1 (nx s1) else Some (nx s1)) = Some s'"
    by (auto elim!: bind_SomeE simp del: db_expire_loop.simps)
  have a: "steady s s1" using s1
    by (auto simp: db_expire_cursor_table_def elim!: bind_SomeE split: if_split_asm intro: steady_expire_buckets)
  have "steady s1 (nx s1)" by (rule steady_entries) (simp_all add: nx_def Let_def)
  with a have "steady s (nx s1)" by (rule steady_trans)
  moreover have "steady (nx s1) s'" using r Suc.IH by (auto split: if_split_asm)
  ultimately show ?case by (rule steady_trans)
qed simp

lemma steady_table_gc: "steady s s' \<longleftrightarrow> steady (s\<lparr>table_gc := g\<rparr>) s'"
  by (simp add: steady_def addressed_def drift_def live_bytes_def)

lemma steady_expire_cursor: "db_expire_cursor s = Some (b, s') \<Longrightarrow> steady s s'"
  by (auto simp: db_expire_cursor_def Let_def elim!: bind_SomeE split: if_split_asm dest: steady_expire_loop
      simp: steady_table_gc [of s _ 0, symmetric] intro: steady_entries)

lemma steady_gc_cycles: "db_gc_cycles n s = Some s' \<Longrightarrow> steady s s'"
proof (induction n arbitrary: s)
  case (Suc n)
  then obtain b s1 where "db_expire_cursor s = Some (b, s1)" "(if \<not> b then db_gc_cycles n s1 else Some s1) = Some s'"
    by (auto elim!: bind_SomeE)
  then have "steady s s1" "steady s1 s'" using Suc.IH by (auto split: if_split_asm intro: steady_expire_cursor)
  then show ?case by (rule steady_trans)
qed simp

lemma steady_evict:
  assumes "db_lru_cleanup_percent b s = Some r" shows "steady s (snd r)"
  using assms
proof (rule db_lru_cleanup_percent.raw_induct [where P = "\<lambda>b s r. steady s (snd r)", rotated])
  fix f :: "int \<Rightarrow> db_state \<Rightarrow> (int \<times> db_state) option" and b s r
  assume IH: "\<And>b s r. f b s = Some r \<Longrightarrow> steady s (snd r)"
    and run: "(case lru_head s of
       None \<Rightarrow> Some (b, s)
     | Some l \<Rightarrow>
         if b > 0 then
           Option.bind (entries s l) (\<lambda>c.
             if ce_writing c \<or> ce_deleted c
             then Option.bind (db_lru_remove_node l s) (f b)
             else if ce_refs c = 0
             then Option.bind (db_entry_incref l True s) (\<lambda>s.
               Option.bind (db_entry_handle_delete l s) (\<lambda>(_, s).
                 Option.bind (db_entry_deref l True s)
                   (f (sint (of_int b - ce_data_length c)))))
             else Option.bind (db_entry_handle_delete l s) (\<lambda>(_, s).
               f (sint (of_int b - ce_data_length c)) s))
         else Some (b, s)) = Some r"
  show "steady s (snd r)"
  proof (cases "lru_head s \<noteq> None \<and> b > 0")
    case False
    then have "r = (b, s)" using run by (auto split: option.split_asm)
    then show ?thesis by simp
  next
    case True
    with run obtain l c where c: "lru_head s = Some l" "entries s l = Some c" by (auto elim!: bind_SomeE)
    show ?thesis
    proof (cases "ce_writing c \<or> ce_deleted c")
      case w: True
      with run c True obtain s1 where "db_lru_remove_node l s = Some s1" "f b s1 = Some r" by (auto elim!: bind_SomeE)
      then show ?thesis using IH steady_remove steady_trans by blast
    next
      case False
      with run c True obtain s1 where "f (sint (of_int b - ce_data_length c)) s1 = Some r" "steady s s1"
        by (auto elim!: bind_SomeE split: if_split_asm
            intro: steady_hold_delete [OF _ _ _ c(2)] steady_handle_delete [OF _ c(2)])
      then show ?thesis using IH steady_trans by blast
    qed
  qed
qed

lemma steady_gc_flush: "steady s (db_gc_flush env s)"
  by (rule steady_entries) (simp_all add: db_gc_flush_def currently_flushing_def Let_def split: prod.split)

lemma steady_gc:
  assumes "db_lru_gc env s = Some s'" shows "steady s s'"
proof -
  from assms obtain s1 where s1: "s' = db_gc_flush env s1" "(if 0 < max_size s \<and> max_size s < db_size_bytes s then do {
         s \<leftarrow> db_gc_cycles 5 s;
         bytes_to_remove \<leftarrow> lru_target s;
         if bytes_to_remove > 0
         then do { (_, s) \<leftarrow> db_lru_cleanup_percent bytes_to_remove s; Some s }
         else Some s
       } else do { (_, s) \<leftarrow> db_expire_cursor s; Some s }) = Some s1"
    unfolding db_lru_gc_def by (elim bind_SomeE) (auto intro: that)
  have "steady s s1"
  proof (cases "0 < max_size s \<and> max_size s < db_size_bytes s")
    case False
    then show ?thesis using s1(2) by (auto elim!: bind_SomeE intro: steady_expire_cursor)
  next
    case True
    with s1(2) obtain s2 b where s2: "db_gc_cycles 5 s = Some s2"
      "(if b > 0 then do { (_, s) \<leftarrow> db_lru_cleanup_percent b s2; Some s } else Some s2) = Some s1" by (auto elim!: bind_SomeE)
    then have "steady s2 s1" using steady_evict [of b s2] by (auto elim!: bind_SomeE split: if_split_asm)
    with steady_gc_cycles [OF s2(1)] show ?thesis by (rule steady_trans)
  qed
  then show ?thesis unfolding s1(1) using steady_gc_flush by (rule steady_trans)
qed

section \<open>The calls of requests\<close>

lemma steady_stats: "steady (s\<lparr>db_stats_gets := g, db_stats_operations := o1\<rparr>) s' = steady s s'"
  "steady (s\<lparr>db_stats_inserts := i, db_stats_operations := o1\<rparr>) s' = steady s s'"
  "steady (s\<lparr>db_stats_deletes := d, db_stats_operations := o1\<rparr>) s' = steady s s'"
  "steady (s\<lparr>db_keys := n\<rparr>) s' = steady s s'"
  by (simp_all add: steady_def addressed_def drift_def live_bytes_def)

text \<open>A new entry has no length yet.\<close>

lemma steady_new:
  assumes "db_entry_new t s = (e, s1)" "mod_entry e f s1 = Some s2" "\<And>c. ce_data_length (f c) = 0"
  shows "steady s s2"
proof (unfold steady_def, intro impI)
  assume a: "addressed s"
  have e: "e = next_ptr s" "next_ptr s1 = next_ptr s + 1" "db_size_bytes s1 = db_size_bytes s" "\<And>x. x \<noteq> e \<Longrightarrow> entries s1 x = entries s x"
    using assms(1) by (auto simp: db_entry_new_def Let_def)
  obtain c where s2: "s2 = s1\<lparr>entries := (entries s1)(e \<mapsto> f c)\<rparr>" using assms(2) by (auto simp: mod_entry_def elim!: bind_SomeE)
  have "(\<Sum>x<next_ptr s. counted (entries s2 x)) = (\<Sum>x<next_ptr s. counted (entries s x))"
    by (rule sum.cong) (auto simp: s2 e(1) e(4)[unfolded e(1)])
  moreover have "counted (entries s2 (next_ptr s)) = 0" by (simp add: s2 e(1) counted_def assms(3))
  ultimately have "live_bytes s2 = live_bytes s" by (simp add: live_bytes_def s2 e(2))
  then show "addressed s2 \<and> drift s2 = drift s" using a by (auto simp: addressed_def drift_def s2 e)
qed

lemma steady_set_store: "set_store t h e s = Some s' \<Longrightarrow> steady s s'"
  by (auto simp: set_store_def elim!: bind_SomeE intro: steady_mod_table)

lemma steady_write_new:
  assumes "db_entry_write_new t key b s = Some (e, s')" shows "steady s s'"
proof -
  obtain e1 s1 where n: "db_entry_new t s = (e1, s1)" by fastforce
  with assms obtain s2 s3 s4 s5 where
    s2: "mod_entry e1 (\<lambda>c. c\<lparr>ce_block := - 2, ce_data_length := 0, ce_key := key, ce_key_length := bits14 (length key), ce_hash := hash_string key\<rparr>) s1 = Some s2"
    and s3: "(if b then db_table_incref t s2 else Some s2) = Some s3"
    and s4: "set_store t (hash_string key) e1 s3 = Some s4" "db_entry_incref e1 False s4 = Some s5"
      "mod_entry e1 (\<lambda>c. c\<lparr>ce_writing := True\<rparr>) s5 = Some s'"
    by (auto simp: db_entry_write_new_def elim!: bind_SomeE)
  have "steady s s2" using n s2 by (rule steady_new) simp
  also have "steady s2 s3" using s3 by (auto split: if_split_asm intro: steady_table_incref)
  also have "steady s3 s4" using s4(1) by (rule steady_set_store)
  also have "steady s4 s5" using s4(2) by (rule steady_incref)
  also have "steady s5 s'" using s4(3) by (rule steady_modI) simp
  finally show ?thesis .
qed

lemma steady_get_write:
  assumes "db_entry_get_write env t key s = Some (r, s')" shows "steady s s'"
proof -
  let ?s = "s\<lparr>db_stats_inserts := db_stats_inserts s + 1, db_stats_operations := db_stats_operations s + 1\<rparr>"
  from assms obtain k entry b w where w: "(if w then Some (None, ?s)
     else do {
       s \<leftarrow> (case entry of
           Some e \<Rightarrow> db_entry_handle_softdelete e k ?s
         | None \<Rightarrow> Some (?s\<lparr>db_keys := db_keys ?s + 1\<rparr>));
       (e, s) \<leftarrow> db_entry_write_new t key b s;
       s \<leftarrow> (if db_stats_inserts s mod of_nat DB_LRU_EVERY = 0 then db_lru_gc env s else Some s);
       Some (Some e, s)
     }) = Some (r, s')"
    unfolding db_entry_get_write_def Let_def by (auto elim!: bind_SomeE)
  have "steady ?s s'"
  proof (cases w)
    case True
    then show ?thesis using w by simp
  next
    case False
    with w obtain s1 e s2 where s1: "(case entry of Some e \<Rightarrow> db_entry_handle_softdelete e k ?s
         | None \<Rightarrow> Some (?s\<lparr>db_keys := db_keys ?s + 1\<rparr>)) = Some s1"
      and s2: "db_entry_write_new t key b s1 = Some (e, s2)"
        "(if db_stats_inserts s2 mod of_nat DB_LRU_EVERY = 0 then db_lru_gc env s2 else Some s2) = Some s'"
      by (auto elim!: bind_SomeE)
    have "steady ?s s1" using s1 by (auto split: option.split_asm intro: steady_softdelete steady_entries)
    also have "steady s1 s2" using s2(1) by (rule steady_write_new)
    also have "steady s2 s'" using s2(2) by (auto split: if_split_asm intro: steady_gc)
    finally show ?thesis .
  qed
  then show ?thesis by (simp only: steady_stats)
qed

lemma steady_table_read: "db_table_get_read name s = Some (r, s') \<Longrightarrow> steady s s'"
  by (auto simp: db_table_get_read_def elim!: bind_SomeE split: sum.split_asm intro: steady_table_incref)

lemma steady_table_write: 
  assumes "db_table_get_write name s = Some (t, s')" shows "steady s s'"
proof -
  from assms obtain r where r: "db_table_probe name (hash_string name) s = Some r" by (auto simp: db_table_get_write_def elim!: bind_SomeE)
  show ?thesis
  proof (cases r)
    case (Inl h)
    then have e: "entries s' = entries s" "next_ptr s' = Suc (next_ptr s)" "db_size_bytes s' = db_size_bytes s"
      using assms r by (auto simp: db_table_get_write_def Let_def elim!: bind_SomeE)
    have "counted (entries s (next_ptr s)) = 0" if "addressed s" using that by (simp add: addressed_def counted_def)
    then show ?thesis by (auto simp: steady_def addressed_def drift_def live_bytes_def e)
  next
    case (Inr t)
    then show ?thesis using assms r by (auto simp: db_table_get_write_def elim!: bind_SomeE intro: steady_table_incref)
  qed
qed

lemma steady_complete: "db_complete_writing e s = Some s' \<Longrightarrow> steady s s'"
  unfolding db_complete_writing_def
  by (elim bind_SomeE) (auto split: if_split_asm intro: steady_trans [OF steady_modI steady_insert] steady_modI)

lemma steady_abandon:
  assumes "abandon_write e s = Some s'" shows "steady s s'"
proof -
  from assms obtain c s1 where c: "entries s e = Some c"
    "(if \<not> ce_deleted c then do { (_, s) \<leftarrow> db_entry_handle_delete e s; Some s } else Some s) = Some s1"
    "mod_entry e (\<lambda>c. c\<lparr>ce_writing := False\<rparr>) s1 = Some s'"
    unfolding abandon_write_def by (elim bind_SomeE) (rule that, assumption+)
  have "steady s s1" using c(2) by (auto elim!: bind_SomeE split: if_split_asm intro: steady_handle_delete [OF _ c(1)])
  moreover have "steady s1 s'" using c(3) by (rule steady_modI) simp
  ultimately show ?thesis by (rule steady_trans)
qed

text \<open>Lookups and deletions by key find entries that are not deleted: this is part of the invariant.\<close>

lemma found_alive:
  assumes "db_ok s hs X" "find_entry t hash s = Some (k, Some e)"
  obtains c where "entries s e = Some c" "\<not> ce_deleted c"
proof -
  from assms(2) obtain h where h: "hash_set_of t s = Some h" by (auto simp: find_entry_def elim!: bind_SomeE)
  from find_entry_stored [OF assms(1) h, of hash] assms(2) have "stored s t hash = Some e" by auto
  from stored_entry [OF assms(1) this] that show thesis by blast
qed

lemma steady_get_read:
  assumes ok: "db_ok s hs X" and r: "db_entry_get_read t key s = Some (r, s')"
  shows "steady s s'"
proof -
  from r obtain k entry where f: "find_entry t (hash_string key) s = Some (k, entry)"
    unfolding db_entry_get_read_def by (auto elim!: bind_SomeE)
  show ?thesis
  proof (cases entry)
    case None
    then show ?thesis using r f by (simp add: db_entry_get_read_def)
  next
    case (Some e)
    from found_alive [OF ok f [unfolded Some]] obtain c where c: "entries s e = Some c" "\<not> ce_deleted c" .
    show ?thesis
    proof (cases "ce_expires c \<noteq> 0 \<and> ce_expires c < now_sec s")
      case True
      with r f Some c obtain s1 g s2 where "db_entry_incref e False s = Some s1" "db_entry_handle_delete e s1 = Some (g, s2)"
        "db_entry_deref e False s2 = Some s'" by (auto simp: db_entry_get_read_def elim!: bind_SomeE)
      from steady_hold_delete [OF this c] show ?thesis .
    next
      case False
      let ?s = "s\<lparr>db_stats_gets := db_stats_gets s + 1, db_stats_operations := db_stats_operations s + 1\<rparr>"
      have "s' = s \<or> s' = ?s \<or> (\<exists>s1. db_lru_hit e ?s = Some s1 \<and> db_entry_incref e False s1 = Some s')"
        using r f Some c False by (auto simp: db_entry_get_read_def Let_def elim!: bind_SomeE split: if_split_asm)
      then have "s' = s \<or> steady ?s s'" using steady_trans [OF steady_hit steady_incref] by auto
      then show ?thesis by (auto simp: steady_stats)
    qed
  qed
qed

lemma steady_delete_key:
  assumes ok: "db_ok s hs X" and r: "delete_key t key s = Some (r, s')"
  shows "steady s s'"
proof -
  let ?s = "s\<lparr>db_stats_deletes := db_stats_deletes s + 1, db_stats_operations := db_stats_operations s + 1\<rparr>"
  from r obtain k entry where f: "find_entry t (hash_string key) s = Some (k, entry)"
    unfolding delete_key_def db_entry_get_delete_def by (auto elim!: bind_SomeE)
  show ?thesis
  proof (cases entry)
    case None
    then show ?thesis using r f by (simp add: delete_key_def db_entry_get_delete_def)
  next
    case (Some e)
    from found_alive [OF ok f [unfolded Some]] obtain c where c: "entries s e = Some c" "\<not> ce_deleted c" .
    have "s' = s \<or> (\<exists>s1 g s2. db_entry_incref e False ?s = Some s1 \<and> db_entry_handle_delete e s1 = Some (g, s2)
        \<and> db_entry_deref e False s2 = Some s')"
      using r f Some c by (auto simp: delete_key_def db_entry_get_delete_def Let_def elim!: bind_SomeE split: if_split_asm)
    moreover have "entries ?s e = Some c" using c by simp
    ultimately have "s' = s \<or> steady ?s s'" using steady_hold_delete [OF _ _ _ _ c(2)] by blast
    then show ?thesis by (auto simp: steady_stats)
  qed
qed

section \<open>Announced lengths\<close>

lemma steady_files [simp]: "steady s (s\<lparr>files := fs\<rparr>)"
  by (rule steady_entries) simp_all

lemma steady_open_create: "db_entry_open_create n e newfd s = Some (fd, s') \<Longrightarrow> steady s s'"
proof (induction n arbitrary: s)
  case (Suc n)
  then obtain fd1 s1 where o1: "db_entry_open e True newfd s = Some (fd1, s1)"
    "(if 0 \<le> fd1 then Some (fd1, s1) else do { s \<leftarrow> mod_entry e (\<lambda>c. c\<lparr>ce_it := ce_it c + 1\<rparr>) s1; db_entry_open_create n e newfd s }) = Some (fd, s')"
    by (auto elim!: bind_SomeE)
  have "steady s s1" using o1(1) by (auto simp: db_entry_open_def elim!: bind_SomeE split: if_split_asm intro: steady_entries)
  moreover have "steady s1 s'" using o1(2) Suc.IH
    by (auto elim!: bind_SomeE split: if_split_asm intro: steady_trans [OF steady_modI])
  ultimately show ?case by (rule steady_trans)
qed simp

lemma steady_target_open: "db_target_open fd tgt b newfd s = Some (tgt', s') \<Longrightarrow> steady s s'"
  by (auto simp: db_target_open_def db_entry_open_def Let_def elim!: bind_SomeE split: if_split_asm
      intro: steady_open_create steady_entries)

lemma allocated_block:
  assumes "blocks_inv s U" "db_block_allocate_new s = (b, s')"
  shows "b \<noteq> - 2"
proof (cases "free_blocks s")
  case Nil
  then have "b = - 1 \<or> b = sint (blocks_exist s) \<and> blocks_exist s \<le> 2147483647" using assms by (auto simp: db_block_allocate_new_def blocks_inv_def split: if_splits)
  then have "b = - 1 \<or> b = uint (blocks_exist s)" using sint_small [of "blocks_exist s"] by auto
  then show ?thesis using uint_ge_0 [of "blocks_exist s"] by linarith
next
  case (Cons x xs)
  with assms(1) have "uint x < uint (blocks_exist s)" "blocks_exist s \<le> 2147483647" by (auto simp: blocks_inv_def)
  then have "x \<le> 2147483647" by (simp add: word_le_def)
  then have "0 \<le> sint x" using sint_small [of x] uint_ge_0 [of x] by simp
  then show ?thesis using assms(2) Cons by (auto simp: db_block_allocate_new_def)
qed

lemma allocate_block_steady:
  assumes "write_allocate_block e n s = Some s'" "entries s e = Some c" and b: "blocks_inv s U"
  shows "steady s s' \<and> (\<exists>c'. entries s' e = Some c' \<and> ce_deleted c' = ce_deleted c \<and> ce_data_length c' = ce_data_length c
    \<and> (ce_block c' = - 2 \<longrightarrow> ce_block c = - 2))"
proof -
  define ok where "ok = (\<lambda>s2 s3. steady s2 s3 \<and> (\<exists>c'. entries s3 e = Some c' \<and> ce_deleted c' = ce_deleted c
    \<and> ce_data_length c' = ce_data_length c \<and> (ce_block c' = - 2 \<longrightarrow> ce_block c = - 2)))"
  have set: "ok s2 s3" if m: "mod_entry e (\<lambda>c. c\<lparr>ce_block := b\<rparr>) s2 = Some s3" "entries s2 e = Some c" "b \<noteq> - 2" for s2 s3 b
    using steady_modI [OF m(1)] m(2,3) mod_entry_Some [OF m(2), of "\<lambda>c. c\<lparr>ce_block := b\<rparr>"] m(1) by (auto simp: ok_def)
  have alloc: "ok s2 s3"
    if a: "(case db_block_allocate_new s2 of (b, s) \<Rightarrow> mod_entry e (\<lambda>c. c\<lparr>ce_block := b\<rparr>) s) = Some s3" "entries s2 e = Some c"
      "blocks_inv s2 U" for s2 s3
  proof -
    obtain b s4 where n: "db_block_allocate_new s2 = (b, s4)" by fastforce
    note same = db_block_allocate_same [OF n]
    then have "steady s2 s4" by (intro steady_entries) simp_all
    moreover have "ok s4 s3" using set [of b s4 s3] a n same allocated_block [OF a(3) n] by simp
    ultimately show ?thesis using steady_trans by (auto simp: ok_def)
  qed
  have "ok s s'"
  proof (cases "ce_block c = - 2")
    case True
    then show ?thesis using assms alloc [of s s'] by (auto simp: write_allocate_block_def ok_def split: if_split_asm)
  next
    case False
    define freed where "freed = (if \<not> IS_SINGLE_FILE c \<and> 0 \<le> ce_block c then db_block_free (ce_block c) s else s)"
    have f: "steady s freed" "entries freed e = Some c"
      using assms(2) db_block_free_same [of "ce_block c" s] by (auto simp: freed_def intro: steady_entries)
    have run: "(if of_nat BLOCK_LENGTH < n then mod_entry e (\<lambda>c. c\<lparr>ce_block := - 1\<rparr>) freed
      else if IS_SINGLE_FILE c then do {
        path \<leftarrow> get_key_path c s;
        (case db_block_allocate_new (s\<lparr>files := files s - {path}\<rparr>) of (b, s) \<Rightarrow> mod_entry e (\<lambda>c. c\<lparr>ce_block := b\<rparr>) s) }
      else Some s) = Some s'"
      using assms(1,2) False unfolding write_allocate_block_def freed_def by simp
    show ?thesis
    proof (cases "of_nat BLOCK_LENGTH < n")
      case True
      then have "ok freed s'" using set [of "- 1" freed s'] f run by simp
      then show ?thesis using f(1) steady_trans by (auto simp: ok_def)
    next
      case small: False
      show ?thesis
      proof (cases "IS_SINGLE_FILE c")
        case True
        with run small obtain path where
          p: "(case db_block_allocate_new (s\<lparr>files := files s - {path}\<rparr>) of (b, s) \<Rightarrow> mod_entry e (\<lambda>c. c\<lparr>ce_block := b\<rparr>) s) = Some s'"
          by (auto elim!: bind_SomeE)
        have "blocks_inv (s\<lparr>files := files s - {path}\<rparr>) U" using b by (simp add: blocks_inv_def)
        with alloc [OF p] assms(2) have "ok (s\<lparr>files := files s - {path}\<rparr>) s'" by simp
        then show ?thesis using steady_trans [OF steady_files] by (auto simp: ok_def)
      next
        case False
        then have "s' = s" using run small by simp
        then show ?thesis using assms(2) by (simp add: ok_def)
      qed
    qed
  qed
  then show ?thesis by (simp add: ok_def)
qed

lemma ucast_diff: "b \<le> a \<Longrightarrow> (ucast (a - b) :: u64) = ucast a - ucast b" for a b :: u32
proof -
  assume l: "b \<le> a"
  then have "unat b \<le> unat a" by (simp add: word_le_nat_alt)
  then have "uint (a - b) = uint a - uint b" using l by (simp add: uint_sub_if' word_le_def)
  then have "of_int (uint (a - b)) = (of_int (uint a) - of_int (uint b) :: u64)" by simp
  then show ?thesis by simp
qed

text \<open>The length of an entry that is not deleted grows, or is set for the first time.\<close>

definition announces :: "eptr \<Rightarrow> u32 \<Rightarrow> db_state \<Rightarrow> bool" where
  "announces e n s \<longleftrightarrow> (\<exists>c. entries s e = Some c \<and> \<not> ce_deleted c \<and> ce_data_length c \<le> n \<and> (ce_block c = - 2 \<longrightarrow> ce_data_length c = 0))"

lemma drift_length:
  assumes "addressed s" "entries s e = Some c" "ce_deleted c' = ce_deleted c" "ce_data_length c' = n"
  shows "drift (s\<lparr>db_size_bytes := x, entries := (entries s)(e \<mapsto> c')\<rparr>)
    = drift s + (x - db_size_bytes s) - (if ce_deleted c then 0 else ucast n - ucast (ce_data_length c))"
proof -
  have "drift (s\<lparr>db_size_bytes := x, entries := (entries s)(e \<mapsto> c')\<rparr>)
      = drift (s\<lparr>entries := (entries s)(e \<mapsto> c')\<rparr>) + (x - db_size_bytes s)" by (simp add: drift_def live_bytes_def)
  then show ?thesis using drift_upd(2) [OF assms(1,2), of "Some c'"] assms(3,4) by (simp add: counted_def)
qed

lemma allocate_drift:
  assumes "db_target_write_allocate fd tgt n newfd s = Some (tgt', s')" "tgt_entry tgt = Some e" "blocks_inv s U" "entries s e = Some c"
    and a: "addressed s"
  shows "addressed s' \<and> drift s' = drift s - (if ce_deleted c then 0 else ucast n - ucast (ce_data_length c))
    + (if ce_block c = - 2 \<and> (\<exists>s1 c1. write_allocate_block e n s = Some s1 \<and> entries s1 e = Some c1 \<and> ce_block c1 = - 2)
       then ucast n else ucast (n - ce_data_length c))"
proof -
  from assms(1,2) obtain s1 c1 s2 s3 where s1: "write_allocate_block e n s = Some s1" "entries s1 e = Some c1"
    and s2: "(if ce_block c1 = - 2
       then mod_entry e (\<lambda>c. c\<lparr>ce_block := - 1\<rparr>) (s1\<lparr>db_size_bytes := db_size_bytes s1 + ucast n\<rparr>)
       else Some (s1\<lparr>db_size_bytes := db_size_bytes s1 + ucast (n - ce_data_length c1)\<rparr>)) = Some s2"
    and s3: "mod_entry e (\<lambda>c. c\<lparr>ce_data_length := n\<rparr>) s2 = Some s3" "db_target_open fd tgt True newfd s3 = Some (tgt', s')"
    unfolding db_target_write_allocate_def by (auto elim!: bind_SomeE)
  from allocate_block_steady [OF s1(1) assms(4,3)] s1(2) have b: "steady s s1" "ce_deleted c1 = ce_deleted c" "ce_data_length c1 = ce_data_length c"
    "ce_block c1 = - 2 \<longrightarrow> ce_block c = - 2" by auto
  then have a1: "addressed s1" "drift s1 = drift s" using a by (simp_all add: steady_def)
  let ?x = "db_size_bytes s1 + (if ce_block c1 = - 2 then ucast n else ucast (n - ce_data_length c1))"
  define c' where "c' = (if ce_block c1 = - 2 then c1\<lparr>ce_block := - 1, ce_data_length := n\<rparr> else c1\<lparr>ce_data_length := n\<rparr>)"
  have s3': "s3 = s1\<lparr>db_size_bytes := ?x, entries := (entries s1)(e \<mapsto> c')\<rparr>" "ce_deleted c' = ce_deleted c1" "ce_data_length c' = n"
    using s2 s3(1) s1(2) by (auto simp: c'_def split: if_split_asm)
  have "addressed s3" using drift_upd(1) [OF a1(1) s1(2), of "Some c'"] unfolding s3'(1) by (simp add: addressed_def)
  moreover have "drift s3 = drift s1 + (?x - db_size_bytes s1) - (if ce_deleted c1 then 0 else ucast n - ucast (ce_data_length c1))"
    unfolding s3'(1) by (rule drift_length [OF a1(1) s1(2) s3'(2,3)])
  moreover have "steady s3 s'" using s3(2) by (rule steady_target_open)
  ultimately show ?thesis using b a1(2) s1 by (auto simp: steady_def)
qed

lemma steady_allocate:
  assumes "db_target_write_allocate fd tgt n newfd s = Some (tgt', s')" "tgt_entry tgt = Some e" "blocks_inv s U" "announces e n s"
  shows "steady s s'"
proof -
  from assms(4) obtain c where c: "entries s e = Some c" "\<not> ce_deleted c" "ce_data_length c \<le> n" "ce_block c = - 2 \<longrightarrow> ce_data_length c = 0"
    by (auto simp: announces_def)
  from allocate_drift [OF assms(1-3) c(1)] c(2-) show ?thesis
    by (auto simp: steady_def ucast_diff split: if_split_asm)
qed

section \<open>Runs\<close>

fun exact_call :: "call \<Rightarrow> engine \<Rightarrow> bool" where
  "exact_call (Allocate e n fd newfd) \<sigma> = announces e n (fst \<sigma>)"
| "exact_call c \<sigma> = True"

lemma call_steady:
  assumes "engine_ok \<sigma>" "exact_call c \<sigma>" "do_call c \<sigma> = Some \<sigma>'"
  shows "steady (fst \<sigma>) (fst \<sigma>')"
proof -
  obtain s hs where \<sigma>: "\<sigma> = (s, hs)" by fastforce
  from assms(1) have ok: "db_ok s hs None" by (simp add: engine_ok_def \<sigma>)
  then obtain U where U: "blocks_inv s U" by (auto simp: db_ok_def blocks_ok_def)
  show ?thesis
  proof (cases c)
    case (Allocate e n fd newfd)
    then show ?thesis using assms(2,3) steady_allocate [OF _ _ U] by (auto simp: \<sigma> elim!: bind_SomeE)
  next
    case (Clock now)
    then show ?thesis using assms(3) by (auto simp: \<sigma> intro: steady_entries)
  qed (use assms(3) ok in \<open>auto simp: \<sigma> db_table_close_def elim!: bind_SomeE intro: steady_table_read steady_table_write
      steady_table_deref steady_get_read steady_get_write steady_delete_key steady_complete steady_abandon steady_deref steady_gc\<close>)
qed

inductive exact_runs :: "engine \<Rightarrow> engine \<Rightarrow> bool" where
  start: "exact_runs \<sigma> \<sigma>"
| call: "exact_runs \<sigma> \<sigma>1 \<Longrightarrow> room \<sigma>1 \<Longrightarrow> may_call c \<sigma>1 \<Longrightarrow> exact_call c \<sigma>1 \<Longrightarrow> do_call c \<sigma>1 = Some \<sigma>2 \<Longrightarrow> exact_runs \<sigma> \<sigma>2"

lemma exact_runs_ok: "exact_runs \<sigma> \<sigma>' \<Longrightarrow> engine_ok \<sigma> \<Longrightarrow> engine_ok \<sigma>' \<and> steady (fst \<sigma>) (fst \<sigma>')"
proof (induction rule: exact_runs.induct)
  case (call \<sigma> \<sigma>1 c \<sigma>2)
  then show ?case using engine_step [of \<sigma>1 c] call_steady [of \<sigma>1 c \<sigma>2] steady_trans by (auto simp: goes_on_def)
qed simp

end
