(* ===== verification/DbLimit.thy ===== *)
theory DbLimit
  imports DbBytes
begin

text \<open>
  The size limit (\<open>db_lru_gc\<close> in src/core/db.cpp): with the count of bytes exact, what a garbage collection with a limit
  achieves, and when the computation of the bytes to remove is undefined: it is done in floating point on the difference of two
  unsigned numbers, and stored in an \<open>int\<close>.
\<close>

section \<open>The bytes of all entries\<close>

definition entry_bytes :: "cache_entry option \<Rightarrow> nat" where
  "entry_bytes x = (case x of None \<Rightarrow> 0 | Some c \<Rightarrow> if ce_deleted c then 0 else unat (ce_data_length c))"

definition total_bytes :: "db_state \<Rightarrow> nat" where
  "total_bytes s = (\<Sum>e<next_ptr s. entry_bytes (entries s e))"

lemma live_bytes_total: "live_bytes s = of_nat (total_bytes s)"
proof -
  have "counted x = of_nat (entry_bytes x)" for x
    by (cases x) (simp_all add: counted_def entry_bytes_def)
  then show ?thesis by (simp add: live_bytes_def total_bytes_def)
qed

lemma fresh_addressed: "db_ok s hs X \<Longrightarrow> addressed s"
  by (simp add: db_ok_def fresh_ok_def addressed_def)

lemma steady_exact: "steady s s' \<Longrightarrow> addressed s \<Longrightarrow> db_size_bytes s = live_bytes s \<Longrightarrow> db_size_bytes s' = live_bytes s'"
  by (simp add: steady_def drift_def)

section \<open>Eviction and the limit\<close>

lemma evict_enough: "b \<le> sum_list (take (evict_count b ns) ns) \<or> evict_count b ns = length ns"
  by (induction b ns rule: evict_count.induct) auto

lemma evicted_total:
  assumes ok: "db_ok s hs None" and l: "lru_ok s xs" and ev: "evicted hs (set (take k xs)) s s'"
  shows "total_bytes s = total_bytes s' + nat (sum_list (take k (map (data_len s) xs)))"
proof -
  let ?E = "set (take k xs)"
  have N: "next_ptr s' = next_ptr s" using ev by (simp add: evicted_def same_env_def)
  have idle: "\<exists>c. entries s x = Some c \<and> \<not> ce_deleted c" if "x \<in> ?E" for x
    using l in_set_takeD [OF that] by (auto simp: lru_ok_def idle_entries_def)
  then have sub: "?E \<subseteq> {..<next_ptr s}" using fresh_addressed [OF ok] by (force simp: addressed_def not_le [symmetric])
  have "entry_bytes (entries s' x) = 0" if "x \<in> ?E" for x
    using ev that by (auto simp: evicted_def gone_def entry_bytes_def split: option.split)
  moreover have "entry_bytes (entries s' x) = entry_bytes (entries s x)" if "x \<notin> ?E" for x
    using ev that by (cases "entries s' x"; cases "entries s x") (auto simp: evicted_def entry_bytes_def dest!: spec [of _ x] core_eqD)
  ultimately have "total_bytes s' = (\<Sum>x\<in>{..<next_ptr s} - ?E. entry_bytes (entries s x))"
    unfolding total_bytes_def N by (subst sum.subset_diff [OF sub]) simp_all
  then have "total_bytes s = total_bytes s' + (\<Sum>x\<in>?E. entry_bytes (entries s x))"
    unfolding total_bytes_def by (subst sum.subset_diff [OF sub]) simp_all
  moreover have "(\<Sum>x\<in>?E. entry_bytes (entries s x)) = nat (sum_list (take k (map (data_len s) xs)))"
  proof -
    have "distinct (take k xs)" using l by (simp add: lru_ok_def lru_inv_def)
    then have "int (\<Sum>x\<in>?E. entry_bytes (entries s x)) = sum_list (map (\<lambda>x. int (entry_bytes (entries s x))) (take k xs))"
      by (simp add: sum_list_distinct_conv_sum_set)
    also have "map (\<lambda>x. int (entry_bytes (entries s x))) (take k xs) = take k (map (data_len s) xs)"
      unfolding take_map by (rule map_cong) (auto simp: entry_bytes_def data_len_def dest!: idle)
    finally show ?thesis by (metis nat_int)
  qed
  ultimately show ?thesis by simp
qed

lemma lru_target_ge:
  assumes "lru_target s = Some b" "max_size s \<le> db_size_bytes s" "0 \<le> db_lru_clear s"
  shows "int (unat (db_size_bytes s)) - int (unat (max_size s)) \<le> b" "b < 2 ^ 31" "0 \<le> b"
proof -
  let ?d = "unat (db_size_bytes s - max_size s)"
  let ?x = "of_nat ?d + of_nat (unat (max_size s)) * db_lru_clear s"
  have "0 \<le> of_nat a + of_nat m * r \<and> of_nat a \<le> of_nat a + of_nat m * r" if "0 \<le> r" for a m :: nat and r :: rat
    using that by simp
  from this [OF assms(3)] have x: "0 \<le> ?x" "of_nat ?d \<le> ?x" by blast+
  then have b: "b = \<lfloor>?x\<rfloor>" "int32_ok b" using assms(1) by (auto simp: lru_target_def Let_def split: if_split_asm)
  have "int ?d \<le> b" using x(2) unfolding b(1) by (simp add: le_floor_iff)
  moreover have "?d = unat (db_size_bytes s) - unat (max_size s)" using assms(2) by (simp add: unat_sub)
  moreover have "unat (max_size s) \<le> unat (db_size_bytes s)" using assms(2) by (simp add: word_le_nat_alt)
  ultimately show "int (unat (db_size_bytes s)) - int (unat (max_size s)) \<le> b" "0 \<le> b" by arith+
  show "b < 2 ^ 31" using b(2) by (simp add: int32_ok_def)
qed

lemma evict_to_limit:
  assumes ok: "db_ok s hs None" and l: "lru_ok s xs" and n: "length hs + 1 < 2 ^ 14" and x: "exact_lengths s xs"
    and ex: "db_size_bytes s = live_bytes s" "total_bytes s < 2 ^ 64"
    and b: "lru_target s = Some b" "max_size s \<le> db_size_bytes s" "0 \<le> db_lru_clear s"
  shows "\<exists>m s'. db_lru_cleanup_percent b s = Some (m, s') \<and> db_ok s' hs None \<and> db_size_bytes s' = live_bytes s'
    \<and> (db_size_bytes s' \<le> max_size s \<or> idle_entries s' = {})"
proof -
  note t = lru_target_ge [OF b]
  from evict_ok [OF ok l n, of b] obtain m k s' where s': "db_lru_cleanup_percent b s = Some (m, s')" "db_ok s' hs None"
    "lru_ok s' (drop k xs)" "evicted hs (set (take k xs)) s s'"
    "b < 2 ^ 31 \<and> exact_lengths s xs \<longrightarrow> k = evict_count b (map (data_len s) xs) \<and> m = b - sum_list (take k (map (data_len s) xs))"
    by blast
  then have k: "k = evict_count b (map (data_len s) xs)" using t(2) x by blast
  have e': "db_size_bytes s' = live_bytes s'"
    using steady_exact [OF steady_evict [OF s'(1)]] fresh_addressed [OF ok] ex(1) by simp
  from evict_enough [of b "map (data_len s) xs"] have "db_size_bytes s' \<le> max_size s \<or> idle_entries s' = {}"
  proof (elim disjE)
    assume "b \<le> sum_list (take (evict_count b (map (data_len s) xs)) (map (data_len s) xs))"
    then have "nat b + total_bytes s' \<le> total_bytes s"
      using evicted_total [OF ok l s'(4)] unfolding k by simp
    moreover have "unat (db_size_bytes s) = total_bytes s" using ex by (simp add: live_bytes_total unat_of_nat take_bit_nat_eq_self)
    moreover from calculation ex(2) have "unat (db_size_bytes s') = total_bytes s'"
      by (simp add: e' live_bytes_total unat_of_nat take_bit_nat_eq_self)
    ultimately have "unat (db_size_bytes s') \<le> unat (max_size s)" using t(1,3) by linarith
    then show ?thesis by (simp add: word_le_nat_alt)
  next
    assume "evict_count b (map (data_len s) xs) = length (map (data_len s) xs)"
    then have "drop k xs = []" by (simp add: k)
    then show ?thesis using s'(3) by (simp add: lru_ok_def)
  qed
  then show ?thesis using s'(1,2) e' by blast
qed

text \<open>When expiry brings the bytes below the limit the difference wraps around, and the double does not fit into the \<open>int\<close>.\<close>

lemma target_below_limit:
  assumes "db_size_bytes s < max_size s" "max_size s \<le> 2 ^ 63" "0 \<le> db_lru_clear s"
  shows "lru_target s = None"
proof -
  let ?d = "unat (db_size_bytes s - max_size s)"
  let ?x = "of_nat ?d + of_nat (unat (max_size s)) * db_lru_clear s"
  have lt: "unat (db_size_bytes s) < unat (max_size s)" "unat (max_size s) \<le> 2 ^ 63"
    using assms(1,2) by (simp_all add: word_less_nat_alt word_le_nat_alt)
  have d: "2 ^ 63 \<le> ?d" using lt by (simp add: unat_sub_if')
  have "of_nat (2 ^ 63) \<le> of_nat a + of_nat k * r" if "2 ^ 63 \<le> a" "0 \<le> r" for a k :: nat and r :: rat
  proof -
    have "(of_nat (2 ^ 63) :: rat) \<le> of_nat a" using that(1) by (simp only: of_nat_le_iff)
    moreover have "0 \<le> of_nat k * r" using that(2) by simp
    ultimately show ?thesis by linarith
  qed
  from this [OF d assms(3), of "unat (max_size s)"] have x: "(2 ^ 63 :: rat) \<le> ?x" by simp
  then have "(2 ^ 63 :: int) \<le> \<lfloor>?x\<rfloor>" by (simp add: le_floor_iff)
  moreover have "\<not> ?x < 0" using x by simp
  ultimately show ?thesis by (simp add: lru_target_def Let_def int32_ok_def)
qed

lemma gc_below_limit:
  assumes "0 < max_size s" "max_size s < db_size_bytes s" "db_gc_cycles 5 s = Some s1"
    "db_size_bytes s1 < max_size s1" "max_size s1 \<le> 2 ^ 63" "0 \<le> db_lru_clear s1"
  shows "db_lru_gc env s = None"
  using assms target_below_limit [OF assms(4-6)] by (simp add: db_lru_gc_def)

section \<open>Results\<close>



text \<open>
  C39. What is announced for an entry that was deleted while it is written stays counted for ever: the entry is not
  counted any more, its later length is added all the same, and no call of any request takes it off again.
\<close>

theorem deleted_length_stays_counted:
  assumes "engine_ok (s, hs)" "room (s, hs)" "may_call (Allocate e n fd newfd) (s, hs)"
    and "entries s e = Some c" "ce_deleted c" "ce_data_length c = 0" "db_size_bytes s = live_bytes s"
    and "do_call (Allocate e n fd newfd) (s, hs) = Some \<sigma>" "exact_runs \<sigma> \<sigma>'"
  shows "db_size_bytes (fst \<sigma>') = live_bytes (fst \<sigma>') + ucast n"
proof -
  from assms(1) have ok: "db_ok s hs None" by (simp add: engine_ok_def)
  then obtain U where U: "blocks_inv s U" by (auto simp: db_ok_def blocks_ok_def)
  from assms(8) obtain tgt' s1 where
    a: "db_target_write_allocate fd \<lparr>tgt_entry = Some e, tgt_position = 0, tgt_end_position = 0, tgt_fd = - 1\<rparr> n newfd s = Some (tgt', s1)"
    and \<sigma>: "\<sigma> = (s1, hs)" by (auto elim!: bind_SomeE)
  have "addressed s1 \<and> drift s1 = drift s + ucast n"
    using allocate_drift [OF a _ U assms(4) fresh_addressed [OF ok]] assms(5,6) by auto
  moreover have "engine_ok \<sigma>" using engine_step [OF assms(1-3)] assms(8) by (auto simp: goes_on_def)
  then have "steady (fst \<sigma>) (fst \<sigma>')" using exact_runs_ok [OF assms(9)] by blast
  ultimately have "drift (fst \<sigma>') = drift s + ucast n" by (simp add: \<sigma> steady_def)
  then show ?thesis using assms(7) by (simp add: drift_def algebra_simps)
qed

definition orphan_db :: db_state where
  "orphan_db = empty_db\<lparr>entries := [1 \<mapsto> sample_entry\<lparr>ce_table := Some 0, ce_deleted := True, ce_writing := True, ce_refs := 1, ce_data_length := 0, ce_block := - 2\<rparr>],
     dbtables := [0 \<mapsto> bare_table], next_ptr := 2, tables := one_key (hash_string ''t'') 0\<rparr>"

lemma orphan_ok: "engine_ok (orphan_db, [EntryH 1])"
proof -
  have o: "owned_blocks orphan_db = {}" by (auto simp: owned_blocks_def orphan_db_def split: if_split_asm)
  have "tables_ok orphan_db" by (simp add: tables_ok_def orphan_db_def bare_table_def one_key)
  moreover have "sets_ok orphan_db" using kh_init_inv [of CAP] by (simp add: sets_ok_def orphan_db_def bare_table_def)
  moreover have "live_ok orphan_db" by (simp add: live_ok_def orphan_db_def)
  moreover have "kh_lookup (kh_init :: eptr kh) = Map.empty" by (rule ext) simp
  then have "refs_ok orphan_db [EntryH 1] None"
    by (simp add: refs_ok_def orphan_db_def bare_table_def entry_refs_def table_refs_def own_ref_def table_of_def)
  moreover have "blocks_ok orphan_db" unfolding blocks_ok_def o by (simp add: orphan_db_def empty_db_def blocks_inv_def)
  moreover have "fresh_ok orphan_db" by (simp add: fresh_ok_def orphan_db_def empty_db_def)
  ultimately have "db_ok orphan_db [EntryH 1] None" by (simp add: db_ok_def)
  moreover have "lru_ok orphan_db []" by (simp add: lru_ok_def lru_inv_def idle_entries_def orphan_db_def empty_db_def)
  ultimately show ?thesis by (auto simp: engine_ok_def orphan_db_def empty_db_def)
qed

theorem deleted_length_stays_counted_witness:
  "\<exists>\<sigma>. do_call (Allocate 1 7 5 9) (orphan_db, [EntryH 1]) = Some \<sigma> \<and> db_size_bytes (fst \<sigma>) = live_bytes (fst \<sigma>) + 7"
proof -
  let ?\<sigma> = "(orphan_db, [EntryH 1])"
  have m: "room ?\<sigma>" "may_call (Allocate 1 7 5 9) ?\<sigma>"
    by (simp_all add: room_def writes_def table_of_def orphan_db_def)
  from engine_step [OF orphan_ok m] obtain \<sigma> where c: "do_call (Allocate 1 7 5 9) ?\<sigma> = Some \<sigma>" by (auto simp: goes_on_def)
  have "db_size_bytes orphan_db = live_bytes orphan_db"
    by (simp add: live_bytes_def orphan_db_def empty_db_def counted_def numeral_2_eq_2 lessThan_Suc)
  from deleted_length_stays_counted [OF orphan_ok m _ _ _ this c exact_runs.start] c show ?thesis by (simp add: orphan_db_def)
qed

text \<open>A smaller length than the one before adds \<open>2 ^ 32\<close> bytes to the count: the difference is taken in 32 bits.\<close>

lemma smaller_length_adds_4GiB:
  assumes "db_target_write_allocate fd tgt n newfd s = Some (tgt', s')" "tgt_entry tgt = Some e" "db_ok s hs X" "entries s e = Some c"
    "\<not> ce_deleted c" "ce_block c \<noteq> - 2" "n < ce_data_length c"
  shows "drift s' = drift s + 2 ^ 32"
proof -
  from assms(3) obtain U where U: "blocks_inv s U" by (auto simp: db_ok_def blocks_ok_def)
  have "uint (n - ce_data_length c) = uint n - uint (ce_data_length c) + 2 ^ 32"
    using assms(7) by (simp add: uint_sub_if' word_less_def)
  then have "(of_int (uint (n - ce_data_length c)) :: u64) = of_int (uint n) - of_int (uint (ce_data_length c)) + 2 ^ 32" by simp
  then have "(ucast (n - ce_data_length c) :: u64) = ucast n - ucast (ce_data_length c) + 2 ^ 32" by simp
  then show ?thesis using allocate_drift [OF assms(1,2) U assms(4) fresh_addressed [OF assms(3)]] assms(5,6) by simp
qed


definition over_db :: db_state where
  "over_db = sample_db\<lparr>tables := kh_init, max_size := 4, db_size_bytes := 5\<rparr>"

lemma over_fields [simp]:
  "entries over_db = entries sample_db" "dbtables over_db = dbtables sample_db" "next_ptr over_db = next_ptr sample_db"
  "free_blocks over_db = free_blocks sample_db" "blocks_exist over_db = blocks_exist sample_db" "blocks_free over_db = blocks_free sample_db"
  "lru_head over_db = lru_head sample_db" "lru_tail over_db = lru_tail sample_db"
  by (simp_all add: over_db_def)

lemma over_ok: "db_ok over_db [TableH 1] None" "lru_ok over_db [2]"
proof -
  have t: "on_table over_db t h = on_table sample_db t h" for t h
    by (cases h) (simp_all add: table_of_def)
  have r: "table_refs over_db hs t = table_refs sample_db hs t" for hs t
    by (simp add: table_refs_def t cong: filter_cong)
  have b: "blocks_inv over_db = blocks_inv sample_db" "owned_blocks over_db = owned_blocks sample_db"
    unfolding blocks_inv_def [abs_def] owned_blocks_def over_fields by (rule refl)+
  have "tables_ok over_db" using kh_init_inv [of CAP] by (simp add: tables_ok_def over_db_def)
  moreover have "refs_ok over_db hs None = refs_ok sample_db hs None" for hs unfolding refs_ok_def over_fields r ..
  moreover have "sets_ok over_db = sets_ok sample_db" unfolding sets_ok_def over_fields ..
  moreover have "live_ok over_db = live_ok sample_db" unfolding live_ok_def over_fields ..
  moreover have "fresh_ok over_db = fresh_ok sample_db" unfolding fresh_ok_def over_fields ..
  moreover have "blocks_ok over_db = blocks_ok sample_db" unfolding blocks_ok_def over_fields b ..
  ultimately show "db_ok over_db [TableH 1] None" using sample_ok(1) unfolding db_ok_def by simp
  show "lru_ok over_db [2]" using sample_ok(2) by (simp add: lru_ok_def lru_inv_def idle_entries_def)
qed


text \<open>
  A large limit makes garbage collection undefined: as soon as there are more bytes than the limit and the share to be cleared is \<open>2 ^ 31\<close> bytes or
  more - with the default of a fifth, from a limit of 10 GiB on - the number of bytes to remove does not fit into the \<open>int\<close> it is stored in.
\<close>

theorem large_limit_is_undefined:
  assumes "0 < max_size s" "max_size s < db_size_bytes s" "2 ^ 31 \<le> of_nat (unat (max_size s)) * db_lru_clear s"
  shows "db_lru_gc env s = None"
proof -
  let ?x = "of_nat (unat (db_size_bytes s - max_size s)) + of_nat (unat (max_size s)) * db_lru_clear s"
  have "(2 ^ 31 :: rat) \<le> of_nat a + x" if "2 ^ 31 \<le> x" for a :: nat and x :: rat
    using that by (simp add: add_increasing)
  from this [OF assms(3)] have x: "(2 ^ 31 :: rat) \<le> ?x" .
  then have "(2 ^ 31 :: int) \<le> \<lfloor>?x\<rfloor>" by (simp add: le_floor_iff)
  moreover have "\<not> ?x < 0" using x by simp
  ultimately have "lru_target s = None" by (simp add: lru_target_def Let_def int32_ok_def)
  then have "db_gc_cycles (Suc 4) s = None" by (subst db_gc_cycles.simps) simp
  then have "db_gc_cycles 5 s = None" by (simp add: numeral_eq_Suc)
  then show ?thesis using assms(1,2) by (simp add: db_lru_gc_def)
qed

theorem large_limit_is_undefined_witness:
  "db_lru_gc \<lparr>wait_result = 0, wait_exited = False, fork_pid = 0\<rparr> (empty_db\<lparr>max_size := 0x400000000, db_size_bytes := 0x400000001\<rparr>) = None"
  by (rule large_limit_is_undefined) (simp_all add: empty_db_def)

end
