(* ===== verification/DbPaths.thy ===== *)
theory DbPaths
  imports DbIndexProps HttpRespondProps
begin

text \<open>
  Where the files of single entries are (src/core/db.cpp): \<open>db_init_folders\<close>, which makes the folders when the database is opened, and
  \<open>get_key_path\<close>. \<open>access\<close> is an argument: whether a folder is there. What is recorded are the calls of \<open>mkdir\<close>.
\<close>

section \<open>The folders\<close>

definition MAX_PATH :: nat where "MAX_PATH = 512"

definition letters :: "char list" where
  "letters = map (\<lambda>i. char_of (65 + i)) [0..<26]"

definition folder_name :: "string \<Rightarrow> char \<Rightarrow> char \<Rightarrow> string" where
  "folder_name path folder1 folder2 = take (MAX_PATH - 1) (path @ [folder1, folder2])"

definition db_init_folders :: "(string \<Rightarrow> bool) \<Rightarrow> string \<Rightarrow> string list" where
  "db_init_folders there path = path #
     concat (map (\<lambda>folder1. concat (map (\<lambda>folder2. let f = folder_name path folder1 folder2 in
       if there f then [] else [f]) letters)) letters)"

lemma letter_of: "DEC2ALPH x \<in> set letters"
proof -
  have "unat x mod 26 \<in> set [0..<26]" by simp
  then show ?thesis unfolding letters_def DEC2ALPH_def set_map by (rule imageI)
qed

lemma folders_made:
  assumes "a \<in> set letters" "b \<in> set letters"
  shows "there (folder_name p a b) \<or> folder_name p a b \<in> set (db_init_folders there p)"
  using assms by (auto simp: db_init_folders_def Let_def)

section \<open>The file of an entry\<close>

definition file_name :: "db_table \<Rightarrow> cache_entry \<Rightarrow> string" where
  "file_name d c = to_hex (unat (tbl_hash d)) @ to_hex (unat (ce_hash c)) @ ''_'' @ to_dec (unat (ce_it c))"

lemma to_base_no_slash: "b \<le> 16 \<Longrightarrow> 0 < b \<Longrightarrow> CHR ''/'' \<notin> set (to_base b fuel n)"
proof (induction b fuel n rule: to_base.induct)
  case (2 b fuel n)
  have "char_of (48 + n mod b) \<noteq> CHR ''/''" if "n mod b < 10"
  proof
    assume "char_of (48 + n mod b) = CHR ''/''"
    then have "of_char (char_of (48 + n mod b) :: char) = (of_char (CHR ''/'') :: nat)" by simp
    then show False using that by simp
  qed
  moreover have "char_of (87 + n mod b) \<noteq> CHR ''/''"
  proof
    assume "char_of (87 + n mod b) = CHR ''/''"
    then have "of_char (char_of (87 + n mod b) :: char) = (of_char (CHR ''/'') :: nat)" by simp
    moreover have "n mod b < 16" using "2.prems" mod_less_divisor [of b n] by linarith
    ultimately show False by simp
  qed
  ultimately show ?case using 2 by auto
qed simp

lemma length_file_name: "length (file_name d c) \<le> 37" "CHR ''/'' \<notin> set (file_name d c)"
proof -
  have h: "length (to_hex n) \<le> 8" "length (to_dec n) \<le> 20" for n by (simp_all add: to_hex_def to_dec_def length_to_base)
  show "length (file_name d c) \<le> 37"
    using h(1) [of "unat (tbl_hash d)"] h(1) [of "unat (ce_hash c)"] h(2) [of "unat (ce_it c)"] by (simp add: file_name_def)
  show "CHR ''/'' \<notin> set (file_name d c)" by (simp add: file_name_def to_hex_def to_dec_def to_base_no_slash)
qed

text \<open>
  C40. Every file that the engine opens, deletes or looks for has its folder: with the folder of the database cut off at 399 characters, as
  opening does, the path of an entry is never truncated, and is one of the folders that \<open>db_init_folders\<close> found or made,
  a slash and a name without one.
\<close>

theorem entry_path_has_folder:
  assumes "length (path_single s) \<le> 399" "get_key_path c s = Some p"
  shows "\<exists>folder name. p = folder @ ''/'' @ name \<and> CHR ''/'' \<notin> set name \<and> length p < MAX_PATH
    \<and> (there folder \<or> folder \<in> set (db_init_folders there (path_single s)))"
proof -
  from assms(2) obtain t d where d: "ce_table c = Some t" "dbtables s t = Some d"
    and p: "p = take 511 (path_single s @ [DEC2ALPH (ce_hash c), DEC2ALPH (drop_bit 8 (ce_hash c))] @ ''/'' @ file_name d c)"
    by (auto simp: get_key_path_def file_name_def elim!: bind_SomeE)
  let ?f = "folder_name (path_single s) (DEC2ALPH (ce_hash c)) (DEC2ALPH (drop_bit 8 (ce_hash c)))"
  have "p = ?f @ ''/'' @ file_name d c" "length p < MAX_PATH"
    using p assms(1) length_file_name(1) [of d c] by (simp_all add: folder_name_def MAX_PATH_def)
  then show ?thesis using length_file_name(2) folders_made [OF letter_of letter_of] by blast
qed

theorem entry_path_has_folder_witness:
  "\<exists>p folder name. get_key_path (saved_entry\<lparr>ce_table := Some 0\<rparr>) saved_db = Some p \<and> p = folder @ ''/'' @ name
    \<and> folder \<in> set (db_init_folders (\<lambda>_. False) ''/var/lib/scache/files/'')"
proof -
  have "\<exists>p. get_key_path (saved_entry\<lparr>ce_table := Some 0\<rparr>) saved_db = Some p" by (simp add: get_key_path_def saved_db_def)
  then obtain p where p: "get_key_path (saved_entry\<lparr>ce_table := Some 0\<rparr>) saved_db = Some p" by blast
  moreover have "path_single saved_db = ''/var/lib/scache/files/''" by (simp add: saved_db_def empty_db_def)
  ultimately show ?thesis using entry_path_has_folder [OF _ p, of "\<lambda>_. False"] by auto
qed

end
