(* ===== verification/KhashFlags.thy ===== *)
theory KhashFlags
  imports Khash
begin

text \<open>
  The flags of the hash table as the code stores them (src/core/khash.h): two bits for each bucket, sixteen buckets in a word of 32 bits,
  read and written with the macros \<open>__ac_...\<close>. The theories on the hash table use a list of flags instead; here the words
  are shown to represent that list under every sequence of the changes the table makes.
\<close>

unbundle bit_operations_syntax

section \<open>The macros\<close>

type_synonym flag_words = "u32 list"

definition flag_shift :: "nat \<Rightarrow> nat" where
  "flag_shift i = push_bit 1 (i AND 0xf)"

definition ac_isempty :: "flag_words \<Rightarrow> nat \<Rightarrow> bool" where
  "ac_isempty flag i \<longleftrightarrow> drop_bit (flag_shift i) (flag ! drop_bit 4 i) AND 2 \<noteq> 0"

definition ac_isdel :: "flag_words \<Rightarrow> nat \<Rightarrow> bool" where
  "ac_isdel flag i \<longleftrightarrow> drop_bit (flag_shift i) (flag ! drop_bit 4 i) AND 1 \<noteq> 0"

definition ac_iseither :: "flag_words \<Rightarrow> nat \<Rightarrow> bool" where
  "ac_iseither flag i \<longleftrightarrow> drop_bit (flag_shift i) (flag ! drop_bit 4 i) AND 3 \<noteq> 0"

definition upd_flag :: "(u32 \<Rightarrow> u32) \<Rightarrow> flag_words \<Rightarrow> nat \<Rightarrow> flag_words" where
  "upd_flag f flag i = flag[drop_bit 4 i := f (flag ! drop_bit 4 i)]"

text \<open>The constants are of type \<open>unsigned long\<close>; what the words get are the low 32 bits.\<close>

definition ac_set_isempty_false :: "flag_words \<Rightarrow> nat \<Rightarrow> flag_words" where
  "ac_set_isempty_false flag i = upd_flag (\<lambda>x. x AND NOT (push_bit (flag_shift i) 2)) flag i"

definition ac_set_isboth_false :: "flag_words \<Rightarrow> nat \<Rightarrow> flag_words" where
  "ac_set_isboth_false flag i = upd_flag (\<lambda>x. x AND NOT (push_bit (flag_shift i) 3)) flag i"

definition ac_set_isdel_true :: "flag_words \<Rightarrow> nat \<Rightarrow> flag_words" where
  "ac_set_isdel_true flag i = upd_flag (\<lambda>x. x OR push_bit (flag_shift i) 1) flag i"

definition ac_fsize :: "nat \<Rightarrow> nat" where
  "ac_fsize m = (if m < 16 then 1 else drop_bit 4 m)"

text \<open>The words of a new table: \<open>memset(new_flags, 0xaa, ...)\<close>.\<close>

definition ac_fresh :: "nat \<Rightarrow> flag_words" where
  "ac_fresh n = replicate (ac_fsize n) 0xaaaaaaaa"

section \<open>What the words represent\<close>

definition packs :: "flag_words \<Rightarrow> kflag list \<Rightarrow> bool" where
  "packs flag fs \<longleftrightarrow> length flag = ac_fsize (length fs) \<and> (\<forall>i<length fs. i div 16 < length flag
     \<and> bit (flag ! (i div 16)) (2 * (i mod 16) + 1) = (fs ! i = Empty)
     \<and> bit (flag ! (i div 16)) (2 * (i mod 16)) = (fs ! i = Deleted))"

lemma flag_shift: "flag_shift i = 2 * (i mod 16)"
proof -
  have "i AND 15 = i AND mask 4" by (simp add: mask_eq_exp_minus_1)
  also have "\<dots> = i mod 16" by (simp flip: take_bit_eq_mask add: take_bit_eq_mod)
  finally show ?thesis by (simp add: flag_shift_def push_bit_eq_mult)
qed

lemma flag_index: "drop_bit 4 i = i div 16" for i :: nat
  by (simp add: drop_bit_eq_div)

lemma test_bits:
  "(x AND 1 \<noteq> 0) = bit x 0" "(x AND 2 \<noteq> 0) = bit x 1" "(x AND 3 \<noteq> 0) = (bit x 0 \<or> bit x 1)" for x :: u32
proof -
  show one: "(x AND 1 \<noteq> 0) = bit x 0" using and_exp_eq_0_iff_not_bit [of x 0] by simp
  show two: "(x AND 2 \<noteq> 0) = bit x 1" using and_exp_eq_0_iff_not_bit [of x 1] by simp
  have "x AND 3 = (x AND 1) OR (x AND 2)" unfolding bit.conj_disj_distrib [symmetric] by simp
  then show "(x AND 3 \<noteq> 0) = (bit x 0 \<or> bit x 1)" using one two by (simp add: or_eq_0_iff)
qed

lemma bit_at: "bit (drop_bit k x) 0 = bit x k" "bit (drop_bit k x) (Suc 0) = bit x (k + 1)" for x :: u32
  by (simp_all add: bit_drop_bit_eq)

lemma flag_tests:
  assumes "packs flag fs" "i < length fs"
  shows "ac_isempty flag i = (fs ! i = Empty)" "ac_isdel flag i = (fs ! i = Deleted)" "ac_iseither flag i = (fs ! i \<noteq> Live)"
proof -
  note p = assms(1) [unfolded packs_def, THEN conjunct2, rule_format, OF assms(2)]
  show "ac_isempty flag i = (fs ! i = Empty)" "ac_isdel flag i = (fs ! i = Deleted)" "ac_iseither flag i = (fs ! i \<noteq> Live)"
    using p by (cases "fs ! i"; simp add: ac_isempty_def ac_isdel_def ac_iseither_def test_bits bit_at flag_shift flag_index)+
qed

section \<open>Changes\<close>

lemma same_word: "i div 16 = j div 16 \<Longrightarrow> i \<noteq> j \<Longrightarrow> i mod 16 \<noteq> j mod 16" for i j :: nat
  by (metis div_mod_decomp)

text \<open>A change of the two bits of one bucket, and of no other bit, changes one flag of the list.\<close>

lemma packs_upd:
  assumes p: "packs flag fs" and i: "i < length fs"
    and own: "\<And>x. bit x (2 * (i mod 16) + 1) = (fs ! i = Empty) \<Longrightarrow> bit x (2 * (i mod 16)) = (fs ! i = Deleted)
      \<Longrightarrow> bit (f x) (2 * (i mod 16) + 1) = (v = Empty) \<and> bit (f x) (2 * (i mod 16)) = (v = Deleted)"
    and others: "\<And>x m. m < 16 \<Longrightarrow> m \<noteq> i mod 16 \<Longrightarrow> bit (f x) (2 * m + 1) = bit x (2 * m + 1) \<and> bit (f x) (2 * m) = bit x (2 * m)"
  shows "packs (upd_flag f flag i) (fs[i := v])"
proof -
  have l: "length flag = ac_fsize (length fs)" using p by (simp add: packs_def)
  note q = p [unfolded packs_def, THEN conjunct2, rule_format]
  have "j div 16 < length flag \<and> bit (upd_flag f flag i ! (j div 16)) (2 * (j mod 16) + 1) = (fs[i := v] ! j = Empty)
      \<and> bit (upd_flag f flag i ! (j div 16)) (2 * (j mod 16)) = (fs[i := v] ! j = Deleted)" if j: "j < length fs" for j
  proof (cases "j = i")
    case True
    then show ?thesis using q [OF i] own [of "flag ! (i div 16)"] i by (simp add: upd_flag_def flag_index)
  next
    case False
    have "upd_flag f flag i ! (j div 16) = (if i div 16 = j div 16 then f (flag ! (j div 16)) else flag ! (j div 16))"
      using q [OF j] by (simp add: upd_flag_def flag_index)
    then show ?thesis using q [OF j] False others [of "j mod 16"] same_word [of i j] by auto
  qed
  then show ?thesis using l by (simp add: packs_def upd_flag_def)
qed

lemma word_bits: "bit (1 :: u32) n \<longleftrightarrow> n = 0" "bit (2 :: u32) n \<longleftrightarrow> n = 1" "bit (3 :: u32) n \<longleftrightarrow> n = 0 \<or> n = 1"
proof -
  show "bit (1 :: u32) n \<longleftrightarrow> n = 0" by (simp add: bit_1_iff)
  show "bit (2 :: u32) n \<longleftrightarrow> n = 1" using bit_exp_iff [of 1 n, where 'a = u32] by auto
  have "(3 :: u32) = mask 2" by (simp add: mask_eq_exp_minus_1)
  show "bit (3 :: u32) n \<longleftrightarrow> n = 0 \<or> n = 1" unfolding \<open>(3 :: u32) = mask 2\<close> bit_mask_iff by auto
qed

text \<open>The bits of a constant that was shifted to the place of a bucket.\<close>

lemma bit_pair:
  "bit (push_bit (2 * k) 1 :: u32) n \<longleftrightarrow> n = 2 * k \<and> n < 32"
  "bit (push_bit (2 * k) 2 :: u32) n \<longleftrightarrow> n = 2 * k + 1 \<and> n < 32"
  "bit (push_bit (2 * k) 3 :: u32) n \<longleftrightarrow> (n = 2 * k \<or> n = 2 * k + 1) \<and> n < 32"
  unfolding bit_push_bit_iff word_bits by auto

lemma packs_changes:
  assumes "packs flag fs" "i < length fs"
  shows "packs (ac_set_isboth_false flag i) (fs[i := Live])"
    "fs ! i \<noteq> Deleted \<Longrightarrow> packs (ac_set_isempty_false flag i) (fs[i := Live])"
    "fs ! i = Live \<Longrightarrow> packs (ac_set_isdel_true flag i) (fs[i := Deleted])"
proof -
  have m: "i mod 16 < 16" by simp
  show "packs (ac_set_isboth_false flag i) (fs[i := Live])"
    unfolding ac_set_isboth_false_def flag_shift
    by (rule packs_upd [OF assms]) (auto simp: bit_and_iff bit_not_iff bit_pair)
  show "packs (ac_set_isempty_false flag i) (fs[i := Live])" if "fs ! i \<noteq> Deleted"
    unfolding ac_set_isempty_false_def flag_shift
    by (rule packs_upd [OF assms]) (use that in \<open>auto simp: bit_and_iff bit_not_iff bit_pair\<close>)
  show "packs (ac_set_isdel_true flag i) (fs[i := Deleted])" if "fs ! i = Live"
    unfolding ac_set_isdel_true_def flag_shift
    by (rule packs_upd [OF assms]) (use that m in \<open>auto simp: bit_or_iff bit_pair simp del: push_bit_of_1\<close>)
qed

lemma packs_fresh:
  assumes "n < 16 \<or> 16 dvd n"
  shows "packs (ac_fresh n) (replicate n Empty)"
proof -
  have sixteen: "[0..<16] = [0, 1, 2, 3, 4, 5, 6, 7, 8, 9, 10, 11, 12, 13, 14, 15 :: nat]" by (simp add: upt_rec)
  have "bit (0xaaaaaaaa :: u32) (2 * m + 1) \<and> \<not> bit (0xaaaaaaaa :: u32) (2 * m)" if "m < 16" for m
  proof -
    have "m \<in> set [0..<16]" using that by simp
    then show ?thesis unfolding sixteen by auto
  qed
  moreover have "i div 16 < ac_fsize n" if "i < n" for i
    using assms that by (auto simp: ac_fsize_def flag_index elim!: dvdE)
  moreover have "2 * (i mod 16) < 31" for i :: nat using mod_less_divisor [of 16 i] by linarith
  ultimately show ?thesis by (simp add: packs_def ac_fresh_def)
qed

text \<open>
  The changes the table makes: a bucket is taken in a rehash (it was empty), a bucket gets a key (it was empty or deleted), an entry is
  deleted or moved on in a rehash.
\<close>

datatype flag_change = Taken nat | Filled nat | Dropped nat

fun change_words :: "flag_change \<Rightarrow> flag_words \<Rightarrow> flag_words" where
  "change_words (Taken i) flag = ac_set_isempty_false flag i"
| "change_words (Filled i) flag = ac_set_isboth_false flag i"
| "change_words (Dropped i) flag = ac_set_isdel_true flag i"

fun change_flags :: "flag_change \<Rightarrow> kflag list \<Rightarrow> kflag list" where
  "change_flags (Taken i) fs = fs[i := Live]"
| "change_flags (Filled i) fs = fs[i := Live]"
| "change_flags (Dropped i) fs = fs[i := Deleted]"

fun may_change :: "flag_change \<Rightarrow> kflag list \<Rightarrow> bool" where
  "may_change (Taken i) fs = (i < length fs \<and> fs ! i = Empty)"
| "may_change (Filled i) fs = (i < length fs \<and> fs ! i \<noteq> Live)"
| "may_change (Dropped i) fs = (i < length fs \<and> fs ! i = Live)"

fun may_changes :: "flag_change list \<Rightarrow> kflag list \<Rightarrow> bool" where
  "may_changes [] fs = True"
| "may_changes (c # cs) fs = (may_change c fs \<and> may_changes cs (change_flags c fs))"

lemma packs_change: "packs flag fs \<Longrightarrow> may_change c fs \<Longrightarrow> packs (change_words c flag) (change_flags c fs)"
  by (cases c) (auto intro: packs_changes)

lemma packs_run: "packs flag fs \<Longrightarrow> may_changes cs fs \<Longrightarrow> packs (fold change_words cs flag) (fold change_flags cs fs)"
  by (induction cs arbitrary: flag fs) (auto simp: packs_change)

lemma length_change: "length (change_flags c fs) = length fs"
  by (cases c) simp_all

lemma length_changes: "length (fold change_flags cs fs) = length fs"
  by (induction cs arbitrary: fs) (simp_all add: length_change)

text \<open>
  C15. The flag words are the flags: start with the words of a new table of a power of two of buckets, apply any sequence of the changes that
  the table makes; then the three tests of the code on the words say of each bucket what the list of flags says. So no
  change touches the flag of another bucket in the same word.
\<close>

theorem flag_words_refine_flags:
  assumes "n = 2 ^ k" "may_changes cs (replicate n Empty)" "i < n"
  shows "(let flag = fold change_words cs (ac_fresh n); fs = fold change_flags cs (replicate n Empty) in
    drop_bit 4 i < length flag \<and> ac_isempty flag i = (fs ! i = Empty) \<and> ac_isdel flag i = (fs ! i = Deleted) \<and> ac_iseither flag i = (fs ! i \<noteq> Live))"
proof -
  have "n < 16 \<or> 16 dvd n"
  proof (cases "k < 4")
    case True
    then have "n < 2 ^ 4" unfolding assms(1) by (intro power_strict_increasing) simp_all
    then show ?thesis by simp
  next
    case False
    then have "(2 :: nat) ^ 4 dvd n" unfolding assms(1) by (intro le_imp_power_dvd) simp
    then show ?thesis by simp
  qed
  from packs_run [OF packs_fresh [OF this] assms(2)] have p: "packs (fold change_words cs (ac_fresh n)) (fold change_flags cs (replicate n Empty))" .
  moreover have i: "i < length (fold change_flags cs (replicate n Empty))" using assms(3) by (simp add: length_changes)
  ultimately have "i div 16 < length (fold change_words cs (ac_fresh n))" unfolding packs_def by blast
  then show ?thesis using flag_tests [OF p i] by (simp add: Let_def flag_index)
qed

theorem flag_words_refine_flags_witness:
  "ac_isdel (fold change_words [Filled 17, Filled 18, Dropped 17] (ac_fresh 32)) 17
   \<and> \<not> ac_iseither (fold change_words [Filled 17, Filled 18, Dropped 17] (ac_fresh 32)) 18"
  using flag_words_refine_flags [of 32 5 "[Filled 17, Filled 18, Dropped 17]" 17]
    flag_words_refine_flags [of 32 5 "[Filled 17, Filled 18, Dropped 17]" 18] by (simp add: Let_def)

end
