(* ===== verification/Startup.thy ===== *)
theory Startup
  imports EventLoop DbRuns LoopProps HttpCacheProps
begin

text \<open>
  The process from its start to its end (src/server/scache.cpp, with \<open>timer_setup\<close> of timer.cpp): becoming a daemon, the PID file, the
  order in which \<open>main\<close> opens things, the loop, the end. What the system calls return is an input; the calls on descriptors, on the
  PID file and on the listening sockets are recorded.
\<close>

section \<open>Becoming a daemon\<close>

record fork_results =
  res_fork :: int
  res_dup :: "int \<Rightarrow> int \<Rightarrow> int"
  res_isatty :: bool
  res_chdir :: int

datatype daemon_call = Call_dup2 int int | Call_close_null int | Call_chdir string | Call_setsid

text \<open>
  \<open>fork_off\<close>. The parent says good-bye, sleeps and exits; the result is therefore that of the child. \<open>null_fd\<close> is the
  descriptor of \<open>/dev/null\<close>, which is no longer open (and set to -1) when the output is not kept.
\<close>

definition redirect_output :: "fork_results \<Rightarrow> int \<Rightarrow> daemon_call list or_exit" where
  "redirect_output r null_fd =
     (if res_dup r null_fd 0 < 0 then Inl Process_exit
      else if res_isatty r
      then (if res_dup r null_fd 1 < 0 \<or> res_dup r null_fd 2 < 0 then Inl Process_exit
            else Inr [Call_dup2 null_fd 0, Call_dup2 null_fd 1, Call_dup2 null_fd 2, Call_close_null null_fd])
      else (if res_dup r 2 1 < 0 then Inl Process_exit
            else Inr [Call_dup2 null_fd 0, Call_dup2 2 1, Call_close_null null_fd]))"

definition fork_off :: "scache_settings \<Rightarrow> fork_results \<Rightarrow> int \<Rightarrow> (int \<times> daemon_call list) or_exit" where
  "fork_off st r null_fd = (let npid = res_fork r in
     if npid < 0 then Inl Process_exit
     else if npid = 0
     then (case (if \<not> set_daemon_output st then redirect_output r null_fd else Inr []) of
         Inl e \<Rightarrow> Inl e
       | Inr calls \<Rightarrow> if res_chdir r \<noteq> 0 then Inl Process_exit else Inr (npid, calls @ [Call_chdir ''/'', Call_setsid]))
     else Inl Process_exit)"

section \<open>The start\<close>

text \<open>
  What the start gets from outside: the descriptor of \<open>/dev/null\<close>, the results of \<open>fork_off\<close> and \<open>write_pid\<close>, the process
  id, \<open>gettimeofday\<close> (\<open>None\<close> when it fails), \<open>setitimer\<close>, the name of the host, the text of \<open>index.save\<close>, the size of the block file, and what
  the calls for the listeners return.
\<close>

record start_env =
  env_null :: int
  env_fork :: fork_results
  env_getpid :: int
  env_pid :: pid_results
  env_time :: "(int \<times> int) option"
  env_timer :: int
  env_hostname :: string
  env_index :: "string option"
  env_blockfile :: nat
  env_cache :: "nat \<Rightarrow> listen_results"
  env_mon :: "nat \<Rightarrow> listen_results"

text \<open>The process id that \<open>main\<close> goes on with.\<close>

definition main_pid :: "start_env \<Rightarrow> scache_settings \<Rightarrow> (int \<times> daemon_call list) or_exit" where
  "main_pid env st =
     (if set_daemon_mode st
      then (if env_null env < 0 then Inl Process_exit else fork_off st (env_fork env) (env_null env))
      else Inr (env_getpid env, []))"

definition main_pidfile :: "start_env \<Rightarrow> scache_settings \<Rightarrow> int \<Rightarrow> (int \<times> pid_call list) or_exit" where
  "main_pidfile env st pid = (case set_pidfile st of
       Some p \<Rightarrow> write_pid (env_pid env) p pid
     | None \<Rightarrow> Inr (0, []))"

text \<open>
  What the process does on a signal: \<open>sigaction\<close> and \<open>signal\<close> change one place of the table. A child inherits the table,
  but nothing is installed before \<open>fork\<close>.
\<close>

datatype signum = SIGALRM | SIGUSR1 | SIGCHLD | SIGPIPE | SIGINT | SIGTERM

datatype disposition = Sig_default | Sig_ignore | On_timer | On_flush | On_child | On_abort

type_synonym sig_table = "signum \<Rightarrow> disposition"

text \<open>
  \<open>timer_setup\<close>: the time is stored, the handlers are installed, then the timer is started: every 5000 microseconds.
  \<open>timer_cleanup\<close> stops it, which is the interval 0.
\<close>

definition TIMER_USEC :: int where "TIMER_USEC = 5000"

definition timer_setup :: "start_env \<Rightarrow> sig_table \<Rightarrow> server \<Rightarrow> (sig_table \<times> int \<times> server) or_exit" where
  "timer_setup env sigs s = (case env_time env of
       None \<Rightarrow> Inl Process_exit
     | Some (sec, usec) \<Rightarrow>
         if env_timer env < 0 then Inl Process_exit
         else Inr (sigs(SIGALRM := On_timer, SIGUSR1 := On_flush, SIGCHLD := On_child), TIMER_USEC,
           timer_store_current_time sec usec s))"

definition timer_cleanup :: "int \<Rightarrow> int" where
  "timer_cleanup usec = 0"

text \<open>\<open>signal_handler_install\<close> and \<open>signal_handler_remove\<close> of signal_handle.cpp.\<close>

definition signal_handler_install :: "sig_table \<Rightarrow> sig_table" where
  "signal_handler_install sigs = sigs(SIGPIPE := Sig_ignore, SIGINT := On_abort, SIGTERM := On_abort)"

definition signal_handler_remove :: "sig_table \<Rightarrow> sig_table" where
  "signal_handler_remove sigs = sigs(SIGINT := Sig_default, SIGTERM := Sig_default)"

text \<open>
  \<open>monitoring_init\<close>: the response to monitoring requests holds the name of the host, of which \<open>gethostname\<close> gives at most 1023 bytes.
\<close>

definition monitoring_init :: "string \<Rightarrow> server \<Rightarrow> server" where
  "monitoring_init hostname s = s\<lparr>world := (world s)\<lparr>monitoring_rsp := monitoring_response (take 1023 hostname)\<rparr>\<rparr>"

record started =
  st_daemon_calls :: "daemon_call list"
  st_pidfd :: int
  st_pid_calls :: "pid_call list"
  st_listeners :: "listener_entry list"
  st_net_calls :: "net_call list"
  st_signals :: sig_table
  st_timer_usec :: int
  st_server :: server

definition with_results :: "(nat \<Rightarrow> listen_results) \<Rightarrow> scache_bind list \<Rightarrow> (scache_bind \<times> listen_results) list" where
  "with_results f bs = zip bs (map f [0..<length bs])"

text \<open>The settings that the engine reads; they are globals of the code.\<close>

definition db_settings :: "scache_settings \<Rightarrow> db_state \<Rightarrow> db_state" where
  "db_settings st d = d\<lparr>max_size := set_max_size st, db_lru_clear := set_db_lru_clear st\<rparr>"

text \<open>\<open>main\<close> up to the loop, from the state \<open>s\<close> of the zeroed globals; \<open>None\<close> is undefined behaviour, here while the index is read.\<close>

definition server_start :: "start_env \<Rightarrow> scache_settings \<Rightarrow> server \<Rightarrow> started or_exit option" where
  "server_start env st s = (case main_pid env st of
       Inl e \<Rightarrow> Some (Inl e)
     | Inr (pid, daemon_calls) \<Rightarrow> (case main_pidfile env st pid of
         Inl e \<Rightarrow> Some (Inl e)
       | Inr (pidfd, pid_calls) \<Rightarrow> (case timer_setup env (\<lambda>_. Sig_default) s of
           Inl e \<Rightarrow> Some (Inl e)
         | Inr (sigs, usec, s) \<Rightarrow> do {
             let s = monitoring_init (env_hostname env) s;
             path \<leftarrow> set_db_file_path st;
             d \<leftarrow> db_open path (env_index env) (env_blockfile env) (db_settings st (db (world s)));
             case connection_setup (with_results (env_cache env) (set_bind_cache st)) (with_results (env_mon env) (set_bind_monitor st)) of
               Inl e \<Rightarrow> Some (Inl e)
             | Inr (listeners, net_calls) \<Rightarrow> Some (Inr \<lparr>st_daemon_calls = daemon_calls, st_pidfd = pidfd,
                 st_pid_calls = pid_calls, st_listeners = listeners, st_net_calls = net_calls, st_signals = signal_handler_install sigs,
                 st_timer_usec = usec, st_server = upd_db d s\<rparr>)
           })))"

section \<open>The set-up of the event loop\<close>

text \<open>
  The beginning of \<open>connection_event_loop\<close> (connection.cpp): the lock, the descriptor by which the acceptors wake the loop, the two
  threads, and what \<open>epoll\<close> watches; then it waits until both threads are ready. The end: the threads see the flag \<open>stop_soon\<close>
  and are joined.
\<close>

record loop_results =
  res_mutex :: int
  res_thread_cache :: int
  res_thread_mon :: int
  res_watch_mon :: int
  res_watch_accept :: int
  res_join_cache :: int
  res_join_mon :: int

datatype loop_call = Thread_start connection_ctype | Watch int | Close_epoll int | Thread_join connection_ctype | Close_eventfd int

definition event_loop_setup :: "loop_results \<Rightarrow> int \<Rightarrow> int \<Rightarrow> loop_call list or_exit" where
  "event_loop_setup r efd monitoring_fd =
     (if res_mutex r \<noteq> 0 \<or> res_thread_cache r \<noteq> 0 \<or> res_thread_mon r \<noteq> 0 \<or> res_watch_mon r \<noteq> 0 \<or> res_watch_accept r \<noteq> 0
      then Inl Process_exit
      else Inr [Thread_start cache_listener, Thread_start mon_listener, Watch monitoring_fd, Watch efd])"

definition event_loop_teardown :: "loop_results \<Rightarrow> int \<Rightarrow> int \<Rightarrow> loop_call list or_exit" where
  "event_loop_teardown r epfd efd =
     (if res_join_cache r \<noteq> 0 \<or> res_join_mon r \<noteq> 0 then Inl Process_exit
      else Inr [Close_epoll epfd, Thread_join cache_listener, Thread_join mon_listener, Close_eventfd efd])"

section \<open>The whole process\<close>

datatype pid_end = Pid_close int | Pid_unlink string

definition pidfile_cleanup :: "scache_settings \<Rightarrow> int \<Rightarrow> pid_end list" where
  "pidfile_cleanup st pidfd = (case set_pidfile st of
       None \<Rightarrow> []
     | Some p \<Rightarrow> Pid_close pidfd # (if set_leavepidfile st then [] else [Pid_unlink p]))"

text \<open>\<open>settings_cleanup\<close> of settings.cpp.\<close>

definition settings_cleanup :: "scache_settings \<Rightarrow> scache_settings" where
  "settings_cleanup st = (if set_db_file_path st \<noteq> None then st\<lparr>set_db_file_path := None\<rparr> else st)"

text \<open>
  What the loop and the end get from outside: the descriptors and results of the set-up, then the results of \<open>waitpid\<close>, of opening
  \<open>index.temp\<close>, of writing to it.
\<close>

record end_env =
  end_loop :: loop_results
  end_epfd :: int
  end_efd :: int
  end_monfd :: int
  end_gc :: gc_env
  end_can_open :: bool
  end_rets :: "int list"

record ended =
  en_started :: started
  en_loop_calls :: "loop_call list"
  en_timer_usec :: int
  en_server :: server
  en_files :: index_files
  en_pidfile :: "pid_end list"

definition server_main ::
  "start_env \<Rightarrow> scache_settings \<Rightarrow> (before list \<times> ready list) list \<Rightarrow> end_env \<Rightarrow> server \<Rightarrow> index_files \<Rightarrow> ended or_exit option" where
  "server_main env st rounds ee s fs = do {
     b \<leftarrow> server_start env st s;
     case b of Inl e \<Rightarrow> Some (Inl e) | Inr b \<Rightarrow>
     case event_loop_setup (end_loop ee) (end_efd ee) (end_monfd ee) of Inl e \<Rightarrow> Some (Inl e) | Inr calls \<Rightarrow> do {
       r \<leftarrow> connection_event_loop rounds (st_server b);
       case r of Inl e \<Rightarrow> Some (Inl e) | Inr s \<Rightarrow>
       case event_loop_teardown (end_loop ee) (end_epfd ee) (end_efd ee) of Inl e \<Rightarrow> Some (Inl e) | Inr calls' \<Rightarrow> do {
         (s, fs) \<leftarrow> server_shutdown (end_gc ee) (end_can_open ee) (end_rets ee) s fs;
         Some (Inr \<lparr>en_started = b, en_loop_calls = calls @ calls', en_timer_usec = timer_cleanup (st_timer_usec b), en_server = s,
           en_files = fs, en_pidfile = pidfile_cleanup (settings_cleanup st) (st_pidfd b)\<rparr>)
       }
     }
   }"

section \<open>An empty database\<close>

lemma foldl_free_same:
  "entries (foldl (\<lambda>s i. db_block_free (int i) s) s is) = entries s
   \<and> dbtables (foldl (\<lambda>s i. db_block_free (int i) s) s is) = dbtables s
   \<and> tables (foldl (\<lambda>s i. db_block_free (int i) s) s is) = tables s
   \<and> lru_head (foldl (\<lambda>s i. db_block_free (int i) s) s is) = lru_head s
   \<and> lru_tail (foldl (\<lambda>s i. db_block_free (int i) s) s is) = lru_tail s
   \<and> max_size (foldl (\<lambda>s i. db_block_free (int i) s) s is) = max_size s"
  by (induction "is" arbitrary: s) (auto simp: db_block_free_def db_block_size_def Let_def)

text \<open>Nothing stored: the state of the globals before the start, but for settings and time.\<close>

definition nothing_stored :: "db_state \<Rightarrow> bool" where
  "nothing_stored d \<longleftrightarrow> entries d = Map.empty \<and> dbtables d = Map.empty"

lemma open_blank_same:
  "entries (open_blank n d) = entries d \<and> dbtables (open_blank n d) = dbtables d \<and> tables (open_blank n d) = tables d
   \<and> lru_head (open_blank n d) = lru_head d \<and> lru_tail (open_blank n d) = lru_tail d \<and> max_size (open_blank n d) = max_size d"
  by (simp add: open_blank_def Let_def foldl_free_same)

lemma open_without_index:
  assumes "nothing_stored d" "n div BLOCK_LENGTH \<le> 2147483647"
  obtains d' where "db_open path None n d = Some d'" "nothing_stored d'" "tables d' = kh_init" "max_size d' = max_size d"
    "max_size d = 0 \<longrightarrow> engine_ok (d', [])"
proof -
  let ?r = "open_reset path n d" and ?d = "open_blank n (open_reset path n d)"
  have r: "entries ?r = Map.empty" "dbtables ?r = Map.empty" "free_blocks ?r = []" "blocks_free ?r = 0"
    "blocks_exist ?r = of_nat (n div BLOCK_LENGTH)" "tables ?r = kh_init" "lru_head ?r = None" "lru_tail ?r = None" "max_size ?r = max_size d"
    using assms(1) by (simp_all add: open_reset_def nothing_stored_def)
  note same = open_blank_same [of n ?r]
  have b: "blocks_inv ?d {}" using open_blank_ok [OF r(1,3,4,5) assms(2)] by blast
  have "tables_ok ?d" using kh_init_inv [of CAP] same r by (simp add: tables_ok_def)
  then have "db_ok ?d [] None" using same r b
    by (simp add: db_ok_def sets_ok_def live_ok_def refs_ok_def blocks_ok_def fresh_ok_def owned_blocks_def
        entry_refs_def table_refs_def)
  moreover have "lru_ok ?d []" using same r by (simp add: lru_ok_def lru_inv_def idle_entries_def)
  ultimately have "max_size d = 0 \<longrightarrow> engine_ok (?d, [])" using same r by (auto simp: engine_ok_def)
  then show thesis using that [of ?d] same r by (simp add: db_open_def db_load_from_save_def nothing_stored_def)
qed

section \<open>Idling\<close>

definition idle :: "server \<Rightarrow> bool" where
  "idle s \<longleftrightarrow> conns s = Map.empty \<and> cq s = [] \<and> mon_list (world s) [] \<and> nothing_stored (db (world s)) \<and> tables (db (world s)) = kh_init"

definition quiet_before :: "before \<Rightarrow> bool" where
  "quiet_before b \<longleftrightarrow> (\<exists>sec usec. b = Signal (Sig_alarm sec usec)) \<or> (\<exists>pids. b = Signal (Sig_child pids))"

definition quiet_ready :: "ready \<Rightarrow> bool" where
  "quiet_ready e \<longleftrightarrow> (\<exists>oks. e = Ready_accept oks) \<or> e = Ready_timer"

lemma child_handler_same:
  "entries (child_handler pids d) = entries d \<and> dbtables (child_handler pids d) = dbtables d \<and> tables (child_handler pids d) = tables d"
  by (induction pids d rule: child_handler.induct) (simp_all add: db_handle_sigchld_def)

lemma quiet_before_step:
  assumes "quiet_before b" "idle s"
  shows "\<exists>s'. before_step b s = Some (Inr s') \<and> idle s' \<and> stop_soon (world s') = stop_soon (world s)"
  using assms
  by (auto simp: quiet_before_def idle_def nothing_stored_def mon_list_def timer_handler_def timer_store_current_time_def
      monitoing_needs_to_run_def upd_db_def child_handler_same)

lemma quiet_before_steps:
  "list_all quiet_before bs \<Longrightarrow> idle s \<Longrightarrow>
    \<exists>s'. before_steps bs s = Some (Inr s') \<and> idle s' \<and> stop_soon (world s') = stop_soon (world s)"
proof (induction bs arbitrary: s)
  case (Cons b bs)
  then obtain s1 where "before_step b s = Some (Inr s1)" "idle s1" "stop_soon (world s1) = stop_soon (world s)"
    using quiet_before_step [of b s] by auto
  with Cons.IH [of s1] Cons.prems(1) show ?case by auto
qed simp

lemma quiet_round:
  assumes "list_all quiet_ready es" "idle s"
  shows "event_round es s = Some s"
proof -
  have "serve_descriptor e s = Some s \<and> serve_connection e s = Some s" if "e \<in> set es" for e
    using that assms
    by (auto simp: list_all_iff quiet_ready_def idle_def mon_list_def handle_accept_def monitoring_check_def
        monitoring_due.simps [of s] monitoring_expire.simps [of s] cq_pop_def)
  then show ?thesis using run_pass_skip [of es serve_descriptor s] run_pass_skip [of es serve_connection s]
    by (simp add: event_round_def)
qed

lemma quiet_rounds:
  "list_all (\<lambda>(bs, es). list_all quiet_before bs \<and> list_all quiet_ready es) rounds \<Longrightarrow> idle s \<Longrightarrow> \<not> stop_soon (world s) \<Longrightarrow>
    \<exists>s'. connection_event_loop (rounds @ rest) s = connection_event_loop rest s' \<and> idle s' \<and> \<not> stop_soon (world s')"
proof (induction rounds arbitrary: s)
  case Nil
  then show ?case by auto
next
  case (Cons r rounds)
  obtain bs es where r: "r = (bs, es)" by fastforce
  with Cons.prems obtain s1 where "before_steps bs s = Some (Inr s1)" "idle s1" "\<not> stop_soon (world s1)" "event_round es s1 = Some s1"
    using quiet_before_steps [of bs s] quiet_round [of es] by auto
  with Cons r show ?case by auto
qed

lemma last_round:
  assumes "list_all quiet_ready es" "idle s" "\<not> stop_soon (world s)"
  shows "\<exists>s'. connection_event_loop [([Signal Sig_term], es)] s = Some (Inr s') \<and> idle s'"
proof -
  have i: "idle (s\<lparr>world := (world s)\<lparr>stop_soon := True\<rparr>\<rparr>)" using assms(2) by (simp add: idle_def mon_list_def)
  from quiet_round [OF assms(1) this] i assms(3) show ?thesis by (simp add: abort_handler_def)
qed

lemma shutdown_idle:
  assumes "idle s"
  shows "\<exists>s' fs'. server_shutdown env can_open rets s fs = Some (s', fs') \<and> idle s' \<and> (can_open \<longrightarrow> index_save fs' = Some [])"
proof -
  have i: "monitoring_close s = Some s" "connection_cleanup s = Some s"
    using assms by (simp_all add: idle_def mon_list_def monitoring_close_def monitoring_close_loop.simps connection_cleanup_def)
  let ?d = "snd (currently_flushing env (db (world s)))"
  have d: "entries ?d = entries (db (world s))" "dbtables ?d = dbtables (db (world s))" "tables ?d = tables (db (world s))"
    by (simp_all add: currently_flushing_def)
  then have "index_chunks ?d = Some []" using assms by (simp add: index_chunks_def idle_def kh_init_def)
  then have "\<exists>fs'. db_index_flush can_open rets ?d fs = Some fs' \<and> (can_open \<longrightarrow> index_save fs' = Some [])"
    by (simp add: db_index_flush_def)
  then show ?thesis using i d assms
    by (auto simp: server_shutdown_def db_close_def upd_db_def idle_def nothing_stored_def mon_list_def)
qed

section \<open>Results\<close>

text \<open>
  C14. From the start to the end: with the globals zeroed, no saved index and system calls that do not fail, \<open>main\<close> reaches the loop with an
  engine that satisfies the invariant of the machine of calls, a handler for each signal, and the monitoring response as long as announced; if alarms, ends of children and wake-ups are all that happens until the
  signal to stop, the process ends without undefined behaviour and saves an empty index, and it
  removes the PID file exactly when there is one that it was not told to leave.
\<close>

theorem server_starts_and_stops:
  assumes blank: "conns s = Map.empty" "cq s = []" "mon_list (world s) []" "\<not> stop_soon (world s)" "nothing_stored (db (world s))"
    and calls: "main_pid env st = Inr (pid, dcalls)" "main_pidfile env st pid = Inr (pidfd, pcalls)" "env_time env \<noteq> None" "0 \<le> env_timer env"
      "connection_setup (with_results (env_cache env) (set_bind_cache st)) (with_results (env_mon env) (set_bind_monitor st)) = Inr (ls, ncalls)"
    and files: "set_db_file_path st = Some path" "env_index env = None" "env_blockfile env div BLOCK_LENGTH \<le> 2147483647"
    and threads: "event_loop_setup (end_loop ee) (end_efd ee) (end_monfd ee) = Inr lcalls"
      "event_loop_teardown (end_loop ee) (end_epfd ee) (end_efd ee) = Inr lcalls'"
    and quiet: "list_all (\<lambda>(bs, es). list_all quiet_before bs \<and> list_all quiet_ready es) rounds" "list_all quiet_ready es"
  shows "\<exists>b e. server_start env st s = Some (Inr b)
    \<and> (set_max_size st = 0 \<longrightarrow> engine_ok (db (world (st_server b)), [])) \<and> (\<forall>sig. st_signals b sig \<noteq> Sig_default)
    \<and> int (length (monitoring_rsp (world (st_server b)))) = monitoring_rsp_len (take 1023 (env_hostname env))
    \<and> server_main env st (rounds @ [([Signal Sig_term], es)]) ee s fs = Some (Inr e)
    \<and> conns (en_server e) = Map.empty \<and> (end_can_open ee \<longrightarrow> index_save (en_files e) = Some [])
    \<and> (\<forall>p. Pid_unlink p \<in> set (en_pidfile e) \<longleftrightarrow> set_pidfile st = Some p \<and> \<not> set_leavepidfile st)"
proof -
  obtain sec usec where t: "env_time env = Some (sec, usec)" using calls(3) by auto
  let ?s = "monitoring_init (env_hostname env) (timer_store_current_time sec usec s)"
  have "nothing_stored (db_settings st (db (world ?s)))"
    using blank(5) by (simp add: nothing_stored_def db_settings_def timer_store_current_time_def monitoring_init_def)
  from open_without_index [OF this files(3), of path] obtain d where
    d: "db_open path None (env_blockfile env) (db_settings st (db (world ?s))) = Some d" "nothing_stored d" "tables d = kh_init"
      "set_max_size st = 0 \<longrightarrow> engine_ok (d, [])" by (auto simp: db_settings_def)
  let ?b = "\<lparr>st_daemon_calls = dcalls, st_pidfd = pidfd, st_pid_calls = pcalls, st_listeners = ls, st_net_calls = ncalls,
    st_signals = signal_handler_install ((\<lambda>_. Sig_default)(SIGALRM := On_timer, SIGUSR1 := On_flush, SIGCHLD := On_child)),
    st_timer_usec = TIMER_USEC, st_server = upd_db d ?s\<rparr>"
  have b: "server_start env st s = Some (Inr ?b)"
    using calls files(1,2) t d(1) by (simp add: server_start_def timer_setup_def)
  have "idle (upd_db d ?s)" "\<not> stop_soon (world (upd_db d ?s))"
    using blank d(2,3) by (simp_all add: idle_def upd_db_def timer_store_current_time_def monitoring_init_def mon_list_def)
  from quiet_rounds [OF quiet(1) this, of "[([Signal Sig_term], es)]"] last_round [OF quiet(2)] obtain s1 where
    "connection_event_loop (rounds @ [([Signal Sig_term], es)]) (upd_db d ?s) = Some (Inr s1)" "idle s1" by metis
  moreover from shutdown_idle [OF this(2), of "end_gc ee" "end_can_open ee" "end_rets ee" fs] obtain s2 fs2 where
    "server_shutdown (end_gc ee) (end_can_open ee) (end_rets ee) s1 fs = Some (s2, fs2)" "idle s2"
    "end_can_open ee \<longrightarrow> index_save fs2 = Some []" by blast
  moreover have "int (length (monitoring_rsp (world (st_server ?b)))) = monitoring_rsp_len (take 1023 (env_hostname env))"
    unfolding monitoring_rsp_len_def http_templates_length_def
    by (simp add: upd_db_def monitoring_init_def monitoring_response_def http_templates_def HTTPTEMPLATE_MON_STREAM_def)
  moreover have "st_signals ?b sig \<noteq> Sig_default" for sig by (cases sig) (simp_all add: signal_handler_install_def)
  ultimately show ?thesis using b d(4) threads
    by (auto simp: server_main_def upd_db_def idle_def pidfile_cleanup_def settings_cleanup_def split: option.splits)
qed

definition blank_server :: server where
  "blank_server = \<lparr>conns = Map.empty, conn_next = 1, cq = [], world = (request_world [])\<lparr>db := empty_db, mon_nodes := Map.empty,
     mon_head := None, mon_tail := None, mon_pending_head := None, mon_pending_tail := None, stop_soon := False\<rparr>\<rparr>"

definition plain_env :: start_env where
  "plain_env = \<lparr>env_null = 5, env_fork = \<lparr>res_fork = 0, res_dup = (\<lambda>a b. b), res_isatty = True, res_chdir = 0\<rparr>, env_getpid = 4711,
     env_pid = \<lparr>res_open = 6, res_flock = 0, res_ftruncate = 0, res_write = 2\<rparr>, env_time = Some (100, 7), env_timer = 0, env_hostname = ''host'', env_index = None,
     env_blockfile = 8192, env_cache = (\<lambda>_. undefined), env_mon = (\<lambda>_. undefined)\<rparr>"

definition plain_end :: end_env where
  "plain_end = \<lparr>end_loop = \<lparr>res_mutex = 0, res_thread_cache = 0, res_thread_mon = 0, res_watch_mon = 0, res_watch_accept = 0,
     res_join_cache = 0, res_join_mon = 0\<rparr>, end_epfd = 8, end_efd = 9, end_monfd = 7,
     end_gc = \<lparr>wait_result = 0, wait_exited = False, fork_pid = 0\<rparr>, end_can_open = True, end_rets = []\<rparr>"

definition daemon_settings :: scache_settings where
  "daemon_settings = settings_default\<lparr>set_daemon_mode := True, set_pidfile := Some ''/run/scache.pid'', set_db_file_path := Some ''/c''\<rparr>"

lemma pid_text_zero: "pid_text 0 = [CHR ''0'', CHR 0x0A]"
proof -
  have "to_base 10 20 0 = [CHR ''0'']" using to_base.simps(2) [of 10 19 0] by (simp add: char_of_def bit_0)
  then show ?thesis by (simp add: pid_text_def to_sdec_def to_dec_def)
qed

lemma plain_calls:
  "main_pid plain_env daemon_settings = Inr (0, [Call_dup2 5 0, Call_dup2 5 1, Call_dup2 5 2, Call_close_null 5, Call_chdir ''/'', Call_setsid])"
  "main_pidfile plain_env daemon_settings 0 =
     Inr (6, [Call_open ''/run/scache.pid'', Call_flock 6 F_WRLCK, Call_ftruncate 6, Call_write 6 [CHR ''0'', CHR 0x0A]])"
  by (simp_all add: main_pid_def main_pidfile_def fork_off_def redirect_output_def plain_env_def daemon_settings_def settings_default_def
      write_pid_def pid_text_zero)

theorem server_starts_and_stops_witness:
  "\<exists>b e. server_start plain_env daemon_settings blank_server = Some (Inr b)
    \<and> engine_ok (db (world (st_server b)), [])
    \<and> server_main plain_env daemon_settings [([Signal (Sig_alarm 105 3)], [Ready_timer]), ([Signal Sig_term], [])]
        plain_end blank_server
        \<lparr>index_save = None, index_temp = None\<rparr> = Some (Inr e)
    \<and> Pid_unlink ''/run/scache.pid'' \<in> set (en_pidfile e)"
proof -
  have e: "mon_list (world blank_server) []" "nothing_stored (db (world blank_server))"
    "connection_setup (with_results (env_cache plain_env) (set_bind_cache daemon_settings))
       (with_results (env_mon plain_env) (set_bind_monitor daemon_settings)) = Inr ([], [])"
    by (simp_all add: blank_server_def mon_list_def nothing_stored_def empty_db_def daemon_settings_def settings_default_def
        connection_setup_def with_results_def)
  have q: "list_all (\<lambda>(bs, es). list_all quiet_before bs \<and> list_all quiet_ready es) [([Signal (Sig_alarm 105 3)], [Ready_timer])]"
    by (simp add: quiet_before_def quiet_ready_def)
  have l: "event_loop_setup (end_loop plain_end) (end_efd plain_end) (end_monfd plain_end)
      = Inr [Thread_start cache_listener, Thread_start mon_listener, Watch 7, Watch 9]"
    "event_loop_teardown (end_loop plain_end) (end_epfd plain_end) (end_efd plain_end)
      = Inr [Close_epoll 8, Thread_join cache_listener, Thread_join mon_listener, Close_eventfd 9]"
    by (simp_all add: plain_end_def event_loop_setup_def event_loop_teardown_def)
  show ?thesis
    using server_starts_and_stops [OF _ _ e(1) _ e(2) plain_calls _ _ e(3) _ _ _ l q, of "''/c''" "[]" "\<lparr>index_save = None, index_temp = None\<rparr>"]
    by (auto simp: blank_server_def plain_env_def daemon_settings_def settings_default_def BLOCK_LENGTH_def)
qed

text \<open>
  What the PID file says: the process id, but in daemon mode the number 0, since what \<open>fork\<close> returned in the child is
  written there. Nobody finds the daemon by its PID file.
\<close>

theorem daemon_pid_file_holds_zero:
  assumes "server_start env st s = Some (Inr b)" "set_pidfile st = Some p"
  shows "\<exists>fd. st_pid_calls b = [Call_open p, Call_flock fd F_WRLCK, Call_ftruncate fd,
    Call_write fd (if set_daemon_mode st then [CHR ''0'', CHR 0x0A] else pid_text (env_getpid env))]"
proof -
  from assms(1) obtain pid dcalls pidfd where m: "main_pid env st = Inr (pid, dcalls)" "main_pidfile env st pid = Inr (pidfd, st_pid_calls b)"
    by (auto simp: server_start_def Let_def elim!: bind_SomeE split: sum.split_asm prod.split_asm)
  have "pid = (if set_daemon_mode st then 0 else env_getpid env)"
    using m(1) by (auto simp: main_pid_def fork_off_def Let_def split: if_splits sum.splits)
  with m(2) assms(2) have "st_pid_calls b = [Call_open p, Call_flock (res_open (env_pid env)) F_WRLCK, Call_ftruncate (res_open (env_pid env)),
    Call_write (res_open (env_pid env)) (if set_daemon_mode st then [CHR ''0'', CHR 0x0A] else pid_text (env_getpid env))]"
    by (auto simp: main_pidfile_def write_pid_def Let_def pid_text_zero split: if_splits)
  then show ?thesis by blast
qed

theorem daemon_pid_file_holds_zero_witness:
  "\<exists>b. server_start plain_env daemon_settings blank_server = Some (Inr b)
    \<and> (\<exists>fd. Call_write fd [CHR ''0'', CHR 0x0A] \<in> set (st_pid_calls b))"
proof -
  have n: "nothing_stored (db_settings daemon_settings (db (world (monitoring_init ''host'' (timer_store_current_time 100 7 blank_server)))))"
    by (simp add: nothing_stored_def db_settings_def timer_store_current_time_def monitoring_init_def blank_server_def empty_db_def)
  from open_without_index [OF this, of 8192 "''/c''"] obtain d where
    "db_open ''/c'' None 8192 (db_settings daemon_settings (db (world (monitoring_init ''host'' (timer_store_current_time 100 7 blank_server))))) = Some d"
    by (auto simp: BLOCK_LENGTH_def)
  then have "\<exists>b. server_start plain_env daemon_settings blank_server = Some (Inr b)"
    using plain_calls by (simp add: server_start_def timer_setup_def plain_env_def daemon_settings_def settings_default_def
        connection_setup_def with_results_def)
  then obtain b where b: "server_start plain_env daemon_settings blank_server = Some (Inr b)" by blast
  from daemon_pid_file_holds_zero [OF this, of "''/run/scache.pid''"] b show ?thesis
    by (auto simp: daemon_settings_def settings_default_def)
qed

end
