(* ===== verification/RequestParse.thy ===== *)
theory RequestParse
  imports HttpServeProps HttpRespondProps DbRuns
begin

text \<open>
  The handlers of the request parser (HttpCache) one after the other: for each part of a request on a key - method, table, key, version,
  header lines, the empty line - what its handler does to the connection when the bytes of that part are the next ones in the buffer.
  Each takes exactly these bytes and leaves the others. The theories on whole requests chain them.
\<close>

section \<open>The loop of handlers\<close>

lemma read_loop_more:
  assumes "epollin w" "step w = Some (w', needs_more_read)" "contents (input w') = ys" "ys \<noteq> []" "to_end \<noteq> int (length ys)"
  shows "read_loop step run to_end w = read_loop step (Some needs_more_read) (int (length ys)) w'"
proof -
  have "rb_len (input w') = length ys" using assms(3) length_contents by metis
  with assms show ?thesis by (subst read_loop.simps) (simp add: Let_def rbuf_read_remaining_eq)
qed

lemma read_loop_done:
  "epollin w \<Longrightarrow> step w = Some (w', ret) \<Longrightarrow> ret \<noteq> needs_more_read \<Longrightarrow> read_loop step run to_end w = Some (w', Some ret)"
  by (subst read_loop.simps) (simp add: Let_def)

text \<open>The read position moves forward over what was parsed.\<close>

lemma moved:
  assumes "contents rb = xs @ ys" "n = int (length xs)"
  shows "contents (RBUF_READMOVE rb n) = ys" "rb_len (RBUF_READMOVE rb n) = length ys"
proof -
  have "length xs \<le> rb_len rb" using assms(1) by (metis length_contents length_append le_add1)
  then show c: "contents (RBUF_READMOVE rb n) = ys" using assms contents_readmove [of n rb] by simp
  show "rb_len (RBUF_READMOVE rb n) = length ys" using c length_contents by metis
qed

text \<open>The pending bytes do not wrap around; they never do in a buffer that was empty before.\<close>

definition flat :: "read_buffer \<Rightarrow> bool" where
  "flat rb \<longleftrightarrow> rb_off rb + rb_len rb \<le> BUFFER_SIZE"

lemma flat_moved:
  assumes "contents rb = xs @ ys" "n = int (length xs)"
  shows "flat rb \<longrightarrow> flat (RBUF_READMOVE rb n)"
proof
  assume f: "flat rb"
  have l: "rb_len rb = length xs + length ys" using assms(1) by (metis length_contents length_append)
  have o: "rb_off (RBUF_READMOVE rb n) = (rb_off rb + length xs) mod BUFFER_SIZE" using assms(2) by (simp add: readmove_off)
  have "rb_off rb + length xs \<le> BUFFER_SIZE" using f l by (simp add: flat_def)
  then have "rb_off (RBUF_READMOVE rb n) \<le> rb_off rb + length xs" unfolding o by simp
  then show "flat (RBUF_READMOVE rb n)" using f l moved(2) [OF assms] by (simp add: flat_def)
qed

definition leaves :: "read_buffer \<Rightarrow> string \<Rightarrow> read_buffer \<Rightarrow> bool" where
  "leaves rb ys rb' \<longleftrightarrow> contents rb' = ys \<and> (flat rb \<longrightarrow> flat rb')"

lemma leavesI: "contents rb = xs @ ys \<Longrightarrow> n = int (length xs) \<Longrightarrow> leaves rb ys (RBUF_READMOVE rb n)"
  using moved(1) flat_moved by (simp add: leaves_def)

lemma flat_seg1: "flat rb \<Longrightarrow> seg1 rb = rb_len rb"
  by (simp add: flat_def seg1_def)

lemma scan_small: "length (contents rb) < BUFFER_SIZE \<Longrightarrow> rb_scan rb"
  by (simp add: rb_scan_def)

section \<open>The method\<close>

lemma method_word:
  assumes "map_of request_methods word = Some m"
  shows "length word \<le> 6" "CHR '' '' \<notin> set word" "word \<noteq> []" "\<not> is_eol (hd word)"
  using assms by (auto simp: request_methods_def is_eol_def split: if_split_asm)

lemma skip_no_newlines:
  assumes "contents rb = x # xs" "\<not> is_eol x" "rb_scan rb"
  shows "skip_over_newlines rb = Some rb"
proof -
  have l: "0 < rb_len rb" using assms(1) by (metis length_contents length_greater_0_conv list.distinct(1))
  then have s: "0 < seg1 rb" using rb_off_less [of rb] by (simp add: seg1_def)
  have "rbuf_at rb (rb_off rb) = Some x" using rbuf_at_contents [OF l] rb_off_less [of rb] assms(1) by simp
  moreover have "rbuf_read_to_end rb = int (seg1 rb)" using assms(3) by (rule to_end_seg1)
  moreover obtain k where "seg1 rb = Suc k" using s gr0_implies_Suc by blast
  moreover have "nat (1 + int k) = Suc k" by simp
  ultimately show ?thesis using assms(2) by (simp add: skip_over_newlines_def rb_off_def is_eol_def Let_def)
qed

lemma method_step:
  assumes c: "contents (input w) = word @ '' '' @ rest" and m: "map_of request_methods word = Some m"
    and n: "length (contents (input w)) < BUFFER_SIZE"
  shows "\<exists>rb. do_http_cache_handle_method w = Some (w\<lparr>input := rb, conn_method := m, handler := http_cache_handle_url, conn_state := 0\<rparr>,
    needs_more_read) \<and> leaves (input w) rest rb"
proof -
  note word = method_word [OF m]
  have rb: "rb_scan (input w)" using n by (rule scan_small)
  have sk: "skip_over_newlines (input w) = Some (input w)"
    by (rule skip_no_newlines [OF _ _ rb, of "hd word" "tl word @ '' '' @ rest"]) (use c word in \<open>simp_all\<close>)
  let ?w0 = "w\<lparr>conn_method := 0\<rparr>"
  have "scan_list method_byte ?w0 0 (word @ '' '' @ rest) = scan_list method_byte ?w0 (0 + int (length word)) ('' '' @ rest)"
  proof (rule scan_list_skip)
    fix i assume i: "i < length word"
    then have "word ! i \<noteq> CHR '' ''" using word(2) nth_mem by metis
    then show "method_byte ?w0 (word ! i) (0 + int i) = Some (?w0, continue_processing)"
      using i word(1) by (simp add: method_byte_def LONGEST_REQMETHOD_def)
  qed
  also have "\<dots> = Some (read_move (int (length word) + 1) (?w0\<lparr>handler := http_cache_handle_url, conn_state := 0, conn_method := m\<rparr>),
      int (length word) + 1, needs_more_read)"
  proof -
    let ?w1 = "?w0\<lparr>handler := http_cache_handle_url, conn_state := 0\<rparr>"
    have "length word \<le> rb_len (input ?w1)" using c by (simp add: length_contents [symmetric])
    from match_method_ok [OF _ this request_methods_no_nul] rb c m
    have "match_method request_methods ?w1 (int (length word)) = Some (Some m)" by simp
    then show ?thesis using word(1) by (simp add: method_byte_def LONGEST_REQMETHOD_def Let_def)
  qed
  finally have "RBUF_ITERATE input http_read_requeststartmethod ?w0 continue_processing
    = Some (read_move (int (length word) + 1) (?w0\<lparr>handler := http_cache_handle_url, conn_state := 0, conn_method := m\<rparr>),
      int (length word) + 1, needs_more_read)"
    using method_iterate [of ?w0] rb c by simp
  moreover have "leaves (input w) rest (RBUF_READMOVE (input w) (int (length word) + 1))"
    by (rule leavesI [of _ "word @ '' ''"]) (use c in simp_all)
  ultimately show ?thesis
    using sk by (intro exI [of _ "RBUF_READMOVE (input w) (int (length word) + 1)"]) (simp add: do_http_cache_handle_method_def read_move_def)
qed

section \<open>The URL\<close>

text \<open>The table of a request on a key: \<open>PUT\<close> makes it, the other methods look for it.\<close>

definition request_table :: "u16 \<Rightarrow> string \<Rightarrow> db_state \<Rightarrow> (tptr option \<times> db_state) option" where
  "request_table m table s = (if REQUEST_IS m REQUEST_HTTPGET \<or> REQUEST_IS m REQUEST_HTTPDELETE \<or> REQUEST_IS m REQUEST_HTTPHEAD
     then db_table_get_read table s else do { (t, s) \<leftarrow> db_table_get_write table s; Some (Some t, s) })"

lemma url_table_step:
  assumes c: "contents (input w) = CHR ''/'' # table @ CHR ''/'' # rest" and name: "CHR ''/'' \<notin> set table" "CHR '' '' \<notin> set table"
    and n: "length (contents (input w)) < BUFFER_SIZE" and st: "conn_state w = 0"
    and t: "request_table (conn_method w OR REQUEST_CACHE_LEVELTABLE) table (db w) = Some (Some t, s)"
  shows "\<exists>rb. do_http_cache_handle_url w = Some (w\<lparr>input := rb, conn_method := conn_method w OR REQUEST_CACHE_LEVELTABLE, db := s,
    target := (target w)\<lparr>tgt_entry := Some t\<rparr>, conn_state := 1\<rparr>, needs_more_read) \<and> leaves (input w) rest rb"
proof -
  have rb: "rb_scan (input w)" using n by (rule scan_small)
  let ?xs = "CHR ''/'' # table"
  let ?w1 = "(read_move 1 w)\<lparr>conn_method := conn_method w OR REQUEST_CACHE_LEVELTABLE\<rparr>"
  have "scan_list url1_byte w 0 (?xs @ CHR ''/'' # rest) = scan_list url1_byte w (0 + int (length ?xs)) (CHR ''/'' # rest)"
  proof (rule scan_list_skip)
    fix i assume i: "i < length ?xs"
    then have "i = 0 \<or> ?xs ! i \<in> set table" by (cases i) auto
    then show "url1_byte w (?xs ! i) (0 + int i) = Some (w, continue_processing)"
      using name by (auto simp: url1_byte_def)
  qed
  moreover have "copy_key (read_move 1 w) (int (length table)) = Some table"
  proof -
    have c1: "contents (input (read_move 1 w)) = table @ CHR ''/'' # rest"
      using moved(1) [of "input w" "''/''" _ 1] c by simp
    have "length table \<le> rb_len (input (read_move 1 w))"
      using moved(2) [of "input w" "''/''" _ 1] c by simp
    moreover have "rb_scan (input (read_move 1 w))" using n c c1 by (intro scan_small) simp
    ultimately show ?thesis using copy_key_ok [of "read_move 1 w" "length table"] c1 by simp
  qed
  moreover have "url_table_of_key ?w1 table (int (length table) + 1)
    = Some (read_move (int (length table) + 1) (?w1\<lparr>db := s, target := (target w)\<lparr>tgt_entry := Some t\<rparr>, conn_state := 1\<rparr>), needs_more_read)"
    using t st by (auto simp: url_table_of_key_def request_table_def on_db_def Let_def elim!: bind_SomeE split: if_split_asm)
  ultimately have "scan_list url1_byte w 0 (contents (input w))
    = Some (read_move (int (length table) + 1) (?w1\<lparr>db := s, target := (target w)\<lparr>tgt_entry := Some t\<rparr>, conn_state := 1\<rparr>), int (length table) + 2, needs_more_read)"
    using c by (simp add: url1_byte_def Let_def add.commute)
  moreover have "leaves (input w) rest (RBUF_READMOVE (input w) (int (length table) + 2))"
    by (rule leavesI [of _ "?xs @ ''/''"]) (use c in simp_all)
  ultimately show ?thesis
    using url1_iterate [OF rb] st
    by (intro exI [of _ "RBUF_READMOVE (input w) (int (length table) + 2)"])
      (simp add: do_http_cache_handle_url_def read_move_def move_again algebra_simps)
qed

definition url2_byte :: "http_world \<Rightarrow> char \<Rightarrow> int \<Rightarrow> handler_result" where
  "url2_byte w c n = (if c = CHR '' '' then do {
       w \<leftarrow> http_key_lookup w n;
       Some ((read_move (n + 1) w)\<lparr>conn_state := 0\<rparr>, needs_more_read)
     } else Some (w, continue_processing))"

lemma url2_iterate:
  assumes "rb_scan (input w)"
  shows "RBUF_ITERATE input http_read_requeststarturl2 w continue_processing = scan_list url2_byte w 0 (contents (input w))"
proof (rule iterate_input [OF assms])
  fix w' :: http_world and k assume "input w' = input w" "k < rb_len (input w)"
  then show "http_read_requeststarturl2 w' ((rb_off (input w) + k) mod BUFFER_SIZE) (int k)
    = url2_byte w' (contents (input w) ! k) (int k)"
    by (auto simp: http_read_requeststarturl2_def url2_byte_def rbuf_at_contents)
next
  fix w' w'' :: http_world and x k
  assume "input w' = input w" "url2_byte w' x k = Some (w'', continue_processing)"
  then show "input w'' = input w" by (auto simp: url2_byte_def bind_Some_iff split: if_splits)
qed

lemma url_key_step:
  assumes c: "contents (input w) = key @ '' '' @ rest" and name: "CHR '' '' \<notin> set key"
    and n: "length (contents (input w)) < BUFFER_SIZE" and st: "conn_state w = 1"
    and l: "http_key_lookup w (int (length key)) = Some w'" "input w' = input w"
  shows "\<exists>rb. do_http_cache_handle_url w = Some (w'\<lparr>input := rb, conn_state := 0\<rparr>, needs_more_read) \<and> leaves (input w) rest rb"
proof -
  have rb: "rb_scan (input w)" using n by (rule scan_small)
  have "scan_list url2_byte w 0 (key @ '' '' @ rest) = scan_list url2_byte w (0 + int (length key)) ('' '' @ rest)"
  proof (rule scan_list_skip)
    fix i assume "i < length key"
    then have "key ! i \<noteq> CHR '' ''" using name nth_mem by metis
    then show "url2_byte w (key ! i) (0 + int i) = Some (w, continue_processing)" by (simp add: url2_byte_def)
  qed
  then have "scan_list url2_byte w 0 (contents (input w))
    = Some ((read_move (int (length key) + 1) w')\<lparr>conn_state := 0\<rparr>, int (length key) + 1, needs_more_read)"
    using c l(1) by (simp add: url2_byte_def)
  moreover have "leaves (input w) rest (RBUF_READMOVE (input w) (int (length key) + 1))"
    by (rule leavesI [of _ "key @ '' ''"]) (use c in simp_all)
  ultimately show ?thesis
    using url2_iterate [OF rb] st l(2)
    by (intro exI [of _ "RBUF_READMOVE (input w) (int (length key) + 1)"]) (simp add: do_http_cache_handle_url_def read_move_def)
qed

section \<open>Version and headers\<close>

definition version_byte :: "http_world \<times> bool \<Rightarrow> char \<Rightarrow> int \<Rightarrow> ((http_world \<times> bool) \<times> state_action) option" where
  "version_byte wv c n = (if c = CHR 0x0A
     then Some ((read_move (n + 1) ((fst wv)\<lparr>conn_state := 1, handler := http_cache_handle_headers\<rparr>), True), needs_more_read)
     else Some (wv, continue_processing))"

lemma version_iterate:
  assumes "rb_scan (input (fst wv))"
  shows "RBUF_ITERATE (\<lambda>wv. input (fst wv)) http_read_version wv continue_processing = scan_list version_byte wv 0 (contents (input (fst wv)))"
proof (rule iterate_scan [where inp = "\<lambda>wv. input (fst wv)", OF assms])
  fix w' :: "http_world \<times> bool" and k assume "input (fst w') = input (fst wv)" "k < rb_len (input (fst wv))"
  then show "http_read_version w' ((rb_off (input (fst wv)) + k) mod BUFFER_SIZE) (int k)
    = version_byte w' (contents (input (fst wv)) ! k) (int k)"
    by (auto simp: http_read_version_def version_byte_def rbuf_at_contents)
next
  fix w' w'' :: "http_world \<times> bool" and x k
  assume "input (fst w') = input (fst wv)" "version_byte w' x k = Some (w'', continue_processing)"
  then show "input (fst w'') = input (fst wv)" by (auto simp: version_byte_def split: if_splits)
qed

lemma version_step:
  assumes c: "contents (input w) = version @ CHR 0x0A # rest" and v: "CHR 0x0A \<notin> set version"
    and n: "length (contents (input w)) < BUFFER_SIZE"
  shows "\<exists>rb. do_http_cache_handle_httpversion w = Some (w\<lparr>input := rb, conn_state := 1, handler := http_cache_handle_headers\<rparr>, needs_more_read)
    \<and> leaves (input w) rest rb"
proof -
  have rb: "rb_scan (input (fst (w, False)))" using scan_small [OF n] by simp
  have "scan_list version_byte (w, False) 0 (version @ CHR 0x0A # rest)
    = scan_list version_byte (w, False) (0 + int (length version)) (CHR 0x0A # rest)"
  proof (rule scan_list_skip)
    fix i assume "i < length version"
    then have "version ! i \<noteq> CHR 0x0A" using v nth_mem by metis
    then show "version_byte (w, False) (version ! i) (0 + int i) = Some ((w, False), continue_processing)" by (simp add: version_byte_def)
  qed
  then have run: "RBUF_ITERATE (\<lambda>wv. input (fst wv)) http_read_version (w, False) continue_processing
    = Some ((read_move (int (length version) + 1) (w\<lparr>conn_state := 1, handler := http_cache_handle_headers\<rparr>), True), int (length version) + 1, needs_more_read)"
    using version_iterate [OF rb] c by (simp add: version_byte_def)
  have "leaves (input w) rest (RBUF_READMOVE (input w) (int (length version) + 1))"
    by (rule leavesI [of _ "version @ [CHR 0x0A]"]) (use c in simp_all)
  then show ?thesis
    by (intro exI [of _ "RBUF_READMOVE (input w) (int (length version) + 1)"])
      (simp add: do_http_cache_handle_httpversion_def run read_move_def)
qed

text \<open>\<open>buffer - RBUF_READ\<close> is the number of the byte, also behind the end of the array.\<close>

lemma header_bytes_eq:
  assumes "rb_scan (input w)" "k < rb_len (input w)"
  shows "header_bytes w ((rb_off (input w) + k) mod BUFFER_SIZE) = int k"
proof -
  let ?o = "rb_off (input w)"
  have o: "?o < BUFFER_SIZE" by (rule rb_off_less)
  have k: "k < BUFFER_SIZE" using assms by (auto simp: rb_scan_def)
  show ?thesis
  proof (cases "?o + k < BUFFER_SIZE")
    case True
    then show ?thesis by (simp add: header_bytes_def rb_off_def [symmetric])
  next
    case False
    have "?o + k - BUFFER_SIZE < BUFFER_SIZE" using o k by linarith
    with False have m: "(?o + k) mod BUFFER_SIZE = ?o + k - BUFFER_SIZE" by (simp add: le_mod_geq)
    have "rbuf_read_to_end (input w) = int (seg1 (input w))" using assms(1) by (rule to_end_seg1)
    moreover have "seg1 (input w) = BUFFER_SIZE - ?o" using False assms(2) by (simp add: seg1_def)
    ultimately show ?thesis using False o k by (simp add: header_bytes_def m rb_off_def [symmetric] of_nat_diff)
  qed
qed

definition header_byte :: "http_world \<Rightarrow> char \<Rightarrow> int \<Rightarrow> handler_result" where
  "header_byte w c n =
     (if c = CHR '':'' then match_header (headers_for (conn_method w)) n w
      else if c = CHR 0x0A then (let w = (read_move (n + 1) w)\<lparr>conn_state := conn_state w + 1\<rparr> in
        if conn_state w = 2 then http_route w else Some (w, needs_more_read))
      else Some (if c \<noteq> CHR 0x0D then w\<lparr>conn_state := 0\<rparr> else w, continue_processing))"

lemma match_header_continue: "match_header hs b w = Some (w', continue_processing) \<Longrightarrow> w' = w"
proof (induction hs)
  case (Cons nh hs)
  then obtain eq where "(if eq then Some (extract_header b (snd nh) w, needs_more_read) else match_header hs b w) = Some (w', continue_processing)"
    by (cases nh) (auto simp only: match_header.simps snd_conv elim!: bind_SomeE)
  with Cons.IH show ?case by (simp split: if_split_asm)
qed simp

lemma route_ends: "http_route w = Some (w', ret) \<Longrightarrow> ret \<noteq> continue_processing"
  by (auto simp: http_route_def answered_def elim!: bind_SomeE dest!: route_key_answers route_table_answers
      split: if_split_asm option.split_asm)

lemma header_iterate:
  assumes rb: "rb_scan (input w)"
  shows "RBUF_ITERATE input http_read_headers w continue_processing = scan_list header_byte w 0 (contents (input w))"
proof (rule iterate_input [OF rb])
  fix w' :: http_world and k assume w': "input w' = input w" and k: "k < rb_len (input w)"
  have "header_bytes w' ((rb_off (input w) + k) mod BUFFER_SIZE) = int k"
    using header_bytes_eq [of w' k] rb w' k by simp
  then show "http_read_headers w' ((rb_off (input w) + k) mod BUFFER_SIZE) (int k)
    = header_byte w' (contents (input w) ! k) (int k)"
    using w' k by (simp add: http_read_headers_def header_byte_def rbuf_at_contents)
next
  fix w' w'' :: http_world and x k
  assume "input w' = input w" "header_byte w' x k = Some (w'', continue_processing)"
  then show "input w'' = input w"
    by (auto simp: header_byte_def Let_def dest: match_header_continue route_ends split: if_split_asm)
qed

text \<open>
  A line that is not taken for the empty line at the end, nor for one of the header lines that the method takes: not made of colons and
  carriage returns only, and what stands before a colon is not one of their names.
\<close>

definition blank :: "string \<Rightarrow> bool" where
  "blank l = list_all (\<lambda>c. c = CHR '':'' \<or> c = CHR 0x0D) l"

definition header_names :: "u16 \<Rightarrow> string list" where
  "header_names m = concat (map fst (headers_for m))"

definition unnamed :: "string list \<Rightarrow> string \<Rightarrow> bool" where
  "unnamed names l \<longleftrightarrow> list_all (\<lambda>i. l ! i = CHR '':'' \<longrightarrow> take i l \<notin> set names) [0..<length l]"

definition skipped_line :: "u16 \<Rightarrow> string \<Rightarrow> bool" where
  "skipped_line m l \<longleftrightarrow> CHR 0x0A \<notin> set l \<and> \<not> blank l \<and> unnamed (header_names m) l"

text \<open>The names for one header have one length.\<close>

definition even_names :: "(string list \<times> u32) list \<Rightarrow> bool" where
  "even_names hs \<longleftrightarrow> list_all (\<lambda>(names, h). list_all (\<lambda>x. length x = length (hd names) \<and> CHR 0x00 \<notin> set x) names) hs"

lemma headers_even: "even_names (headers_for m)"
  by (simp add: headers_for_def even_names_def)

lemma match_header_none:
  assumes "rb_scan (input w)" "i \<le> rb_len (input w)" "even_names hs" "take i (contents (input w)) \<notin> set (concat (map fst hs))"
  shows "match_header hs (int i) w = Some (w, continue_processing)"
  using assms(3,4)
proof (induction hs)
  case (Cons nh hs)
  obtain names h where nh: "nh = (names, h)" by fastforce
  have "foldr (\<lambda>name rest. do { b \<leftarrow> input_is w name; if b then Some True else rest }) names (Some False) = Some False"
    if "i = length (hd names)"
  proof -
    have "input_is w x = Some False" if x: "x \<in> set names" for x
    proof -
      have "length x = i" "CHR 0x00 \<notin> set x" "x \<noteq> take i (contents (input w))"
        using x Cons.prems \<open>i = length (hd names)\<close> by (auto simp: nh even_names_def list_all_iff)
      then show ?thesis using input_is_ok [OF assms(1)] by auto
    qed
    then show ?thesis by (induction names) auto
  qed
  then show ?case using Cons by (cases "i = length (hd names)") (simp_all add: nh even_names_def)
qed simp

lemma header_scan:
  assumes "rb_scan (input w)" "contents (input w) = p @ q @ zs" "CHR 0x0A \<notin> set q" "unnamed (header_names (conn_method w)) (p @ q)"
  shows "scan_list header_byte w (int (length p)) (q @ zs)
    = scan_list header_byte (w\<lparr>conn_state := (if blank q then conn_state w else 0)\<rparr>) (int (length p + length q)) zs"
  using assms
proof (induction q arbitrary: p w)
  case (Cons c q)
  have l: "length p < rb_len (input w)" using Cons.prems(2) by (simp add: length_contents [symmetric])
  have m: "match_header (headers_for (conn_method w)) (int (length p)) w = Some (w, continue_processing)" if "c = CHR '':''"
  proof (rule match_header_none)
    have "take (length p) (p @ c # q) \<notin> set (header_names (conn_method w))"
      using Cons.prems(4) that unfolding unnamed_def list_all_iff by (auto simp del: take_append dest!: bspec [of _ _ "length p"])
    then show "take (length p) (contents (input w)) \<notin> set (concat (map fst (headers_for (conn_method w))))"
      using Cons.prems(2) by (simp add: header_names_def)
  qed (use Cons.prems(1) l headers_even in simp_all)
  let ?w = "w\<lparr>conn_state := (if c = CHR '':'' \<or> c = CHR 0x0D then conn_state w else 0)\<rparr>"
  have "header_byte w c (int (length p)) = Some (?w, continue_processing)"
    using m Cons.prems(3) by (auto simp: header_byte_def)
  then have "scan_list header_byte w (int (length p)) ((c # q) @ zs) = scan_list header_byte ?w (int (length (p @ [c]))) (q @ zs)" by (simp add: add.commute)
  also have "\<dots> = scan_list header_byte (?w\<lparr>conn_state := (if blank q then conn_state ?w else 0)\<rparr>) (int (length (p @ [c]) + length q)) zs"
    by (rule Cons.IH) (use Cons.prems in simp_all)
  finally show ?case by (auto simp: blank_def)
qed (simp add: blank_def)

lemma header_line_step:
  assumes c: "contents (input w) = l @ CHR 0x0A # rest" and l: "skipped_line (conn_method w) l"
    and n: "length (contents (input w)) < BUFFER_SIZE"
  shows "\<exists>rb. do_http_cache_handle_headers w = Some (w\<lparr>input := rb, conn_state := 1\<rparr>, needs_more_read) \<and> leaves (input w) rest rb"
proof -
  let ?rb = "RBUF_READMOVE (input w) (int (length l) + 1)"
  have "scan_list header_byte w 0 (l @ CHR 0x0A # rest) = scan_list header_byte (w\<lparr>conn_state := 0\<rparr>) (int (length l)) (CHR 0x0A # rest)"
    using header_scan [OF scan_small [OF n], of "[]" l "CHR 0x0A # rest"] c l by (simp add: skipped_line_def)
  then have run: "RBUF_ITERATE input http_read_headers w continue_processing
    = Some ((read_move (int (length l) + 1) w)\<lparr>conn_state := 1\<rparr>, int (length l) + 1, needs_more_read)"
    using header_iterate [OF scan_small [OF n]] c by (simp add: header_byte_def Let_def read_move_def)
  have "rb_len ?rb = length rest" by (rule moved [of _ "l @ [CHR 0x0A]"]) (use c in simp_all)
  moreover have "uint (RBUF_READLEN ?rb) = int (rb_len ?rb)" by (simp add: rb_len_def)
  ultimately have "rbuf_write_remaining ?rb \<noteq> 0" using n c by (simp add: rbuf_write_remaining_def)
  moreover have "leaves (input w) rest ?rb" by (rule leavesI [of _ "l @ [CHR 0x0A]"]) (use c in simp_all)
  ultimately show ?thesis
    by (intro exI [of _ ?rb]) (simp add: do_http_cache_handle_headers_def run read_move_def)
qed

lemma header_end_step:
  assumes c: "contents (input w) = crlf @ rest" and st: "conn_state w = 1" and n: "length (contents (input w)) < BUFFER_SIZE"
  shows "\<exists>rb. leaves (input w) rest rb \<and> (\<forall>w' ret. http_route (w\<lparr>input := rb, conn_state := 2\<rparr>) = Some (w', ret) \<longrightarrow>
    handler w' \<noteq> http_cache_handle_headers \<longrightarrow> do_http_cache_handle_headers w = Some (w', ret))"
proof -
  let ?rb = "RBUF_READMOVE (input w) 2"
  have "leaves (input w) rest ?rb" by (rule leavesI [of _ crlf]) (use c in simp_all)
  moreover have "do_http_cache_handle_headers w = Some (w', ret)"
    if r: "http_route (w\<lparr>input := ?rb, conn_state := 2\<rparr>) = Some (w', ret)" "handler w' \<noteq> http_cache_handle_headers" for w' ret
    using header_iterate [OF scan_small [OF n]] c st r route_ends [OF r(1)]
    by (simp add: do_http_cache_handle_headers_def header_byte_def Let_def read_move_def)
  ultimately show ?thesis by blast
qed

text \<open>Lines that are skipped, one after the other.\<close>

definition text_lines :: "string list \<Rightarrow> string" where
  "text_lines lines = concat (map (\<lambda>l. l @ crlf) lines)"

lemma skipped_cr: "skipped_line m l \<Longrightarrow> skipped_line m (l @ [CHR 0x0D])"
  by (auto simp: skipped_line_def blank_def unnamed_def list_all_iff nth_append)

lemma header_lines:
  assumes "list_all (skipped_line (conn_method w)) lines" "handler w = http_cache_handle_headers" "epollin w" "conn_state w = 1"
    "contents (input w) = text_lines lines @ rest" "rest \<noteq> []" "length (contents (input w)) < BUFFER_SIZE"
  shows "\<exists>rb run'. leaves (input w) rest rb \<and> read_loop (run_handler rd) run (int (length (contents (input w)))) w
    = read_loop (run_handler rd) run' (int (length rest)) (w\<lparr>input := rb\<rparr>)"
  using assms
proof (induction lines arbitrary: w run)
  case Nil
  then have "leaves (input w) rest (input w)" by (simp add: leaves_def text_lines_def)
  then show ?case using Nil by (intro exI [of _ "input w"] exI [of _ run]) (simp add: text_lines_def)
next
  case (Cons l lines)
  let ?rest = "text_lines lines @ rest"
  have "contents (input w) = (l @ [CHR 0x0D]) @ CHR 0x0A # ?rest" using Cons.prems(5) by (simp add: text_lines_def)
  from header_line_step [OF this _ Cons.prems(7)] skipped_cr Cons.prems(1) obtain rb where
    rb: "do_http_cache_handle_headers w = Some (w\<lparr>input := rb, conn_state := 1\<rparr>, needs_more_read)" "leaves (input w) ?rest rb" by auto
  let ?w = "w\<lparr>input := rb, conn_state := 1\<rparr>"
  have c: "contents rb = ?rest" "length ?rest < length (contents (input w))" using rb(2) Cons.prems(5) by (simp_all add: leaves_def text_lines_def)
  have "read_loop (run_handler rd) run (int (length (contents (input w)))) w
      = read_loop (run_handler rd) (Some needs_more_read) (int (length ?rest)) ?w"
    by (rule read_loop_more) (use Cons.prems(2,3,6) c rb(1) in \<open>auto simp: run_handler_def\<close>)
  moreover from Cons.IH [of ?w "Some needs_more_read"] Cons.prems c obtain rb2 run' where "leaves rb rest rb2"
    "read_loop (run_handler rd) (Some needs_more_read) (int (length ?rest)) ?w
      = read_loop (run_handler rd) run' (int (length rest)) (?w\<lparr>input := rb2\<rparr>)" by auto
  moreover have "leaves (input w) rest rb2" using rb(2) \<open>leaves rb rest rb2\<close> by (simp add: leaves_def)
  moreover have "?w\<lparr>input := rb2\<rparr> = w\<lparr>input := rb2\<rparr>" using Cons.prems(4) by simp
  ultimately show ?case by metis
qed

section \<open>The request line\<close>

definition request_line :: "string \<Rightarrow> string \<Rightarrow> string \<Rightarrow> string \<Rightarrow> string" where
  "request_line word table key version = word @ '' /'' @ table @ ''/'' @ key @ '' '' @ version @ crlf"

definition good_names :: "string \<Rightarrow> string \<Rightarrow> string \<Rightarrow> bool" where
  "good_names table key version \<longleftrightarrow> CHR ''/'' \<notin> set table \<and> CHR '' '' \<notin> set table \<and> CHR '' '' \<notin> set key \<and> CHR 0x0A \<notin> set version"

text \<open>
  What \<open>http_key_lookup\<close> does to a connection whose method is \<open>m\<close> and that has the table \<open>t\<close> open, when the bytes of the key are copied.
\<close>

definition looks_up :: "http_world \<Rightarrow> u16 \<Rightarrow> tptr \<Rightarrow> string \<Rightarrow> db_state \<Rightarrow> db_state \<Rightarrow> cache_target \<Rightarrow> bool \<Rightarrow> bool" where
  "looks_up w0 m t key s s' tg wr \<longleftrightarrow> (\<forall>w. copy_key w (int (length key)) = Some key \<longrightarrow> conn_method w = m OR REQUEST_CACHE_LEVELTABLE \<longrightarrow>
     target w = (target w0)\<lparr>tgt_entry := Some t\<rparr> \<longrightarrow> db w = s \<longrightarrow> fd_blockfile w = fd_blockfile w0 \<longrightarrow> newfd w = newfd w0 \<longrightarrow> gc w = gc w0 \<longrightarrow>
     is_writing w = is_writing w0 \<longrightarrow>
     http_key_lookup w (int (length key)) = Some (w\<lparr>db := s', conn_method := m OR REQUEST_CACHE_LEVELKEY, handler := http_cache_handle_httpversion,
       target := tg, is_writing := wr\<rparr>))"

lemma request_line_parsed:
  assumes c: "contents (input w) = request_line word table key version @ rest" "rest \<noteq> []" "length (contents (input w)) < BUFFER_SIZE"
    and w: "handler w = http_cache_handle_method" "epollin w" and m: "map_of request_methods word = Some m"
    and names: "good_names table key version" and t: "request_table (m OR REQUEST_CACHE_LEVELTABLE) table (db w) = Some (Some t, s1)"
    and k: "looks_up w m t key s1 s2 tg wr"
  shows "\<exists>rb run'. leaves (input w) rest rb \<and> read_loop (run_handler rd) None (- 1) w
    = read_loop (run_handler rd) run' (int (length rest)) (w\<lparr>input := rb, conn_method := m OR REQUEST_CACHE_LEVELKEY, db := s2, target := tg,
        is_writing := wr, conn_state := 1, handler := http_cache_handle_headers\<rparr>)"
proof -
  define r2 where "r2 = (version @ [CHR 0x0D]) @ CHR 0x0A # rest"
  define r1 where "r1 = key @ '' '' @ r2"
  define r0 where "r0 = CHR ''/'' # table @ CHR ''/'' # r1"
  have c0: "contents (input w) = word @ '' '' @ r0" using c(1) by (simp add: request_line_def r0_def r1_def r2_def)
  have n0: "length r0 < BUFFER_SIZE" using c(3) c0 by simp
  then have n1: "length r1 < BUFFER_SIZE" by (simp add: r0_def)
  then have n2: "length r2 < BUFFER_SIZE" by (simp add: r1_def)
  have nonempty: "r0 \<noteq> []" "r1 \<noteq> []" "r2 \<noteq> []" by (simp_all add: r0_def r1_def r2_def)
  let ?step = "run_handler rd"
  from method_step [OF c0 m c(3)] obtain b1 where b1: "do_http_cache_handle_method w = Some (w\<lparr>input := b1, conn_method := m,
    handler := http_cache_handle_url, conn_state := 0\<rparr>, needs_more_read)" "leaves (input w) r0 b1" by blast
  define w1 where "w1 = w\<lparr>input := b1, conn_method := m, handler := http_cache_handle_url, conn_state := 0\<rparr>"
  have c1: "contents (input w1) = r0" using b1(2) by (simp add: w1_def leaves_def)
  have l1: "read_loop ?step None (- 1) w = read_loop ?step (Some needs_more_read) (int (length r0)) w1"
    by (rule read_loop_more [OF _ _ c1]) (use w b1(1) nonempty in \<open>simp_all add: run_handler_def w1_def\<close>)
  have "\<exists>rb. do_http_cache_handle_url w1 = Some (w1\<lparr>input := rb, conn_method := conn_method w1 OR REQUEST_CACHE_LEVELTABLE, db := s1,
    target := (target w1)\<lparr>tgt_entry := Some t\<rparr>, conn_state := 1\<rparr>, needs_more_read) \<and> leaves (input w1) r1 rb"
    by (rule url_table_step [where table = table]) (use c1 n0 names t in \<open>simp_all add: r0_def good_names_def w1_def\<close>)
  then obtain b2 where b2: "do_http_cache_handle_url w1 = Some (w1\<lparr>input := b2, conn_method := conn_method w1 OR REQUEST_CACHE_LEVELTABLE,
    db := s1, target := (target w1)\<lparr>tgt_entry := Some t\<rparr>, conn_state := 1\<rparr>, needs_more_read)" "leaves (input w1) r1 b2" by blast
  define w2 where "w2 = w1\<lparr>input := b2, conn_method := conn_method w1 OR REQUEST_CACHE_LEVELTABLE, db := s1,
    target := (target w1)\<lparr>tgt_entry := Some t\<rparr>, conn_state := 1\<rparr>"
  have c2: "contents (input w2) = r1" using b2(2) by (simp add: w2_def leaves_def)
  have l2: "read_loop ?step (Some needs_more_read) (int (length r0)) w1 = read_loop ?step (Some needs_more_read) (int (length r1)) w2"
    by (rule read_loop_more [OF _ _ c2]) (use w b2(1) nonempty in \<open>simp_all add: run_handler_def w2_def w1_def r0_def\<close>)
  have ck: "copy_key w2 (int (length key)) = Some key"
  proof -
    have "length key \<le> rb_len (input w2)" using c2 by (simp add: length_contents [symmetric] r1_def)
    moreover have "rb_scan (input w2)" using c2 n1 by (intro scan_small) simp
    ultimately show ?thesis using copy_key_ok [of w2 "length key"] c2 by (simp add: r1_def)
  qed
  define w3 where "w3 = w2\<lparr>db := s2, conn_method := m OR REQUEST_CACHE_LEVELKEY, handler := http_cache_handle_httpversion, target := tg, is_writing := wr\<rparr>"
  have lk: "http_key_lookup w2 (int (length key)) = Some w3"
    unfolding w3_def by (rule k [unfolded looks_up_def, rule_format]) (use ck in \<open>simp_all add: w2_def w1_def\<close>)
  have "\<exists>rb. do_http_cache_handle_url w2 = Some (w3\<lparr>input := rb, conn_state := 0\<rparr>, needs_more_read) \<and> leaves (input w2) r2 rb"
    by (rule url_key_step [OF _ _ _ _ lk]) (use c2 n1 names in \<open>simp_all add: r1_def good_names_def w2_def w3_def\<close>)
  then obtain b3 where b3: "do_http_cache_handle_url w2 = Some (w3\<lparr>input := b3, conn_state := 0\<rparr>, needs_more_read)" "leaves (input w2) r2 b3" by blast
  define w4 where "w4 = w3\<lparr>input := b3, conn_state := 0\<rparr>"
  have c4: "contents (input w4) = r2" using b3(2) by (simp add: w4_def leaves_def)
  have l3: "read_loop ?step (Some needs_more_read) (int (length r1)) w2 = read_loop ?step (Some needs_more_read) (int (length r2)) w4"
    by (rule read_loop_more [OF _ _ c4]) (use w b3(1) nonempty in \<open>simp_all add: run_handler_def w4_def w3_def w2_def w1_def r1_def\<close>)
  have "\<exists>rb. do_http_cache_handle_httpversion w4 = Some (w4\<lparr>input := rb, conn_state := 1, handler := http_cache_handle_headers\<rparr>, needs_more_read)
    \<and> leaves (input w4) rest rb"
    by (rule version_step [where version = "version @ [CHR 0x0D]"]) (use c4 n2 names in \<open>simp_all add: r2_def good_names_def\<close>)
  then obtain b5 where b5: "do_http_cache_handle_httpversion w4
      = Some (w4\<lparr>input := b5, conn_state := 1, handler := http_cache_handle_headers\<rparr>, needs_more_read)" "leaves (input w4) rest b5" by blast
  define w5 where "w5 = w4\<lparr>input := b5, conn_state := 1, handler := http_cache_handle_headers\<rparr>"
  have c5: "contents (input w5) = rest" using b5(2) by (simp add: w5_def leaves_def)
  have l4: "read_loop ?step (Some needs_more_read) (int (length r2)) w4 = read_loop ?step (Some needs_more_read) (int (length rest)) w5"
    by (rule read_loop_more [OF _ _ c5]) (use w b5(1) c(2) in \<open>simp_all add: run_handler_def w5_def w4_def w3_def w2_def w1_def r2_def\<close>)
  have "w5 = w\<lparr>input := b5, conn_method := m OR REQUEST_CACHE_LEVELKEY, db := s2, target := tg, is_writing := wr, conn_state := 1,
      handler := http_cache_handle_headers\<rparr>" by (simp add: w5_def w4_def w3_def w2_def w1_def)
  moreover have "leaves (input w) rest b5"
    using b1(2) b2(2) b3(2) b5(2) by (simp add: leaves_def w1_def w2_def w3_def w4_def)
  ultimately show ?thesis using l1 l2 l3 l4 by metis
qed

end
