(* ===== verification/Request.thy ===== *)
theory Request
  imports RequestParse
begin

text \<open>
  A whole request: what \<open>GET\<close> on a key does from the bytes that arrive on the socket to the bytes that leave it, through
  the parser (HttpCache), the engine and the response handlers (HttpRespond), each step of which is a handler run by
  \<open>http_read_handle\<close> or \<open>http_write_handle\<close>.
\<close>

section \<open>The request\<close>

text \<open>The part of \<open>http_key_lookup\<close> that runs in the engine, for \<open>GET\<close>.\<close>

definition key_target :: "http_world \<Rightarrow> tptr \<Rightarrow> string \<Rightarrow> db_state \<Rightarrow> (cache_target \<times> db_state) option" where
  "key_target w t key s = do {
     (entry, s) \<leftarrow> db_entry_get_read t key s;
     case entry of
       Some e \<Rightarrow> db_target_open (fd_blockfile w) ((target w)\<lparr>tgt_entry := Some e\<rparr>) False (newfd w) s
     | None \<Rightarrow> do { s \<leftarrow> db_table_close t s; Some ((target w)\<lparr>tgt_entry := None, tgt_fd := - 1\<rparr>, s) }
   }"

lemma get_levels:
  "set_level_key (REQUEST_HTTPGET OR REQUEST_CACHE_LEVELTABLE) = REQUEST_HTTPGET OR REQUEST_CACHE_LEVELKEY"
  "REQUEST_IS (REQUEST_HTTPGET OR REQUEST_CACHE_LEVELTABLE) REQUEST_HTTPGET"
  "REQUEST_IS (REQUEST_HTTPGET OR REQUEST_CACHE_LEVELKEY) REQUEST_HTTPGET"
  "REQUEST_IS (REQUEST_HTTPGET OR REQUEST_CACHE_LEVELKEY) REQUEST_CACHE_LEVELKEY"
  "\<not> REQUEST_IS (REQUEST_HTTPGET OR REQUEST_CACHE_LEVELKEY) REQUEST_HTTPPUT"
  "header_names (REQUEST_HTTPGET OR REQUEST_CACHE_LEVELKEY) = []"
  by (simp_all add: REQUEST_IS_def request_consts set_level_key_def header_names_def headers_for_def)

lemma key_lookup_get:
  assumes k: "copy_key w n = Some key" and m: "conn_method w = REQUEST_HTTPGET OR REQUEST_CACHE_LEVELTABLE"
    and t: "tgt_entry (target w) = Some t" and l: "key_target w t key (db w) = Some (tg, s)"
  shows "http_key_lookup w n = Some (w\<lparr>db := s, conn_method := REQUEST_HTTPGET OR REQUEST_CACHE_LEVELKEY,
    handler := http_cache_handle_httpversion, target := tg\<rparr>)"
proof -
  from l obtain entry s1 where r: "db_entry_get_read t key (db w) = Some (entry, s1)"
    and tg: "(case entry of
       Some e \<Rightarrow> db_target_open (fd_blockfile w) ((target w)\<lparr>tgt_entry := Some e\<rparr>) False (newfd w) s1
     | None \<Rightarrow> do { s \<leftarrow> db_table_close t s1; Some ((target w)\<lparr>tgt_entry := None, tgt_fd := - 1\<rparr>, s) }) = Some (tg, s)"
    by (auto simp: key_target_def elim!: bind_SomeE)
  have lk: "key_lookup_db key w = Some (entry, w\<lparr>db := s1\<rparr>)"
    using r t m by (simp add: key_lookup_db_def get_levels on_db_def)
  show ?thesis
  proof (cases entry)
    case None
    with tg obtain s2 where "db_table_close t s1 = Some s2" "tg = (target w)\<lparr>tgt_entry := None, tgt_fd := - 1\<rparr>" "s = s2"
      by (auto elim!: bind_SomeE)
    then show ?thesis using None k m t lk by (simp add: http_key_lookup_def get_levels run_db_def Let_def)
  next
    case (Some e)
    then show ?thesis using tg k m lk by (simp add: http_key_lookup_def get_levels on_db_def db_target_setup_def Let_def)
  qed
qed

lemma key_target_same:
  "fd_blockfile w' = fd_blockfile w \<Longrightarrow> newfd w' = newfd w \<Longrightarrow> target w' = (target w)\<lparr>tgt_entry := x\<rparr> \<Longrightarrow>
    key_target w' t key s = key_target w t key s"
  by (simp add: key_target_def cong: option.case_cong)

lemma get_looks_up:
  assumes "key_target w0 t key s = Some (tg, s')" "\<not> is_writing w0"
  shows "looks_up w0 REQUEST_HTTPGET t key s s' tg False"
  unfolding looks_up_def
proof (intro allI impI)
  fix w :: http_world
  assume c: "copy_key w (int (length key)) = Some key" "conn_method w = REQUEST_HTTPGET OR REQUEST_CACHE_LEVELTABLE"
    and t: "target w = (target w0)\<lparr>tgt_entry := Some t\<rparr>" and d: "db w = s" and e: "fd_blockfile w = fd_blockfile w0" "newfd w = newfd w0"
    and i: "is_writing w = is_writing w0"
  have "key_target w t key (db w) = Some (tg, s')" using assms(1) key_target_same [OF e t] d by simp
  from key_lookup_get [OF c _ this] t assms(2) i show "http_key_lookup w (int (length key)) = Some (w\<lparr>db := s',
      conn_method := REQUEST_HTTPGET OR REQUEST_CACHE_LEVELKEY, handler := http_cache_handle_httpversion, target := tg, is_writing := False\<rparr>)" by simp
qed

definition get_request :: "string \<Rightarrow> string \<Rightarrow> string \<Rightarrow> string list \<Rightarrow> string" where
  "get_request table key version lines = request_line ''GET'' table key version @ text_lines lines @ crlf"

definition well_formed :: "string \<Rightarrow> string \<Rightarrow> string \<Rightarrow> string list \<Rightarrow> bool" where
  "well_formed table key version lines \<longleftrightarrow> good_names table key version
     \<and> list_all (skipped_line (REQUEST_HTTPGET OR REQUEST_CACHE_LEVELKEY)) lines
     \<and> length (get_request table key version lines) < BUFFER_SIZE"

lemma get_parsed:
  assumes wf: "well_formed table key version lines" and w: "handler w = http_cache_handle_method" "epollin w" "\<not> is_writing w"
      "contents (input w) = get_request table key version lines"
    and t: "db_table_get_read table (db w) = Some (Some t, s1)" and k: "key_target w t key s1 = Some (tg, s2)"
  shows "\<exists>rb. contents rb = [] \<and> (\<forall>w' ret. http_route (w\<lparr>input := rb, conn_method := REQUEST_HTTPGET OR REQUEST_CACHE_LEVELKEY,
      db := s2, target := tg, conn_state := 2, handler := http_cache_handle_headers\<rparr>) = Some (w', ret) \<longrightarrow>
    handler w' \<noteq> http_cache_handle_headers \<longrightarrow> ret \<noteq> needs_more_read \<longrightarrow>
    read_loop (run_handler rd) None (- 1) w = Some (w', Some ret))"
proof -
  let ?rest = "text_lines lines @ crlf"
  have c: "contents (input w) = request_line ''GET'' table key version @ ?rest" using w(4) by (simp add: get_request_def)
  have n: "length (contents (input w)) < BUFFER_SIZE" using wf by (simp add: w(4) well_formed_def del: length_contents)
  have m: "map_of request_methods ''GET'' = Some REQUEST_HTTPGET" by (simp add: request_methods_def)
  have t': "request_table (REQUEST_HTTPGET OR REQUEST_CACHE_LEVELTABLE) table (db w) = Some (Some t, s1)"
    using t by (simp add: request_table_def get_levels)
  have names: "good_names table key version" "list_all (skipped_line (REQUEST_HTTPGET OR REQUEST_CACHE_LEVELKEY)) lines"
    using wf by (simp_all add: well_formed_def)
  from request_line_parsed [OF c _ n w(1,2) m names(1) t' get_looks_up [OF k w(3)], of rd] obtain b1 r1 where
    b1: "leaves (input w) ?rest b1" "read_loop (run_handler rd) None (- 1) w = read_loop (run_handler rd) r1 (int (length ?rest))
      (w\<lparr>input := b1, conn_method := REQUEST_HTTPGET OR REQUEST_CACHE_LEVELKEY, db := s2, target := tg, is_writing := False, conn_state := 1,
        handler := http_cache_handle_headers\<rparr>)" by auto
  define w1 where "w1 = w\<lparr>input := b1, conn_method := REQUEST_HTTPGET OR REQUEST_CACHE_LEVELKEY, db := s2, target := tg, is_writing := False,
    conn_state := 1, handler := http_cache_handle_headers\<rparr>"
  have c1: "contents (input w1) = ?rest" using b1(1) by (simp add: w1_def leaves_def)
  have n1: "length (contents (input w1)) < BUFFER_SIZE" using n unfolding c c1 by simp
  have "list_all (skipped_line (conn_method w1)) lines" using names(2) by (simp add: w1_def)
  from header_lines [OF this _ _ _ c1 _ n1, of rd r1] w(2) obtain b2 r2 where b2: "leaves (input w1) crlf b2"
    "read_loop (run_handler rd) r1 (int (length ?rest)) w1 = read_loop (run_handler rd) r2 (int (length crlf)) (w1\<lparr>input := b2\<rparr>)"
    unfolding c1 by (auto simp: w1_def)
  let ?w2 = "w1\<lparr>input := b2\<rparr>"
  have c2: "contents (input ?w2) = crlf @ []" using b2(1) by (simp add: leaves_def)
  have "conn_state ?w2 = 1" "length (contents (input ?w2)) < BUFFER_SIZE" unfolding c2 by (simp_all add: w1_def BUFFER_SIZE_def)
  from header_end_step [OF c2 this] obtain b3 where b3: "leaves (input ?w2) [] b3"
    "\<And>w' ret. http_route (?w2\<lparr>input := b3, conn_state := 2\<rparr>) = Some (w', ret) \<Longrightarrow> handler w' \<noteq> http_cache_handle_headers \<Longrightarrow>
      do_http_cache_handle_headers ?w2 = Some (w', ret)" by blast
  have e: "?w2\<lparr>input := b3, conn_state := 2\<rparr> = w\<lparr>input := b3, conn_method := REQUEST_HTTPGET OR REQUEST_CACHE_LEVELKEY,
      db := s2, target := tg, conn_state := 2, handler := http_cache_handle_headers\<rparr>" using w(3) by (simp add: w1_def)
  have "read_loop (run_handler rd) None (- 1) w = Some (w', Some ret)"
    if r: "http_route (w\<lparr>input := b3, conn_method := REQUEST_HTTPGET OR REQUEST_CACHE_LEVELKEY,
      db := s2, target := tg, conn_state := 2, handler := http_cache_handle_headers\<rparr>) = Some (w', ret)"
      "handler w' \<noteq> http_cache_handle_headers" "ret \<noteq> needs_more_read" for w' ret
  proof -
    have "run_handler rd ?w2 = Some (w', ret)" using b3(2) r(1,2) e by (simp add: run_handler_def w1_def)
    then have "read_loop (run_handler rd) r2 (int (length crlf)) ?w2 = Some (w', Some ret)"
      by (intro read_loop_done) (use w(2) r(3) in \<open>simp_all add: w1_def\<close>)
    then show ?thesis using b1(2) b2(2) by (simp add: w1_def)
  qed
  then show ?thesis using b3(1) unfolding leaves_def by blast
qed

section \<open>Reading and writing\<close>

text \<open>The socket takes all that is written and \<open>epoll_ctl\<close> succeeds.\<close>

definition quiet :: "http_world \<Rightarrow> bool" where
  "quiet w \<longleftrightarrow> epoll_results w = [] \<and> write_limits w = [] \<and> sendfile_results w = []"

lemma empty_rewound:
  assumes "contents rb = []"
  shows "contents (rbuf_rewind rb) = []" "rb_ok (rbuf_rewind rb)" "rbuf_write_to_end (rbuf_rewind rb) = int BUFFER_SIZE"
    "read_position (rbuf_rewind rb) = 0"
proof -
  have "rb_len rb = 0" using assms by (metis length_contents list.size(3))
  then have "RBUF_READLEN rb = 0" by (simp add: rb_len_def word_unat_eq_iff)
  then have "write_position rb = read_position rb" by (simp add: RBUF_READLEN_def)
  then have r: "rbuf_rewind rb = rb\<lparr>write_position := 0, read_position := 0\<rparr>" by (simp add: rbuf_rewind_def)
  have "rb_len (rbuf_rewind rb) = 0" by (simp add: r rb_len_def RBUF_READLEN_def)
  then show "contents (rbuf_rewind rb) = []" "rb_ok (rbuf_rewind rb)" by (simp_all add: contents_def rb_ok_def)
  show "rbuf_write_to_end (rbuf_rewind rb) = int BUFFER_SIZE" "read_position (rbuf_rewind rb) = 0"
    by (simp_all add: r rbuf_write_to_end_def rbuf_index_def)
qed

lemma read_request:
  assumes "rx w = [Received bs]" "bs \<noteq> []" "length bs < BUFFER_SIZE" "contents (input w) = []"
  shows "\<exists>rb. contents rb = bs \<and> flat rb \<and> http_read_handle (Suc d) w =
    process_input (run_handler (http_read_handle d)) (int (length bs)) (w\<lparr>rx := [], input := rb\<rparr>)"
proof -
  note e = empty_rewound [OF assms(4)]
  from contents_receive [OF e(2), of bs] e(1,3,4) assms(3) obtain rb where
    rb: "rbuf_receive (rbuf_rewind (input w)) bs = Some rb" "contents rb = bs" "read_position rb = 0" by auto
  have "rb_off rb = 0" "rb_len rb = length bs" using rb(2,3) by (auto simp: rb_off_def rbuf_index_def)
  then have "flat rb" using assms(3) by (simp add: flat_def)
  with rb(1,2) show ?thesis using e(3) assms by (intro exI [of _ rb]) (simp add: sock_read_def Let_def BUFFER_SIZE_def)
qed

lemma read_nothing:
  assumes "rx w = []" "contents (input w) = []"
  shows "http_read_handle (Suc d) w = Some (w\<lparr>input := rbuf_rewind (input w)\<rparr>, needs_more_read)"
  using empty_rewound(3) [OF assms(2)] assms(1) by (simp add: sock_read_def BUFFER_SIZE_def)

lemma process_done:
  "read_loop step None (- 1) w = Some (w', Some ret) \<Longrightarrow> ret = registered_write \<Longrightarrow> process_input step num w = Some (w', ret)"
  by (simp add: process_input_def)

lemma write_all:
  assumes "output_buffer w = Some buf" "output_length w = int (length buf)" "write_limits w = []" "epollout w"
  shows "http_write_handle d w = run_handler (http_read_handle d) (w\<lparr>events := events w @ [Sock_write (client_sock w) buf],
    output_length := 0, output_buffer := None, output_buffer_free := False\<rparr>)"
  using assms by (simp add: http_write_handle_def sock_write_def written_def Let_def)

text \<open>Write events until the handler does not go on.\<close>

fun http_writes :: "nat \<Rightarrow> nat \<Rightarrow> http_world \<Rightarrow> handler_result" where
  "http_writes d 0 w = Some (w, continue_processing)"
| "http_writes d (Suc n) w = do {
     (w, ret) \<leftarrow> http_write_handle d w;
     if ret = continue_processing then http_writes d n w else Some (w, ret)
   }"

lemma route_hit:
  assumes "conn_method w = REQUEST_HTTPGET OR REQUEST_CACHE_LEVELKEY" "tgt_entry (target w) = Some e" "epoll_results w = []"
  shows "http_route w = Some (w\<lparr>output_buffer := Some (http_templates ! HTTPTEMPLATE_HEADERS200),
    output_length := http_templates_length ! HTTPTEMPLATE_HEADERS200, conn_state := 0, handler := http_respond_expires,
    epollout := True, epollin := False\<rparr>, registered_write)"
  using assms by (simp add: http_route_def route_key_def get_levels set_template_def connection_register_write_def connection_event_update_def)

lemma route_miss:
  assumes "conn_method w = REQUEST_HTTPGET OR REQUEST_CACHE_LEVELKEY" "tgt_entry (target w) = None" "epoll_results w = []"
  shows "http_route w = Some (w\<lparr>handler := http_respond_writeonly, output_buffer := Some (http_templates ! HTTPTEMPLATE_FULL404),
    output_length := http_templates_length ! HTTPTEMPLATE_FULL404, conn_state := 0, epollout := True, epollin := False\<rparr>, registered_write)"
  using assms by (simp add: http_route_def route_key_def get_levels http_write_response_def set_template_def connection_register_write_def
      connection_event_update_def)

lemma template_length: "t < 18 \<Longrightarrow> http_templates_length ! t = int (length (http_templates ! t))"
  by (simp add: http_templates_length_def length_templates)

section \<open>The response\<close>

definition ttl_line :: "int \<Rightarrow> cache_entry \<Rightarrow> string" where
  "ttl_line now c = ''X-Ttl: '' @ to_sdec (if ce_expires c = 0 then 0 else ce_expires c - now) @ crlf"

definition length_line :: "cache_entry \<Rightarrow> string" where
  "length_line c = ''Content-Length: '' @ to_sdec (sint (ce_data_length c)) @ crlf"

lemma expires_step:
  assumes "handler w = http_respond_expires" "conn_method w = REQUEST_HTTPGET OR REQUEST_CACHE_LEVELKEY"
    and "tgt_entry (target w) = Some e" "entries (db w) e = Some c"
  shows "run_handler rd w = Some (w\<lparr>output_buffer := Some (ttl_line (now_sec (db w)) c), output_buffer_free := True,
    output_length := int (length (ttl_line (now_sec (db w)) c)), handler := http_respond_contentlength\<rparr>, continue_processing)"
proof -
  have "REQUEST_IS (REQUEST_HTTPGET OR REQUEST_CACHE_LEVELKEY) REQUEST_GETKEY" by (simp add: REQUEST_IS_def REQUEST_GETKEY_def request_consts)
  moreover have "length (ttl_line (now_sec (db w)) c) < 32"
    using length_to_sdec [of "if ce_expires c = 0 then 0 else ce_expires c - now_sec (db w)"] by (simp add: ttl_line_def)
  moreover have "the_entry w = Some c" using assms(3,4) by (simp add: the_entry_def)
  ultimately show ?thesis using assms(1,2) copy_fits [of "ttl_line (now_sec (db w)) c" 32 w]
    by (cases "ce_expires c = 0") (simp_all add: run_handler_def do_http_respond_expires_def ttl_line_def Let_def)
qed

lemma length_step:
  assumes "handler w = http_respond_contentlength" "tgt_entry (target w) = Some e" "entries (db w) e = Some c"
  shows "run_handler rd w = Some (w\<lparr>output_buffer := Some (length_line c), output_buffer_free := True,
    output_length := int (length (length_line c)), handler := http_respond_responseend\<rparr>, continue_processing)"
proof -
  have "length (length_line c) < 32" using length_sdec32 [of "ce_data_length c"] by (simp add: length_line_def)
  moreover have "the_entry w = Some c" using assms(2,3) by (simp add: the_entry_def)
  ultimately show ?thesis using assms(1) copy_fits [of "length_line c" 32 w]
    by (simp add: run_handler_def do_http_respond_contentlength_def length_line_def)
qed

lemma end_step:
  assumes "handler w = http_respond_responseend" "conn_method w = REQUEST_HTTPGET OR REQUEST_CACHE_LEVELKEY"
  shows "run_handler rd w = Some (w\<lparr>output_buffer := Some crlf, output_length := 2, handler := http_respond_contentbody\<rparr>, continue_processing)"
  using assms by (simp add: run_handler_def do_http_respond_responseend_def get_levels set_template_def http_templates_length_def
      http_templates_def HTTPTEMPLATE_NEWLINE_def)

text \<open>A cache connection between two requests, with nothing received that is not parsed.\<close>

definition waiting :: "http_world \<Rightarrow> bool" where
  "waiting w \<longleftrightarrow> handler w = http_cache_handle_method \<and> epollin w \<and> \<not> epollout w \<and> ltype w = cache_connection \<and> \<not> is_writing w
     \<and> output_buffer w = None \<and> contents (input w) = []"

lemma register_again:
  assumes "epoll_results w = []" "rx w = []" "contents (input w) = []"
  shows "\<exists>rb. contents rb = [] \<and> http_register_read (http_read_handle (Suc d)) w
    = Some (True, w\<lparr>input := rb, epollin := True, epollout := False\<rparr>)"
proof -
  have r: "connection_register_read w = (True, w\<lparr>epollout := False, epollin := True\<rparr>)"
    using assms(1) by (simp add: connection_register_read_def connection_event_update_def)
  show ?thesis
  proof (cases "\<not> stop_soon w \<and> rbuf_write_remaining (input w) \<noteq> 0")
    case True
    then show ?thesis using r assms read_nothing [of "w\<lparr>epollout := False, epollin := True\<rparr>" d] empty_rewound(1) [OF assms(3)]
      by (intro exI [of _ "rbuf_rewind (input w)"]) (simp add: http_register_read_def)
  next
    case False
    then show ?thesis using r assms(3) by (intro exI [of _ "input w"]) (auto simp: http_register_read_def)
  qed
qed

lemma body_step_sent:
  assumes h: "handler w = http_respond_contentbody" and m: "conn_method w = REQUEST_HTTPGET OR REQUEST_CACHE_LEVELKEY"
    and tg: "target w = \<lparr>tgt_entry = Some e, tgt_position = p, tgt_end_position = p + uint (ce_data_length c), tgt_fd = fd\<rparr>"
    and c: "entries (db w) e = Some c" "0 < ce_data_length c" "\<not> ce_writing c" and d: "db_entry_deref e True (db w) = Some s"
    and w: "sendfile_results w = []" "ltype w = cache_connection" "\<not> is_writing w" "epoll_results w = []" "rx w = []" "contents (input w) = []"
      "output_buffer w = None"
  shows "\<exists>w'. run_handler (http_read_handle (Suc d')) w = Some (w', continue_processing) \<and> waiting w' \<and> db w' = s
    \<and> events w' = events w @ [Sendfile (client_sock w) fd p (uint (ce_data_length c))] \<and> quiet w' = quiet w \<and> rx w' = []"
proof -
  have "uint (ce_data_length c) < 2 ^ 64" using uint_lt2p [of "ce_data_length c"] by simp
  then have n: "uint (of_int (uint (ce_data_length c)) :: u64) = uint (ce_data_length c)"
    by (simp add: unsigned_ucast_eq take_bit_int_eq_self)
  have pos: "uint (ce_data_length c) \<noteq> 0" using c(2) by (simp add: word_less_def)
  have pos': "0 < unat (ce_data_length c)" using c(2) by (simp only: word_less_nat_alt unat_0)
  let ?w = "w\<lparr>events := events w @ [Sendfile (client_sock w) fd p (uint (ce_data_length c))],
    target := \<lparr>tgt_entry = Some e, tgt_position = p + uint (ce_data_length c), tgt_end_position = p + uint (ce_data_length c), tgt_fd = fd\<rparr>\<rparr>"
  let ?tg = "\<lparr>tgt_entry = None, tgt_position = 0, tgt_end_position = p + uint (ce_data_length c), tgt_fd = - 1\<rparr>"
  have cl: "http_cleanup md ?w = Some (?w\<lparr>db := s, target := ?tg\<rparr>)" for md
    using w(2,3) m c d by (simp add: http_cleanup_def cache_destroy_def get_levels on_db_def db_target_entry_close_def)
  let ?v = "?w\<lparr>db := s, target := ?tg, handler := http_cache_handle_method\<rparr>"
  have v: "epoll_results ?v = []" "rx ?v = []" "contents (input ?v) = []" using w by simp_all
  from register_again [OF v, of d'] obtain rb where rb: "contents rb = []"
    "http_register_read (http_read_handle (Suc d')) ?v = Some (True, ?v\<lparr>input := rb, epollin := True, epollout := False\<rparr>)" by blast
  have "run_handler (http_read_handle (Suc d')) w = Some (?v\<lparr>input := rb, epollin := True, epollout := False\<rparr>, continue_processing)"
    using h tg n pos pos' w(1) cl rb(2) by (simp add: run_handler_def do_http_respond_contentbody_def send_file_def Let_def)
  then show ?thesis using w rb(1) by (auto simp: waiting_def quiet_def)
qed

lemma served_response:
  assumes h: "handler w = http_respond_expires" and m: "conn_method w = REQUEST_HTTPGET OR REQUEST_CACHE_LEVELKEY"
    and out: "output_buffer w = Some buf" "output_length w = int (length buf)" "epollout w"
    and tg: "target w = \<lparr>tgt_entry = Some e, tgt_position = p, tgt_end_position = p + uint (ce_data_length c), tgt_fd = fd\<rparr>"
    and c: "entries (db w) e = Some c" "0 < ce_data_length c" "\<not> ce_writing c" and d: "db_entry_deref e True (db w) = Some s"
    and w: "quiet w" "ltype w = cache_connection" "\<not> is_writing w" "rx w = []" "contents (input w) = []"
  shows "\<exists>w'. http_writes (Suc d') 4 w = Some (w', continue_processing) \<and> waiting w' \<and> quiet w' \<and> rx w' = [] \<and> db w' = s
    \<and> events w' = events w @ [Sock_write (client_sock w) buf, Sock_write (client_sock w) (ttl_line (now_sec (db w)) c),
      Sock_write (client_sock w) (length_line c), Sock_write (client_sock w) crlf,
      Sendfile (client_sock w) fd p (uint (ce_data_length c))]"
proof -
  note q = w(1) [unfolded quiet_def]
  define w0 where "w0 = w\<lparr>events := events w @ [Sock_write (client_sock w) buf], output_length := 0, output_buffer := None, output_buffer_free := False\<rparr>"
  define w1 where "w1 = w0\<lparr>output_buffer := Some (ttl_line (now_sec (db w)) c), output_buffer_free := True,
    output_length := int (length (ttl_line (now_sec (db w)) c)), handler := http_respond_contentlength\<rparr>"
  have r1: "http_write_handle (Suc d') w = Some (w1, continue_processing)"
    using write_all [OF out(1,2) _ out(3), of "Suc d'"] q expires_step [of w0 e c] h m tg c(1) by (simp add: w0_def w1_def)
  define w2 where "w2 = w1\<lparr>events := events w1 @ [Sock_write (client_sock w) (ttl_line (now_sec (db w)) c)],
    output_buffer := Some (length_line c), output_buffer_free := True, output_length := int (length (length_line c)), handler := http_respond_responseend\<rparr>"
  have "http_write_handle (Suc d') w1 = run_handler (http_read_handle (Suc d')) (w1\<lparr>events := events w1 @
      [Sock_write (client_sock w) (ttl_line (now_sec (db w)) c)], output_length := 0, output_buffer := None, output_buffer_free := False\<rparr>)"
    by (subst write_all) (use q out(3) in \<open>simp_all add: w1_def w0_def\<close>)
  also have "\<dots> = Some (w2, continue_processing)"
    by (subst length_step [where e = e and c = c]) (use tg c(1) in \<open>simp_all add: w2_def w1_def w0_def\<close>)
  finally have r2: "http_write_handle (Suc d') w1 = Some (w2, continue_processing)" .
  define w3 where "w3 = w2\<lparr>events := events w2 @ [Sock_write (client_sock w) (length_line c)],
    output_buffer := Some crlf, output_buffer_free := False, output_length := 2, handler := http_respond_contentbody\<rparr>"
  have "http_write_handle (Suc d') w2 = run_handler (http_read_handle (Suc d')) (w2\<lparr>events := events w2 @
      [Sock_write (client_sock w) (length_line c)], output_length := 0, output_buffer := None, output_buffer_free := False\<rparr>)"
    by (subst write_all) (use q out(3) in \<open>simp_all add: w2_def w1_def w0_def\<close>)
  also have "\<dots> = Some (w3, continue_processing)"
    by (subst end_step) (use m in \<open>simp_all add: w3_def w2_def w1_def w0_def\<close>)
  finally have r3: "http_write_handle (Suc d') w2 = Some (w3, continue_processing)" .
  define w4 where "w4 = w3\<lparr>events := events w3 @ [Sock_write (client_sock w) crlf], output_length := 0, output_buffer := None, output_buffer_free := False\<rparr>"
  have r4: "http_write_handle (Suc d') w3 = run_handler (http_read_handle (Suc d')) w4"
    by (subst write_all) (use q out(3) in \<open>simp_all add: w4_def w3_def w2_def w1_def w0_def\<close>)
  have "\<exists>w'. run_handler (http_read_handle (Suc d')) w4 = Some (w', continue_processing) \<and> waiting w' \<and> db w' = s
    \<and> events w' = events w4 @ [Sendfile (client_sock w4) fd p (uint (ce_data_length c))] \<and> quiet w' = quiet w4 \<and> rx w' = []"
    by (rule body_step_sent [where e = e]) (use m tg c d w q in \<open>simp_all add: w4_def w3_def w2_def w1_def w0_def\<close>)
  then obtain w' where w': "http_write_handle (Suc d') w3 = Some (w', continue_processing)" "waiting w'" "db w' = s" "quiet w' = quiet w4" "rx w' = []"
    "events w' = events w4 @ [Sendfile (client_sock w4) fd p (uint (ce_data_length c))]" using r4 by auto
  have four: "(4 :: nat) = Suc (Suc (Suc (Suc 0)))" by simp
  have "http_writes (Suc d') 4 w = Some (w', continue_processing)"
    unfolding four using r1 r2 r3 w'(1) by simp
  moreover have "quiet w4 = quiet w" by (simp add: quiet_def w4_def w3_def w2_def w1_def w0_def)
  ultimately show ?thesis using w' w(1) by (auto simp: w4_def w3_def w2_def w1_def w0_def)
qed

text \<open>An answer of one piece, after which the resources of the request are given back.\<close>

definition same_ends :: "http_world \<Rightarrow> http_world \<Rightarrow> bool" where
  "same_ends w w' \<longleftrightarrow> client_sock w' = client_sock w \<and> fd_blockfile w' = fd_blockfile w"

lemma short_response:
  assumes h: "handler w = http_respond_writeonly"
    and out: "output_buffer w = Some buf" "output_length w = int (length buf)" "epollout w"
    and cl: "cache_destroy (w\<lparr>events := events w @ [Sock_write (client_sock w) buf], output_length := 0, output_buffer := None, output_buffer_free := False\<rparr>)
      = Some (w\<lparr>events := events w @ [Sock_write (client_sock w) buf], output_length := 0, output_buffer := None, output_buffer_free := False,
          db := s, target := tg\<rparr>)"
    and w: "quiet w" "ltype w = cache_connection" "\<not> is_writing w" "rx w = []" "contents (input w) = []"
  shows "\<exists>w'. http_writes (Suc d') 1 w = Some (w', continue_processing) \<and> waiting w' \<and> quiet w' \<and> rx w' = [] \<and> db w' = s
    \<and> events w' = events w @ [Sock_write (client_sock w) buf] \<and> same_ends w w'"
proof -
  note q = w(1) [unfolded quiet_def]
  let ?w = "w\<lparr>events := events w @ [Sock_write (client_sock w) buf], output_length := 0, output_buffer := None, output_buffer_free := False\<rparr>"
  let ?v = "?w\<lparr>db := s, target := tg, handler := http_cache_handle_method\<rparr>"
  have "epoll_results ?v = []" "rx ?v = []" "contents (input ?v) = []" using q w by simp_all
  from register_again [OF this, of d'] obtain rb where rb: "contents rb = []"
    "http_register_read (http_read_handle (Suc d')) ?v = Some (True, ?v\<lparr>input := rb, epollin := True, epollout := False\<rparr>)" by blast
  have "run_handler (http_read_handle (Suc d')) ?w = Some (?v\<lparr>input := rb, epollin := True, epollout := False\<rparr>, continue_processing)"
    using h cl w(2) rb(2) by (simp add: run_handler_def do_http_respond_writeonly_def http_cleanup_def Let_def)
  then have "http_write_handle (Suc d') w = Some (?v\<lparr>input := rb, epollin := True, epollout := False\<rparr>, continue_processing)"
    using write_all [OF out(1,2) _ out(3), of "Suc d'"] q by simp
  then show ?thesis using w q rb(1) by (auto simp: waiting_def quiet_def same_ends_def)
qed

lemma missing_response:
  assumes h: "handler w = http_respond_writeonly" and m: "conn_method w = REQUEST_HTTPGET OR REQUEST_CACHE_LEVELKEY"
    and out: "output_buffer w = Some buf" "output_length w = int (length buf)" "epollout w" and tg: "tgt_entry (target w) = None"
    and w: "quiet w" "ltype w = cache_connection" "\<not> is_writing w" "rx w = []" "contents (input w) = []"
  shows "\<exists>w'. http_writes (Suc d') 1 w = Some (w', continue_processing) \<and> waiting w' \<and> quiet w' \<and> rx w' = [] \<and> db w' = db w
    \<and> events w' = events w @ [Sock_write (client_sock w) buf] \<and> same_ends w w'"
  by (rule short_response [OF h out _ w, where tg = "target w"]) (use m tg w(3) in \<open>simp add: cache_destroy_def get_levels\<close>)

section \<open>The engine\<close>

text \<open>Where the value of an entry is read from.\<close>

definition value_fd :: "http_world \<Rightarrow> cache_entry \<Rightarrow> int" where
  "value_fd w c = (if IS_SINGLE_FILE c then newfd w else fd_blockfile w)"

definition value_position :: "cache_entry \<Rightarrow> int" where
  "value_position c = (if IS_SINGLE_FILE c then 0 else ce_block c * int BLOCK_LENGTH)"

definition value_there :: "db_state \<Rightarrow> cache_entry \<Rightarrow> bool" where
  "value_there s c \<longleftrightarrow> (IS_SINGLE_FILE c \<longrightarrow> (\<exists>p. get_key_path c s = Some p \<and> p \<in> files s))"

text \<open>A table that is found gets a reference; no lookup in it changes.\<close>

definition opened :: "db_state \<Rightarrow> tptr \<Rightarrow> handle list \<Rightarrow> eptr list \<Rightarrow> db_state \<Rightarrow> bool" where
  "opened s t hs xs s' \<longleftrightarrow> db_ok s' (TableH t # hs) None \<and> lru_ok s' xs \<and> hash_set_of t s' \<noteq> None \<and> served s' = served s
     \<and> entries s' = entries s \<and> files s' = files s \<and> now_sec s' = now_sec s \<and> (\<forall>c. get_key_path c s' = get_key_path c s)"

lemma table_open:
  assumes ok: "db_ok s hs None" and l: "lru_ok s xs" and n: "length hs + 1 < 2 ^ 14"
    and t: "db_table_probe table (hash_string table) s = Some (Inr t)"
  shows "\<exists>s1. db_table_get_read table s = Some (Some t, s1) \<and> opened s t hs xs s1"
proof -
  from probe_ok [OF ok, of table "hash_string table"] t obtain d where d: "dbtables s t = Some d" "\<not> tbl_deleted d"
    by (auto simp: probed_def)
  let ?s = "s\<lparr>dbtables := (dbtables s)(t \<mapsto> d\<lparr>tbl_refs := tbl_refs d + 1\<rparr>)\<rparr>"
  have i: "db_table_incref t s = Some ?s" using d(1) by (simp add: db_table_incref_def mod_table_def)
  with table_incref_ok [OF ok d n, of xs] l have o: "db_ok ?s (TableH t # hs) None" "lru_ok ?s xs" by simp_all
  have h: "hash_set_of x ?s = hash_set_of x s" for x using d by (simp add: hash_set_of_def)
  then have "stored ?s = stored s" by (simp add: stored_def fun_eq_iff)
  then have "served ?s = served s" by (simp add: served_def readable_def expired_def fun_eq_iff)
  moreover have "get_key_path c ?s = get_key_path c s" for c
    using d(1) by (cases "ce_table c") (auto simp: get_key_path_def)
  moreover have "hash_set_of t ?s \<noteq> None" unfolding h using d ok_set_None [OF ok d(1)] by (auto simp: hash_set_of_def)
  ultimately have "opened s t hs xs ?s" using o by (simp add: opened_def)
  then show ?thesis using i t by (auto simp: db_table_get_read_def)
qed

lemma read_hit:
  assumes ok: "db_ok s hs None" and l: "lru_ok s xs" and e: "served s t key = Some e" "entries s e = Some c"
    and run: "db_entry_get_read t key s = Some (Some e, s')"
  shows "\<exists>c'. entries s' e = Some c' \<and> core c' = core (c\<lparr>ce_refs := ce_refs c + 1\<rparr>)"
    "dbtables s' = dbtables s \<and> files s' = files s \<and> path_single s' = path_single s \<and> now_sec s' = now_sec s"
proof -
  let ?s = "s\<lparr>db_stats_gets := db_stats_gets s + 1, db_stats_operations := db_stats_operations s + 1\<rparr>"
  from e have st: "stored s t (hash_string key) = Some e" and r: "readable s key c" by (auto simp: served_def bind_Some_iff split: if_splits)
  then obtain h where "hash_set_of t s = Some h" by (auto simp: stored_def bind_Some_iff)
  from find_entry_stored [OF ok this, of "hash_string key"] st obtain k where f: "find_entry t (hash_string key) s = Some (k, Some e)" by auto
  from stored_entry [OF ok st] e(2) have "e \<in> set xs" using l r by (auto simp: lru_ok_def idle_entries_def readable_def)
  then obtain as bs where xs: "xs = as @ e # bs" by (meson split_list)
  have "lru_inv ?s (as @ e # bs)" using l xs lru_ok_fields by (simp add: lru_ok_def lru_inv_def)
  from hit_ok [OF this] obtain s1 where s1: "db_lru_hit e ?s = Some s1" "same_but_links ?s s1" by blast
  have "map_option core (entries s1 e) = Some (core c)" using s1(2) e(2) by (simp add: same_but_links_def)
  then obtain c1 where c1: "entries s1 e = Some c1" "core c1 = core c" by auto
  have "s' = s1\<lparr>entries := (entries s1)(e \<mapsto> c1\<lparr>ce_refs := ce_refs c1 + 1\<rparr>)\<rparr>"
    using run f e(2) r s1(1) c1(1) by (auto simp: db_entry_get_read_def readable_def expired_def db_entry_incref_def)
  then show "\<exists>c'. entries s' e = Some c' \<and> core c' = core (c\<lparr>ce_refs := ce_refs c + 1\<rparr>)"
    "dbtables s' = dbtables s \<and> files s' = files s \<and> path_single s' = path_single s \<and> now_sec s' = now_sec s"
    using c1(2) same_links_fields [OF s1(2)] core_eqD [OF c1(2)] by (simp_all add: core_def)
qed

lemma get_hit:
  assumes ok: "db_ok (db w) hs None" and l: "lru_ok (db w) xs" and n: "length hs + 2 < 2 ^ 14"
    and t: "db_table_probe table (hash_string table) (db w) = Some (Inr t)"
    and e: "served (db w) t key = Some e" "entries (db w) e = Some c" "value_there (db w) c"
  shows "\<exists>s1 s2 c'. db_table_get_read table (db w) = Some (Some t, s1) \<and> key_target w t key s1 = Some (\<lparr>tgt_entry = Some e,
      tgt_position = value_position c, tgt_end_position = value_position c + uint (ce_data_length c), tgt_fd = value_fd w c\<rparr>, s2)
    \<and> db_ok s2 (EntryH e # hs) None \<and> lru_ok s2 (remove1 e xs @ [e]) \<and> entries s2 e = Some c'
    \<and> core c' = core (c\<lparr>ce_refs := ce_refs c + 1\<rparr>) \<and> now_sec s2 = now_sec (db w)"
proof -
  have n1: "length hs + 1 < 2 ^ 14" using n by simp
  from table_open [OF ok l n1 t] obtain s1 where o: "db_table_get_read table (db w) = Some (Some t, s1)" and
    s1: "opened (db w) t hs xs s1" by blast
  note o' = s1 [unfolded opened_def]
  have sv: "served s1 t key = Some e" "entries s1 e = Some c" using o' e(1,2) by simp_all
  have n2: "length (TableH t # hs) + 1 < 2 ^ 14" using n by simp
  from get_read_ok [OF _ _ n2, of s1 xs t key] o' sv(1) obtain s2 where
    s2: "db_entry_get_read t key s1 = Some (Some e, s2)" "lookup_post s1 (TableH t # hs) xs t key s2" by auto
  from read_hit [OF _ _ sv s2(1), of "TableH t # hs" xs] o' obtain c' where c': "entries s2 e = Some c'" "core c' = core (c\<lparr>ce_refs := ce_refs c + 1\<rparr>)"
    and same: "dbtables s2 = dbtables s1" "files s2 = files s1" "path_single s2 = path_single s1" "now_sec s2 = now_sec s1" by blast
  from s2(2) sv(1) have p: "db_ok s2 (BareH e # TableH t # hs) None" "lru_ok s2 (remove1 e xs @ [e])" "stored s2 t = stored s1 t"
    by (simp_all add: lookup_post_def)
  have "stored s2 t (hash_string key) = Some e" using sv(1) by (auto simp: p(3) served_def bind_Some_iff split: if_splits)
  from ok_join [OF p(1) _ stored_table_of [OF p(1) this]] have ok2: "db_ok s2 (EntryH e # hs) None" by simp
  note f = core_eqD [OF c'(2), simplified]
  have path: "get_key_path c' s2 = get_key_path c (db w)"
    using f o' by (simp add: get_key_path_def same)
  have "IS_SINGLE_FILE c' = IS_SINGLE_FILE c" using f by (simp add: IS_SINGLE_FILE_def)
  then have "key_target w t key s1 = Some (\<lparr>tgt_entry = Some e, tgt_position = value_position c,
      tgt_end_position = value_position c + uint (ce_data_length c), tgt_fd = value_fd w c\<rparr>, s2)"
    using s2(1) c'(1) f path e(3) same(2) o'
    by (auto simp: key_target_def db_target_open_def db_entry_open_def value_position_def value_fd_def value_there_def)
  then show ?thesis using o o' ok2 p(2) c' same(4) by auto
qed

lemma get_miss:
  assumes ok: "db_ok (db w) hs None" and l: "lru_ok (db w) xs" and n: "length hs + 2 < 2 ^ 14"
    and t: "db_table_probe table (hash_string table) (db w) = Some (Inr t)" and e: "served (db w) t key = None"
  shows "\<exists>s1 s2. db_table_get_read table (db w) = Some (Some t, s1)
    \<and> key_target w t key s1 = Some ((target w)\<lparr>tgt_entry := None, tgt_fd := - 1\<rparr>, s2) \<and> db_ok s2 hs None \<and> (\<exists>ys. lru_ok s2 ys)"
proof -
  have n1: "length hs + 1 < 2 ^ 14" using n by simp
  from table_open [OF ok l n1 t] obtain s1 where o: "db_table_get_read table (db w) = Some (Some t, s1)" and
    s1: "opened (db w) t hs xs s1" by blast
  note o' = s1 [unfolded opened_def]
  have sv: "served s1 t key = None" using o' e by simp
  have n2: "length (TableH t # hs) + 1 < 2 ^ 14" using n by simp
  from get_read_ok [OF _ _ n2, of s1 xs t key] o' sv obtain s2 where
    s2: "db_entry_get_read t key s1 = Some (None, s2)" "lookup_post s1 (TableH t # hs) xs t key s2" by auto
  then obtain ys where p: "db_ok s2 (TableH t # hs) None" "lru_ok s2 ys" using sv by (auto simp: lookup_post_def split: option.splits)
  from table_close_ok [OF p(1), of ys] p(2) obtain s3 where "db_table_close t s2 = Some s3" "db_ok s3 hs None" "lru_ok s3 ys" by blast
  then show ?thesis using o s2(1) by (auto simp: key_target_def)
qed

section \<open>Properties\<close>

lemma request_read:
  assumes conn: "waiting w" "rx w = [Received (get_request table key version lines)]" and wf: "well_formed table key version lines"
    and t: "db_table_get_read table (db w) = Some (Some t, s1)" and k: "key_target w t key s1 = Some (tg, s2)"
  shows "\<exists>rb. contents rb = [] \<and> (\<forall>w'. http_route (w\<lparr>rx := [], input := rb, conn_method := REQUEST_HTTPGET OR REQUEST_CACHE_LEVELKEY,
      db := s2, target := tg, conn_state := 2, handler := http_cache_handle_headers\<rparr>) = Some (w', registered_write) \<longrightarrow>
    handler w' \<noteq> http_cache_handle_headers \<longrightarrow> http_read_handle (Suc n) w = Some (w', registered_write))"
proof -
  have "get_request table key version lines \<noteq> []" "length (get_request table key version lines) < BUFFER_SIZE"
    using wf by (simp_all add: well_formed_def get_request_def request_line_def)
  from read_request [OF conn(2) this] conn(1) obtain rb where rb: "contents rb = get_request table key version lines"
    "http_read_handle (Suc n) w = process_input (run_handler (http_read_handle n)) (int (length (get_request table key version lines)))
      (w\<lparr>rx := [], input := rb\<rparr>)" unfolding waiting_def by blast
  let ?w = "w\<lparr>rx := [], input := rb\<rparr>"
  have "key_target ?w t key s1 = Some (tg, s2)" using k key_target_same [of ?w w "tgt_entry (target w)" t key s1] by simp
  from get_parsed [where rd = "http_read_handle n", OF wf _ _ _ _ _ this] conn(1) rb(1) t obtain rb2 where rb2: "contents rb2 = []"
    "\<And>w' ret. http_route (?w\<lparr>input := rb2, conn_method := REQUEST_HTTPGET OR REQUEST_CACHE_LEVELKEY,
      db := s2, target := tg, conn_state := 2, handler := http_cache_handle_headers\<rparr>) = Some (w', ret) \<Longrightarrow>
      handler w' \<noteq> http_cache_handle_headers \<Longrightarrow> ret \<noteq> needs_more_read \<Longrightarrow>
      read_loop (run_handler (http_read_handle n)) None (- 1) ?w = Some (w', Some ret)" by (auto simp: waiting_def)
  then show ?thesis using rb(2) process_done by (intro exI [of _ rb2]) simp
qed

lemma get_answer:
  assumes conn: "waiting w" "quiet w" "rx w = [Received (get_request table key version lines)]" and wf: "well_formed table key version lines"
    and ok: "db_ok (db w) hs None" "lru_ok (db w) xs" "length hs + 2 < 2 ^ 14"
    and t: "db_table_probe table (hash_string table) (db w) = Some (Inr t)"
    and e: "served (db w) t key = Some e" "entries (db w) e = Some c" "value_there (db w) c" "0 < ce_data_length c"
  shows "\<exists>w1 w2. http_read_handle (Suc n) w = Some (w1, registered_write) \<and> http_writes (Suc m) 4 w1 = Some (w2, continue_processing)
    \<and> events w2 = events w @ [Sock_write (client_sock w) (http_templates ! HTTPTEMPLATE_HEADERS200),
        Sock_write (client_sock w) (ttl_line (now_sec (db w)) c), Sock_write (client_sock w) (length_line c), Sock_write (client_sock w) crlf,
        Sendfile (client_sock w) (value_fd w c) (value_position c) (uint (ce_data_length c))]
    \<and> waiting w2 \<and> quiet w2 \<and> rx w2 = [] \<and> db_ok (db w2) hs None \<and> (\<exists>ys. lru_ok (db w2) ys)"
proof -
  from get_hit [OF ok t e(1-3)] obtain s1 s2 c' where s: "db_table_get_read table (db w) = Some (Some t, s1)"
    "key_target w t key s1 = Some (\<lparr>tgt_entry = Some e, tgt_position = value_position c,
      tgt_end_position = value_position c + uint (ce_data_length c), tgt_fd = value_fd w c\<rparr>, s2)"
    and s2: "db_ok s2 (EntryH e # hs) None" "lru_ok s2 (remove1 e xs @ [e])" "entries s2 e = Some c'"
      "core c' = core (c\<lparr>ce_refs := ce_refs c + 1\<rparr>)" "now_sec s2 = now_sec (db w)" by blast
  from deref_tab_ok [OF s2(1,3), of "remove1 e xs @ [e]"] s2(2) obtain s3 where
    s3: "db_entry_deref e True s2 = Some s3" "db_ok s3 hs None" "lru_ok s3 (remove1 e xs @ [e])" by blast
  have c': "ce_data_length c' = ce_data_length c" "ce_expires c' = ce_expires c" "\<not> ce_writing c'"
    using core_eqD [OF s2(4)] e(1,2) by (auto simp: served_def readable_def bind_Some_iff split: if_splits)
  from request_read [OF conn(1,3) wf s, of n] obtain rb where rb: "contents rb = []"
    "\<And>w'. http_route (w\<lparr>rx := [], input := rb, conn_method := REQUEST_HTTPGET OR REQUEST_CACHE_LEVELKEY,
      db := s2, target := \<lparr>tgt_entry = Some e, tgt_position = value_position c,
      tgt_end_position = value_position c + uint (ce_data_length c), tgt_fd = value_fd w c\<rparr>, conn_state := 2,
      handler := http_cache_handle_headers\<rparr>) = Some (w', registered_write) \<Longrightarrow>
      handler w' \<noteq> http_cache_handle_headers \<Longrightarrow> http_read_handle (Suc n) w = Some (w', registered_write)" by blast
  define w1 where "w1 = w\<lparr>rx := [], input := rb, conn_method := REQUEST_HTTPGET OR REQUEST_CACHE_LEVELKEY, db := s2,
    target := \<lparr>tgt_entry = Some e, tgt_position = value_position c, tgt_end_position = value_position c + uint (ce_data_length c),
      tgt_fd = value_fd w c\<rparr>, output_buffer := Some (http_templates ! HTTPTEMPLATE_HEADERS200),
    output_length := http_templates_length ! HTTPTEMPLATE_HEADERS200, conn_state := 0, handler := http_respond_expires,
    epollout := True, epollin := False\<rparr>"
  have r: "http_read_handle (Suc n) w = Some (w1, registered_write)"
    by (rule rb(2), subst route_hit) (use conn(2) in \<open>simp_all add: quiet_def w1_def\<close>)
  have "\<exists>w'. http_writes (Suc m) 4 w1 = Some (w', continue_processing) \<and> waiting w' \<and> quiet w' \<and> rx w' = [] \<and> db w' = s3
    \<and> events w' = events w1 @ [Sock_write (client_sock w1) (http_templates ! HTTPTEMPLATE_HEADERS200),
      Sock_write (client_sock w1) (ttl_line (now_sec (db w1)) c'), Sock_write (client_sock w1) (length_line c'), Sock_write (client_sock w1) crlf,
      Sendfile (client_sock w1) (value_fd w c) (value_position c) (uint (ce_data_length c'))]"
    by (rule served_response) (use conn s2(3) s3(1) rb(1) c' e(4) in
      \<open>simp_all add: w1_def waiting_def quiet_def template_length HTTPTEMPLATE_HEADERS200_def\<close>)
  then obtain w2 where w2: "http_writes (Suc m) 4 w1 = Some (w2, continue_processing)" "waiting w2" "quiet w2" "rx w2 = []" "db w2 = s3"
    "events w2 = events w1 @ [Sock_write (client_sock w1) (http_templates ! HTTPTEMPLATE_HEADERS200),
      Sock_write (client_sock w1) (ttl_line (now_sec (db w1)) c'), Sock_write (client_sock w1) (length_line c'), Sock_write (client_sock w1) crlf,
      Sendfile (client_sock w1) (value_fd w c) (value_position c) (uint (ce_data_length c'))]" by blast
  have "ttl_line now c' = ttl_line now c" "length_line c' = length_line c" for now using c' by (simp_all add: ttl_line_def length_line_def)
  then have "events w2 = events w @ [Sock_write (client_sock w) (http_templates ! HTTPTEMPLATE_HEADERS200),
        Sock_write (client_sock w) (ttl_line (now_sec (db w)) c), Sock_write (client_sock w) (length_line c), Sock_write (client_sock w) crlf,
        Sendfile (client_sock w) (value_fd w c) (value_position c) (uint (ce_data_length c))]"
    using w2(6) c'(1) s2(5) by (simp add: w1_def)
  then show ?thesis using r w2(1-5) s3(2,3) by blast
qed

text \<open>
  C1. A \<open>GET\<close> is answered: the request for a key that is stored, fresh and finished, arriving whole on a connection between two requests -
  whatever version and header lines it carries - is parsed to its end, and with a socket that takes what is written the
  four write events that follow send the status line, the time to live, the length and the empty line, and then the
  bytes of the value from the place of its entry. Afterwards the connection is between two requests again, its
  references are given back, and the invariant of the database holds as before.
\<close>

theorem get_request_served:
  assumes conn: "waiting w" "quiet w" "rx w = [Received (get_request table key version lines)]" and wf: "well_formed table key version lines"
    and ok: "db_ok (db w) hs None" "lru_ok (db w) xs" "length hs + 2 < 2 ^ 14"
    and t: "db_table_probe table (hash_string table) (db w) = Some (Inr t)"
    and e: "served (db w) t key = Some e" "entries (db w) e = Some c" "value_there (db w) c" "0 < ce_data_length c"
  shows "\<exists>w1 w2. http_read_handle (Suc n) w = Some (w1, registered_write) \<and> http_writes (Suc m) 4 w1 = Some (w2, continue_processing)
    \<and> events w2 = events w @ [Sock_write (client_sock w) (http_templates ! HTTPTEMPLATE_HEADERS200),
        Sock_write (client_sock w) (ttl_line (now_sec (db w)) c), Sock_write (client_sock w) (length_line c), Sock_write (client_sock w) crlf,
        Sendfile (client_sock w) (value_fd w c) (value_position c) (uint (ce_data_length c))]
    \<and> waiting w2 \<and> quiet w2 \<and> rx w2 = [] \<and> db_ok (db w2) hs None \<and> (\<exists>ys. lru_ok (db w2) ys)"
  by (rule get_answer [OF assms])

definition get_world :: "string \<Rightarrow> http_world" where
  "get_world key = (request_world [])\<lparr>db := sample_db, rx := [Received (get_request ''t'' key ''HTTP/1.1'' [''Host: cache''])]\<rparr>"

lemma get_world_ok:
  "waiting (get_world key)" "quiet (get_world key)" "db_ok (db (get_world key)) [TableH 1] None" "lru_ok (db (get_world key)) [2]"
  "db_table_probe ''t'' (hash_string ''t'') (db (get_world key)) = Some (Inr 1)"
proof -
  show "waiting (get_world key)" "quiet (get_world key)"
    by (simp_all add: waiting_def quiet_def get_world_def request_world_def ring_of_eval)
  have d: "db (get_world key) = sample_db" by (simp add: get_world_def)
  show "db_ok (db (get_world key)) [TableH 1] None" "lru_ok (db (get_world key)) [2]" unfolding d by (rule sample_ok)+
  have "kh_lookup (tables sample_db) (hash_string ''t'') = Some 1" by (simp add: sample_db_def one_key)
  from probe_step [OF sample_ok(1) this, of "''t''"] show "db_table_probe ''t'' (hash_string ''t'') (db (get_world key)) = Some (Inr 1)"
    unfolding d by (auto simp: sample_db_def sample_table_def key_differs_def strncmp.simps)
qed

theorem get_request_served_witness:
  "\<exists>w1 w2. http_read_handle 1 (get_world ''k'') = Some (w1, registered_write) \<and> http_writes 1 4 w1 = Some (w2, continue_processing)
    \<and> Sendfile 7 5 0 5 \<in> set (events w2) \<and> waiting w2"
proof -
  have r: "readable sample_db ''k'' sample_entry"
    using sample_key by (simp add: readable_def expired_def) (simp add: sample_entry_def)
  have d: "db (get_world ''k'') = sample_db" by (simp add: get_world_def)
  have s: "served (db (get_world ''k'')) 1 ''k'' = Some 2"
    unfolding d by (simp add: served_def sample_stored sample_entries(1) r del: One_nat_def)
  have c: "entries (db (get_world ''k'')) 2 = Some sample_entry" "value_there (db (get_world ''k'')) sample_entry" "0 < ce_data_length sample_entry"
    unfolding d by (simp_all add: sample_entries value_there_def IS_SINGLE_FILE_def BLOCK_LENGTH_def) (simp_all add: sample_entry_def)
  have wf: "well_formed ''t'' ''k'' ''HTTP/1.1'' [''Host: cache'']"
    by (simp add: well_formed_def get_request_def request_line_def text_lines_def good_names_def skipped_line_def unnamed_def get_levels blank_def BUFFER_SIZE_def)
  have rx: "rx (get_world ''k'') = [Received (get_request ''t'' ''k'' ''HTTP/1.1'' [''Host: cache''])]" by (simp add: get_world_def)
  have n: "length [TableH 1] + 2 < (2 :: nat) ^ 14" by simp
  have v: "value_fd (get_world ''k'') sample_entry = 5" "value_position sample_entry = 0" "client_sock (get_world ''k'') = 7"
    by (simp_all add: value_fd_def value_position_def IS_SINGLE_FILE_def BLOCK_LENGTH_def sample_entry_def get_world_def request_world_def)
  have l: "uint (ce_data_length sample_entry) = 5" by (simp add: sample_entry_def)
  from get_request_served [OF get_world_ok(1,2) rx wf get_world_ok(3,4) n get_world_ok(5) s c, of 0 0, unfolded v l]
  show ?thesis by auto
qed

text \<open>
  A \<open>GET\<close> of a key that is not stored in its table, has expired or is still being written is answered with the status 404 in one write
  event, and everything is as before.
\<close>

theorem get_request_missing:
  assumes conn: "waiting w" "quiet w" "rx w = [Received (get_request table key version lines)]" and wf: "well_formed table key version lines"
    and ok: "db_ok (db w) hs None" "lru_ok (db w) xs" "length hs + 2 < 2 ^ 14"
    and t: "db_table_probe table (hash_string table) (db w) = Some (Inr t)" and e: "served (db w) t key = None"
  shows "\<exists>w1 w2. http_read_handle (Suc n) w = Some (w1, registered_write) \<and> http_writes (Suc m) 1 w1 = Some (w2, continue_processing)
    \<and> events w2 = events w @ [Sock_write (client_sock w) (http_templates ! HTTPTEMPLATE_FULL404)]
    \<and> waiting w2 \<and> quiet w2 \<and> rx w2 = [] \<and> db_ok (db w2) hs None \<and> (\<exists>ys. lru_ok (db w2) ys)"
proof -
  from get_miss [OF ok t e] obtain s1 s2 ys where s: "db_table_get_read table (db w) = Some (Some t, s1)"
    "key_target w t key s1 = Some ((target w)\<lparr>tgt_entry := None, tgt_fd := - 1\<rparr>, s2)" and s2: "db_ok s2 hs None" "lru_ok s2 ys" by blast
  from request_read [OF conn(1,3) wf s, of n] obtain rb where rb: "contents rb = []"
    "\<And>w'. http_route (w\<lparr>rx := [], input := rb, conn_method := REQUEST_HTTPGET OR REQUEST_CACHE_LEVELKEY,
      db := s2, target := (target w)\<lparr>tgt_entry := None, tgt_fd := - 1\<rparr>, conn_state := 2,
      handler := http_cache_handle_headers\<rparr>) = Some (w', registered_write) \<Longrightarrow>
      handler w' \<noteq> http_cache_handle_headers \<Longrightarrow> http_read_handle (Suc n) w = Some (w', registered_write)" by blast
  define w1 where "w1 = w\<lparr>rx := [], input := rb, conn_method := REQUEST_HTTPGET OR REQUEST_CACHE_LEVELKEY, db := s2,
    target := (target w)\<lparr>tgt_entry := None, tgt_fd := - 1\<rparr>, handler := http_respond_writeonly,
    output_buffer := Some (http_templates ! HTTPTEMPLATE_FULL404), output_length := http_templates_length ! HTTPTEMPLATE_FULL404,
    conn_state := 0, epollout := True, epollin := False\<rparr>"
  have r: "http_read_handle (Suc n) w = Some (w1, registered_write)"
    by (rule rb(2), subst route_miss) (use conn(2) in \<open>simp_all add: quiet_def w1_def\<close>)
  have "\<exists>w'. http_writes (Suc m) 1 w1 = Some (w', continue_processing) \<and> waiting w' \<and> quiet w' \<and> rx w' = [] \<and> db w' = db w1
    \<and> events w' = events w1 @ [Sock_write (client_sock w1) (http_templates ! HTTPTEMPLATE_FULL404)] \<and> same_ends w1 w'"
    by (rule missing_response) (use conn rb(1) in
      \<open>simp_all add: w1_def waiting_def quiet_def template_length HTTPTEMPLATE_FULL404_def\<close>)
  then show ?thesis using r s2 by (auto simp: w1_def)
qed

theorem get_request_missing_witness:
  "\<exists>w1 w2. http_read_handle 1 (get_world ''x'') = Some (w1, registered_write) \<and> http_writes 1 1 w1 = Some (w2, continue_processing)
    \<and> events w2 = [Sock_write 7 (http_templates ! HTTPTEMPLATE_FULL404)] \<and> waiting w2"
proof -
  have d: "db (get_world ''x'') = sample_db" by (simp add: get_world_def)
  have "key_differs (ce_key_length sample_entry) (ce_key sample_entry) ''x''"
    by (simp add: key_differs_def sample_entry_def strncmp.simps)
  moreover have "stored sample_db 1 (hash_string ''x'') \<in> {None, Some 2}"
    by (simp add: stored_def hash_set_of_def sample_db_def sample_table_def one_key)
  ultimately have s: "served (db (get_world ''x'')) 1 ''x'' = None"
    unfolding d by (auto simp: served_def sample_entries(1) readable_def)
  have wf: "well_formed ''t'' ''x'' ''HTTP/1.1'' [''Host: cache'']"
    by (simp add: well_formed_def get_request_def request_line_def text_lines_def good_names_def skipped_line_def unnamed_def get_levels blank_def BUFFER_SIZE_def)
  have rx: "rx (get_world ''x'') = [Received (get_request ''t'' ''x'' ''HTTP/1.1'' [''Host: cache''])]" by (simp add: get_world_def)
  have n: "length [TableH 1] + 2 < (2 :: nat) ^ 14" by simp
  have v: "client_sock (get_world ''x'') = 7" "events (get_world ''x'') = []" by (simp_all add: get_world_def request_world_def)
  from get_request_missing [OF get_world_ok(1,2) rx wf get_world_ok(3,4) n get_world_ok(5) s, of 0 0, unfolded v] show ?thesis by auto
qed

end
