(* ===== verification/RequestPut.thy ===== *)
theory RequestPut
  imports Request DbIndexProps
begin

text \<open>
  A whole \<open>PUT\<close>, from the bytes that arrive to the answer in the output buffer: request line, header lines with \<open>Content-Length\<close> among
  them, and body, through the parser (HttpCache). What the engine does on the way is a hypothesis here (\<open>stores\<close>); RequestStored proves it.
\<close>

section \<open>The header with the length\<close>

lemma rbuf_loop_skip:
  assumes "\<forall>i<m. inner c (p + i) (n + int i) = Some (c, continue_processing)" "n + int m \<le> rbuf_read_remaining (inp c)" "n + int m \<le> fin"
  shows "rbuf_loop inp inner fin c n p continue_processing = rbuf_loop inp inner fin c (n + int m) (p + m) continue_processing"
  using assms
proof (induction m arbitrary: n p)
  case (Suc m)
  have "inner c p n = Some (c, continue_processing)" using Suc.prems(1) by (auto dest!: spec [of _ 0])
  then have "rbuf_loop inp inner fin c n p continue_processing = rbuf_loop inp inner fin c (n + 1) (p + 1) continue_processing"
    using Suc.prems(2,3) by (subst rbuf_loop.simps) (simp add: Let_def)
  also have "\<dots> = rbuf_loop inp inner fin c (n + 1 + int m) (p + 1 + m) continue_processing"
  proof (rule Suc.IH)
    show "\<forall>i<m. inner c (p + 1 + i) (n + 1 + int i) = Some (c, continue_processing)"
    proof (intro allI impI)
      fix i assume "i < m"
      then show "inner c (p + 1 + i) (n + 1 + int i) = Some (c, continue_processing)"
        using Suc.prems(1) by (auto dest!: spec [of _ "Suc i"] simp: algebra_simps)
    qed
  qed (use Suc.prems(2,3) in simp_all)
  finally show ?case by (simp add: algebra_simps)
qed simp

lemma put_header_names:
  "headers_for (REQUEST_HTTPPUT OR REQUEST_CACHE_LEVELKEY) = [([''Content-Length''], HEADER_CONTENTLENGTH), ([''X-Ttl'', ''x-ttl''], HEADER_XTTL)]"
  "REQUEST_IS (REQUEST_HTTPPUT OR REQUEST_CACHE_LEVELKEY) (REQUEST_HTTPPUT OR REQUEST_CACHE_LEVELKEY)"
  by (simp_all add: headers_for_def REQUEST_IS_def request_consts)

lemma length_name_step:
  assumes c: "contents (input w) = ''Content-Length:'' @ rest" and m: "conn_method w = REQUEST_HTTPPUT OR REQUEST_CACHE_LEVELKEY"
    and h: "handler w = http_cache_handle_headers" and n: "length (contents (input w)) < BUFFER_SIZE"
  shows "\<exists>rb. do_http_cache_handle_headers w = Some (w\<lparr>input := rb, conn_state := HEADER_CONTENTLENGTH,
      handler := http_cache_handle_headers_extract\<rparr>, needs_more_read) \<and> leaves (input w) rest rb"
proof -
  let ?rb = "RBUF_READMOVE (input w) 15"
  have rb: "rb_scan (input w)" using n by (rule scan_small)
  have c': "contents (input w) = [] @ ''Content-Length'' @ CHR '':'' # rest" using c by simp
  have "unnamed (header_names (conn_method w)) ([] @ ''Content-Length'')" by (simp add: unnamed_def)
  from header_scan [OF rb c' _ this] have "scan_list header_byte w 0 (contents (input w))
    = scan_list header_byte (w\<lparr>conn_state := 0\<rparr>) 14 (CHR '':'' # rest)" by (simp add: c blank_def)
  moreover have "input_is (w\<lparr>conn_state := 0\<rparr>) ''Content-Length'' = Some True"
    using input_is_ok [of "w\<lparr>conn_state := 0\<rparr>" "''Content-Length''"] rb c by simp
  ultimately have run: "RBUF_ITERATE input http_read_headers w continue_processing
    = Some ((read_move 15 w)\<lparr>conn_state := HEADER_CONTENTLENGTH, handler := http_cache_handle_headers_extract\<rparr>, 15, needs_more_read)"
    using header_iterate [OF rb] m by (simp add: header_byte_def put_header_names extract_header_def read_move_def)
  moreover have "leaves (input w) rest ?rb" by (rule leavesI [of _ "''Content-Length:''"]) (use c in simp_all)
  ultimately show ?thesis by (intro exI [of _ ?rb]) (simp add: do_http_cache_handle_headers_def read_move_def)
qed

text \<open>
  The value: its handler moves the read position over the space while its loop goes on, so that the pointer is one byte ahead of what is
  counted from the read position. The value ends at the carriage return.
\<close>

lemma header_value_step:
  assumes c: "contents (input w) = '' '' @ digits @ crlf @ rest" and v: "\<forall>c\<in>set digits. c \<noteq> CHR '' '' \<and> c \<noteq> CHR 0x0A \<and> c \<noteq> CHR 0x0D"
    and n: "length (contents (input w)) < BUFFER_SIZE" and fl: "flat (input w)"
    and hv: "header_value (int (length digits)) (read_move 1 w) = Some (Inr w')"
  shows "\<exists>rb. do_http_cache_handle_headers_extract w = Some (w'\<lparr>input := rb, conn_state := 1, handler := http_cache_handle_headers\<rparr>,
      needs_more_read) \<and> leaves (input w) rest rb"
proof -
  let ?o = "rb_off (input w)" and ?len = "rb_len (input w)" and ?w1 = "read_move 1 w" and ?d = "length digits"
  have rb: "rb_scan (input w)" using n by (rule scan_small)
  have len: "?len = ?d + length rest + 3" using c by (metis length_contents length_append add.commute list.size(3,4) One_nat_def add_Suc_right add_0_right numeral_3_eq_3 add_Suc)
  have fin: "rbuf_read_to_end (input w) = int ?len" using to_end_seg1 [OF rb] flat_seg1 [OF fl] by simp
  have o: "?o + ?len \<le> BUFFER_SIZE" using fl by (simp add: flat_def)
  have o1: "rb_off (input ?w1) = ?o + 1" using readmove_off [of 1 "input w"] o len by (simp add: read_move_def)
  have m1: "contents (input ?w1) = digits @ crlf @ rest" "rb_len (input ?w1) = ?d + length rest + 2"
    using moved [of "input w" "'' ''" "digits @ crlf @ rest" 1] c by (simp_all add: read_move_def)
  have at0: "rbuf_at (input w) ?o = Some CHR '' ''"
    using rbuf_at_contents [of 0 "input w"] len o c by simp
  have at1: "rbuf_at (input ?w1) (?o + 1 + i) = Some ((digits @ crlf @ rest) ! i)" if "i < ?d + 1" for i
    using rbuf_at_contents [of i "input ?w1"] that len o o1 m1 by simp
  have "RBUF_ITERATE input http_read_header_extraction w continue_processing
    = finish_iterate (rbuf_loop input http_read_header_extraction (int ?len) w 0 ?o continue_processing)"
    using len by (cases "rbuf_loop input http_read_header_extraction (int ?len) w 0 ?o continue_processing")
      (auto simp: RBUF_ITERATE_def fin finish_iterate_def rb_off_def [symmetric])
  also have "rbuf_loop input http_read_header_extraction (int ?len) w 0 ?o continue_processing
    = rbuf_loop input http_read_header_extraction (int ?len) ?w1 1 (?o + 1) continue_processing"
    using at0 len by (subst rbuf_loop.simps) (simp add: rbuf_read_remaining_eq http_read_header_extraction_def)
  also have "\<dots> = rbuf_loop input http_read_header_extraction (int ?len) ?w1 (1 + int ?d) (?o + 1 + ?d) continue_processing"
  proof (rule rbuf_loop_skip)
    show "\<forall>i<?d. http_read_header_extraction ?w1 (?o + 1 + i) (1 + int i) = Some (?w1, continue_processing)"
      using at1 v by (auto simp: http_read_header_extraction_def nth_append)
  qed (use m1 len in \<open>simp_all add: rbuf_read_remaining_eq\<close>)
  also have "\<dots> = Some (read_move (int ?d + 2) (w'\<lparr>conn_state := 1, handler := http_cache_handle_headers\<rparr>), 2 + int ?d, needs_more_read)"
  proof -
    have "rbuf_at (input ?w1) (?o + 1 + ?d) = Some CHR 0x0D" using at1 [of ?d] by (simp add: nth_append)
    moreover have "value_length ?w1 (?o + 1 + ?d) = int ?d" using o1 by (simp add: value_length_def rb_off_def)
    ultimately have "http_read_header_extraction ?w1 (?o + 1 + ?d) (1 + int ?d)
      = Some (read_move (int ?d + 2) (w'\<lparr>conn_state := 1, handler := http_cache_handle_headers\<rparr>), needs_more_read)"
      using hv by (simp add: http_read_header_extraction_def Let_def)
    then show ?thesis using m1 len by (subst rbuf_loop.simps) (simp add: rbuf_read_remaining_eq Let_def rbuf_loop.simps)
  qed
  finally have run: "RBUF_ITERATE input http_read_header_extraction w continue_processing
    = Some (read_move (int ?d + 2) (w'\<lparr>conn_state := 1, handler := http_cache_handle_headers\<rparr>), 2 + int ?d, needs_more_read)"
    by (simp add: finish_iterate_def)
  have i: "input w' = RBUF_READMOVE (input w) 1" using header_value_input [OF hv] by (simp add: read_move_def)
  have "leaves (input w) rest (RBUF_READMOVE (input w) (int ?d + 3))"
    by (rule leavesI [of _ "'' '' @ digits @ crlf"]) (use c in simp_all)
  then show ?thesis using run i
    by (intro exI [of _ "RBUF_READMOVE (input w) (int ?d + 3)"]) (simp add: do_http_cache_handle_headers_extract_def read_move_def move_again add.commute)
qed

section \<open>The handlers of the request\<close>

text \<open>What \<open>db_target_write_allocate\<close> makes of an entry that \<open>PUT\<close> got: where its bytes go.\<close>

definition prepared :: "http_world \<Rightarrow> eptr \<Rightarrow> nat \<Rightarrow> db_state \<Rightarrow> cache_target \<Rightarrow> cache_entry \<Rightarrow> db_state \<Rightarrow> bool" where
  "prepared w e n s tg c s' \<longleftrightarrow>
     db_target_write_allocate (fd_blockfile w) ((target w)\<lparr>tgt_entry := Some e, tgt_fd := - 1\<rparr>) (of_nat n) (newfd w) s = Some (tg, s')
     \<and> entries s' e = Some c \<and> ce_data_length c = of_nat n \<and> tgt_entry tg = Some e \<and> 0 \<le> tgt_fd tg \<and> 0 \<le> tgt_position tg
     \<and> tgt_end_position tg = tgt_position tg + int n \<and> (IS_SINGLE_FILE c \<longrightarrow> tgt_position tg = 0) \<and> 0 < n \<and> n < BUFFER_SIZE"

lemma put_levels:
  "set_level_key (REQUEST_HTTPPUT OR REQUEST_CACHE_LEVELTABLE) = REQUEST_HTTPPUT OR REQUEST_CACHE_LEVELKEY"
  "REQUEST_IS (REQUEST_HTTPPUT OR REQUEST_CACHE_LEVELTABLE) REQUEST_HTTPPUT"
  "\<not> REQUEST_IS (REQUEST_HTTPPUT OR REQUEST_CACHE_LEVELTABLE) REQUEST_HTTPGET"
  "\<not> REQUEST_IS (REQUEST_HTTPPUT OR REQUEST_CACHE_LEVELTABLE) REQUEST_HTTPHEAD"
  "\<not> REQUEST_IS (REQUEST_HTTPPUT OR REQUEST_CACHE_LEVELTABLE) REQUEST_HTTPDELETE"
  "REQUEST_IS (REQUEST_HTTPPUT OR REQUEST_CACHE_LEVELKEY) REQUEST_HTTPPUT"
  "REQUEST_IS (REQUEST_HTTPPUT OR REQUEST_CACHE_LEVELKEY) REQUEST_CACHE_LEVELKEY"
  by (simp_all add: REQUEST_IS_def request_consts set_level_key_def)

lemma put_looks_up:
  assumes "db_entry_get_write (gc w0) t key s = Some (Some e, s')"
  shows "looks_up w0 REQUEST_HTTPPUT t key s s' ((target w0)\<lparr>tgt_entry := Some e, tgt_fd := - 1\<rparr>) True"
  unfolding looks_up_def
proof (intro allI impI)
  fix w :: http_world
  assume c: "copy_key w (int (length key)) = Some key" and m: "conn_method w = REQUEST_HTTPPUT OR REQUEST_CACHE_LEVELTABLE"
    and t: "target w = (target w0)\<lparr>tgt_entry := Some t\<rparr>" and d: "db w = s" and g: "gc w = gc w0"
  have "key_lookup_db key w = Some (Some e, w\<lparr>db := s', is_writing := True\<rparr>)"
    using m t d g assms by (simp add: key_lookup_db_def put_levels on_db_def)
  then show "http_key_lookup w (int (length key)) = Some (w\<lparr>db := s', conn_method := REQUEST_HTTPPUT OR REQUEST_CACHE_LEVELKEY,
      handler := http_cache_handle_httpversion, target := (target w0)\<lparr>tgt_entry := Some e, tgt_fd := - 1\<rparr>, is_writing := True\<rparr>)"
    using c m t by (simp add: http_key_lookup_def put_levels on_db_def db_target_setup_def Let_def)
qed

lemma length_value_step:
  assumes c: "contents (input w) = '' '' @ to_dec k @ crlf @ rest" and n: "length (contents (input w)) < BUFFER_SIZE" and fl: "flat (input w)"
    and st: "conn_state w = HEADER_CONTENTLENGTH" and m: "conn_method w = REQUEST_HTTPPUT OR REQUEST_CACHE_LEVELKEY"
    and p: "prepared w e k (db w) tg c' s" and tgt: "target w = (target w)\<lparr>tgt_entry := Some e, tgt_fd := - 1\<rparr>"
  shows "\<exists>rb. do_http_cache_handle_headers_extract w = Some (w\<lparr>input := rb, conn_state := 1, handler := http_cache_handle_headers,
      target := tg, db := s\<rparr>, needs_more_read) \<and> leaves (input w) rest rb"
proof -
  note p' = p [unfolded prepared_def]
  let ?w1 = "read_move 1 w"
  have k: "k < 10 ^ 20" "int k \<le> 2147483647" "uint (of_nat k :: u32) = int k"
    using p' by (simp_all add: BUFFER_SIZE_def unsigned_of_nat take_bit_nat_eq_self)
  have te: "tgt_entry (target w) = Some e" by (subst tgt) simp
  have m1: "contents (input ?w1) = to_dec k @ crlf @ rest" "rb_len (input ?w1) = length (to_dec k) + length rest + 2"
    using moved [of "input w" "'' ''" "to_dec k @ crlf @ rest" 1] c by (simp_all add: read_move_def)
  have "length (contents (input ?w1)) < BUFFER_SIZE" using n unfolding c m1(1) by simp
  then have sc: "rb_scan (input ?w1)" by (rule scan_small)
  have "flat (input ?w1)" using flat_moved [of "input w" "'' ''" "to_dec k @ crlf @ rest" 1] c fl by (simp add: read_move_def)
  then have "seg1 (input ?w1) = length (to_dec k) + length rest + 2" using flat_seg1 m1(2) by metis
  then have s1: "length (to_dec k) < seg1 (input ?w1)" by simp
  have dig: "\<forall>c\<in>set (to_dec k). is_digit c" using to_dec_digits by blast
  have num: "rbuf_strntol (input ?w1) (int (length (to_dec k))) = Some (Some (int k))"
    using strntol_contents [OF sc s1] m1(1) dig to_dec_value [OF k(1)] k(2) by simp
  have "db_target_write_allocate (fd_blockfile w) (target w) (of_nat k) (newfd w) (db w) = Some (tg, s)"
    using p' tgt by simp
  moreover have "tg\<lparr>tgt_end_position := (if IS_SINGLE_FILE c' then uint (ce_data_length c') else tgt_position tg + uint (ce_data_length c'))\<rparr> = tg"
    using p' k(3) by simp
  ultimately have hv: "header_value (int (length (to_dec k))) ?w1 = Some (Inr (?w1\<lparr>db := s, target := tg\<rparr>))"
    using st m te num p' by (simp add: header_value_def value_content_length_def put_header_names on_db_def read_move_def)
  have plain: "\<forall>c\<in>set (to_dec k). c \<noteq> CHR '' '' \<and> c \<noteq> CHR 0x0A \<and> c \<noteq> CHR 0x0D"
  proof
    fix c assume "c \<in> set (to_dec k)"
    then have "is_digit c" using dig by blast
    then show "c \<noteq> CHR '' '' \<and> c \<noteq> CHR 0x0A \<and> c \<noteq> CHR 0x0D" by (auto simp: is_digit_def)
  qed
  from header_value_step [OF c plain n fl hv] obtain rb where "leaves (input w) rest rb" "do_http_cache_handle_headers_extract w
      = Some (?w1\<lparr>db := s, target := tg, input := rb, conn_state := 1, handler := http_cache_handle_headers\<rparr>, needs_more_read)" by blast
  moreover have "?w1\<lparr>db := s, target := tg, input := rb, conn_state := 1, handler := http_cache_handle_headers\<rparr>
      = w\<lparr>input := rb, conn_state := 1, handler := http_cache_handle_headers, target := tg, db := s\<rparr>" by (simp add: read_move_def)
  ultimately show ?thesis by auto
qed

text \<open>The body, all of it in the buffer: it is written and the entry is complete.\<close>

lemma body_written:
  assumes c: "contents (input w) = body" and n: "length body < BUFFER_SIZE" "body \<noteq> []" and fl: "flat (input w)"
    and w: "is_writing w" "0 \<le> tgt_fd (target w)" "0 \<le> tgt_position (target w)" "tgt_end_position (target w) = tgt_position (target w) + int (length body)"
    and q: "write_limits w = []" "epoll_results w = []" and d: "tgt_entry (target w) = Some e" "db_complete_writing e (db w) = Some s"
  shows "\<exists>rb. contents rb = [] \<and> do_http_cache_handle_request_body w = Some (w\<lparr>input := rb,
      events := events w @ [File_write (tgt_fd (target w)) (tgt_position (target w)) body],
      target := (target w)\<lparr>tgt_position := tgt_end_position (target w)\<rparr>, db := s, is_writing := False, handler := http_respond_writeonly,
      output_buffer := Some (http_templates ! HTTPTEMPLATE_FULL200OK), output_length := http_templates_length ! HTTPTEMPLATE_FULL200OK,
      conn_state := 0, epollout := True, epollin := False\<rparr>, registered_write)"
proof -
  let ?n = "length body"
  have len: "rb_len (input w) = ?n" using c by (metis length_contents)
  have sc: "rb_scan (input w)" using n(1) c by (intro scan_small) simp
  have fin: "rbuf_read_to_end (input w) = int ?n" using to_end_seg1 [OF sc] flat_seg1 [OF fl] len by simp
  have mem: "rbuf_mem (input w) (rbuf_index (read_position (input w))) (int ?n) = Some body"
    using mem_first [of ?n "input w"] flat_seg1 [OF fl] len c by (simp add: rb_off_def)
  have "to_int (int ?n) = int ?n" using n(1) by (intro to_int_small) (simp_all add: BUFFER_SIZE_def)
  then have run: "do_http_cache_handle_request_body w = body_done ((read_move (int ?n) (w\<lparr>events := events w @ [File_write (tgt_fd (target w)) (tgt_position (target w)) body]\<rparr>))
      \<lparr>target := (target w)\<lparr>tgt_position := tgt_position (target w) + int ?n\<rparr>\<rparr>)"
    using w q n(2) mem fin by (simp add: do_http_cache_handle_request_body_def body_write_def file_write_def Let_def)
  let ?rb = "RBUF_READMOVE (input w) (int ?n)"
  have "contents ?rb = []" by (rule moved [of _ body]) (use c in simp_all)
  then show ?thesis unfolding run using w d q
    by (intro exI [of _ ?rb]) (simp add: body_done_def read_move_def run_db_def http_write_response_def set_template_def connection_register_write_def
      connection_event_update_def)
qed

section \<open>The request\<close>

definition put_request :: "string \<Rightarrow> string \<Rightarrow> string \<Rightarrow> string list \<Rightarrow> string list \<Rightarrow> string \<Rightarrow> string" where
  "put_request table key version lines others body = request_line ''PUT'' table key version @ text_lines lines
     @ ''Content-Length: '' @ to_dec (length body) @ crlf @ text_lines others @ crlf @ body"

definition well_formed_put :: "string \<Rightarrow> string \<Rightarrow> string \<Rightarrow> string list \<Rightarrow> string list \<Rightarrow> string \<Rightarrow> bool" where
  "well_formed_put table key version lines others body \<longleftrightarrow> good_names table key version
     \<and> list_all (skipped_line (REQUEST_HTTPPUT OR REQUEST_CACHE_LEVELKEY)) (lines @ others) \<and> body \<noteq> []
     \<and> length (put_request table key version lines others body) < BUFFER_SIZE"

lemma route_put:
  assumes "conn_method w = REQUEST_HTTPPUT OR REQUEST_CACHE_LEVELKEY" "tgt_entry (target w) = Some e" "entries (db w) e = Some c" "ce_data_length c \<noteq> 0"
  shows "http_route w = Some (w\<lparr>handler := http_cache_handle_request_body\<rparr>, needs_more_read)"
  using assms by (simp add: http_route_def route_key_def put_levels)

text \<open>The header lines, from the one after the request line to the empty one.\<close>

lemma put_headers:
  assumes sk: "list_all (skipped_line (conn_method w)) lines" "list_all (skipped_line (conn_method w)) others"
    and w: "handler w = http_cache_handle_headers" "epollin w" "conn_state w = 1" "conn_method w = REQUEST_HTTPPUT OR REQUEST_CACHE_LEVELKEY"
    and c: "contents (input w) = text_lines lines @ ''Content-Length: '' @ to_dec k @ crlf @ text_lines others @ crlf @ body"
      "length (contents (input w)) < BUFFER_SIZE" "flat (input w)"
    and p: "prepared w e k (db w) tg c' s" and tgt: "target w = (target w)\<lparr>tgt_entry := Some e, tgt_fd := - 1\<rparr>"
  shows "\<exists>rb run'. leaves (input w) (crlf @ body) rb \<and> read_loop (run_handler rd) run (int (length (contents (input w)))) w
    = read_loop (run_handler rd) run' (int (length (crlf @ body))) (w\<lparr>input := rb, target := tg, db := s\<rparr>)"
proof -
  let ?step = "run_handler rd"
  define r4 where "r4 = crlf @ body"
  define r3 where "r3 = text_lines others @ r4"
  define r2 where "r2 = '' '' @ to_dec k @ crlf @ r3"
  define r1 where "r1 = ''Content-Length:'' @ r2"
  have nonempty: "r1 \<noteq> []" "r2 \<noteq> []" "r3 \<noteq> []" "r4 \<noteq> []" by (simp_all add: r1_def r2_def r3_def r4_def)
  have c0: "contents (input w) = text_lines lines @ r1" using c(1) by (simp add: r1_def r2_def r3_def r4_def)
  from header_lines [OF sk(1) w(1-3) c0 nonempty(1) c(2), of rd run] obtain b1 u1 where b1: "leaves (input w) r1 b1"
    "read_loop ?step run (int (length (contents (input w)))) w = read_loop ?step u1 (int (length r1)) (w\<lparr>input := b1\<rparr>)" by blast
  define w1 where "w1 = w\<lparr>input := b1\<rparr>"
  have c1: "contents (input w1) = r1" "flat (input w1)" using b1(1) c(3) by (simp_all add: w1_def leaves_def)
  have n1: "length r1 < BUFFER_SIZE" using c(2) unfolding c0 by simp
  then have n2: "length r2 < BUFFER_SIZE" by (simp add: r1_def)
  then have n3: "length r3 < BUFFER_SIZE" by (simp add: r2_def)
  have "\<exists>rb. do_http_cache_handle_headers w1 = Some (w1\<lparr>input := rb, conn_state := HEADER_CONTENTLENGTH,
      handler := http_cache_handle_headers_extract\<rparr>, needs_more_read) \<and> leaves (input w1) r2 rb"
    by (rule length_name_step) (use c1 n1 w in \<open>simp_all add: w1_def r1_def\<close>)
  then obtain b2 where b2: "do_http_cache_handle_headers w1 = Some (w1\<lparr>input := b2, conn_state := HEADER_CONTENTLENGTH,
      handler := http_cache_handle_headers_extract\<rparr>, needs_more_read)" "leaves (input w1) r2 b2" by blast
  define w2 where "w2 = w1\<lparr>input := b2, conn_state := HEADER_CONTENTLENGTH, handler := http_cache_handle_headers_extract\<rparr>"
  have c2: "contents (input w2) = r2" "flat (input w2)" using b2(2) c1(2) by (simp_all add: w2_def leaves_def)
  have l2: "read_loop ?step u1 (int (length r1)) w1 = read_loop ?step (Some needs_more_read) (int (length r2)) w2"
    by (rule read_loop_more [OF _ _ c2(1) nonempty(2)]) (use w b2(1) in \<open>simp_all add: run_handler_def w2_def w1_def r1_def\<close>)
  have "\<exists>rb. do_http_cache_handle_headers_extract w2 = Some (w2\<lparr>input := rb, conn_state := 1, handler := http_cache_handle_headers,
      target := tg, db := s\<rparr>, needs_more_read) \<and> leaves (input w2) r3 rb"
    by (rule length_value_step [where k = k and e = e and c' = c'])
      (use c2 n2 w p tgt in \<open>simp_all add: r2_def w2_def w1_def prepared_def\<close>)
  then obtain b3 where b3: "do_http_cache_handle_headers_extract w2 = Some (w2\<lparr>input := b3, conn_state := 1, handler := http_cache_handle_headers,
      target := tg, db := s\<rparr>, needs_more_read)" "leaves (input w2) r3 b3" by blast
  define w3 where "w3 = w2\<lparr>input := b3, conn_state := 1, handler := http_cache_handle_headers, target := tg, db := s\<rparr>"
  have c3: "contents (input w3) = text_lines others @ r4" "flat (input w3)" using b3(2) c2(2) by (simp_all add: w3_def leaves_def r3_def)
  have l3: "read_loop ?step (Some needs_more_read) (int (length r2)) w2 = read_loop ?step (Some needs_more_read) (int (length r3)) w3"
    by (rule read_loop_more [OF _ _ _ nonempty(3)]) (use w b3(1) c3(1) in \<open>simp_all add: run_handler_def w3_def w2_def w1_def r2_def r3_def\<close>)
  have "length (contents (input w3)) < BUFFER_SIZE" unfolding c3(1) using n3 by (simp add: r3_def)
  from header_lines [OF _ _ _ _ c3(1) nonempty(4) this, of rd "Some needs_more_read"] sk(2) w obtain b4 u4 where b4: "leaves (input w3) r4 b4"
    "read_loop ?step (Some needs_more_read) (int (length r3)) w3 = read_loop ?step u4 (int (length r4)) (w3\<lparr>input := b4\<rparr>)"
    unfolding c3(1) r3_def [symmetric] by (auto simp: w3_def w2_def w1_def)
  have "w3\<lparr>input := b4\<rparr> = w\<lparr>input := b4, target := tg, db := s\<rparr>" using w by (simp add: w3_def w2_def w1_def)
  moreover have "leaves (input w) r4 b4" using b1(1) b2(2) b3(2) b4(1) by (simp add: leaves_def w1_def w2_def w3_def)
  ultimately show ?thesis using b1(2) l2 l3 b4(2) unfolding w1_def [symmetric] r4_def by metis
qed

text \<open>The connection when the answer is ready.\<close>

definition put_answered :: "http_world \<Rightarrow> cache_target \<Rightarrow> db_state \<Rightarrow> string \<Rightarrow> read_buffer \<Rightarrow> http_world" where
  "put_answered w tg s body rb = w\<lparr>input := rb, conn_method := REQUEST_HTTPPUT OR REQUEST_CACHE_LEVELKEY,
     events := events w @ [File_write (tgt_fd tg) (tgt_position tg) body], target := tg\<lparr>tgt_position := tgt_end_position tg\<rparr>, db := s,
     is_writing := False, handler := http_respond_writeonly, output_buffer := Some (http_templates ! HTTPTEMPLATE_FULL200OK),
     output_length := http_templates_length ! HTTPTEMPLATE_FULL200OK, conn_state := 0, epollout := True, epollin := False\<rparr>"

text \<open>The empty line and the body behind it.\<close>

lemma put_end:
  assumes c: "contents (input w) = crlf @ body" "length (crlf @ body) < BUFFER_SIZE" "flat (input w)"
    and w: "handler w = http_cache_handle_headers" "epollin w" "conn_state w = 1" "conn_method w = REQUEST_HTTPPUT OR REQUEST_CACHE_LEVELKEY"
      "is_writing w" "write_limits w = []" "epoll_results w = []"
    and p: "prepared w0 e (length body) s2 (target w) c' (db w)" and d: "db_complete_writing e (db w) = Some s"
  shows "\<exists>rb. contents rb = [] \<and> read_loop (run_handler rd) run (int (length (crlf @ body))) w
    = Some (put_answered w (target w) s body rb, Some registered_write)"
proof -
  let ?step = "run_handler rd"
  note p' = p [unfolded prepared_def]
  have n: "length (contents (input w)) < BUFFER_SIZE" "length body < BUFFER_SIZE" "body \<noteq> []" unfolding c(1) using c(2) p' by auto
  from header_end_step [OF c(1) w(3) n(1)] obtain b1 where b1: "leaves (input w) body b1"
    "\<And>w' ret. http_route (w\<lparr>input := b1, conn_state := 2\<rparr>) = Some (w', ret) \<Longrightarrow> handler w' \<noteq> http_cache_handle_headers \<Longrightarrow>
      do_http_cache_handle_headers w = Some (w', ret)" by blast
  define w1 where "w1 = w\<lparr>input := b1, conn_state := 2, handler := http_cache_handle_request_body\<rparr>"
  have "uint (ce_data_length c') = int (length body)" using p' by (simp add: BUFFER_SIZE_def unsigned_of_nat take_bit_nat_eq_self)
  then have len: "ce_data_length c' \<noteq> 0" using n(3) by auto
  have "http_route (w\<lparr>input := b1, conn_state := 2\<rparr>) = Some (w1, needs_more_read)"
    using route_put [of "w\<lparr>input := b1, conn_state := 2\<rparr>" e c'] p' len w(4) by (simp add: w1_def)
  then have h: "do_http_cache_handle_headers w = Some (w1, needs_more_read)" by (rule b1(2)) (simp add: w1_def)
  have c1: "contents (input w1) = body" "flat (input w1)" using b1(1) c(3) by (simp_all add: w1_def leaves_def)
  have l1: "read_loop ?step run (int (length (crlf @ body))) w = read_loop ?step (Some needs_more_read) (int (length body)) w1"
    by (rule read_loop_more [OF _ _ c1(1) n(3)]) (use w h in \<open>simp_all add: run_handler_def\<close>)
  have "\<exists>rb. contents rb = [] \<and> do_http_cache_handle_request_body w1 = Some (w1\<lparr>input := rb,
      events := events w1 @ [File_write (tgt_fd (target w1)) (tgt_position (target w1)) body],
      target := (target w1)\<lparr>tgt_position := tgt_end_position (target w1)\<rparr>, db := s, is_writing := False, handler := http_respond_writeonly,
      output_buffer := Some (http_templates ! HTTPTEMPLATE_FULL200OK), output_length := http_templates_length ! HTTPTEMPLATE_FULL200OK,
      conn_state := 0, epollout := True, epollin := False\<rparr>, registered_write)"
    by (rule body_written [where e = e]) (use c1 n p' d w in \<open>simp_all add: w1_def\<close>)
  then obtain rb where rb: "contents rb = []" "?step w1 = Some (put_answered w (target w) s body rb, registered_write)"
    using w(4) by (auto simp: run_handler_def put_answered_def w1_def)
  have "read_loop ?step (Some needs_more_read) (int (length body)) w1 = Some (put_answered w (target w) s body rb, Some registered_write)"
    by (rule read_loop_done) (use w(2) rb(2) in \<open>simp_all add: w1_def\<close>)
  with rb(1) l1 show ?thesis by auto
qed

text \<open>What the engine does in the course of the request: table and entry opened, space allocated, the entry completed.\<close>

definition stores :: "http_world \<Rightarrow> string \<Rightarrow> string \<Rightarrow> nat \<Rightarrow> eptr \<Rightarrow> cache_target \<Rightarrow> db_state \<Rightarrow> bool" where
  "stores w table key n e tg s' \<longleftrightarrow> (\<exists>t s1 s2 s3 c. db_table_get_write table (db w) = Some (t, s1)
     \<and> db_entry_get_write (gc w) t key s1 = Some (Some e, s2) \<and> prepared w e n s2 tg c s3 \<and> db_complete_writing e s3 = Some s')"

lemma put_parsed:
  assumes wf: "well_formed_put table key version lines others body" and w: "handler w = http_cache_handle_method" "epollin w"
      "contents (input w) = put_request table key version lines others body" "flat (input w)" "write_limits w = []" "epoll_results w = []"
    and st: "stores w table key (length body) e tg s"
  shows "\<exists>rb. contents rb = [] \<and> read_loop (run_handler rd) None (- 1) w = Some (put_answered w tg s body rb, Some registered_write)"
proof -
  let ?step = "run_handler rd" and ?m = "REQUEST_HTTPPUT OR REQUEST_CACHE_LEVELKEY"
  from st obtain t s1 s2 s3 c where t: "db_table_get_write table (db w) = Some (t, s1)" and k: "db_entry_get_write (gc w) t key s1 = Some (Some e, s2)"
    and p: "prepared w e (length body) s2 tg c s3" and d: "db_complete_writing e s3 = Some s" by (auto simp: stores_def)
  note p' = p [unfolded prepared_def]
  define r where "r = text_lines lines @ ''Content-Length: '' @ to_dec (length body) @ crlf @ text_lines others @ crlf @ body"
  have c: "contents (input w) = request_line ''PUT'' table key version @ r" "r \<noteq> []" using w(3) by (simp_all add: put_request_def r_def)
  have n: "length (contents (input w)) < BUFFER_SIZE" using wf by (simp add: w(3) well_formed_put_def del: length_contents)
  have mt: "map_of request_methods ''PUT'' = Some REQUEST_HTTPPUT" by (simp add: request_methods_def)
  have t': "request_table (REQUEST_HTTPPUT OR REQUEST_CACHE_LEVELTABLE) table (db w) = Some (Some t, s1)"
    using t by (simp add: request_table_def put_levels)
  have names: "good_names table key version" "list_all (skipped_line ?m) lines" "list_all (skipped_line ?m) others" "body \<noteq> []"
    using wf by (simp_all add: well_formed_put_def)
  from request_line_parsed [OF c n w(1,2) mt names(1) t' put_looks_up [OF k], of rd] obtain b1 u1 where b1: "leaves (input w) r b1"
    "read_loop ?step None (- 1) w = read_loop ?step u1 (int (length r)) (w\<lparr>input := b1, conn_method := ?m, db := s2,
      target := (target w)\<lparr>tgt_entry := Some e, tgt_fd := - 1\<rparr>, is_writing := True, conn_state := 1, handler := http_cache_handle_headers\<rparr>)" by auto
  define w1 where "w1 = w\<lparr>input := b1, conn_method := ?m, db := s2, target := (target w)\<lparr>tgt_entry := Some e, tgt_fd := - 1\<rparr>,
    is_writing := True, conn_state := 1, handler := http_cache_handle_headers\<rparr>"
  have c1: "contents (input w1) = r" "flat (input w1)" using b1(1) w(4) by (simp_all add: w1_def leaves_def)
  have n1: "length r < BUFFER_SIZE" using n unfolding c by simp
  have "\<exists>rb run'. leaves (input w1) (crlf @ body) rb \<and> read_loop ?step u1 (int (length (contents (input w1)))) w1
    = read_loop ?step run' (int (length (crlf @ body))) (w1\<lparr>input := rb, target := tg, db := s3\<rparr>)"
    by (rule put_headers [where k = "length body" and e = e and c' = c])
      (use names c1 n1 w p in \<open>simp_all add: w1_def r_def prepared_def del: length_contents\<close>)
  then obtain b2 u2 where b2: "leaves (input w1) (crlf @ body) b2"
    "read_loop ?step u1 (int (length r)) w1 = read_loop ?step u2 (int (length (crlf @ body))) (w1\<lparr>input := b2, target := tg, db := s3\<rparr>)"
    unfolding c1(1) by blast
  let ?w2 = "w1\<lparr>input := b2, target := tg, db := s3\<rparr>"
  have "length (crlf @ body) < BUFFER_SIZE" using n1 by (simp add: r_def)
  then have "\<exists>rb. contents rb = [] \<and> read_loop ?step u2 (int (length (crlf @ body))) ?w2
    = Some (put_answered ?w2 (target ?w2) s body rb, Some registered_write)"
    by (intro put_end [where e = e and c' = c and ?w0.0 = w and ?s2.0 = s2]) (use b2(1) c1(2) p d w in \<open>simp_all add: w1_def leaves_def\<close>)
  moreover have "put_answered ?w2 (target ?w2) s body rb = put_answered w tg s body rb" for rb by (simp add: put_answered_def w1_def)
  ultimately show ?thesis using b1(2) b2(2) unfolding w1_def [symmetric] by metis
qed

lemma put_read:
  assumes conn: "waiting w" "quiet w" "rx w = [Received (put_request table key version lines others body)]"
    and wf: "well_formed_put table key version lines others body" and st: "stores w table key (length body) e tg s"
  shows "\<exists>rb. contents rb = [] \<and> http_read_handle (Suc n) w = Some ((put_answered w tg s body rb)\<lparr>rx := []\<rparr>, registered_write)"
proof -
  have "put_request table key version lines others body \<noteq> []" "length (put_request table key version lines others body) < BUFFER_SIZE"
    using wf by (simp_all add: well_formed_put_def put_request_def request_line_def)
  from read_request [OF conn(3) this] conn(1) obtain rb where rb: "contents rb = put_request table key version lines others body" "flat rb"
    "http_read_handle (Suc n) w = process_input (run_handler (http_read_handle n)) (int (length (put_request table key version lines others body)))
      (w\<lparr>rx := [], input := rb\<rparr>)" unfolding waiting_def by blast
  let ?w = "w\<lparr>rx := [], input := rb\<rparr>"
  have "stores ?w table key (length body) e tg s" using st by (simp add: stores_def prepared_def)
  from put_parsed [OF wf _ _ _ _ _ _ this, of "http_read_handle n"] conn rb(1,2) obtain rb2 where rb2: "contents rb2 = []"
    "read_loop (run_handler (http_read_handle n)) None (- 1) ?w = Some (put_answered ?w tg s body rb2, Some registered_write)"
    by (auto simp: waiting_def quiet_def)
  have "put_answered ?w tg s body rb2 = (put_answered w tg s body rb2)\<lparr>rx := []\<rparr>" by (simp add: put_answered_def)
  then show ?thesis using rb(3) rb2 process_done by (intro exI [of _ rb2]) simp
qed

end
