(* ===== verification/RequestStored.thy ===== *)
theory RequestStored
  imports RequestPut DbBytes
begin

text \<open>
  The engine under a \<open>PUT\<close> of a value that fits in one block: opening the table, making and completing the entry, finding the table by its name
  again; and, over the connection, a \<open>PUT\<close> followed by a \<open>GET\<close> of the same key.
\<close>

section \<open>Finding a table again\<close>

text \<open>What finding a table by its name depends on.\<close>

definition table_names :: "db_state \<Rightarrow> tptr kh \<times> (tptr \<Rightarrow> (string \<times> u16) option)" where
  "table_names s = (tables s, \<lambda>t. map_option (\<lambda>d. (tbl_key d, tbl_key_length d)) (dbtables s t))"

lemma table_names_at:
  assumes "table_names s' = table_names s" "dbtables s t = Some d"
  shows "tables s' = tables s" "\<exists>d'. dbtables s' t = Some d' \<and> tbl_key d' = tbl_key d \<and> tbl_key_length d' = tbl_key_length d"
proof -
  have "map_option (\<lambda>d. (tbl_key d, tbl_key_length d)) (dbtables s' t) = map_option (\<lambda>d. (tbl_key d, tbl_key_length d)) (dbtables s t)"
    using assms(1) by (auto simp: table_names_def dest: fun_cong)
  with assms show "tables s' = tables s" "\<exists>d'. dbtables s' t = Some d' \<and> tbl_key d' = tbl_key d \<and> tbl_key_length d' = tbl_key_length d"
    by (auto simp: table_names_def)
qed

lemma probe_names:
  assumes "db_table_probe name hash s = Some r" "table_names s' = table_names s"
  shows "db_table_probe name hash s' = Some r"
  using assms
proof (induction name hash s r rule: db_table_probe.raw_induct [rotated, consumes 1, case_names 1])
  case (1 probe name hash s r)
  from 1(2) obtain k where k: "kh_get (tables s) hash = Some k" by (auto elim!: bind_SomeE)
  have T: "tables s' = tables s" using 1(3) by (simp add: table_names_def)
  show ?case
  proof (cases "k = n_buckets (tables s)")
    case True
    then show ?thesis using 1(2) k T by (subst db_table_probe.simps) simp
  next
    case False
    with 1(2) k obtain t d where t: "kh_value (tables s) k = Some t" "dbtables s t = Some d"
      "(if key_differs (unat (tbl_key_length d)) (tbl_key d) name then probe name (hash + 1) s else Some (Inr t)) = Some r"
      by (auto elim!: bind_SomeE)
    from table_names_at(2) [OF 1(3) t(2)] obtain d' where d': "dbtables s' t = Some d'" "tbl_key d' = tbl_key d" "tbl_key_length d' = tbl_key_length d"
      by blast
    have "(if key_differs (unat (tbl_key_length d)) (tbl_key d) name then db_table_probe name (hash + 1) s' else Some (Inr t)) = Some r"
      using t(3) 1(1,3) by (auto split: if_split_asm)
    then show ?thesis using k False T t(1) d' by (subst db_table_probe.simps) simp
  qed
qed

lemma fresh_block:
  assumes "db_block_allocate_new s = (b, s')" "blocks_inv s U" "free_blocks s \<noteq> [] \<or> blocks_exist s < 2147483647"
  shows "0 \<le> b"
proof (cases "free_blocks s")
  case Nil
  then have "b = sint (blocks_exist s)" "blocks_exist s \<le> 2147483647" using assms by (auto simp: db_block_allocate_new_def split: if_split_asm)
  then show ?thesis using sint_small [of "blocks_exist s"] by simp
next
  case (Cons x xs)
  with assms(2) have "uint x < uint (blocks_exist s)" "blocks_exist s \<le> 2147483647" by (auto simp: blocks_inv_def)
  then have "x \<le> 2147483647" by (simp add: word_le_def)
  then have "0 \<le> sint x" using sint_small [of x] by simp
  then show ?thesis using assms(1) Cons by (auto simp: db_block_allocate_new_def)
qed

text \<open>There is a block for every entry as long as fewer than \<open>2 ^ 31\<close> objects were made.\<close>

lemma block_left:
  assumes ok: "db_ok s hs X" and n: "next_ptr s < 2147483647"
  shows "free_blocks s \<noteq> [] \<or> blocks_exist s < 2147483647"
proof (rule ccontr)
  assume "\<not> ?thesis"
  then have f: "free_blocks s = []" "2147483647 \<le> blocks_exist s" by (auto simp: not_less)
  have b: "blocks_inv s (owned_blocks s)" and fr: "fresh_ok s" using ok by (simp_all add: db_ok_def blocks_ok_def)
  let ?f = "\<lambda>e. case entries s e of Some c \<Rightarrow> ce_block c | None \<Rightarrow> 0"
  have sub: "owned_blocks s \<subseteq> ?f ` {..<next_ptr s}"
  proof
    fix x assume "x \<in> owned_blocks s"
    then obtain e c where e: "entries s e = Some c" "ce_block c = x" by (auto simp: owned_blocks_def)
    then have "e < next_ptr s" using fr unfolding fresh_ok_def by (metis not_le option.distinct(1))
    then show "x \<in> ?f ` {..<next_ptr s}" using e by (intro image_eqI [of _ _ e]) simp_all
  qed
  have "owned_blocks s = {0..<uint (blocks_exist s)}" using b f(1) by (simp add: blocks_inv_def)
  then have "nat (uint (blocks_exist s)) = card (owned_blocks s)" by simp
  also have "\<dots> \<le> card {..<next_ptr s}" using sub by (meson card_image_le card_mono finite_imageI finite_lessThan le_trans)
  also have "\<dots> < 2147483647" using n by simp
  finally show False using f(2) by (simp add: word_le_nat_alt)
qed

lemma allocate_fresh:
  assumes run: "db_target_write_allocate fd tgt n nf s = Some (tg, s')" and e: "tgt_entry tgt = Some e" "entries s e = Some c" "ce_block c = - 2"
    and n: "n \<le> of_nat BLOCK_LENGTH" and b: "blocks_inv s U" "free_blocks s \<noteq> [] \<or> blocks_exist s < 2147483647"
  shows "tgt_fd tg = fd \<and> table_names s' = table_names s \<and> (\<forall>c'. entries s' e = Some c' \<longrightarrow> 0 \<le> ce_block c')"
proof -
  obtain x s1 where x: "db_block_allocate_new s = (x, s1)" by fastforce
  have x0: "0 \<le> x" by (rule fresh_block [OF x b])
  note same = db_block_allocate_same [OF x]
  have nm: "table_names s1 = table_names s" using x by (auto simp: db_block_allocate_new_def db_block_size_def table_names_def split: list.split_asm if_split_asm)
  have w: "write_allocate_block e n s = Some (s1\<lparr>entries := (entries s1)(e \<mapsto> c\<lparr>ce_block := x\<rparr>)\<rparr>)"
    using e n x same by (simp add: write_allocate_block_def)
  have "\<not> of_nat BLOCK_LENGTH < n" using n by simp
  then show ?thesis using run e x0 nm same
    by (auto simp: db_target_write_allocate_def w db_target_open_def IS_SINGLE_FILE_def table_names_def)
qed

text \<open>The number of insertions decides whether a collection follows.\<close>

definition kept :: "db_state \<Rightarrow> u64 \<times> tptr kh \<times> (tptr \<Rightarrow> (string \<times> u16) option)" where
  "kept s = (db_stats_inserts s, table_names s)"

lemma names_mod [simp]:
  "mod_entry e f s = Some s' \<Longrightarrow> kept s' = kept s"
  "kept (free_entry e s) = kept s" "kept (db_block_free b s) = kept s"
  "kept (s\<lparr>entries := E\<rparr>) = kept s" "kept (s\<lparr>lru_head := p\<rparr>) = kept s" "kept (s\<lparr>lru_tail := p\<rparr>) = kept s"
  "kept (s\<lparr>db_size_bytes := z\<rparr>) = kept s" "kept (s\<lparr>files := F\<rparr>) = kept s"
  "kept (s\<lparr>next_ptr := p'\<rparr>) = kept s" "kept (s\<lparr>nextit := i\<rparr>) = kept s" "kept (s\<lparr>db_keys := n\<rparr>) = kept s"
  by (auto simp: kept_def table_names_def mod_entry_def free_entry_def db_block_free_def db_block_size_def elim!: bind_SomeE)

lemma names_table:
  assumes "mod_table t f s = Some s'" "\<And>d. tbl_key (f d) = tbl_key d \<and> tbl_key_length (f d) = tbl_key_length d"
  shows "kept s' = kept s"
  using assms by (auto simp: kept_def table_names_def mod_table_def fun_eq_iff elim!: bind_SomeE)

lemma names_deref:
  assumes "db_entry_deref e True s = Some s'" "entries s e = Some c" "\<not> ce_deleted c" "ce_table c = Some t" "dbtables s t = Some d" "\<not> tbl_deleted d"
  shows "entries s' = (entries s)(e \<mapsto> c\<lparr>ce_refs := ce_refs c - 1\<rparr>) \<and> table_names s' = table_names s \<and> now_sec s' = now_sec s"
proof -
  have "s' = s\<lparr>entries := (entries s)(e \<mapsto> c\<lparr>ce_refs := ce_refs c - 1\<rparr>), dbtables := (dbtables s)(t \<mapsto> d\<lparr>tbl_refs := tbl_refs d - 1\<rparr>)\<rparr>"
    using assms by (auto simp: db_entry_deref_def db_table_deref_def mod_entry_def mod_table_def split: if_split_asm)
  then show ?thesis using assms(5) by (simp add: table_names_def fun_eq_iff)
qed

lemmas names_modD = names_mod(1)

lemma names_lru:
  "db_lru_remove_node e s = Some s' \<Longrightarrow> kept s' = kept s"
  "db_lru_insert e s = Some s' \<Longrightarrow> kept s' = kept s"
  by (auto simp: db_lru_remove_node_def db_lru_insert_def Let_def simp del: mod_entry_Some elim!: bind_SomeE dest!: names_modD split: option.split_asm)

lemma names_complete: "db_complete_writing e s = Some s' \<Longrightarrow> kept s' = kept s"
  by (auto simp: db_complete_writing_def elim!: bind_SomeE dest!: names_modD names_lru split: if_split_asm)

lemma names_sets:
  "set_del e k s = Some s' \<Longrightarrow> kept s' = kept s" "set_store t hash e s = Some s' \<Longrightarrow> kept s' = kept s"
  "db_table_incref t s = Some s' \<Longrightarrow> kept s' = kept s"
  by (auto simp: set_del_def set_store_def db_table_incref_def elim!: bind_SomeE dest!: names_table)

lemma names_entry_gone: "db_entry_actually_delete e s = Some s' \<Longrightarrow> kept s' = kept s"
  by (auto simp: db_entry_actually_delete_def elim!: bind_SomeE dest!: names_modD split: if_split_asm)

lemma names_softdelete:
  assumes "db_entry_handle_softdelete e k s = Some s'" shows "kept s' = kept s"
proof -
  have gone: "kept s2 = kept s1" if "db_entry_delete e s1 = Some s2" for s1 s2
    using that by (auto simp: db_entry_delete_def elim!: bind_SomeE)
  show ?thesis using assms
    by (auto simp: db_entry_handle_softdelete_def Let_def elim!: bind_SomeE
      dest!: gone names_modD names_sets names_lru names_entry_gone split: if_split_asm)
qed

lemma names_write_new:
  assumes "db_entry_write_new t key b s = Some (e, s')" shows "kept s' = kept s"
  using assms by (auto simp: db_entry_write_new_def db_entry_new_def db_entry_incref_def Let_def
    elim!: bind_SomeE dest!: names_modD names_sets split: if_split_asm)

text \<open>A request to write finds the table again, if no collection follows the insertion.\<close>

lemma names_get_write:
  assumes run: "db_entry_get_write env t key s = Some (r, s')" and n: "(db_stats_inserts s + 1) mod of_nat DB_LRU_EVERY \<noteq> 0"
  shows "table_names s' = table_names s"
proof -
  let ?s = "s\<lparr>db_stats_inserts := db_stats_inserts s + 1, db_stats_operations := db_stats_operations s + 1\<rparr>"
  from run obtain k entry b w where w: "(if w then Some (None, ?s)
     else do {
       s \<leftarrow> (case entry of
           Some e \<Rightarrow> db_entry_handle_softdelete e k ?s
         | None \<Rightarrow> Some (?s\<lparr>db_keys := db_keys ?s + 1\<rparr>));
       (e, s) \<leftarrow> db_entry_write_new t key b s;
       s \<leftarrow> (if db_stats_inserts s mod of_nat DB_LRU_EVERY = 0 then db_lru_gc env s else Some s);
       Some (Some e, s)
     }) = Some (r, s')"
    unfolding db_entry_get_write_def Let_def by (auto elim!: bind_SomeE)
  have "kept s' = kept ?s"
  proof (cases w)
    case True
    then show ?thesis using w by simp
  next
    case False
    with w obtain s1 e s2 where s1: "(case entry of Some e \<Rightarrow> db_entry_handle_softdelete e k ?s
         | None \<Rightarrow> Some (?s\<lparr>db_keys := db_keys ?s + 1\<rparr>)) = Some s1"
      and s2: "db_entry_write_new t key b s1 = Some (e, s2)"
        "(if db_stats_inserts s2 mod of_nat DB_LRU_EVERY = 0 then db_lru_gc env s2 else Some s2) = Some s'"
      by (auto elim!: bind_SomeE)
    have "kept s1 = kept ?s" using s1 names_softdelete by (auto split: option.split_asm)
    with names_write_new [OF s2(1)] have "kept s2 = kept ?s" by simp
    moreover from this have "db_stats_inserts s2 = db_stats_inserts s + 1" by (simp add: kept_def)
    ultimately show ?thesis using s2(2) n by simp
  qed
  then show ?thesis by (simp add: kept_def table_names_def)
qed

lemma probe_new:
  assumes "db_table_probe name hash s = Some (Inl x)" "db_ok s hs None" "kh_lookup (tables s) x = None" "dbtables s t = None"
    and "db_ok s' hs' None" "kh_lookup (tables s') = (kh_lookup (tables s))(x \<mapsto> t)" "dbtables s' = (dbtables s)(t \<mapsto> d)"
      "tbl_key d = name" "tbl_key_length d = of_nat (length name)" "length name < 2 ^ 16"
  shows "db_table_probe name hash s' = Some (Inr t)"
  using assms
proof (induction name hash s "Inl x :: u32 + tptr" rule: db_table_probe.raw_induct [rotated, consumes 1, case_names 1])
  case (1 probe name hash s)
  note ok = 1(3) and look = 1(7)
  show ?case
  proof (cases "kh_lookup (tables s) hash")
    case None
    then have "x = hash" using 1(2) kh_get_absent [OF ok_tables(1) [OF ok] None] by simp
    then have "kh_lookup (tables s') hash = Some t" by (simp add: look)
    from probe_step [OF 1(6) this, of name] 1(8-11) show ?thesis
      by (auto simp: key_differs_def strncmp_same unsigned_of_nat take_bit_nat_eq_self)
  next
    case (Some t0)
    from kh_get_live [OF ok_tables(1) [OF ok] Some] obtain k where k: "kh_get (tables s) hash = Some k" "k < n_buckets (tables s)"
      "kh_value (tables s) k = Some t0" by metis
    from ok_tables(2) [OF ok Some] obtain d0 where d0: "dbtables s t0 = Some d0" by blast
    have differs: "key_differs (unat (tbl_key_length d0)) (tbl_key d0) name" "probe name (hash + 1) s = Some (Inl x)"
      using 1(2) k d0 by (auto split: if_split_asm)
    have next_step: "db_table_probe name (hash + 1) s' = Some (Inr t)" by (rule 1(1) [OF differs(2)]) (use 1(3-11) in simp_all)
    have "hash \<noteq> x" "t0 \<noteq> t" using Some d0 1(4,5) by auto
    then have "kh_lookup (tables s') hash = Some t0" "dbtables s' t0 = Some d0" using Some d0 by (simp_all add: look 1(8))
    from probe_step [OF 1(6) this(1), of name] this(2) differs(1) next_step show ?thesis by auto
  qed
qed

section \<open>The steps of the engine\<close>

text \<open>A key that can be put: no other connection writes it, and its table has room.\<close>

definition writable :: "db_state \<Rightarrow> string \<Rightarrow> string \<Rightarrow> bool" where
  "writable s table key \<longleftrightarrow> (case db_table_probe table (hash_string table) s of
     Some (Inr t) \<Rightarrow> \<not> being_written s t key \<and> (case hash_set_of t s of Some h \<Rightarrow> kh_size h < CAP | None \<Rightarrow> False)
   | _ \<Rightarrow> True)"

lemma table_for_write:
  assumes ok: "db_ok s hs None" and l: "lru_ok s xs" and n: "length hs + 1 < 2 ^ 14" and c: "kh_size (tables s) < CAP"
    and w: "writable s table key" and len: "length table < 2 ^ 16"
  shows "\<exists>t s1 h. db_table_get_write table s = Some (t, s1) \<and> db_ok s1 (TableH t # hs) None \<and> lru_ok s1 xs \<and> max_size s1 = max_size s
    \<and> hash_set_of t s1 = Some h \<and> kh_size h < CAP \<and> \<not> being_written s1 t key \<and> next_ptr s1 \<le> Suc (next_ptr s)
    \<and> db_stats_inserts s1 = db_stats_inserts s \<and> db_table_probe table (hash_string table) s1 = Some (Inr t)"
proof -
  from table_write_ok [OF ok n c, of table xs] l obtain t s1 where
    t: "db_table_get_write table s = Some (t, s1)" "db_ok s1 (TableH t # hs) None" "lru_ok s1 xs" "max_size s1 = max_size s" by blast
  from probe_ok [OF ok, of table "hash_string table"] obtain r where
    r: "db_table_probe table (hash_string table) s = Some r" "probed s table r" by blast
  have "(\<exists>h. hash_set_of t s1 = Some h \<and> kh_size h < CAP) \<and> \<not> being_written s1 t key \<and> next_ptr s1 \<le> Suc (next_ptr s)
    \<and> db_stats_inserts s1 = db_stats_inserts s \<and> db_table_probe table (hash_string table) s1 = Some (Inr t)"
  proof (cases r)
    case (Inl x)
    let ?d = "\<lparr>tbl_hash = x, tbl_key = table, tbl_key_length = of_nat (length table), cache_hash_set = Some kh_init, tbl_refs = 1, tbl_deleted = False\<rparr>"
    have CAP: "CAP \<le> 2 ^ 28" by (simp add: CAP_def)
    from kh_store_cap [OF ok_tables(1) [OF ok] CAP c, of x "next_ptr s"] obtain h1 k q T where
      T: "kh_put (tables s) x = Some (h1, k, q)" "kh_set_value h1 k (next_ptr s) = Some T"
        "kh_lookup T = (kh_lookup (tables s))(x \<mapsto> next_ptr s)" by blast
    have e: "t = next_ptr s" "s1 = s\<lparr>next_ptr := Suc (next_ptr s), dbtables := (dbtables s)(next_ptr s \<mapsto> ?d), tables := T\<rparr>"
      using t(1) r(1) Inl T(1,2) by (auto simp: db_table_get_write_def Let_def)
    have "stored s1 t = Map.empty" by (simp add: fun_eq_iff stored_def hash_set_of_def e)
    then have "\<not> being_written s1 t key" by (simp add: being_written_def)
    moreover have "hash_set_of t s1 = Some kh_init" "kh_size kh_init < CAP" by (simp_all add: hash_set_of_def e kh_init_def CAP_def)
    moreover have "db_table_probe table (hash_string table) s1 = Some (Inr t)"
    proof (rule probe_new [OF r(1) [unfolded Inl] ok _ _ t(2)])
      show "kh_lookup (tables s) x = None" "dbtables s t = None"
        using r(2) ok Inl by (simp_all add: probed_def db_ok_def fresh_ok_def e)
      show "kh_lookup (tables s1) = (kh_lookup (tables s))(x \<mapsto> t)" "dbtables s1 = (dbtables s)(t \<mapsto> ?d)" using T(3) by (simp_all add: e)
    qed (use len in simp_all)
    ultimately show ?thesis by (simp add: e)
  next
    case (Inr t')
    with r(2) obtain d where d: "dbtables s t' = Some d" by (auto simp: probed_def)
    have e: "t = t'" "s1 = s\<lparr>dbtables := (dbtables s)(t' \<mapsto> d\<lparr>tbl_refs := tbl_refs d + 1\<rparr>)\<rparr>"
      using t(1) r(1) Inr d by (auto simp: db_table_get_write_def db_table_incref_def mod_table_def)
    have h: "hash_set_of x s1 = hash_set_of x s" for x using d by (simp add: hash_set_of_def e)
    then have "stored s1 = stored s" by (simp add: stored_def fun_eq_iff)
    then have "being_written s1 t key = being_written s t key" by (simp add: being_written_def e)
    moreover have "table_names s1 = table_names s" using d by (simp add: table_names_def fun_eq_iff e)
    from probe_names [OF r(1) this] have "db_table_probe table (hash_string table) s1 = Some (Inr t)" by (simp add: Inr e)
    ultimately show ?thesis using w r(1) Inr h [of t] by (auto simp: writable_def e split: option.split_asm)
  qed
  with t show ?thesis by blast
qed

text \<open>The entry that is made for the key, and the space it gets.\<close>

definition new_entry :: "tptr \<Rightarrow> string \<Rightarrow> cache_entry \<Rightarrow> bool" where
  "new_entry t key c \<longleftrightarrow> ce_key c = key \<and> ce_key_length c = bits14 (length key) \<and> ce_writing c \<and> \<not> ce_deleted c \<and> ce_table c = Some t \<and> ce_expires c = 0"

lemma put_space:
  assumes ok: "db_ok s hs None" "lru_ok s ys" and e: "entries s e = Some c" "new_entry t key c" "ce_block c = - 2"
    and n: "next_ptr s < 2147483647" "n \<le> BLOCK_LENGTH"
  shows "\<exists>tg s' c'. db_target_write_allocate fd (tgt\<lparr>tgt_entry := Some e, tgt_fd := - 1\<rparr>) (of_nat n) nf s = Some (tg, s')
    \<and> db_ok s' hs None \<and> lru_ok s' ys \<and> entries s' e = Some c' \<and> new_entry t key c' \<and> ce_data_length c' = of_nat n \<and> 0 \<le> ce_block c'
    \<and> dbtables s' = dbtables s \<and> table_names s' = table_names s \<and> \<not> IS_SINGLE_FILE c' \<and> tgt_entry tg = Some e \<and> tgt_fd tg = fd
    \<and> tgt_position tg = ce_block c' * int BLOCK_LENGTH \<and> tgt_end_position tg = tgt_position tg + int n"
proof -
  note e' = e(2) [unfolded new_entry_def]
  have small: "(of_nat n :: u32) \<le> of_nat BLOCK_LENGTH" "uint (of_nat n :: u32) = int n"
    using n(2) by (simp_all add: BLOCK_LENGTH_def word_le_nat_alt unsigned_of_nat take_bit_nat_eq_self)
  from ok_live [OF ok(1) e(1)] e' obtain d where d: "dbtables s t = Some d" by auto
  from write_allocate_ok [OF ok e(1) _ _ _ d, of "tgt\<lparr>tgt_entry := Some e, tgt_fd := - 1\<rparr>" fd "of_nat n" nf] e' obtain tg s' c' where
    s': "db_target_write_allocate fd (tgt\<lparr>tgt_entry := Some e, tgt_fd := - 1\<rparr>) (of_nat n) nf s = Some (tg, s')" "db_ok s' hs None"
      "lru_ok s' ys" "entries s' = (entries s)(e \<mapsto> c')" "dbtables s' = dbtables s" "allocated (of_nat n) tg c c'" "tgt_entry tg = Some e" by auto
  have "blocks_inv s (owned_blocks s)" using ok(1) by (simp add: db_ok_def blocks_ok_def)
  from allocate_fresh [OF s'(1) _ e(1,3) small(1) this block_left [OF ok(1) n(1)]] s'(4) have
    "tgt_fd tg = fd" "table_names s' = table_names s" "0 \<le> ce_block c'" by auto
  moreover have "new_entry t key c'" using s'(6) e' by (simp add: allocated_def new_entry_def)
  moreover have "ce_data_length c' = of_nat n" "tgt_position tg = ce_block c' * int BLOCK_LENGTH" "tgt_end_position tg = tgt_position tg + int n"
    "\<not> IS_SINGLE_FILE c'" using s'(6) small by (simp_all add: allocated_def IS_SINGLE_FILE_def leD)
  ultimately show ?thesis using s'(1-5,7) by (intro exI [of _ tg] exI [of _ s'] exI [of _ c']) simp
qed

text \<open>Before the answer is sent: the entry, still held with its table, is complete.\<close>

definition put_held :: "http_world \<Rightarrow> string \<Rightarrow> string \<Rightarrow> nat \<Rightarrow> handle list \<Rightarrow> eptr \<Rightarrow> cache_entry \<Rightarrow> tptr \<Rightarrow> db_state \<Rightarrow> bool" where
  "put_held w table key n hs e c t s \<longleftrightarrow> db_ok s (BareH e # TableH t # hs) None \<and> (\<exists>ys. lru_ok s ys) \<and> entries s e = Some c
     \<and> ce_data_length c = of_nat n \<and> 0 \<le> ce_block c \<and> ce_expires c = 0 \<and> ce_table c = Some t \<and> readable s key c \<and> stored s t (hash_string key) = Some e
     \<and> ((db_stats_inserts (db w) + 1) mod of_nat DB_LRU_EVERY \<noteq> 0 \<longrightarrow> db_table_probe table (hash_string table) s = Some (Inr t))"

lemma put_stores:
  assumes ok: "db_ok (db w) hs None" "lru_ok (db w) xs" "max_size (db w) = 0" "length hs + 3 < 2 ^ 14"
    and room: "kh_size (tables (db w)) < CAP" "next_ptr (db w) + 2 < 2147483647" "writable (db w) table key"
    and len: "length table < 2 ^ 16" "length key < 2 ^ 14" "0 < n" "n \<le> BLOCK_LENGTH" and fd: "0 \<le> fd_blockfile w"
  shows "\<exists>e tg s c t s1. stores w table key n e tg s \<and> tgt_entry tg = Some e \<and> tgt_fd tg = fd_blockfile w
    \<and> tgt_position tg = ce_block c * int BLOCK_LENGTH \<and> db_table_get_write table (db w) = Some (t, s1) \<and> put_held w table key n hs e c t s"
proof -
  have n1: "length hs + 1 < 2 ^ 14" using ok(4) by simp
  from table_for_write [OF ok(1,2) n1 room(1,3) len(1)] obtain t s1 h where
    s1: "db_table_get_write table (db w) = Some (t, s1)" "db_ok s1 (TableH t # hs) None" "lru_ok s1 xs" "max_size s1 = max_size (db w)"
      "hash_set_of t s1 = Some h" "kh_size h < CAP" "\<not> being_written s1 t key" "next_ptr s1 \<le> Suc (next_ptr (db w))"
      "db_stats_inserts s1 = db_stats_inserts (db w)" "db_table_probe table (hash_string table) s1 = Some (Inr t)" by blast
  let ?e = "next_ptr s1"
  have n2: "length (TableH t # hs) + 2 < 2 ^ 14" "max_size s1 = 0" using ok(3,4) s1(4) by simp_all
  from get_write_ok [OF s1(2,3) n2(1) s1(5,6) n2(2), of "gc w" key] s1(7) obtain s2 ys c where
    s2: "db_entry_get_write (gc w) t key s1 = Some (Some ?e, s2)" "lru_ok s2 ys" "db_ok s2 (BareH ?e # TableH t # hs) None"
      "entries s2 ?e = Some c" "ce_key c = key" "ce_key_length c = bits14 (length key)" "ce_writing c" "\<not> ce_deleted c"
      "ce_table c = Some t" "ce_expires c = 0" "ce_block c = - 2" "stored s2 t (hash_string key) = Some ?e" "next_ptr s2 = ?e + 1" by auto
  have "new_entry t key c" "next_ptr s2 < 2147483647" using s2(5-10,13) s1(8) room(2) by (simp_all add: new_entry_def)
  from put_space [OF s2(3,2,4) this(1) s2(11) this(2) len(4), of "fd_blockfile w" "target w" "newfd w"] obtain tg s3 c3 where
    s3: "db_target_write_allocate (fd_blockfile w) ((target w)\<lparr>tgt_entry := Some ?e, tgt_fd := - 1\<rparr>) (of_nat n) (newfd w) s2 = Some (tg, s3)"
      "db_ok s3 (BareH ?e # TableH t # hs) None" "lru_ok s3 ys" "entries s3 ?e = Some c3" "new_entry t key c3" "ce_data_length c3 = of_nat n"
      "0 \<le> ce_block c3" "dbtables s3 = dbtables s2" "table_names s3 = table_names s2" "\<not> IS_SINGLE_FILE c3" "tgt_entry tg = Some ?e"
      "tgt_fd tg = fd_blockfile w" "tgt_position tg = ce_block c3 * int BLOCK_LENGTH" "tgt_end_position tg = tgt_position tg + int n" by blast
  note c3 = s3(5) [unfolded new_entry_def]
  from complete_ok [OF s3(2-4)] c3 obtain s4 where
    s4: "db_complete_writing ?e s3 = Some s4" "db_ok s4 (BareH ?e # TableH t # hs) None" "lru_ok s4 (ys @ [?e])" "dbtables s4 = dbtables s3"
      "\<forall>x. map_option core (entries s4 x) = map_option core (((entries s3)(?e \<mapsto> c3\<lparr>ce_writing := False\<rparr>)) x)" by auto
  have "map_option core (entries s4 ?e) = Some (core (c3\<lparr>ce_writing := False\<rparr>))" by (simp add: s4(5))
  then obtain c4 where c4: "entries s4 ?e = Some c4" "core c4 = core (c3\<lparr>ce_writing := False\<rparr>)" by auto
  note cc = core_eqD [OF c4(2)]
  have "stored s4 = stored s2" using s4(4) s3(8) by (simp add: fun_eq_iff stored_def hash_set_of_def)
  moreover have "readable s4 key c4" using cc c3 len(2) by (simp add: readable_def expired_def key_same)
  moreover have "db_table_probe table (hash_string table) s4 = Some (Inr t)" if "(db_stats_inserts (db w) + 1) mod of_nat DB_LRU_EVERY \<noteq> 0"
  proof -
    have "kept s4 = kept s3" by (rule names_complete [OF s4(1)])
    then have "table_names s4 = table_names s1" using names_get_write [OF s2(1)] s1(9) that s3(9) by (simp add: kept_def)
    with s1(10) show ?thesis by (rule probe_names)
  qed
  ultimately have "put_held w table key n hs ?e c4 t s4" using s4(2,3) c4(1) cc c3 s3(6,7) s2(12) by (auto simp: put_held_def)
  moreover have "stores w table key n ?e tg s4"
    unfolding stores_def prepared_def using s1(1) s2(1) s3 s4(1) len fd
    by (intro exI [of _ t] exI [of _ s1] exI [of _ s2] exI [of _ s3] exI [of _ c3]) (simp add: BLOCK_LENGTH_def BUFFER_SIZE_def)
  moreover have "tgt_position tg = ce_block c4 * int BLOCK_LENGTH" using s3(13) cc by simp
  ultimately show ?thesis using s1(1) s3(11,12) by blast
qed

text \<open>What is left of the request in the engine: the entry is found under its key, its bytes are those of a block.\<close>

definition put_done :: "http_world \<Rightarrow> string \<Rightarrow> string \<Rightarrow> nat \<Rightarrow> handle list \<Rightarrow> eptr \<Rightarrow> cache_entry \<Rightarrow> db_state \<Rightarrow> bool" where
  "put_done w table key n hs e c s \<longleftrightarrow> db_ok s hs None \<and> (\<exists>ys. lru_ok s ys) \<and> entries s e = Some c \<and> ce_data_length c = of_nat n
     \<and> 0 \<le> ce_block c \<and> ce_expires c = 0 \<and> (\<exists>t s1. db_table_get_write table (db w) = Some (t, s1) \<and> served s t key = Some e
          \<and> ((db_stats_inserts (db w) + 1) mod of_nat DB_LRU_EVERY \<noteq> 0 \<longrightarrow> db_table_probe table (hash_string table) s = Some (Inr t)))"

lemma put_closed:
  assumes h: "put_held w table key n hs e c t s" and t: "db_table_get_write table (db w) = Some (t, s1)"
  shows "\<exists>s' c'. db_entry_deref e True s = Some s' \<and> ce_block c' = ce_block c \<and> put_done w table key n hs e c' s'"
proof -
  from h obtain ys where h': "db_ok s (BareH e # TableH t # hs) None" "lru_ok s ys" "entries s e = Some c" "ce_data_length c = of_nat n"
    "0 \<le> ce_block c" "ce_table c = Some t" "readable s key c" "stored s t (hash_string key) = Some e"
    "(db_stats_inserts (db w) + 1) mod of_nat DB_LRU_EVERY \<noteq> 0 \<longrightarrow> db_table_probe table (hash_string table) s = Some (Inr t)"
    "ce_expires c = 0" by (auto simp: put_held_def)
  from stored_entry [OF h'(1,8)] h'(3) have live: "\<not> ce_deleted c" by auto
  have "table_of s e = Some t" using h'(3,6) by (simp add: table_of_def)
  from ok_join [OF h'(1) _ this] have "db_ok s (EntryH e # hs) None" by simp
  from deref_tab_ok [OF this h'(3), of ys] h'(2) obtain s' where
    s': "db_entry_deref e True s = Some s'" "db_ok s' hs None" "lru_ok s' ys" "\<forall>x. hash_set_of x s' = hash_set_of x s" by blast
  from ok_live [OF h'(1,3) live] h'(6) obtain d where d: "dbtables s t = Some d" "\<not> tbl_deleted d" by auto
  let ?c = "c\<lparr>ce_refs := ce_refs c - 1\<rparr>"
  note nd = names_deref [OF s'(1) h'(3) live h'(6) d]
  have "stored s' = stored s" using s'(4) by (simp add: fun_eq_iff stored_def)
  moreover have "entries s' e = Some ?c" using nd by simp
  moreover have "readable s' key ?c" using h'(7) nd by (simp add: readable_def expired_def)
  ultimately have "served s' t key = Some e" using h'(8) by (simp add: served_def)
  moreover have "db_table_probe table (hash_string table) s = Some r \<Longrightarrow> db_table_probe table (hash_string table) s' = Some r" for r
    using probe_names nd by blast
  ultimately have "put_done w table key n hs e ?c s'" using s'(2,3) \<open>entries s' e = Some ?c\<close> h'(4,5,9,10) t by (auto simp: put_done_def)
  then show ?thesis using s'(1) by (intro exI [of _ s'] exI [of _ ?c]) simp
qed

section \<open>The request\<close>

lemma put_response:
  assumes conn: "waiting w" "quiet w" and rb: "contents rb = []" and tg: "tgt_entry tg = Some e" "tgt_fd tg = fd_blockfile w"
    and d: "db_entry_deref e True s = Some s'"
  shows "\<exists>w'. http_writes (Suc m) 1 ((put_answered w tg s body rb)\<lparr>rx := []\<rparr>) = Some (w', continue_processing)
    \<and> waiting w' \<and> quiet w' \<and> rx w' = [] \<and> db w' = s' \<and> same_ends w w'
    \<and> events w' = events w @ [File_write (tgt_fd tg) (tgt_position tg) body, Sock_write (client_sock w) (http_templates ! HTTPTEMPLATE_FULL200OK)]"
proof -
  let ?w = "(put_answered w tg s body rb)\<lparr>rx := []\<rparr>"
  let ?tg = "(target ?w)\<lparr>tgt_entry := None, tgt_position := 0, tgt_fd := - 1\<rparr>"
  have "\<exists>w'. http_writes (Suc m) 1 ?w = Some (w', continue_processing) \<and> waiting w' \<and> quiet w' \<and> rx w' = [] \<and> db w' = s'
    \<and> events w' = events ?w @ [Sock_write (client_sock ?w) (http_templates ! HTTPTEMPLATE_FULL200OK)] \<and> same_ends ?w w'"
  proof (rule short_response [where tg = ?tg])
    show "cache_destroy (?w\<lparr>events := events ?w @ [Sock_write (client_sock ?w) (http_templates ! HTTPTEMPLATE_FULL200OK)], output_length := 0,
        output_buffer := None, output_buffer_free := False\<rparr>)
      = Some (?w\<lparr>events := events ?w @ [Sock_write (client_sock ?w) (http_templates ! HTTPTEMPLATE_FULL200OK)], output_length := 0,
        output_buffer := None, output_buffer_free := False, db := s', target := ?tg\<rparr>)"
      using tg d by (simp add: cache_destroy_def put_levels put_answered_def db_target_entry_close_def on_db_def)
  qed (use conn rb in \<open>simp_all add: put_answered_def waiting_def quiet_def template_length HTTPTEMPLATE_FULL200OK_def\<close>)
  then show ?thesis by (auto simp: put_answered_def same_ends_def)
qed

lemma put_answer:
  assumes conn: "waiting w" "quiet w" "rx w = [Received (put_request table key version lines others body)]"
    and wf: "well_formed_put table key version lines others body" "length body \<le> BLOCK_LENGTH"
    and ok: "db_ok (db w) hs None" "lru_ok (db w) xs" "max_size (db w) = 0" "length hs + 3 < 2 ^ 14"
    and room: "kh_size (tables (db w)) < CAP" "next_ptr (db w) + 2 < 2147483647" "writable (db w) table key" and fd: "0 \<le> fd_blockfile w"
  shows "\<exists>w1 w2 e c. http_read_handle (Suc n) w = Some (w1, registered_write) \<and> http_writes (Suc m) 1 w1 = Some (w2, continue_processing)
    \<and> events w2 = events w @ [File_write (fd_blockfile w) (ce_block c * int BLOCK_LENGTH) body,
        Sock_write (client_sock w) (http_templates ! HTTPTEMPLATE_FULL200OK)]
    \<and> waiting w2 \<and> quiet w2 \<and> rx w2 = [] \<and> same_ends w w2 \<and> put_done w table key (length body) hs e c (db w2)"
proof -
  have len: "length table < 2 ^ 16" "length key < 2 ^ 14" "0 < length body"
    using wf by (simp_all add: well_formed_put_def put_request_def request_line_def BUFFER_SIZE_def)
  from put_stores [OF ok room len wf(2) fd] obtain e tg s c t s1 where
    st: "stores w table key (length body) e tg s" "tgt_entry tg = Some e" "tgt_fd tg = fd_blockfile w"
      "tgt_position tg = ce_block c * int BLOCK_LENGTH" "db_table_get_write table (db w) = Some (t, s1)" "put_held w table key (length body) hs e c t s" by blast
  from put_closed [OF st(6,5)] obtain s' c' where
    s': "db_entry_deref e True s = Some s'" "ce_block c' = ce_block c" "put_done w table key (length body) hs e c' s'" by blast
  from put_read [OF conn wf(1) st(1), of n] obtain rb where rb: "contents rb = []"
    "http_read_handle (Suc n) w = Some ((put_answered w tg s body rb)\<lparr>rx := []\<rparr>, registered_write)" by blast
  from put_response [OF conn(1,2) rb(1) st(2,3) s'(1), of m body] obtain w2 where
    w2: "http_writes (Suc m) 1 ((put_answered w tg s body rb)\<lparr>rx := []\<rparr>) = Some (w2, continue_processing)"
      "waiting w2" "quiet w2" "rx w2 = []" "db w2 = s'" "same_ends w w2"
      "events w2 = events w @ [File_write (tgt_fd tg) (tgt_position tg) body, Sock_write (client_sock w) (http_templates ! HTTPTEMPLATE_FULL200OK)]"
    by blast
  have "events w2 = events w @ [File_write (fd_blockfile w) (ce_block c' * int BLOCK_LENGTH) body,
      Sock_write (client_sock w) (http_templates ! HTTPTEMPLATE_FULL200OK)]" using w2(7) st(3,4) s'(2) by simp
  moreover have "put_done w table key (length body) hs e c' (db w2)" using s'(3) w2(5) by simp
  ultimately show ?thesis using rb(2) w2(1-4,6) by blast
qed

lemma lines_of_put:
  assumes "ce_data_length c = of_nat n" "ce_expires c = 0" "n < BUFFER_SIZE"
  shows "ttl_line now c = ''X-Ttl: 0'' @ crlf" "length_line c = ''Content-Length: '' @ to_dec n @ crlf" "uint (ce_data_length c) = int n"
proof -
  have n: "uint (of_nat n :: u32) = int n" "uint (of_nat n :: u32) < 2 ^ 31"
    using assms(3) by (simp_all add: BUFFER_SIZE_def unsigned_of_nat take_bit_nat_eq_self)
  then have "sint (of_nat n :: u32) = int n" using sint_small [of "of_nat n"] by (simp add: word_le_def)
  moreover have "to_sdec 0 = ''0''" by code_simp
  ultimately show "ttl_line now c = ''X-Ttl: 0'' @ crlf" "length_line c = ''Content-Length: '' @ to_dec n @ crlf" "uint (ce_data_length c) = int n"
    using assms n by (simp_all add: ttl_line_def length_line_def) (simp add: to_sdec_def)
qed

text \<open>
  C2. The bytes that a \<open>PUT\<close> brings are the bytes that the next \<open>GET\<close> of the key gets: both requests arriving whole on one connection,
  whatever version and further header lines they carry, the body is written at one place of the block file, the \<open>PUT\<close> is answered with
  200, and the \<open>GET\<close> with 200, no limited time to live, the length of the body and as many bytes from that place. No collection follows the insertion
  (one does after every fiftieth), and nothing else happens to the database in between.
\<close>

theorem put_get_round_trip:
  assumes conn: "waiting w" "quiet w" "rx w = [Received (put_request table key version lines others body)]"
    and wf: "well_formed_put table key version lines others body" "length body \<le> BLOCK_LENGTH" "well_formed table key version2 lines2"
    and ok: "db_ok (db w) hs None" "lru_ok (db w) xs" "max_size (db w) = 0" "length hs + 3 < 2 ^ 14"
    and room: "kh_size (tables (db w)) < CAP" "next_ptr (db w) + 2 < 2147483647" "writable (db w) table key" and fd: "0 \<le> fd_blockfile w"
    and gc: "(db_stats_inserts (db w) + 1) mod of_nat DB_LRU_EVERY \<noteq> 0"
  shows "\<exists>w1 w2 w3 w4 pos. http_read_handle (Suc n) w = Some (w1, registered_write) \<and> http_writes (Suc m) 1 w1 = Some (w2, continue_processing)
    \<and> http_read_handle (Suc n2) (w2\<lparr>rx := [Received (get_request table key version2 lines2)]\<rparr>) = Some (w3, registered_write)
    \<and> http_writes (Suc m2) 4 w3 = Some (w4, continue_processing)
    \<and> events w4 = events w @ [File_write (fd_blockfile w) pos body, Sock_write (client_sock w) (http_templates ! HTTPTEMPLATE_FULL200OK),
        Sock_write (client_sock w) (http_templates ! HTTPTEMPLATE_HEADERS200), Sock_write (client_sock w) (''X-Ttl: 0'' @ crlf),
        Sock_write (client_sock w) (''Content-Length: '' @ to_dec (length body) @ crlf), Sock_write (client_sock w) crlf,
        Sendfile (client_sock w) (fd_blockfile w) pos (int (length body))]
    \<and> waiting w4 \<and> db_ok (db w4) hs None"
proof -
  from put_answer [OF conn wf(1,2) ok room fd, of n m] obtain w1 w2 e c where
    p: "http_read_handle (Suc n) w = Some (w1, registered_write)" "http_writes (Suc m) 1 w1 = Some (w2, continue_processing)"
      "events w2 = events w @ [File_write (fd_blockfile w) (ce_block c * int BLOCK_LENGTH) body,
        Sock_write (client_sock w) (http_templates ! HTTPTEMPLATE_FULL200OK)]"
      "waiting w2" "quiet w2" "same_ends w w2" and d: "put_done w table key (length body) hs e c (db w2)" by blast
  from d gc obtain ys t where d': "db_ok (db w2) hs None" "lru_ok (db w2) ys" "entries (db w2) e = Some c" "ce_data_length c = of_nat (length body)"
    "ce_expires c = 0" "served (db w2) t key = Some e" "db_table_probe table (hash_string table) (db w2) = Some (Inr t)" by (auto simp: put_done_def)
  have n: "length body < BUFFER_SIZE" "0 < length body" using wf(1) by (simp_all add: well_formed_put_def put_request_def)
  note l = lines_of_put [OF d'(4,5) n(1)]
  have single: "\<not> IS_SINGLE_FILE c" using l(3) wf(2) by (simp add: IS_SINGLE_FILE_def word_less_def BLOCK_LENGTH_def)
  have pos: "0 < ce_data_length c" using l(3) n(2) by (simp add: word_less_def)
  let ?w2 = "w2\<lparr>rx := [Received (get_request table key version2 lines2)]\<rparr>"
  have w2: "waiting ?w2" "quiet ?w2" "rx ?w2 = [Received (get_request table key version2 lines2)]" "db ?w2 = db w2"
    using p(4,5) by (simp_all add: waiting_def quiet_def)
  have hs: "length hs + 2 < 2 ^ 14" using ok(4) by simp
  have v: "value_there (db ?w2) c" "value_fd ?w2 c = fd_blockfile w" "value_position c = ce_block c * int BLOCK_LENGTH" "client_sock ?w2 = client_sock w"
    using single p(6) by (simp_all add: value_there_def value_fd_def value_position_def same_ends_def)
  from get_answer [OF w2(1-3) wf(3) _ _ hs _ _ _ v(1) pos, of ys t e n2 m2] d' obtain w3 w4 where
    g: "http_read_handle (Suc n2) ?w2 = Some (w3, registered_write)" "http_writes (Suc m2) 4 w3 = Some (w4, continue_processing)"
      "events w4 = events ?w2 @ [Sock_write (client_sock ?w2) (http_templates ! HTTPTEMPLATE_HEADERS200),
        Sock_write (client_sock ?w2) (ttl_line (now_sec (db ?w2)) c), Sock_write (client_sock ?w2) (length_line c), Sock_write (client_sock ?w2) crlf,
        Sendfile (client_sock ?w2) (value_fd ?w2 c) (value_position c) (uint (ce_data_length c))]"
      "waiting w4" "db_ok (db w4) hs None" unfolding w2(4) by blast
  have "events w4 = events w @ [File_write (fd_blockfile w) (ce_block c * int BLOCK_LENGTH) body, Sock_write (client_sock w) (http_templates ! HTTPTEMPLATE_FULL200OK),
        Sock_write (client_sock w) (http_templates ! HTTPTEMPLATE_HEADERS200), Sock_write (client_sock w) (''X-Ttl: 0'' @ crlf),
        Sock_write (client_sock w) (''Content-Length: '' @ to_dec (length body) @ crlf), Sock_write (client_sock w) crlf,
        Sendfile (client_sock w) (fd_blockfile w) (ce_block c * int BLOCK_LENGTH) (int (length body))]"
    using g(3) p(3) v(2-4) l by simp
  with p(1,2) g(1,2,4,5) show ?thesis by blast
qed

definition put_world :: http_world where
  "put_world = (request_world [])\<lparr>rx := [Received (put_request ''t'' ''k'' ''HTTP/1.1'' [''Host: cache''] [''Accept: text''] ''hello'')]\<rparr>"

lemma put_world_ok:
  "waiting put_world" "quiet put_world" "db_ok (db put_world) [] None" "lru_ok (db put_world) []" "max_size (db put_world) = 0"
  "kh_size (tables (db put_world)) < CAP" "next_ptr (db put_world) + 2 < 2147483647" "writable (db put_world) ''t'' ''k''"
  "0 \<le> fd_blockfile put_world" "(db_stats_inserts (db put_world) + 1) mod of_nat DB_LRU_EVERY \<noteq> 0"
proof -
  show "waiting put_world" "quiet put_world" by (simp_all add: waiting_def quiet_def put_world_def request_world_def ring_of_eval)
  have d: "db put_world = empty_db" by (simp add: put_world_def request_world_def)
  from empty_engine_ok obtain xs where ok: "db_ok empty_db [] None" "lru_ok empty_db xs" by (auto simp: engine_ok_def)
  moreover from ok(2) have "xs = []" by (simp add: lru_ok_def idle_entries_def empty_db_def)
  ultimately show "db_ok (db put_world) [] None" "lru_ok (db put_world) []" using d by simp_all
  show "max_size (db put_world) = 0" "kh_size (tables (db put_world)) < CAP" "next_ptr (db put_world) + 2 < 2147483647"
    "(db_stats_inserts (db put_world) + 1) mod of_nat DB_LRU_EVERY \<noteq> 0"
    by (simp_all add: d empty_db_def kh_init_def CAP_def DB_LRU_EVERY_def)
  have "kh_lookup (tables empty_db) (hash_string ''t'') = None" by (simp add: empty_db_def)
  from probe_free [OF ok(1) this, of "''t''"] show "writable (db put_world) ''t'' ''k''" by (simp add: writable_def d)
  show "0 \<le> fd_blockfile put_world" by (simp add: put_world_def request_world_def)
qed

lemma put_world_request:
  "well_formed_put ''t'' ''k'' ''HTTP/1.1'' [''Host: cache''] [''Accept: text''] ''hello''"
proof -
  have d: "to_dec (Suc (Suc (Suc (Suc (Suc 0))))) = ''5''" by code_simp
  show ?thesis
    by (simp add: well_formed_put_def put_request_def request_line_def text_lines_def good_names_def skipped_line_def unnamed_def
      header_names_def put_header_names blank_def BUFFER_SIZE_def d)
qed

theorem put_get_round_trip_witness:
  "\<exists>w1 w2 w3 w4 pos. http_read_handle 1 put_world = Some (w1, registered_write) \<and> http_writes 1 1 w1 = Some (w2, continue_processing)
    \<and> http_read_handle 1 (w2\<lparr>rx := [Received (get_request ''t'' ''k'' ''HTTP/1.1'' [''Host: cache''])]\<rparr>) = Some (w3, registered_write)
    \<and> http_writes 1 4 w3 = Some (w4, continue_processing)
    \<and> File_write 5 pos ''hello'' \<in> set (events w4) \<and> Sendfile 7 5 pos 5 \<in> set (events w4)"
proof -
  have g: "well_formed ''t'' ''k'' ''HTTP/1.1'' [''Host: cache'']"
    by (simp add: well_formed_def get_request_def request_line_def text_lines_def good_names_def skipped_line_def unnamed_def get_levels blank_def BUFFER_SIZE_def)
  have rx: "rx put_world = [Received (put_request ''t'' ''k'' ''HTTP/1.1'' [''Host: cache''] [''Accept: text''] ''hello'')]" by (simp add: put_world_def)
  have n: "length ''hello'' \<le> BLOCK_LENGTH" "length ([] :: handle list) + 3 < 2 ^ 14" by (simp_all add: BLOCK_LENGTH_def)
  have v: "fd_blockfile put_world = 5" "client_sock put_world = 7" by (simp_all add: put_world_def request_world_def)
  from put_get_round_trip [OF put_world_ok(1,2) rx put_world_request n(1) g put_world_ok(3-5) n(2) put_world_ok(6-10), of 0 0 0 0, unfolded v]
  obtain w1 w2 w3 w4 pos a b x y z where r: "http_read_handle (Suc 0) put_world = Some (w1, registered_write)" "http_writes (Suc 0) 1 w1 = Some (w2, continue_processing)"
    "http_read_handle (Suc 0) (w2\<lparr>rx := [Received (get_request ''t'' ''k'' ''HTTP/1.1'' [''Host: cache''])]\<rparr>) = Some (w3, registered_write)"
    "http_writes (Suc 0) 4 w3 = Some (w4, continue_processing)"
    "events w4 = events put_world @ [File_write 5 pos ''hello'', a, b, x, y, z, Sendfile 7 5 pos (int (length ''hello''))]" by blast
  from r(5) have "File_write 5 pos ''hello'' \<in> set (events w4)" "Sendfile 7 5 pos 5 \<in> set (events w4)" by simp_all
  with r(1-4) show ?thesis unfolding One_nat_def by blast
qed

end
